(* ===== verification/CG_Prelude.thy ===== *)
theory CG_Prelude
  imports Main "HOL-Library.Word"
begin

text \<open>
  Vocabulary shared by every component: the machine types of the C code, the result type of
  operations that C leaves without a defined outcome, byte buffers with their bounds, and
  NUL-terminated strings.

  A C object (an array, a struct member that is an array) is a \<open>byte list\<close> of the
  declared size. Every access goes through \<open>buf_read\<close>, \<open>buf_slice\<close> or
  \<open>buf_write\<close>, which answer \<open>Out_Of_Bounds\<close> where the C access would leave
  the object.
\<close>

unbundle bit_operations_syntax

section \<open>Machine types\<close>

type_synonym byte = "8 word"
type_synonym u16 = "16 word"
type_synonym u32 = "32 word"
type_synonym u64 = "64 word"

section \<open>Outcomes\<close>

text \<open>
  The ways in which a run of the C code has no useful continuation: an access outside the
  object, a read of an object nobody wrote, the use of an invalid pointer, and a loop that
  never ends.
\<close>

datatype c_fault = Out_Of_Bounds | Uninit_Read | Bad_Pointer | Diverges

type_synonym 'a cres = "c_fault + 'a"

definition cbind :: "'a cres \<Rightarrow> ('a \<Rightarrow> 'b cres) \<Rightarrow> 'b cres" where
  "cbind m f = (case m of Inl e \<Rightarrow> Inl e | Inr x \<Rightarrow> f x)"

lemma cbind_simps [simp]:
  "cbind (Inl e) f = Inl e"
  "cbind (Inr x) f = f x"
  by (simp_all add: cbind_def)

lemma cbind_assoc: "cbind (cbind m f) g = cbind m (\<lambda>x. cbind (f x) g)"
  by (cases m) simp_all

lemma cbind_eq_Inr: "cbind m f = Inr y \<longleftrightarrow> (\<exists>x. m = Inr x \<and> f x = Inr y)"
  by (cases m) auto

lemma cbind_split:
  "P (cbind m f) \<longleftrightarrow> (\<forall>e. m = Inl e \<longrightarrow> P (Inl e)) \<and> (\<forall>x. m = Inr x \<longrightarrow> P (f x))"
  by (cases m) auto

text \<open>The outcome of a loop that was given as a partial function: \<open>None\<close> never returns.\<close>

definition returns_or_diverges :: "'a cres option \<Rightarrow> 'a cres" where
  "returns_or_diverges r = (case r of None \<Rightarrow> Inl Diverges | Some x \<Rightarrow> x)"

lemma returns_or_diverges_simps [simp]:
  "returns_or_diverges None = Inl Diverges"
  "returns_or_diverges (Some x) = x"
  by (simp_all add: returns_or_diverges_def)

section \<open>Byte buffers\<close>

definition buf_read :: "'a list \<Rightarrow> nat \<Rightarrow> 'a cres" where
  "buf_read b i = (if i < length b then Inr (b ! i) else Inl Out_Of_Bounds)"

definition buf_slice :: "'a list \<Rightarrow> nat \<Rightarrow> nat \<Rightarrow> 'a list cres" where
  "buf_slice b off n = (if off + n \<le> length b then Inr (take n (drop off b)) else Inl Out_Of_Bounds)"

definition buf_splice :: "'a list \<Rightarrow> nat \<Rightarrow> 'a list \<Rightarrow> 'a list" where
  "buf_splice b off xs = take off b @ xs @ drop (off + length xs) b"

definition buf_write :: "'a list \<Rightarrow> nat \<Rightarrow> 'a list \<Rightarrow> 'a list cres" where
  "buf_write b off xs =
     (if off + length xs \<le> length b then Inr (buf_splice b off xs) else Inl Out_Of_Bounds)"

named_theorems buf_in_bounds \<open>accesses that stay inside their object\<close>

lemma buf_read_ok [buf_in_bounds]: "i < length b \<Longrightarrow> buf_read b i = Inr (b ! i)"
  by (simp add: buf_read_def)

lemma buf_slice_ok [buf_in_bounds]:
  "off + n \<le> length b \<Longrightarrow> buf_slice b off n = Inr (take n (drop off b))"
  by (simp add: buf_slice_def)

lemma buf_write_ok [buf_in_bounds]:
  "off + length xs \<le> length b \<Longrightarrow> buf_write b off xs = Inr (buf_splice b off xs)"
  by (simp add: buf_write_def)

lemma buf_slice_Inr:
  "buf_slice b off n = Inr xs \<longleftrightarrow> off + n \<le> length b \<and> xs = take n (drop off b)"
  by (auto simp: buf_slice_def)

lemma buf_write_Inr:
  "buf_write b off xs = Inr b' \<longleftrightarrow> off + length xs \<le> length b \<and> b' = buf_splice b off xs"
  by (auto simp: buf_write_def)

lemma length_buf_splice [simp]:
  "off + length xs \<le> length b \<Longrightarrow> length (buf_splice b off xs) = length b"
  by (simp add: buf_splice_def)

lemma buf_splice_Nil [simp]: "buf_splice b off [] = b"
  by (simp add: buf_splice_def)

lemma take_buf_splice:
  "off + length xs \<le> length b \<Longrightarrow> take (off + length xs) (buf_splice b off xs) = take off b @ xs"
  by (simp add: buf_splice_def)

lemma take_buf_splice_before:
  "n \<le> off \<Longrightarrow> off \<le> length b \<Longrightarrow> take n (buf_splice b off xs) = take n b"
  by (simp add: buf_splice_def)

lemma drop_buf_splice_after:
  assumes "off + length xs \<le> n" and "off + length xs \<le> length b"
  shows "drop n (buf_splice b off xs) = drop n b"
proof -
  have "length (take off b @ xs) = off + length xs" using assms by simp
  then have "drop n ((take off b @ xs) @ drop (off + length xs) b)
      = drop (n - (off + length xs)) (drop (off + length xs) b)"
    using assms by simp
  then show ?thesis using assms by (simp add: buf_splice_def)
qed

lemma nth_buf_splice:
  assumes "off + length xs \<le> length b" and "i < length b"
  shows "buf_splice b off xs ! i =
    (if off \<le> i \<and> i < off + length xs then xs ! (i - off) else b ! i)"
  using assms by (auto simp: buf_splice_def nth_append)

section \<open>NUL-terminated strings\<close>

text \<open>
  The string held by a buffer is what precedes its first NUL. A buffer without a NUL holds no
  string: code that walks it leaves the object.
\<close>

definition cstr :: "byte list \<Rightarrow> byte list" where
  "cstr b = takeWhile (\<lambda>c. c \<noteq> 0) b"

abbreviation has_nul :: "byte list \<Rightarrow> bool" where
  "has_nul b \<equiv> 0 \<in> set b"

text \<open>A string literal: its bytes, and the object that holds it (with the terminator).\<close>

definition str :: "string \<Rightarrow> byte list" where
  "str s = map of_char s"

definition lit :: "string \<Rightarrow> byte list" where
  "lit s = str s @ [0]"

lemma length_str [simp]: "length (str s) = length s"
  by (simp add: str_def)

lemma str_append: "str (a @ b) = str a @ str b"
  by (simp add: str_def)

lemma has_nul_lit [simp]: "has_nul (lit s)"
  by (simp add: lit_def)

lemma cstr_no_nul [simp]: "0 \<notin> set (cstr b)"
  by (auto simp: cstr_def dest: set_takeWhileD)

lemma cstr_append_nul [simp]: "0 \<notin> set s \<Longrightarrow> cstr (s @ 0 # r) = s"
  by (induction s) (auto simp: cstr_def)

lemma cstr_Cons [simp]: "cstr (c # b) = (if c = 0 then [] else c # cstr b)"
  by (simp add: cstr_def)

lemma cstr_Nil [simp]: "cstr [] = []"
  by (simp add: cstr_def)

lemma length_cstr_less: "has_nul b \<Longrightarrow> length (cstr b) < length b"
proof (induction b)
  case (Cons c b)
  then show ?case by (cases "c = 0") auto
qed simp

lemma has_nul_split: "has_nul b \<Longrightarrow> \<exists>r. b = cstr b @ 0 # r"
proof (induction b)
  case (Cons c b)
  then show ?case by (cases "c = 0") auto
qed simp

lemma take_cstr: "take (length (cstr b)) b = cstr b"
proof (induction b)
  case (Cons c b)
  then show ?case by simp
qed simp

lemma nth_cstr_nul: "has_nul b \<Longrightarrow> b ! length (cstr b) = 0"
proof (induction b)
  case (Cons c b)
  then show ?case by (cases "c = 0") auto
qed simp

section \<open>Lists as arrays\<close>

lemma take_Suc_nth: "i < length xs \<Longrightarrow> take (Suc i) xs = take i xs @ [xs ! i]"
  by (rule take_Suc_conv_app_nth)

text \<open>The first index that satisfies a test: the shape of every pool scan in the code.\<close>

fun first_index :: "('a \<Rightarrow> bool) \<Rightarrow> 'a list \<Rightarrow> nat option" where
  "first_index P [] = None"
| "first_index P (x # xs) = (if P x then Some 0 else map_option Suc (first_index P xs))"

lemma first_index_None: "first_index P xs = None \<longleftrightarrow> (\<forall>x \<in> set xs. \<not> P x)"
  by (induction xs) auto

lemma first_index_Some:
  "first_index P xs = Some i \<longleftrightarrow>
     i < length xs \<and> P (xs ! i) \<and> (\<forall>j < i. \<not> P (xs ! j))"
proof (induction xs arbitrary: i)
  case (Cons x xs)
  show ?case
  proof (cases i)
    case 0
    then show ?thesis by auto
  next
    case (Suc k)
    have "first_index P (x # xs) = Some (Suc k) \<longleftrightarrow> \<not> P x \<and> first_index P xs = Some k"
      by auto
    also have "\<dots> \<longleftrightarrow> \<not> P x \<and> k < length xs \<and> P (xs ! k) \<and> (\<forall>j < k. \<not> P (xs ! j))"
      by (simp add: Cons.IH)
    also have "\<dots> \<longleftrightarrow> Suc k < length (x # xs) \<and> P ((x # xs) ! Suc k) \<and>
        (\<forall>j < Suc k. \<not> P ((x # xs) ! j))"
      by (auto simp: less_Suc_eq_0_disj)
    finally show ?thesis by (simp add: Suc)
  qed
qed simp

lemma first_index_less: "first_index P xs = Some i \<Longrightarrow> i < length xs"
  by (simp add: first_index_Some)

lemma first_index_holds: "first_index P xs = Some i \<Longrightarrow> P (xs ! i)"
  by (simp add: first_index_Some)

lemma first_index_unique:
  assumes "i < length xs" and "P (xs ! i)"
    and "\<And>j. j < length xs \<Longrightarrow> P (xs ! j) \<Longrightarrow> j = i"
  shows "first_index P xs = Some i"
proof -
  have "first_index P xs \<noteq> None" using assms(1,2) by (auto simp: first_index_None)
  then obtain k where k: "first_index P xs = Some k" by blast
  then have "k = i" using assms(3) [of k] by (simp add: first_index_Some)
  with k show ?thesis by simp
qed

lemma first_index_cong_nth:
  assumes "length xs = length ys" and "\<And>j. j < length xs \<Longrightarrow> P (xs ! j) \<longleftrightarrow> Q (ys ! j)"
  shows "first_index P xs = first_index Q ys"
  using assms
proof (induction xs arbitrary: ys)
  case (Cons x xs)
  then obtain y zs where ys: "ys = y # zs" by (cases ys) auto
  have "P x \<longleftrightarrow> Q y" using Cons.prems(2) [of 0] ys by simp
  moreover have "first_index P xs = first_index Q zs"
  proof (rule Cons.IH)
    show "length xs = length zs" using Cons.prems(1) ys by simp
    show "P (xs ! j) \<longleftrightarrow> Q (zs ! j)" if "j < length xs" for j
      using Cons.prems(2) [of "Suc j"] that ys by simp
  qed
  ultimately show ?case by (simp add: ys)
qed simp

lemma length_filter_update:
  "i < length xs \<Longrightarrow>
   length (filter P (xs[i := x])) + (if P (xs ! i) then 1 else 0) =
   length (filter P xs) + (if P x then 1 else 0)"
proof (induction xs arbitrary: i)
  case (Cons y ys)
  then show ?case by (cases i) auto
qed simp

section \<open>Words\<close>

lemma unat_mod_size: "unat (w :: 'a::len word) mod 2 ^ LENGTH('a) = unat w"
  by (simp add: unsigned_less)

lemma unat_drop_bit_div: "unat (drop_bit n w) = unat w div 2 ^ n"
  using unsigned_drop_bit_eq [of n w, where ?'a = nat]
  by (simp add: drop_bit_eq_div [of n "unat w"] take_bit_eq_mod [of _ "unat w"])

lemma unat_ucast_mod: "unat (ucast (x :: 'a::len word) :: 'b::len word) = unat x mod 2 ^ LENGTH('b)"
  by (simp add: unsigned_ucast_eq take_bit_eq_mod)

lemma unat_ucast_small:
  "unat (x :: 'a::len word) < 2 ^ LENGTH('b) \<Longrightarrow> unat (ucast x :: 'b::len word) = unat x"
  by (simp add: unat_ucast_mod)

lemma unat_ucast_up:
  assumes "LENGTH('a) \<le> LENGTH('b)"
  shows "unat (ucast (x :: 'a::len word) :: 'b::len word) = unat x"
proof -
  have "unat x < 2 ^ LENGTH('a)" by (rule unsigned_less)
  also have "\<dots> \<le> (2::nat) ^ LENGTH('b)" using assms by simp
  finally show ?thesis by (rule unat_ucast_small)
qed

lemma unat_add_small:
  "unat a + unat b < 2 ^ LENGTH('a) \<Longrightarrow> unat (a + b :: 'a::len word) = unat a + unat b"
  by (simp add: unat_word_ariths)

lemma unat_mult_small:
  "unat a * unat b < 2 ^ LENGTH('a) \<Longrightarrow> unat (a * b :: 'a::len word) = unat a * unat b"
  by (simp add: unat_word_ariths)

end
