(* ===== verification/CG_Mem.thy ===== *)
theory CG_Mem
  imports CG_Prelude
begin

text \<open>
  The memory routines: the byte loops of \<open>src/util/cg_util.c\<close> and the vector routines of
  \<open>src/arch/x86_64/cg_util.asm\<close>, over an address space that maps addresses to bytes. The
  C routines here are the fallbacks; most of the program calls the vector routines, whose
  32-byte blocks, alignment prologue and overlapping tail are modelled step by step.
\<close>

type_synonym mem = "nat \<Rightarrow> byte"

text \<open>The effect a copy and a fill are meant to have.\<close>

definition mem_move :: "mem \<Rightarrow> nat \<Rightarrow> nat \<Rightarrow> nat \<Rightarrow> mem" where
  "mem_move m d s n = (\<lambda>a. if d \<le> a \<and> a < d + n then m (s + (a - d)) else m a)"

definition mem_fill :: "mem \<Rightarrow> nat \<Rightarrow> byte \<Rightarrow> nat \<Rightarrow> mem" where
  "mem_fill m d v n = (\<lambda>a. if d \<le> a \<and> a < d + n then v else m a)"

lemma mem_move_0 [simp]: "mem_move m d s 0 = m"
  by (rule ext) (auto simp: mem_move_def)

lemma mem_fill_0 [simp]: "mem_fill m d v 0 = m"
  by (rule ext) (auto simp: mem_fill_def)

section \<open>Byte loops\<close>

fun cg_memcpy :: "mem \<Rightarrow> nat \<Rightarrow> nat \<Rightarrow> nat \<Rightarrow> mem" where
  "cg_memcpy m d s 0 = m"
| "cg_memcpy m d s (Suc n) = cg_memcpy (m(d := m s)) (d + 1) (s + 1) n"

fun cg_memset :: "mem \<Rightarrow> nat \<Rightarrow> u32 \<Rightarrow> nat \<Rightarrow> mem" where
  "cg_memset m d val 0 = m"
| "cg_memset m d val (Suc n) = cg_memset (m(d := ucast val)) (d + 1) val n"

lemma cg_memcpy_move:
  "d \<le> s \<or> s + n \<le> d \<Longrightarrow> cg_memcpy m d s n = mem_move m d s n"
proof (induction n arbitrary: m d s)
  case (Suc n)
  have "cg_memcpy m d s (Suc n) = mem_move (m(d := m s)) (d + 1) (s + 1) n"
    unfolding cg_memcpy.simps using Suc.prems by (intro Suc.IH) auto
  also have "\<dots> = mem_move m d s (Suc n)"
    using Suc.prems by (intro ext) (auto simp: mem_move_def Suc_diff_Suc)
  finally show ?case .
qed simp

lemma cg_memset_fill: "cg_memset m d val n = mem_fill m d (ucast val) n"
proof (induction n arbitrary: m d)
  case (Suc n)
  show ?case by (rule ext) (auto simp: Suc.IH mem_fill_def)
qed simp

section \<open>The vector copy\<close>

text \<open>
  One \<open>vmovdqu\<close> load followed by a store moves 32 bytes at once: all are read before any
  is written.
\<close>

definition vec32_copy :: "mem \<Rightarrow> nat \<Rightarrow> nat \<Rightarrow> mem" where
  "vec32_copy m d s = mem_move m d s 32"

function memcpy_vector_loop :: "mem \<Rightarrow> nat \<Rightarrow> nat \<Rightarrow> nat \<Rightarrow> mem" where
  "memcpy_vector_loop m rdi rsi rdx =
     (if rdx < 32
      then (if rdx = 0 then m else vec32_copy m (rdi + rdx - 32) (rsi + rdx - 32))
      else memcpy_vector_loop (vec32_copy m rdi rsi) (rdi + 32) (rsi + 32) (rdx - 32))"
  by pat_completeness auto
termination
  by (relation "measure (\<lambda>(m, rdi, rsi, rdx). rdx)") auto

declare memcpy_vector_loop.simps [simp del]

definition cg_memcpy_avx2 :: "mem \<Rightarrow> nat \<Rightarrow> nat \<Rightarrow> nat \<Rightarrow> mem" where
  "cg_memcpy_avx2 m rdi rsi rdx =
     (if rdx = 0 then m
      else if rdx < 32 then cg_memcpy m rdi rsi rdx
      else let rcx = rdi mod 32 in
        if rcx = 0 then memcpy_vector_loop m rdi rsi rdx
        else let r8 = 32 - rcx in
          memcpy_vector_loop (cg_memcpy m rdi rsi r8) (rdi + r8) (rsi + r8) (rdx - r8))"

text \<open>
  The loop continues a move of the first \<open>k\<close> bytes. Its last block is read again from the
  source's end, so the part of the source it covers must still be the original one.
\<close>

lemma vec32_copy_extends:
  assumes "d \<le> s \<or> s + n \<le> d" and "k + 32 \<le> n"
  shows "vec32_copy (mem_move m d s k) (d + k) (s + k) = mem_move m d s (k + 32)"
  using assms by (intro ext) (auto simp: vec32_copy_def mem_move_def)

lemma vec32_copy_tail:
  assumes "d + 32 \<le> s \<or> s + n \<le> d" and "k \<le> n" and "n < k + 32" and "32 \<le> n"
  shows "vec32_copy (mem_move m d s k) (d + n - 32) (s + n - 32) = mem_move m d s n"
  using assms by (intro ext) (auto simp: vec32_copy_def mem_move_def)

lemma memcpy_vector_loop_move:
  assumes "d + 32 \<le> s \<or> s + n \<le> d" and "32 \<le> n" and "k \<le> n"
  shows "memcpy_vector_loop (mem_move m d s k) (d + k) (s + k) (n - k) = mem_move m d s n"
  using \<open>k \<le> n\<close>
proof (induction "n - k" arbitrary: k rule: less_induct)
  case less
  show ?case
  proof (cases "n - k < 32")
    case True
    have "n - k \<noteq> 0 \<Longrightarrow>
        vec32_copy (mem_move m d s k) (d + k + (n - k) - 32) (s + k + (n - k) - 32) = mem_move m d s n"
      using vec32_copy_tail [of d s n k m] assms(1,2) less.prems True by simp
    then show ?thesis
      using True less.prems by (subst memcpy_vector_loop.simps) auto
  next
    case False
    then have "vec32_copy (mem_move m d s k) (d + k) (s + k) = mem_move m d s (k + 32)"
      using assms(1) by (intro vec32_copy_extends [where n = n]) auto
    moreover have "memcpy_vector_loop (mem_move m d s (k + 32)) (d + (k + 32)) (s + (k + 32))
        (n - (k + 32)) = mem_move m d s n"
      using False by (intro less.hyps) auto
    ultimately show ?thesis
      using False by (subst memcpy_vector_loop.simps) (simp add: add.assoc)
  qed
qed

text \<open>
  The vector copy is a move whenever the two regions are disjoint, and also for overlapping
  regions that slide down by at least one block or are shorter than one.
\<close>

lemma cg_memcpy_avx2_move:
  assumes "s + n \<le> d \<or> d + 32 \<le> s \<or> d \<le> s \<and> n < 32"
  shows "cg_memcpy_avx2 m d s n = mem_move m d s n"
proof (cases "n < 32")
  case True
  then show ?thesis
    using assms by (auto simp: cg_memcpy_avx2_def cg_memcpy_move)
next
  case False
  then have far: "d + 32 \<le> s \<or> s + n \<le> d" using assms by auto
  show ?thesis
  proof (cases "d mod 32 = 0")
    case True
    with False show ?thesis
      using memcpy_vector_loop_move [OF far, where k = 0] by (simp add: cg_memcpy_avx2_def)
  next
    case nz: False
    define r8 where "r8 = 32 - d mod 32"
    have r8: "r8 \<le> n" using False by (simp add: r8_def)
    have "cg_memcpy m d s r8 = mem_move m d s r8"
      using far r8 by (intro cg_memcpy_move) auto
    then show ?thesis
      using False nz memcpy_vector_loop_move [OF far _ r8, of m]
      by (simp add: cg_memcpy_avx2_def Let_def r8_def)
  qed
qed

section \<open>The vector fill\<close>

definition vec32_fill :: "mem \<Rightarrow> nat \<Rightarrow> byte \<Rightarrow> mem" where
  "vec32_fill m d v = mem_fill m d v 32"

function memset_vector_loop :: "mem \<Rightarrow> nat \<Rightarrow> byte \<Rightarrow> nat \<Rightarrow> mem" where
  "memset_vector_loop m rdi v rdx =
     (if rdx < 32 then (if rdx = 0 then m else vec32_fill m (rdi + rdx - 32) v)
      else memset_vector_loop (vec32_fill m rdi v) (rdi + 32) v (rdx - 32))"
  by pat_completeness auto
termination
  by (relation "measure (\<lambda>(m, rdi, v, rdx). rdx)") auto

declare memset_vector_loop.simps [simp del]

definition cg_memset_avx2 :: "mem \<Rightarrow> nat \<Rightarrow> u32 \<Rightarrow> nat \<Rightarrow> mem" where
  "cg_memset_avx2 m rdi esi rdx =
     (if rdx = 0 then m
      else let v = ucast esi :: byte in
        if rdx < 32 then cg_memset m rdi esi rdx
        else let rcx = rdi mod 32 in
          if rcx = 0 then memset_vector_loop m rdi v rdx
          else let r8 = 32 - rcx in
            memset_vector_loop (cg_memset m rdi esi r8) (rdi + r8) v (rdx - r8))"

lemma memset_vector_loop_fill:
  assumes "32 \<le> n" and "k \<le> n"
  shows "memset_vector_loop (mem_fill m d v k) (d + k) v (n - k) = mem_fill m d v n"
  using \<open>k \<le> n\<close>
proof (induction "n - k" arbitrary: k rule: less_induct)
  case less
  show ?case
  proof (cases "n - k < 32")
    case True
    have "n - k \<noteq> 0 \<Longrightarrow> vec32_fill (mem_fill m d v k) (d + k + (n - k) - 32) v = mem_fill m d v n"
      using True less.prems assms(1) by (intro ext) (auto simp: vec32_fill_def mem_fill_def)
    then show ?thesis
      using True less.prems by (subst memset_vector_loop.simps) auto
  next
    case False
    then have "vec32_fill (mem_fill m d v k) (d + k) v = mem_fill m d v (k + 32)"
      by (intro ext) (auto simp: vec32_fill_def mem_fill_def)
    moreover have "memset_vector_loop (mem_fill m d v (k + 32)) (d + (k + 32)) v (n - (k + 32))
        = mem_fill m d v n"
      using False by (intro less.hyps) auto
    ultimately show ?thesis
      using False by (subst memset_vector_loop.simps) (simp add: add.assoc)
  qed
qed

lemma cg_memset_avx2_fill: "cg_memset_avx2 m d val n = mem_fill m d (ucast val) n"
proof (cases "n < 32")
  case True
  then show ?thesis by (simp add: cg_memset_avx2_def cg_memset_fill)
next
  case False
  define r8 where "r8 = 32 - d mod 32"
  have r8: "r8 \<le> n" and n: "32 \<le> n" using False by (simp_all add: r8_def)
  show ?thesis
    using False memset_vector_loop_fill [OF n r8, of m d "ucast val"]
      memset_vector_loop_fill [OF n, of 0 m d "ucast val"]
    by (simp add: cg_memset_avx2_def Let_def cg_memset_fill r8_def)
qed

section \<open>Sliding a buffer down\<close>

definition cg_memslide :: "mem \<Rightarrow> nat \<Rightarrow> nat \<Rightarrow> nat \<Rightarrow> mem \<times> nat" where
  "cg_memslide m s1 s2 n =
     (let diff = s1 + n - s2 in (cg_memcpy_avx2 m s1 s2 diff, s1 + diff))"

section \<open>Comparison\<close>

text \<open>
  The vector comparison reads both objects in blocks of 32 bytes: \<open>movemask\<close> has bit \<open>i\<close>
  set where byte \<open>i\<close> of the two blocks agrees, and the first zero bit is the first
  difference.
\<close>

definition movemask_eq :: "byte list \<Rightarrow> byte list \<Rightarrow> u32" where
  "movemask_eq v1 v2 = horner_sum of_bool 2 (map2 (=) v1 v2)"

definition ctz32 :: "u32 \<Rightarrow> nat" where
  "ctz32 w = (case first_index (bit w) [0..<32] of Some i \<Rightarrow> i | None \<Rightarrow> 32)"

fun memcmp_bytes :: "byte list \<Rightarrow> byte list \<Rightarrow> nat \<Rightarrow> int cres" where
  "memcmp_bytes p1 p2 0 = Inr 0"
| "memcmp_bytes (a # p1) (b # p2) (Suc n) =
     (if a \<noteq> b then Inr (uint a - uint b) else memcmp_bytes p1 p2 n)"
| "memcmp_bytes _ _ (Suc n) = Inl Out_Of_Bounds"

function cg_memcmp_avx2 :: "byte list \<Rightarrow> byte list \<Rightarrow> nat \<Rightarrow> int cres" where
  "cg_memcmp_avx2 p1 p2 n =
     (if n < 32 then memcmp_bytes p1 p2 n
      else if length p1 < 32 \<or> length p2 < 32 then Inl Out_Of_Bounds
      else let mask = movemask_eq (take 32 p1) (take 32 p2) in
        if mask \<noteq> 0xFFFFFFFF then
          let i = ctz32 (NOT mask) in Inr (uint (p1 ! i) - uint (p2 ! i))
        else cg_memcmp_avx2 (drop 32 p1) (drop 32 p2) (n - 32))"
  by pat_completeness auto
termination
  by (relation "measure (\<lambda>(p1, p2, n). n)") auto

declare cg_memcmp_avx2.simps [simp del]

lemma bit_movemask_eq:
  assumes "length v1 = 32" and "length v2 = 32"
  shows "bit (movemask_eq v1 v2) i \<longleftrightarrow> i < 32 \<and> v1 ! i = v2 ! i"
  using assms by (auto simp: movemask_eq_def bit_horner_sum_bit_word_iff)

lemma movemask_full:
  assumes "length v1 = 32" and "length v2 = 32"
  shows "movemask_eq v1 v2 = 0xFFFFFFFF \<longleftrightarrow> v1 = v2"
proof -
  have ones: "(0xFFFFFFFF :: u32) = mask 32" by (simp add: mask_eq_exp_minus_1)
  have "movemask_eq v1 v2 = mask 32 \<longleftrightarrow> (\<forall>i < 32. v1 ! i = v2 ! i)"
    by (auto simp: bit_eq_iff bit_movemask_eq [OF assms] bit_mask_iff)
  also have "\<dots> \<longleftrightarrow> v1 = v2" using assms by (auto simp: list_eq_iff_nth_eq)
  finally show ?thesis by (simp only: ones)
qed

text \<open>The byte comparison skips a common prefix and stops at the first difference.\<close>

lemma memcmp_bytes_skip:
  "take k p1 = take k p2 \<Longrightarrow> k \<le> n \<Longrightarrow> k \<le> length p1 \<Longrightarrow> k \<le> length p2 \<Longrightarrow>
   memcmp_bytes p1 p2 n = memcmp_bytes (drop k p1) (drop k p2) (n - k)"
proof (induction k arbitrary: p1 p2 n)
  case (Suc k)
  then obtain a q1 b q2 m where "p1 = a # q1" "p2 = b # q2" "n = Suc m"
    by (cases p1; cases p2; cases n) auto
  with Suc show ?case by simp
qed simp

lemma memcmp_bytes_diff:
  assumes "i < n" "i < length p1" "i < length p2" "p1 ! i \<noteq> p2 ! i" "\<And>j. j < i \<Longrightarrow> p1 ! j = p2 ! j"
  shows "memcmp_bytes p1 p2 n = Inr (uint (p1 ! i) - uint (p2 ! i))"
proof -
  have "take i p1 = take i p2" using assms by (intro nth_take_lemma) auto
  then have "memcmp_bytes p1 p2 n = memcmp_bytes (drop i p1) (drop i p2) (n - i)"
    using assms by (intro memcmp_bytes_skip) auto
  moreover obtain m where "n - i = Suc m" using assms(1) by (cases "n - i") auto
  ultimately show ?thesis
    using assms by (simp add: Cons_nth_drop_Suc [symmetric])
qed

text \<open>Blocks or bytes: the result is the same wherever both objects hold \<open>n\<close> bytes.\<close>

lemma cg_memcmp_avx2_bytes:
  "n \<le> length p1 \<Longrightarrow> n \<le> length p2 \<Longrightarrow> cg_memcmp_avx2 p1 p2 n = memcmp_bytes p1 p2 n"
proof (induction n arbitrary: p1 p2 rule: less_induct)
  case (less n)
  let ?mask = "movemask_eq (take 32 p1) (take 32 p2)"
  consider "n < 32" | "32 \<le> n" "take 32 p1 = take 32 p2" | "32 \<le> n" "take 32 p1 \<noteq> take 32 p2"
    by linarith
  then show ?case
  proof cases
    case 1
    then show ?thesis by (simp add: cg_memcmp_avx2.simps [of p1 p2 n])
  next
    case 2
    then have "cg_memcmp_avx2 p1 p2 n = cg_memcmp_avx2 (drop 32 p1) (drop 32 p2) (n - 32)"
      using less.prems by (simp add: cg_memcmp_avx2.simps [of p1 p2 n] movemask_full)
    also have "\<dots> = memcmp_bytes (drop 32 p1) (drop 32 p2) (n - 32)"
      using 2 less.prems by (intro less.IH) auto
    also have "\<dots> = memcmp_bytes p1 p2 n"
      using 2 less.prems by (intro memcmp_bytes_skip [symmetric]) auto
    finally show ?thesis .
  next
    case 3
    have bits: "bit (NOT ?mask) i \<longleftrightarrow> i < 32 \<and> p1 ! i \<noteq> p2 ! i" for i
      using 3 less.prems by (auto simp: bit_not_iff bit_movemask_eq)
    have len: "length (take 32 p1) = 32" "length (take 32 p2) = 32"
      using 3 less.prems by simp_all
    have ne: "\<exists>i < 32. p1 ! i \<noteq> p2 ! i"
      using 3(2) less.prems nth_take_lemma [of 32 p1 p2] 3(1) by auto
    then obtain i where i: "first_index (bit (NOT ?mask)) [0..<32] = Some i"
      by (cases "first_index (bit (NOT ?mask)) [0..<32]") (auto simp: first_index_None bits)
    then have di: "i < 32" "p1 ! i \<noteq> p2 ! i" "\<And>j. j < i \<Longrightarrow> p1 ! j = p2 ! j"
      using bits by (auto simp: first_index_Some)
    have "cg_memcmp_avx2 p1 p2 n = Inr (uint (p1 ! i) - uint (p2 ! i))"
      using 3 less.prems len i
      by (simp add: cg_memcmp_avx2.simps [of p1 p2 n] movemask_full ctz32_def Let_def)
    then show ?thesis
      using di 3 less.prems memcmp_bytes_diff [of i n p1 p2] by simp
  qed
qed

lemma memcmp_bytes_zero:
  "n \<le> length p1 \<Longrightarrow> n \<le> length p2 \<Longrightarrow>
   \<exists>v. memcmp_bytes p1 p2 n = Inr v \<and> (v = 0 \<longleftrightarrow> take n p1 = take n p2)"
proof (induction n arbitrary: p1 p2)
  case (Suc n)
  then obtain a q1 b q2 where "p1 = a # q1" "p2 = b # q2"
    by (cases p1; cases p2) auto
  with Suc show ?case by (auto simp: word_uint_eq_iff)
qed simp

end
