(* ===== verification/CG_Arith.thy ===== *)
theory CG_Arith
  imports CG_Prelude
begin

text \<open>
  The inline arithmetic of \<open>include/util/cg_util.h\<close>: the integer hash, the divisions by
  constants that are written as a multiplication and a shift, and the two digit writers. The
  lemmas show which of the divisions are the quotient they are named after.
\<close>

section \<open>The integer hash\<close>

definition cg_hash_uint64 :: "u64 \<Rightarrow> u64" where
  "cg_hash_uint64 n =
     (let n1 = (n XOR drop_bit 30 n) * 0xbf58476d1ce4e5b9;
          n2 = (n1 XOR drop_bit 27 n1) * 0x94d049bb133111eb
      in n2 XOR drop_bit 31 n2)"

section \<open>Division by a constant\<close>

definition cg_div10_u32 :: "u32 \<Rightarrow> u32" where
  "cg_div10_u32 x = ucast (drop_bit 35 (ucast x * 0xCCCCCCCD :: u64))"

definition cg_mod10_u32 :: "u32 \<Rightarrow> u32" where
  "cg_mod10_u32 x = x - (cg_div10_u32 x * 10)"

definition cg_div60_u32 :: "u32 \<Rightarrow> u32" where
  "cg_div60_u32 x = ucast (drop_bit 37 (ucast x * 0x88888889 :: u64))"

definition cg_div3600_u32 :: "u32 \<Rightarrow> u32" where
  "cg_div3600_u32 x = ucast (drop_bit 43 (ucast x * 0x91A2B3C5 :: u64))"

definition cg_div24_u32 :: "u32 \<Rightarrow> u32" where
  "cg_div24_u32 x = ucast (drop_bit 33 (ucast x * 0xAAAAAAAA :: u64))"

definition cg_div86400_u32 :: "u32 \<Rightarrow> u32" where
  "cg_div86400_u32 x =
     (let h = cg_div3600_u32 x in ucast (drop_bit 36 (ucast h * 0xAAAAAAAB :: u64)))"

text \<open>
  A multiplication by \<open>m\<close> and a division by \<open>p\<close> is the division by \<open>d\<close> as long as the
  excess \<open>e\<close> of \<open>d * m\<close> over \<open>p\<close> does not reach the next quotient.
\<close>

lemma magic_div:
  fixes x d m p e X :: nat
  assumes dm: "d * m = p + e" and x: "x \<le> X" and d: "0 < d"
    and small: "e * (X div d) + (d - 1) * m < p"
  shows "x * m div p = x div d"
proof -
  define q r where "q = x div d" and "r = x mod d"
  have xq: "x = d * q + r" by (simp add: q_def r_def)
  have "x * m = q * (d * m) + r * m" by (simp add: xq algebra_simps)
  then have "x * m = (e * q + r * m) + p * q" by (simp add: dm algebra_simps)
  moreover have "e * q + r * m < p"
  proof -
    have "r < d" using d by (simp add: r_def)
    then have "r \<le> d - 1" by simp
    then have "r * m \<le> (d - 1) * m" by (rule mult_le_mono1)
    moreover have "e * q \<le> e * (X div d)" using x by (simp add: q_def div_le_mono)
    ultimately show ?thesis using small by linarith
  qed
  ultimately have "x * m div p = q" by (simp add: div_mult_self2)
  then show ?thesis by (simp add: q_def)
qed

lemma u32_le: "unat (x :: u32) \<le> 4294967295"
  using unsigned_less [of x, where ?'a = nat] by simp

text \<open>What the multiply-and-shift pattern computes on the unsigned values.\<close>

lemma unat_mul_shift:
  fixes x :: u32 and c :: u64
  assumes "unat c < 2 ^ 32" and "unat x * unat c div 2 ^ k < 2 ^ 32"
  shows "unat (ucast (drop_bit k (ucast x * c :: u64)) :: u32) = unat x * unat c div 2 ^ k"
proof -
  have "unat x * unat c < 2 ^ 32 * 2 ^ 32"
    using assms(1) unsigned_less [of x, where ?'a = nat]
    by (intro mult_strict_mono) auto
  then have "unat (ucast x * c :: u64) = unat x * unat c"
    by (subst unat_mult_small) (simp_all add: unat_ucast_up)
  then show ?thesis
    using assms(2) by (subst unat_ucast_small) (simp_all add: unat_drop_bit_div)
qed

lemma unat_mul_shift_div:
  fixes x :: u32 and c :: u64
  assumes "unat c < 2 ^ 32" and "d * unat c = 2 ^ k + e" and "0 < d" and "unat x \<le> X"
    and "e * (X div d) + (d - 1) * unat c < 2 ^ k"
  shows "unat (ucast (drop_bit k (ucast x * c :: u64)) :: u32) = unat x div d"
proof -
  have q: "unat x * unat c div 2 ^ k = unat x div d"
    by (rule magic_div [OF assms(2) assms(4) assms(3) assms(5)])
  have "unat x div d \<le> 4294967295"
    using div_le_dividend [of "unat x" d] u32_le [of x] by (rule order_trans)
  then have "unat x div d < 2 ^ 32" by simp
  with q show ?thesis using assms(1) by (simp add: unat_mul_shift)
qed

lemma unat_div10: "unat (cg_div10_u32 x) = unat x div 10"
  unfolding cg_div10_u32_def
  by (rule unat_mul_shift_div [where X = 4294967295 and e = 2]) (simp_all add: u32_le)

lemma unat_div60: "unat (cg_div60_u32 x) = unat x div 60"
  unfolding cg_div60_u32_def
  by (rule unat_mul_shift_div [where X = 4294967295 and e = 28]) (simp_all add: u32_le)

lemma unat_div3600: "unat (cg_div3600_u32 x) = unat x div 3600"
  unfolding cg_div3600_u32_def
  by (rule unat_mul_shift_div [where X = 4294967295 and e = 592]) (simp_all add: u32_le)

lemma unat_div86400: "unat (cg_div86400_u32 x) = unat x div 86400"
proof -
  let ?h = "cg_div3600_u32 x"
  have "unat ?h \<le> 1193046"
    using u32_le [of x] by (simp add: unat_div3600)
  then have "unat (cg_div86400_u32 x) = unat ?h div 24"
    unfolding cg_div86400_u32_def Let_def
    by (intro unat_mul_shift_div [where X = 1193046 and e = 8]) simp_all
  then show ?thesis by (simp add: unat_div3600 flip: div_mult2_eq)
qed

lemma unat_mod10: "unat (cg_mod10_u32 x) = unat x mod 10"
proof -
  have "unat (cg_div10_u32 x * 10) = unat x div 10 * 10"
    using u32_le [of x] by (subst unat_mult_small) (simp_all add: unat_div10)
  moreover have "unat x div 10 * 10 \<le> unat x" by simp
  ultimately show ?thesis
    by (simp add: cg_mod10_u32_def unat_sub word_le_nat_alt minus_div_mult_eq_mod)
qed

text \<open>
  \<open>cg_div24_u32\<close> is not a division by 24: its constant and its shift are those of a division
  by three, and the constant is rounded down, so that exact multiples lose one.
\<close>

lemma unat_div24: "unat (cg_div24_u32 x) = (unat x - 1) div 3"
proof -
  have eq: "unat x * 0xAAAAAAAA div 2 ^ 33 = (unat x - 1) div 3"
  proof (cases "unat x")
    case (Suc y)
    have y: "y \<le> 4294967294" using u32_le [of x] Suc by simp
    define q r where "q = y div 3" and "r = y mod 3"
    have yq: "y = 3 * q + r" and r: "r \<le> 2" by (auto simp: q_def r_def)
    have "Suc y * 2863311530 = q * 2 ^ 33 + ((r + 1) * 2863311530 - 2 * q)"
      using y r yq by simp
    moreover have "(r + 1) * 2863311530 - 2 * q < 2 ^ 33" using r by simp
    ultimately have "Suc y * 2863311530 div 2 ^ 33 = q" by simp
    then show ?thesis by (simp add: Suc q_def)
  qed simp
  have "(unat x - 1) div 3 < 2 ^ 32" using u32_le [of x] by simp
  then show ?thesis
    unfolding cg_div24_u32_def by (subst unat_mul_shift) (use eq in simp_all)
qed

section \<open>Digit writers\<close>

definition cg_write_digits2 :: "byte list \<Rightarrow> nat \<Rightarrow> u32 \<Rightarrow> byte list cres" where
  "cg_write_digits2 buf off val =
     (let prod = ucast (cg_div10_u32 val) :: 128 word;
          lo = ucast (48 + (ucast val - prod * 10)) :: byte;
          hi = ucast (48 + prod) :: byte
      in buf_write buf off [hi, lo])"

definition cg_write_digits4 :: "byte list \<Rightarrow> nat \<Rightarrow> u32 \<Rightarrow> byte list cres" where
  "cg_write_digits4 buf off v0 =
     (let v1 = cg_div10_u32 v0; d3 = ucast (48 + (v0 - v1 * 10)) :: byte;
          v2 = cg_div10_u32 v1; d2 = ucast (48 + (v1 - v2 * 10)) :: byte;
          v3 = cg_div10_u32 v2; d1 = ucast (48 + (v2 - v3 * 10)) :: byte;
          v4 = cg_div10_u32 v3; d0 = ucast (48 + (v3 - v4 * 10)) :: byte
      in buf_write buf off [d0, d1, d2, d3])"

text \<open>The ASCII digit of a number below ten.\<close>

definition digit :: "nat \<Rightarrow> byte" where
  "digit d = word_of_nat (48 + d)"

lemma unat_digit: "d < 10 \<Longrightarrow> unat (digit d) = 48 + d"
  by (simp add: digit_def unat_of_nat del: of_nat_add)

lemma digit_of_rest: "ucast (48 + (x - cg_div10_u32 x * 10) :: u32) = digit (unat x mod 10)"
proof -
  have "unat (48 + cg_mod10_u32 x) = 48 + unat x mod 10"
    by (subst unat_add_small) (simp_all add: unat_mod10)
  then have "unat (ucast (48 + cg_mod10_u32 x) :: byte) = 48 + unat x mod 10"
    by (simp add: unsigned_ucast_eq take_bit_nat_eq_self)
  then have "(ucast (48 + cg_mod10_u32 x) :: byte) = digit (unat x mod 10)"
    by (metis unat_digit mod_less_divisor word_unat_eq_iff zero_less_numeral)
  then show ?thesis by (simp add: cg_mod10_u32_def)
qed

lemma write_digits4_eq:
  "cg_write_digits4 buf off v =
     buf_write buf off [digit (unat v div 1000 mod 10), digit (unat v div 100 mod 10),
       digit (unat v div 10 mod 10), digit (unat v mod 10)]"
  by (simp add: cg_write_digits4_def Let_def digit_of_rest unat_div10 flip: div_mult2_eq)

lemma write_digits2_eq:
  assumes "unat v < 100"
  shows "cg_write_digits2 buf off v =
    buf_write buf off [digit (unat v div 10), digit (unat v mod 10)]"
proof -
  let ?p = "ucast (cg_div10_u32 v) :: 128 word"
  have p: "unat ?p = unat v div 10"
    using assms by (simp add: unsigned_ucast_eq take_bit_nat_eq_self unat_div10)
  then have "unat (?p * 10) = unat v div 10 * 10"
    using assms by (subst unat_mult_small) simp_all
  moreover have "unat (ucast v :: 128 word) = unat v"
    using assms by (simp add: unsigned_ucast_eq take_bit_nat_eq_self)
  ultimately have "unat (ucast v - ?p * 10) = unat v mod 10"
    by (simp add: unat_sub word_le_nat_alt minus_div_mult_eq_mod)
  then have "unat (48 + (ucast v - ?p * 10)) = 48 + unat v mod 10"
    by (subst unat_add_small) simp_all
  then have lo: "(ucast (48 + (ucast v - ?p * 10)) :: byte) = digit (unat v mod 10)"
    by (simp add: word_unat_eq_iff unsigned_ucast_eq take_bit_nat_eq_self unat_digit)
  have "unat (48 + ?p) = 48 + unat v div 10"
    using assms p by (subst unat_add_small) simp_all
  then have hi: "(ucast (48 + ?p) :: byte) = digit (unat v div 10)"
    using assms by (simp add: word_unat_eq_iff unsigned_ucast_eq take_bit_nat_eq_self unat_digit)
  show ?thesis by (simp add: cg_write_digits2_def Let_def lo hi)
qed

end
