(* ===== verification/CG_Text.thy ===== *)
theory CG_Text
  imports CG_Mem CG_Arith
begin

text \<open>
  Strings and numbers as text: the three string-length routines and the two decimal
  converters of \<open>src/arch/x86_64/cg_util.asm\<close>, and the string comparison, the environment
  lookup, the CRC hash and \<open>cg_puts\<close> of \<open>src/util/cg_util.c\<close>.
\<close>

section \<open>String length\<close>

text \<open>The byte loop, on the object that holds the string.\<close>

fun cg_strlen :: "byte list \<Rightarrow> nat cres" where
  "cg_strlen [] = Inl Out_Of_Bounds"
| "cg_strlen (c # b) = (if c = 0 then Inr 0 else cbind (cg_strlen b) (\<lambda>n. Inr (n + 1)))"

lemma cg_strlen_eq: "cg_strlen b = (if has_nul b then Inr (length (cstr b)) else Inl Out_Of_Bounds)"
  by (induction b) auto

lemma cg_strlen_nul [simp]: "has_nul b \<Longrightarrow> cg_strlen b = Inr (length (cstr b))"
  by (simp add: cg_strlen_eq)

text \<open>
  The vector routines read aligned blocks (32 bytes with AVX2, 16 with SSE), shift out the
  bytes of the first block that precede the string, and scan on block by block. The loop ends
  only at a block with a NUL in it.
\<close>

definition zero_mask :: "nat \<Rightarrow> mem \<Rightarrow> nat \<Rightarrow> u32" where
  "zero_mask w m a = horner_sum of_bool 2 (map (\<lambda>i. m (a + i) = 0) [0..<w])"

definition bsf :: "u32 \<Rightarrow> nat" where
  "bsf w = (case first_index (bit w) [0..<32] of Some i \<Rightarrow> i | None \<Rightarrow> 0)"

partial_function (option) strlen_block_loop :: "nat \<Rightarrow> mem \<Rightarrow> nat \<Rightarrow> nat \<Rightarrow> nat option" where
  "strlen_block_loop w m rdi rax =
     (let edx = zero_mask w m rax
      in if edx \<noteq> 0 then Some (rax + bsf edx - rdi) else strlen_block_loop w m rdi (rax + w))"

definition strlen_blocks :: "nat \<Rightarrow> mem \<Rightarrow> nat \<Rightarrow> nat option" where
  "strlen_blocks w m rdi =
     (let rcx = rdi mod w; rax = rdi - rcx;
          edx = drop_bit rcx (zero_mask w m rax)
      in if edx \<noteq> 0 then Some (bsf edx) else strlen_block_loop w m rdi (rax + w))"

definition cg_strlen_avx2 :: "mem \<Rightarrow> nat \<Rightarrow> nat option" where
  "cg_strlen_avx2 = strlen_blocks 32"

definition cg_strlen_sse :: "mem \<Rightarrow> nat \<Rightarrow> nat option" where
  "cg_strlen_sse = strlen_blocks 16"

lemma bit_zero_mask: "w \<le> 32 \<Longrightarrow> bit (zero_mask w m a) i \<longleftrightarrow> i < w \<and> m (a + i) = 0"
  by (auto simp: zero_mask_def bit_horner_sum_bit_word_iff)

lemma zero_mask_nz:
  assumes "w \<le> 32"
  shows "zero_mask w m a \<noteq> 0 \<longleftrightarrow> (\<exists>i < w. m (a + i) = 0)"
proof -
  have "zero_mask w m a = 0 \<longleftrightarrow> (\<forall>i. \<not> bit (zero_mask w m a) i)"
    using bit_imp_le_length [of "zero_mask w m a"] by (auto simp: bit_eq_iff)
  then show ?thesis using assms by (auto simp only: bit_zero_mask)
qed

lemma bsf_least:
  assumes "bit (w :: u32) i" and "\<And>j. j < i \<Longrightarrow> \<not> bit w j"
  shows "bsf w = i"
proof -
  have i: "i < 32" using bit_imp_le_length [OF assms(1)] by simp
  have "first_index (bit w) [0..<32] = Some i"
    using assms i by (simp add: first_index_Some)
  then show ?thesis by (simp add: bsf_def)
qed

lemma strlen_block_loop_finds:
  assumes w: "0 < w" "w \<le> 32" and "rdi \<le> rax" and "rax \<le> z" and "m z = 0"
    and clear: "\<And>a. rdi \<le> a \<Longrightarrow> a < z \<Longrightarrow> m a \<noteq> 0"
  shows "strlen_block_loop w m rdi rax = Some (z - rdi)"
  using assms(3,4)
proof (induction "z - rax" arbitrary: rax rule: less_induct)
  case less
  show ?case
  proof (cases "z < rax + w")
    case True
    let ?i = "z - rax"
    have b: "bit (zero_mask w m rax) ?i"
      using True less.prems w assms(5) by (simp add: bit_zero_mask)
    then have "zero_mask w m rax \<noteq> 0" by auto
    moreover have "bsf (zero_mask w m rax) = ?i"
      using less.prems w clear by (intro bsf_least [OF b]) (auto simp: bit_zero_mask)
    ultimately show ?thesis
      using less.prems by (subst strlen_block_loop.simps) simp
  next
    case False
    have "zero_mask w m rax = 0"
      using False less.prems clear zero_mask_nz [OF w(2), of m rax] by force
    moreover have "strlen_block_loop w m rdi (rax + w) = Some (z - rdi)"
      using False less.prems w by (intro less.hyps) auto
    ultimately show ?thesis by (subst strlen_block_loop.simps) simp
  qed
qed

lemma strlen_blocks_finds:
  assumes w: "0 < w" "w \<le> 32" and "m (p + n) = 0" and clear: "\<And>i. i < n \<Longrightarrow> m (p + i) \<noteq> 0"
  shows "strlen_blocks w m p = Some n"
proof -
  define c where "c = p mod w"
  have c: "c < w" "c \<le> p" using w by (simp_all add: c_def)
  let ?e = "drop_bit c (zero_mask w m (p - c))"
  have bits: "bit ?e i \<longleftrightarrow> c + i < w \<and> m (p + i) = 0" for i
    using c w by (simp add: bit_drop_bit_eq bit_zero_mask)
  have rdi: "p \<le> p - c + w" using c by simp
  show ?thesis
  proof (cases "c + n < w")
    case True
    then have b: "bit ?e n" using assms(3) by (simp add: bits)
    then have "?e \<noteq> 0" by auto
    moreover have "bsf ?e = n"
      using clear by (intro bsf_least [OF b]) (auto simp: bits)
    ultimately show ?thesis by (simp add: strlen_blocks_def c_def Let_def)
  next
    case False
    have "\<not> bit ?e i" for i
      using bits [of i] clear [of i] False by (cases "i < n") auto
    then have "?e = 0" by (simp add: bit_eq_iff)
    moreover have "strlen_block_loop w m p (p - c + w) = Some (p + n - p)"
    proof (rule strlen_block_loop_finds [where z = "p + n"])
      show "0 < w" "w \<le> 32" "p \<le> p - c + w" "m (p + n) = 0" using w rdi assms(3) by simp_all
      show "p - c + w \<le> p + n" using False c by simp
      show "m a \<noteq> 0" if "p \<le> a" "a < p + n" for a
        using clear [of "a - p"] that by simp
    qed
    ultimately show ?thesis by (simp add: strlen_blocks_def c_def Let_def)
  qed
qed

section \<open>String comparison\<close>

fun cg_strcmp :: "byte list \<Rightarrow> byte list \<Rightarrow> int cres" where
  "cg_strcmp (a # s1) (b # s2) =
     (if a \<noteq> 0 \<and> a = b then cg_strcmp s1 s2 else Inr (uint a - uint b))"
| "cg_strcmp _ _ = Inl Out_Of_Bounds"

text \<open>The sign is that of the lexicographic order of the two strings, byte by byte.\<close>

fun lex_cmp :: "byte list \<Rightarrow> byte list \<Rightarrow> int" where
  "lex_cmp [] [] = 0"
| "lex_cmp [] (b # bs) = - 1"
| "lex_cmp (a # as) [] = 1"
| "lex_cmp (a # as) (b # bs) = (if a = b then lex_cmp as bs else if a < b then - 1 else 1)"

lemma lex_cmp_0: "lex_cmp a b = 0 \<longleftrightarrow> a = b"
  by (induction a b rule: lex_cmp.induct) auto

lemma lex_cmp_swap: "lex_cmp b a = - lex_cmp a b"
  by (induction a b rule: lex_cmp.induct) auto

lemma lex_cmp_trans: "lex_cmp a b < 0 \<Longrightarrow> lex_cmp b c < 0 \<Longrightarrow> lex_cmp a c < 0"
proof (induction a b arbitrary: c rule: lex_cmp.induct)
  case (2 b bs)
  then show ?case by (cases c) auto
next
  case (4 a as b bs)
  then show ?case by (cases c) (auto split: if_splits)
qed auto

lemma cg_strcmp_sgn:
  "has_nul s1 \<Longrightarrow> has_nul s2 \<Longrightarrow>
   \<exists>v. cg_strcmp s1 s2 = Inr v \<and> sgn v = lex_cmp (cstr s1) (cstr s2)"
proof (induction s1 s2 rule: cg_strcmp.induct)
  case (1 a s1 b s2)
  show ?case
  proof (cases "a \<noteq> 0 \<and> a = b")
    case True
    with 1 show ?thesis by auto
  next
    case False
    have pos: "0 < uint c" if "c \<noteq> 0" for c :: byte
      using that by (metis uint_0_iff unsigned_greater_eq order_le_less)
    show ?thesis
      using False pos [of a] pos [of b]
      by (auto simp: sgn_if word_less_def word_uint_eq_iff)
  qed
qed auto

lemma cg_strcmp_zero:
  assumes "has_nul s1" and "has_nul s2"
  shows "\<exists>v. cg_strcmp s1 s2 = Inr v \<and> (v = 0 \<longleftrightarrow> cstr s1 = cstr s2)"
  using cg_strcmp_sgn [OF assms] by (metis lex_cmp_0 sgn_0_0)

section \<open>The environment\<close>

text \<open>
  The environment is the NULL-terminated array of \<open>KEY=value\<close> strings, here the list of
  their objects; a NULL argument is \<open>None\<close>. The result is the text after the sign.
\<close>

fun env_match :: "byte list \<Rightarrow> byte list \<Rightarrow> byte list option cres" where
  "env_match (e # es) (k # ks) =
     (if k \<noteq> 0 \<and> e = k then env_match es ks
      else if k = 0 \<and> e = 61 then Inr (Some es) else Inr None)"
| "env_match _ _ = Inl Out_Of_Bounds"

fun get_env_loop :: "byte list list \<Rightarrow> byte list \<Rightarrow> byte list option cres" where
  "get_env_loop [] key = Inr None"
| "get_env_loop (env_str # envp) key =
     cbind (env_match env_str key)
       (\<lambda>r. case r of Some v \<Rightarrow> Inr (Some v) | None \<Rightarrow> get_env_loop envp key)"

definition cg_get_env :: "byte list list option \<Rightarrow> byte list option \<Rightarrow> byte list option cres" where
  "cg_get_env envp target_key_str =
     (case (envp, target_key_str) of
        (Some es, Some key) \<Rightarrow> get_env_loop es key
      | _ \<Rightarrow> Inr None)"

lemma env_match_spec:
  "has_nul e \<Longrightarrow> has_nul k \<Longrightarrow>
   \<exists>r. env_match e k = Inr r \<and> map_option cstr r =
     (if take (length (cstr k) + 1) (cstr e) = cstr k @ [61]
      then Some (drop (length (cstr k) + 1) (cstr e)) else None) \<and>
     (\<forall>v. r = Some v \<longrightarrow> has_nul v)"
proof (induction e k rule: env_match.induct)
  case (1 e es k ks)
  then show ?case by (cases "k = 0"; cases "e = k") auto
qed auto

section \<open>The string hash\<close>

text \<open>
  \<open>_mm_crc32_u8\<close> and \<open>_mm_crc32_u64\<close>: the processor's CRC-32C step, over the reflected
  polynomial \<open>0x82F63B78\<close>. The 64-bit form folds the eight bytes of its operand, least
  significant first, into the low half of the accumulator and clears the high half.
\<close>

definition crc32_bit :: "u32 \<Rightarrow> u32" where
  "crc32_bit c = (if c AND 1 = 1 then drop_bit 1 c XOR 0x82F63B78 else drop_bit 1 c)"

definition mm_crc32_u8 :: "u32 \<Rightarrow> byte \<Rightarrow> u32" where
  "mm_crc32_u8 crc v = (crc32_bit ^^ 8) (crc XOR ucast v)"

definition mm_crc32_u64 :: "u64 \<Rightarrow> u64 \<Rightarrow> u64" where
  "mm_crc32_u64 crc val =
     ucast (foldl mm_crc32_u8 (ucast crc) (map (\<lambda>i. ucast (drop_bit (8 * i) val)) [0..<8]))"

lemma mm_crc32_u8_unroll:
  "mm_crc32_u8 crc v =
     crc32_bit (crc32_bit (crc32_bit (crc32_bit (crc32_bit (crc32_bit (crc32_bit (crc32_bit
       (crc XOR ucast v))))))))"
  by (simp add: mm_crc32_u8_def numeral_eq_Suc)

text \<open>The eight bytes that a little-endian load reads.\<close>

definition load_u64 :: "byte list \<Rightarrow> u64" where
  "load_u64 bs = foldr (\<lambda>b acc. ucast b OR push_bit 8 acc) bs 0"

fun hash_str_tail :: "u64 \<Rightarrow> byte list \<Rightarrow> nat \<Rightarrow> u64 cres" where
  "hash_str_tail crc p 0 = Inr crc"
| "hash_str_tail crc (c # p) (Suc len) = hash_str_tail (ucast (mm_crc32_u8 (ucast crc) c)) p len"
| "hash_str_tail crc [] (Suc len) = Inl Out_Of_Bounds"

function hash_str_loop :: "u64 \<Rightarrow> byte list \<Rightarrow> nat \<Rightarrow> u64 cres" where
  "hash_str_loop crc p len =
     (if len < 8 then hash_str_tail crc p len
      else if length p < 8 then Inl Out_Of_Bounds
      else hash_str_loop (mm_crc32_u64 crc (load_u64 (take 8 p))) (drop 8 p) (len - 8))"
  by pat_completeness auto
termination
  by (relation "measure (\<lambda>(crc, p, len). len)") auto

declare hash_str_loop.simps [simp del]

definition cg_hash_str :: "byte list \<Rightarrow> nat \<Rightarrow> u64 cres" where
  "cg_hash_str p len = hash_str_loop 0xFFFFFFFF p len"

text \<open>The reference: the CRC-32C register after the bytes, one at a time.\<close>

definition crc32c :: "byte list \<Rightarrow> u32" where
  "crc32c bs = foldl mm_crc32_u8 0xFFFFFFFF bs"

lemmas crc32c_eval = crc32c_def mm_crc32_u8_unroll crc32_bit_def

lemma byte_of_load:
  "i < length bs \<Longrightarrow> length bs \<le> 8 \<Longrightarrow> ucast (drop_bit (8 * i) (load_u64 bs)) = bs ! i"
proof (induction bs arbitrary: i)
  case (Cons b bs)
  have rec: "load_u64 (b # bs) = ucast b OR push_bit 8 (load_u64 bs)"
    by (simp add: load_u64_def)
  show ?case
  proof (cases i)
    case 0
    then show ?thesis
      by (intro bit_word_eqI) (auto simp: rec bit_simps)
  next
    case (Suc k)
    have "ucast (drop_bit (8 * k) (load_u64 bs)) = (bs ! k :: byte)"
      using Cons Suc by simp
    moreover have "(ucast (drop_bit (8 * i) (load_u64 (b # bs))) :: byte)
        = ucast (drop_bit (8 * k) (load_u64 bs))"
    proof (rule bit_word_eqI)
      fix n assume n: "n < LENGTH(8)"
      have "8 * k + n + 8 < 64" using n Cons.prems Suc by simp
      then show "bit (ucast (drop_bit (8 * i) (load_u64 (b # bs))) :: byte) n =
          bit (ucast (drop_bit (8 * k) (load_u64 bs)) :: byte) n"
        using n by (auto simp: rec bit_simps Suc algebra_simps dest: bit_imp_le_length)
    qed
    ultimately show ?thesis using Suc by simp
  qed
qed simp

lemma ucast_crc_roundtrip: "ucast (ucast (c :: u32) :: u64) = c"
  by (intro bit_word_eqI) (auto simp: bit_simps)

lemma mm_crc32_u64_bytes:
  assumes "length bs = 8"
  shows "mm_crc32_u64 (ucast c) (load_u64 bs) = ucast (foldl mm_crc32_u8 c bs)"
proof -
  have "map (\<lambda>i. ucast (drop_bit (8 * i) (load_u64 bs))) [0..<8] = map ((!) bs) [0..<8]"
    using assms by (intro map_cong) (simp_all add: byte_of_load)
  also have "\<dots> = bs" using map_nth [of bs] assms by simp
  finally show ?thesis by (simp add: mm_crc32_u64_def ucast_crc_roundtrip)
qed

lemma hash_str_tail_crc:
  "len \<le> length p \<Longrightarrow> hash_str_tail (ucast c) p len = Inr (ucast (foldl mm_crc32_u8 c (take len p)))"
proof (induction len arbitrary: c p)
  case (Suc len)
  then obtain b q where "p = b # q" by (cases p) auto
  with Suc show ?case by (simp add: ucast_crc_roundtrip)
qed simp

lemma hash_str_loop_crc:
  "len \<le> length p \<Longrightarrow> hash_str_loop (ucast c) p len = Inr (ucast (foldl mm_crc32_u8 c (take len p)))"
proof (induction len arbitrary: c p rule: less_induct)
  case (less len)
  show ?case
  proof (cases "len < 8")
    case True
    then show ?thesis
      using less.prems by (subst hash_str_loop.simps) (simp add: hash_str_tail_crc)
  next
    case False
    let ?c = "foldl mm_crc32_u8 c (take 8 p)"
    have "hash_str_loop (ucast ?c) (drop 8 p) (len - 8)
        = Inr (ucast (foldl mm_crc32_u8 ?c (take (len - 8) (drop 8 p))))"
      using False less.prems by (intro less.IH) auto
    moreover have "take 8 p @ take (len - 8) (drop 8 p) = take len p"
      using False take_add [of 8 "len - 8" p] by simp
    ultimately show ?thesis
      using False less.prems
      by (subst hash_str_loop.simps) (simp add: mm_crc32_u64_bytes flip: foldl_append)
  qed
qed

lemma cg_hash_str_crc:
  assumes "len \<le> length p"
  shows "cg_hash_str p len = Inr (ucast (crc32c (take len p)))"
  using hash_str_loop_crc [OF assms, of "0xFFFFFFFF"] by (simp add: cg_hash_str_def crc32c_def)

section \<open>Decimal numbers\<close>

text \<open>
  \<open>MULX\<close> leaves the high half of the 128-bit product; shifted by three it is the quotient by
  ten. The digits are stored from the end of the buffer towards its start: \<open>rcx\<close> is the
  offset of the last digit stored.
\<close>

definition mulx_hi :: "u64 \<Rightarrow> u64 \<Rightarrow> u64" where
  "mulx_hi a b = ucast (drop_bit 64 (ucast a * ucast b :: 128 word))"

function ntoa_loop :: "byte list \<Rightarrow> nat \<Rightarrow> u64 \<Rightarrow> (byte list \<times> nat) cres" where
  "ntoa_loop buf rcx rax =
     (let r8 = drop_bit 3 (mulx_hi 0xCCCCCCCCCCCCCCCD rax);
          r10 = r8 + r8 * 4;
          r9 = rax - (r10 + r10)
      in if rcx = 0 then Inl Out_Of_Bounds
         else cbind (buf_write buf (rcx - 1) [ucast r9 + 48])
           (\<lambda>buf'. if r8 \<noteq> 0 then ntoa_loop buf' (rcx - 1) r8 else Inr (buf', rcx - 1)))"
  by pat_completeness auto
termination
  by (relation "measure (\<lambda>(buf, rcx, rax). rcx)") auto

declare ntoa_loop.simps [simp del]

text \<open>The result: the buffer, the offset of the text in it, and its length.\<close>

definition cg_utoa :: "u64 \<Rightarrow> byte list \<Rightarrow> (byte list \<times> nat \<times> nat) cres" where
  "cg_utoa n buf =
     cbind (buf_write buf 20 [0]) (\<lambda>buf.
     cbind (ntoa_loop buf 20 n) (\<lambda>(buf, rcx). Inr (buf, rcx, 20 - rcx)))"

definition cg_itoa :: "u64 \<Rightarrow> byte list \<Rightarrow> (byte list \<times> nat \<times> nat) cres" where
  "cg_itoa n buf =
     (let rax = (if sint n < 0 then - n else n) in
      cbind (buf_write buf 20 [0]) (\<lambda>buf.
      cbind (ntoa_loop buf 20 rax) (\<lambda>(buf, rcx).
        if sint n < 0 then
          (if rcx = 0 then Inl Out_Of_Bounds
           else cbind (buf_write buf (rcx - 1) [45]) (\<lambda>buf. Inr (buf, rcx - 1, 20 - (rcx - 1))))
        else Inr (buf, rcx, 20 - rcx))))"

text \<open>The decimal digits of a number, and the number that digits denote.\<close>

fun dec :: "nat \<Rightarrow> byte list" where
  "dec n = (if n < 10 then [digit n] else dec (n div 10) @ [digit (n mod 10)])"

declare dec.simps [simp del]

definition dec_value :: "byte list \<Rightarrow> nat" where
  "dec_value ds = foldl (\<lambda>v d. v * 10 + (unat d - 48)) 0 ds"

lemma dec_step: "dec n = (if n < 10 then [] else dec (n div 10)) @ [digit (n mod 10)]"
  by (simp add: dec.simps [of n])

lemma length_dec_pos [simp]: "0 < length (dec n)"
  by (simp add: dec.simps [of n])

lemma dec_nonempty [simp]: "dec n \<noteq> []"
  using length_dec_pos [of n] by simp

lemma dec_value_snoc: "dec_value (ds @ [d]) = dec_value ds * 10 + (unat d - 48)"
  by (simp add: dec_value_def)

lemma dec_value_dec [simp]: "dec_value (dec n) = n"
proof (induction n rule: dec.induct)
  case (1 n)
  show ?case
  proof (cases "n < 10")
    case True
    then show ?thesis by (simp add: dec.simps [of n] dec_value_def unat_digit)
  next
    case False
    then show ?thesis by (simp add: dec.simps [of n] dec_value_snoc 1 unat_digit)
  qed
qed

lemma dec_digits: "d \<in> set (dec n) \<Longrightarrow> 48 \<le> unat d \<and> unat d \<le> 57"
proof (induction n rule: dec.induct)
  case (1 n)
  have "48 \<le> unat (digit (n mod 10)) \<and> unat (digit (n mod 10)) \<le> 57"
    by (simp add: unat_digit)
  with 1 show ?case by (auto simp: dec.simps [of n] split: if_splits)
qed

lemma dec_no_nul: "0 \<notin> set (dec n)"
  using dec_digits [of 0 n] by auto

lemma length_dec_le: "n < 10 ^ k \<Longrightarrow> 0 < k \<Longrightarrow> length (dec n) \<le> k"
proof (induction k arbitrary: n)
  case (Suc k)
  show ?case
  proof (cases "n < 10")
    case False
    then have "0 < k" and "n div 10 < 10 ^ k" using Suc.prems by (cases k; auto)+
    then show ?thesis using Suc.IH [of "n div 10"] False by (simp add: dec.simps [of n])
  qed (simp add: dec.simps [of n])
qed simp

lemma length_dec_ge: "10 ^ k \<le> n \<Longrightarrow> k < length (dec n)"
proof (induction k arbitrary: n)
  case (Suc k)
  have "(1::nat) \<le> 10 ^ k" by simp
  then have "\<not> n < 10" using Suc.prems unfolding power_Suc by linarith
  moreover have "10 ^ k \<le> n div 10" using Suc.prems by (simp add: less_eq_div_iff_mult_less_eq)
  ultimately show ?case using Suc.IH [of "n div 10"] by (simp add: dec.simps [of n])
qed simp

lemma length_dec_u64: "length (dec (unat (w :: u64))) \<le> 20"
  using unsigned_less [of w, where ?'a = nat] by (intro length_dec_le) simp_all

lemma length_dec_u32: "length (dec (unat (w :: u32))) \<le> 10"
  using unsigned_less [of w, where ?'a = nat] by (intro length_dec_le) simp_all

lemma mulx_quotient: "unat (drop_bit 3 (mulx_hi 0xCCCCCCCCCCCCCCCD rax)) = unat rax div 10"
proof -
  have x: "unat rax \<le> 18446744073709551615"
    using unsigned_less [of rax, where ?'a = nat] by simp
  have "unat (ucast (0xCCCCCCCCCCCCCCCD :: u64) * ucast rax :: 128 word)
      = 0xCCCCCCCCCCCCCCCD * unat rax"
    using x by (subst unat_mult_small) (simp_all add: unat_ucast_up)
  then have "unat (mulx_hi 0xCCCCCCCCCCCCCCCD rax) = 0xCCCCCCCCCCCCCCCD * unat rax div 2 ^ 64"
    using x unfolding mulx_hi_def by (subst unat_ucast_small) (simp_all add: unat_drop_bit_div)
  then have "unat (drop_bit 3 (mulx_hi 0xCCCCCCCCCCCCCCCD rax))
      = unat rax * 0xCCCCCCCCCCCCCCCD div 2 ^ 67"
    by (simp add: unat_drop_bit_div mult.commute flip: div_mult2_eq)
  also have "\<dots> = unat rax div 10"
    by (rule magic_div [where X = 18446744073709551615 and e = 2]) (use x in simp_all)
  finally show ?thesis .
qed

lemma ntoa_digit:
  fixes rax :: u64
  defines "q \<equiv> drop_bit 3 (mulx_hi 0xCCCCCCCCCCCCCCCD rax)"
  shows "ucast (rax - ((q + q * 4) + (q + q * 4))) + 48 = digit (unat rax mod 10)"
proof -
  have "(q + q * 4) + (q + q * 4) = 10 * q" by (simp add: algebra_simps)
  moreover have "unat (10 * q) = 10 * (unat rax div 10)"
    using unsigned_less [of rax, where ?'a = nat]
    by (subst unat_mult_small) (simp_all add: q_def mulx_quotient)
  moreover define t where "t = rax - ((q + q * 4) + (q + q * 4))"
  ultimately have "unat t = unat rax mod 10"
    by (simp add: unat_sub word_le_nat_alt minus_mult_div_eq_mod)
  then have u: "unat (ucast t :: byte) = unat rax mod 10"
    by (simp add: unat_ucast_mod)
  then have "unat ((ucast t :: byte) + 48) = unat rax mod 10 + 48"
    by (subst unat_add_small) simp_all
  then have "(ucast t :: byte) + 48 = digit (unat rax mod 10)"
    by (simp add: word_unat_eq_iff unat_digit)
  then show ?thesis by (simp only: t_def)
qed

lemma buf_splice_prepend:
  assumes "off + 1 + length xs \<le> length b"
  shows "buf_splice (buf_splice b (off + 1) xs) off [x] = buf_splice b off (x # xs)"
  using assms by (simp add: buf_splice_def min_def)

lemma ntoa_loop_dec:
  "length (dec (unat rax)) \<le> rcx \<Longrightarrow> rcx + length xs \<le> length buf \<Longrightarrow>
   ntoa_loop (buf_splice buf rcx xs) rcx rax =
     Inr (buf_splice buf (rcx - length (dec (unat rax))) (dec (unat rax) @ xs),
          rcx - length (dec (unat rax)))"
proof (induction rcx arbitrary: rax xs)
  case 0
  then show ?case by simp
next
  case (Suc rcx)
  let ?q = "drop_bit 3 (mulx_hi 0xCCCCCCCCCCCCCCCD rax)"
  let ?x = "digit (unat rax mod 10)"
  have w: "buf_write (buf_splice buf (Suc rcx) xs) rcx [?x] = Inr (buf_splice buf rcx (?x # xs))"
    using Suc.prems buf_splice_prepend [of rcx xs buf ?x] by (simp add: buf_write_ok)
  show ?case
  proof (cases "?q = 0")
    case True
    then have "unat rax < 10" using mulx_quotient [of rax] by simp
    then show ?thesis
      using w True ntoa_digit [of rax] by (simp add: ntoa_loop.simps [of _ "Suc rcx"] Let_def dec.simps [of "unat rax"])
  next
    case False
    then have ge: "\<not> unat rax < 10" using mulx_quotient [of rax] by (auto simp: unat_eq_zero)
    then have d: "dec (unat rax) = dec (unat ?q) @ [?x]"
      by (simp add: dec.simps [of "unat rax"] mulx_quotient)
    have "ntoa_loop (buf_splice buf rcx (?x # xs)) rcx ?q =
        Inr (buf_splice buf (rcx - length (dec (unat ?q))) (dec (unat ?q) @ ?x # xs),
             rcx - length (dec (unat ?q)))"
      using Suc.prems d by (intro Suc.IH) auto
    then show ?thesis
      using w False ntoa_digit [of rax] by (simp add: ntoa_loop.simps [of _ "Suc rcx"] Let_def d)
  qed
qed

text \<open>
  Twenty bytes hold every 64-bit number: the converter stays inside a buffer of 21 bytes and
  leaves the digits just before the terminator it put at offset 20.
\<close>

lemma cg_utoa_eq:
  assumes "21 \<le> length buf"
  shows "cg_utoa n buf =
    Inr (buf_splice buf (20 - length (dec (unat n))) (dec (unat n) @ [0]),
         20 - length (dec (unat n)), length (dec (unat n)))"
  using assms length_dec_u64 [of n] ntoa_loop_dec [of n 20 "[0]" buf]
  by (simp add: cg_utoa_def buf_write_ok)

lemma buf_splice_slice:
  "off + length xs \<le> length b \<Longrightarrow> n \<le> length xs \<Longrightarrow>
   take n (drop off (buf_splice b off xs)) = take n xs"
  by (simp add: buf_splice_def)

text \<open>The two routines that print a number to a file descriptor.\<close>

definition store_u64 :: "u64 \<Rightarrow> byte list" where
  "store_u64 w = map (\<lambda>i. ucast (drop_bit (8 * i) w)) [0..<8]"

text \<open>
  \<open>cg_write_uint\<close> pushes the descriptor and hands \<open>cg_utoa\<close> the address of that very
  push as its buffer: the eight saved bytes are the start of the buffer, and the descriptor is
  popped from there afterwards. The result is the descriptor and the bytes of the write call.
\<close>

definition cg_write_uint :: "u64 \<Rightarrow> u64 \<Rightarrow> (u64 \<times> byte list) cres" where
  "cg_write_uint n fd =
     cbind (cg_utoa n (store_u64 fd @ replicate 32 0))
       (\<lambda>(buf, p, len). cbind (buf_slice buf p len)
       (\<lambda>text. Inr (load_u64 (take 8 buf), text)))"

definition cg_write_int :: "u64 \<Rightarrow> u64 \<Rightarrow> (u64 \<times> byte list) cres" where
  "cg_write_int n fd =
     cbind (cg_itoa n (replicate 32 0))
       (\<lambda>(buf, p, len). cbind (buf_slice buf p len) (\<lambda>text. Inr (fd, text)))"

definition cg_puts :: "byte list \<Rightarrow> byte list cres" where
  "cg_puts s =
     cbind (cg_strlen s) (\<lambda>len.
     cbind (buf_slice s 0 len) (\<lambda>text.
     cbind (buf_write (replicate (len + 2) 0) 0 text) (\<lambda>new_str.
     cbind (buf_write new_str len [10]) (\<lambda>new_str.
     cbind (buf_write new_str (len + 1) [0]) (\<lambda>new_str.
       buf_slice new_str 0 (len + 1))))))"

end
