(* ===== verification/CG_Fastcgi.thy ===== *)
theory CG_Fastcgi
  imports CG_Mem CG_Text
begin

text \<open>
  The FastCGI record layer of \<open>src/core/cg_fastcgi.c\<close>: the parser of the incoming records, which
  keeps its state (the header it has already taken from the buffer) between two reads, and the
  writers of the outgoing ones. A pointer into the receive buffer is the part of the buffer
  that starts there, so an access past the end of the buffer is seen as such.
\<close>

section \<open>Data\<close>

record cg_fastcgi_header =
  hdr_version :: byte
  hdr_type :: byte
  hdr_request_id :: u16
  hdr_content_len :: u16
  hdr_padding_len :: byte
  hdr_reserved :: byte

record cg_client_req =
  uri :: "byte list"
  req_method :: "byte list"
  req_session_id :: "byte list"
  req_id :: u16
  keep_alive :: byte
  stdin_len :: u32
  stdin_buf :: "byte list"

text \<open>\<open>struct cg_buffer_metadata\<close> together with the buffer that its pointer refers to.\<close>

record cg_buffer_metadata =
  meta_buf :: "byte list"
  meta_len :: u32
  meta_valid :: u32
  meta_pos :: u32

datatype cg_fastcgi_state =
    CG_FASTCGI_STATE_ACCEPT_SQE
  | CG_FASTCGI_STATE_ACCEPT_CQE
  | CG_FASTCGI_STATE_ERROR

datatype cg_fastcgi_client_state =
    CG_FASTCGI_CLIENT_STATE_FREE
  | CG_FASTCGI_CLIENT_STATE_READ_SQE
  | CG_FASTCGI_CLIENT_STATE_READ_CQE
  | CG_FASTCGI_CLIENT_STATE_WRITE_SQE
  | CG_FASTCGI_CLIENT_STATE_WRITE_CQE
  | CG_FASTCGI_CLIENT_STATE_CLOSE_SQE
  | CG_FASTCGI_CLIENT_STATE_CLOSE_CQE

record cg_fastcgi_ctx =
  fctx_state :: cg_fastcgi_state
  sun_family :: u16
  sun_path :: "byte list"
  fctx_sockfd :: u32

record cg_fastcgi_client_ctx =
  fcli_state :: cg_fastcgi_client_state
  saved_hdr :: cg_fastcgi_header
  fcli_sockfd :: u32
  rx_buf_meta :: cg_buffer_metadata
  tx_buf_meta :: cg_buffer_metadata

abbreviation CG_FASTCGI_BEGIN_REQUEST :: byte where "CG_FASTCGI_BEGIN_REQUEST \<equiv> 1"
abbreviation CG_FASTCGI_END_REQUEST :: byte where "CG_FASTCGI_END_REQUEST \<equiv> 3"
abbreviation CG_FASTCGI_PARAMS :: byte where "CG_FASTCGI_PARAMS \<equiv> 4"
abbreviation CG_FASTCGI_STDIN :: byte where "CG_FASTCGI_STDIN \<equiv> 5"
abbreviation CG_FASTCGI_STDOUT :: byte where "CG_FASTCGI_STDOUT \<equiv> 6"

definition CG_FASTCGI_RECORD_MAX_SIZE :: nat where
  "CG_FASTCGI_RECORD_MAX_SIZE = 65790"

text \<open>Objects in memory are little-endian.\<close>

definition load_u16 :: "byte \<Rightarrow> byte \<Rightarrow> u16" where
  "load_u16 b0 b1 = ucast b0 OR push_bit 8 (ucast b1)"

definition store_u16 :: "u16 \<Rightarrow> byte list" where
  "store_u16 w = [ucast w, ucast (drop_bit 8 w)]"

definition bswap16 :: "u16 \<Rightarrow> u16" where
  "bswap16 w = push_bit 8 w OR drop_bit 8 w"

definition load_header :: "byte list \<Rightarrow> cg_fastcgi_header" where
  "load_header bs =
     \<lparr>hdr_version = bs ! 0, hdr_type = bs ! 1, hdr_request_id = load_u16 (bs ! 2) (bs ! 3),
      hdr_content_len = load_u16 (bs ! 4) (bs ! 5), hdr_padding_len = bs ! 6, hdr_reserved = bs ! 7\<rparr>"

definition store_header :: "cg_fastcgi_header \<Rightarrow> byte list" where
  "store_header h =
     [hdr_version h, hdr_type h] @ store_u16 (hdr_request_id h) @ store_u16 (hdr_content_len h) @
     [hdr_padding_len h, hdr_reserved h]"

section \<open>Initialisation\<close>

text \<open>
  \<open>sun_path\<close> has 108 bytes; the copied length comes from the environment and is not compared
  with it.
\<close>

definition cg_fastcgi_init :: "byte list \<Rightarrow> nat \<Rightarrow> cg_fastcgi_ctx \<Rightarrow> cg_fastcgi_ctx cres" where
  "cg_fastcgi_init fastcgi_sock fastcgi_sock_len ctx =
     cbind (buf_slice fastcgi_sock 0 fastcgi_sock_len) (\<lambda>path.
     cbind (buf_write (replicate 108 0) 0 path) (\<lambda>sp.
       Inr (ctx\<lparr>sun_family := 1, sun_path := sp\<rparr>)))"

definition cg_fastcgi_client_init :: "cg_fastcgi_client_ctx \<Rightarrow> cg_fastcgi_client_ctx" where
  "cg_fastcgi_client_init ctx =
     ctx\<lparr>fcli_state := CG_FASTCGI_CLIENT_STATE_FREE,
         fcli_sockfd := - 1,
         rx_buf_meta := (rx_buf_meta ctx)\<lparr>meta_len := 65790, meta_valid := 0, meta_pos := 0\<rparr>,
         tx_buf_meta := (tx_buf_meta ctx)\<lparr>meta_len := 65790, meta_valid := 0, meta_pos := 0\<rparr>\<rparr>"

section \<open>Incoming records\<close>

text \<open>The result: the length, and the offset after it.\<close>

definition cg_fastcgi_len :: "byte list \<Rightarrow> u32 \<Rightarrow> u32 \<Rightarrow> (u32 \<times> u32) cres" where
  "cg_fastcgi_len buf offset limit =
     (if limit \<le> offset then Inr (0, offset)
      else cbind (buf_read buf (unat offset)) (\<lambda>b.
        if b < 128 then Inr (ucast b, offset + 1)
        else if limit < offset + 4 then Inr (0, offset)
        else cbind (buf_slice buf (unat offset) 4) (\<lambda>bs.
          Inr (push_bit 24 (ucast (bs ! 0 AND 0x7f)) OR push_bit 16 (ucast (bs ! 1)) OR
               push_bit 8 (ucast (bs ! 2)) OR ucast (bs ! 3), offset + 4))))"

definition cg_fastcgi_handle_begin_request ::
  "cg_client_req \<Rightarrow> cg_fastcgi_header \<Rightarrow> byte list \<Rightarrow> cg_client_req cres" where
  "cg_fastcgi_handle_begin_request req hdr payload =
     cbind (buf_read payload 2) (\<lambda>flags.
     cbind (buf_write (stdin_buf req) 0 [0]) (\<lambda>sb.
     cbind (buf_write (req_session_id req) 0 [0]) (\<lambda>sid.
       Inr (req\<lparr>keep_alive := flags AND 1, req_id := hdr_request_id hdr, stdin_len := 0,
                stdin_buf := sb, req_session_id := sid\<rparr>))))"

text \<open>The first question mark among the copied bytes ends the path.\<close>

definition cut_query :: "byte list \<Rightarrow> nat \<Rightarrow> byte list" where
  "cut_query u clen =
     (case first_index (\<lambda>c. c = 63) (take clen u) of None \<Rightarrow> u | Some i \<Rightarrow> u[i := 0])"

definition copy_text :: "byte list \<Rightarrow> byte list \<Rightarrow> nat \<Rightarrow> byte list cres" where
  "copy_text dst src clen =
     cbind (buf_slice src 0 clen) (\<lambda>s.
     cbind (buf_write dst 0 s) (\<lambda>d. buf_write d clen [0]))"

function cookie_end :: "byte list \<Rightarrow> nat \<Rightarrow> nat \<Rightarrow> nat cres" where
  "cookie_end cookie v_len j =
     (if j < v_len then
        cbind (buf_read cookie j) (\<lambda>c. if c \<noteq> 59 then cookie_end cookie v_len (j + 1) else Inr j)
      else Inr j)"
  by pat_completeness auto
termination
  by (relation "measure (\<lambda>(cookie, v_len, j). v_len - j)") auto

declare cookie_end.simps [simp del]

function cookie_scan :: "byte list \<Rightarrow> byte list \<Rightarrow> nat \<Rightarrow> nat \<Rightarrow> byte list cres" where
  "cookie_scan sid cookie v_len i =
     (if i < v_len then
        cbind (if 8 \<le> v_len - i then cg_memcmp_avx2 (drop i cookie) (str ''SESSION='') 8 else Inr 1)
          (\<lambda>c. if c = 0 then
                 cbind (cookie_end cookie v_len (i + 8)) (\<lambda>j.
                 let clen = j - (i + 8); clen = (if clen > 31 then 31 else clen)
                 in copy_text sid (drop (i + 8) cookie) clen)
               else cookie_scan sid cookie v_len (i + 1))
      else Inr sid)"
  by pat_completeness auto
termination
  by (relation "measure (\<lambda>(sid, cookie, v_len, i). v_len - i)") auto

declare cookie_scan.simps [simp del]

text \<open>What one name-value pair does to the request.\<close>

definition params_pair :: "cg_client_req \<Rightarrow> byte list \<Rightarrow> u32 \<Rightarrow> byte list \<Rightarrow> u32 \<Rightarrow> cg_client_req cres"
  where
  "params_pair req name n_len val v_len =
     cbind (if n_len = 11 then cg_memcmp_avx2 name (str ''REQUEST_URI'') 11 else Inr 1) (\<lambda>is_uri.
     if is_uri = 0 then
       (let clen = (if v_len < 127 then unat v_len else 127) in
        cbind (copy_text (uri req) val clen) (\<lambda>u. Inr (req\<lparr>uri := cut_query u clen\<rparr>)))
     else
     cbind (if n_len = 14 then cg_memcmp_avx2 name (str ''REQUEST_METHOD'') 14 else Inr 1) (\<lambda>is_method.
     if is_method = 0 then
       (let clen = (if v_len < 15 then unat v_len else 15) in
        cbind (copy_text (req_method req) val clen) (\<lambda>m. Inr (req\<lparr>req_method := m\<rparr>)))
     else
     cbind (if n_len = 11 then cg_memcmp_avx2 name (str ''HTTP_COOKIE'') 11 else Inr 1) (\<lambda>is_cookie.
     if is_cookie = 0 then
       cbind (cookie_scan (req_session_id req) val (unat v_len) 0) (\<lambda>sid.
         Inr (req\<lparr>req_session_id := sid\<rparr>))
     else Inr req)))"

partial_function (option) params_loop ::
  "cg_client_req \<Rightarrow> byte list \<Rightarrow> u32 \<Rightarrow> u32 \<Rightarrow> cg_client_req cres option" where
  "params_loop req payload content_len p_off =
     (if p_off < content_len then
        (case cg_fastcgi_len payload p_off content_len of
           Inl e \<Rightarrow> Some (Inl e)
         | Inr (n_len, p1) \<Rightarrow>
             (case cg_fastcgi_len payload p1 content_len of
                Inl e \<Rightarrow> Some (Inl e)
              | Inr (v_len, p2) \<Rightarrow>
                  if content_len < p2 + n_len + v_len then Some (Inr req)
                  else
                    (case params_pair req (drop (unat p2) payload) n_len
                            (drop (unat (p2 + n_len)) payload) v_len of
                       Inl e \<Rightarrow> Some (Inl e)
                     | Inr req' \<Rightarrow> params_loop req' payload content_len (p2 + n_len + v_len))))
      else Some (Inr req))"

definition cg_fastcgi_handle_params :: "cg_client_req \<Rightarrow> byte list \<Rightarrow> u16 \<Rightarrow> cg_client_req cres" where
  "cg_fastcgi_handle_params req payload content_len =
     returns_or_diverges (params_loop req payload (ucast content_len) 0)"

text \<open>The return value 0 is \<open>CG_FASTCGI_STATUS_READY\<close>.\<close>

definition cg_fastcgi_handle_stdin :: "cg_client_req \<Rightarrow> u16 \<Rightarrow> byte list \<Rightarrow> (cg_client_req \<times> int) cres"
  where
  "cg_fastcgi_handle_stdin req content_len payload =
     (if content_len = 0 then Inr (req, 0)
      else if stdin_len req + ucast content_len < 4096 then
        cbind (buf_slice payload 0 (unat content_len)) (\<lambda>bs.
        cbind (buf_write (stdin_buf req) (unat (stdin_len req)) bs) (\<lambda>sb.
        let n = stdin_len req + ucast content_len in
        cbind (buf_write sb (unat n) [0]) (\<lambda>sb.
          Inr (req\<lparr>stdin_len := n, stdin_buf := sb\<rparr>, 1))))
      else Inr (req, 1))"

text \<open>
  One iteration of the parser: \<open>None\<close> for the next iteration, \<open>Some\<close> for a return with its
  value.
\<close>

definition parse_step ::
  "cg_buffer_metadata \<Rightarrow> cg_client_req \<Rightarrow> cg_fastcgi_header \<Rightarrow>
   (cg_buffer_metadata \<times> cg_client_req \<times> cg_fastcgi_header \<times> int option) cres" where
  "parse_step meta req hdr =
     (if hdr_type hdr = 0 \<and> meta_valid meta - meta_pos meta < 8 then Inr (meta, req, hdr, Some 1)
      else
        cbind (if hdr_type hdr = 0 then
                 cbind (buf_slice (meta_buf meta) (unat (meta_pos meta)) 8) (\<lambda>bs.
                   Inr (load_header bs, meta\<lparr>meta_pos := meta_pos meta + 8\<rparr>))
               else Inr (hdr, meta)) (\<lambda>(hdr, meta).
        let content_len = bswap16 (hdr_content_len hdr);
            total_payload = ucast content_len + ucast (hdr_padding_len hdr) :: u32
        in if meta_valid meta - meta_pos meta < total_payload then Inr (meta, req, hdr, Some 1)
        else
          let payload = drop (unat (meta_pos meta)) (meta_buf meta);
              hdr0 = hdr\<lparr>hdr_type := 0\<rparr>; meta' = meta\<lparr>meta_pos := meta_pos meta + total_payload\<rparr>
          in
          if hdr_type hdr = CG_FASTCGI_BEGIN_REQUEST then
            cbind (cg_fastcgi_handle_begin_request req hdr payload) (\<lambda>req. Inr (meta', req, hdr0, None))
          else if hdr_type hdr = CG_FASTCGI_PARAMS then
            cbind (cg_fastcgi_handle_params req payload content_len) (\<lambda>req. Inr (meta', req, hdr0, None))
          else if hdr_type hdr = CG_FASTCGI_STDIN then
            cbind (cg_fastcgi_handle_stdin req content_len payload) (\<lambda>(req, status).
              Inr (meta', req, hdr0, if status = 0 then Some 0 else None))
          else Inr (meta', req, hdr0, None)))"

partial_function (option) parse_loop ::
  "cg_buffer_metadata \<Rightarrow> cg_client_req \<Rightarrow> cg_fastcgi_header \<Rightarrow>
   (cg_buffer_metadata \<times> cg_client_req \<times> cg_fastcgi_header \<times> int) cres option" where
  "parse_loop meta req hdr =
     (if meta_pos meta < meta_valid meta then
        (case parse_step meta req hdr of
           Inl e \<Rightarrow> Some (Inl e)
         | Inr (meta', req', hdr', Some status) \<Rightarrow> Some (Inr (meta', req', hdr', status))
         | Inr (meta', req', hdr', None) \<Rightarrow> parse_loop meta' req' hdr')
      else Some (Inr (meta, req, hdr, 1)))"

definition cg_fastcgi_parse ::
  "cg_buffer_metadata \<Rightarrow> cg_client_req \<Rightarrow> cg_fastcgi_header \<Rightarrow>
   (cg_buffer_metadata \<times> cg_client_req \<times> cg_fastcgi_header \<times> int) cres" where
  "cg_fastcgi_parse meta req hdr = returns_or_diverges (parse_loop meta req hdr)"

section \<open>Outgoing records\<close>

definition cg_fastcgi_stdout ::
  "cg_buffer_metadata \<Rightarrow> u16 \<Rightarrow> byte list \<Rightarrow> u32 \<Rightarrow> cg_buffer_metadata cres" where
  "cg_fastcgi_stdout tx request_id http_resp resp_len =
     (if unat (meta_len tx) < unat (meta_valid tx) + 8 + unat resp_len then Inr tx
      else
        let hdr = \<lparr>hdr_version = 1, hdr_type = CG_FASTCGI_STDOUT, hdr_request_id = bswap16 request_id,
                   hdr_content_len = bswap16 (ucast resp_len), hdr_padding_len = 0, hdr_reserved = 0\<rparr>
        in cbind (buf_write (meta_buf tx) (unat (meta_valid tx)) (store_header hdr)) (\<lambda>b.
           let tx = tx\<lparr>meta_buf := b, meta_valid := meta_valid tx + 8\<rparr> in
           if 0 < resp_len then
             cbind (buf_slice http_resp 0 (unat resp_len)) (\<lambda>s.
             cbind (buf_write (meta_buf tx) (unat (meta_valid tx)) s) (\<lambda>b.
               Inr (tx\<lparr>meta_buf := b, meta_valid := meta_valid tx + resp_len\<rparr>)))
           else Inr tx))"

definition cg_fastcgi_end :: "cg_buffer_metadata \<Rightarrow> u16 \<Rightarrow> cg_buffer_metadata cres" where
  "cg_fastcgi_end tx request_id =
     (if unat (meta_len tx) < unat (meta_valid tx) + 8 + 8 then Inr tx
      else
        cbind (cg_fastcgi_stdout tx request_id [] 0) (\<lambda>tx.
        let hdr = \<lparr>hdr_version = 1, hdr_type = CG_FASTCGI_END_REQUEST,
                   hdr_request_id = bswap16 request_id, hdr_content_len = bswap16 8,
                   hdr_padding_len = 0, hdr_reserved = 0\<rparr>
        in cbind (buf_write (meta_buf tx) (unat (meta_valid tx)) (store_header hdr)) (\<lambda>b.
           let tx = tx\<lparr>meta_buf := b, meta_valid := meta_valid tx + 8\<rparr> in
           cbind (buf_write (meta_buf tx) (unat (meta_valid tx)) (replicate 8 0)) (\<lambda>b.
             Inr (tx\<lparr>meta_buf := b, meta_valid := meta_valid tx + 8\<rparr>)))))"

section \<open>Lengths\<close>

definition enc_len :: "u32 \<Rightarrow> byte list" where
  "enc_len n =
     (if n < 128 then [ucast n]
      else [0x80 OR ucast (drop_bit 24 n), ucast (drop_bit 16 n), ucast (drop_bit 8 n), ucast n])"

lemma bit_0x80: "bit (0x80 :: byte) i \<longleftrightarrow> i = 7" "bit (0x80 :: int) i \<longleftrightarrow> i = 7"
proof -
  have e: "(0x80 :: byte) = push_bit 7 1" "(0x80 :: int) = push_bit 7 1" by simp_all
  show "bit (0x80 :: byte) i \<longleftrightarrow> i = 7" "bit (0x80 :: int) i \<longleftrightarrow> i = 7"
    unfolding e bit_push_bit_iff bit_1_iff by auto
qed

lemma bit_0x7f: "bit (0x7f :: byte) i \<longleftrightarrow> i < 7" "bit (0x7f :: int) i \<longleftrightarrow> i < 7"
proof -
  have e: "(0x7f :: byte) = mask 7" "(0x7f :: int) = mask 7" by (simp_all add: mask_eq_exp_minus_1)
  show "bit (0x7f :: byte) i \<longleftrightarrow> i < 7" "bit (0x7f :: int) i \<longleftrightarrow> i < 7"
    unfolding e bit_mask_iff by auto
qed

lemma len_bytes:
  assumes "(n :: u32) < 0x80000000"
  shows "push_bit 24 (ucast ((0x80 OR ucast (drop_bit 24 n) :: byte) AND 0x7f)) OR
    push_bit 16 (ucast (ucast (drop_bit 16 n) :: byte)) OR
    push_bit 8 (ucast (ucast (drop_bit 8 n) :: byte)) OR ucast (ucast n :: byte) = n"
proof -
  have "unat n < 2 ^ 31" using assms by (simp add: word_less_nat_alt)
  then have "take_bit 31 n = n"
    by (simp add: word_unat_eq_iff unsigned_take_bit_eq take_bit_nat_eq_self)
  then have top: "\<not> bit n 31" using bit_take_bit_iff [of 31 n 31] by simp
  have c: "(0x80 OR ucast (drop_bit 24 n) :: byte) AND 0x7f = ucast (take_bit 7 (drop_bit 24 n))"
    by (rule bit_word_eqI) (auto simp: bit_simps bit_0x80 bit_0x7f)
  show ?thesis unfolding c
  proof (rule bit_word_eqI)
    fix i assume i: "i < LENGTH(32)"
    consider "i < 8" | "8 \<le> i" "i < 16" | "16 \<le> i" "i < 24" | "24 \<le> i" "i < 31" | "i = 31"
      using i by fastforce
    then show "bit (push_bit 24 (ucast (ucast (take_bit 7 (drop_bit 24 n)) :: byte)) OR
        push_bit 16 (ucast (ucast (drop_bit 16 n) :: byte)) OR
        push_bit 8 (ucast (ucast (drop_bit 8 n) :: byte)) OR ucast (ucast n :: byte) :: u32) i = bit n i"
      using top by cases (auto simp: bit_simps)
  qed
qed

lemma unat_length_small:
  assumes "unat (n :: u32) + 4 < 2 ^ 32"
  shows "unat (n + 4) = unat n + 4" "unat (n + 1) = unat n + 1"
  using assms by (subst unat_add_small; simp)+

lemma fastcgi_len_enc:
  assumes "drop (unat off) buf = enc_len n @ rest" and "n < 0x80000000"
    and "unat off + length (enc_len n) \<le> unat limit" and "unat limit < 2 ^ 31"
  shows "cg_fastcgi_len buf off limit = Inr (n, off + word_of_nat (length (enc_len n)))"
proof (cases "n < 128")
  case True
  then have u: "unat n < 128" by (simp add: word_less_nat_alt)
  then have n: "ucast (ucast n :: byte) = n" "(ucast n :: byte) < 128"
    by (simp_all add: word_unat_eq_iff word_less_nat_alt unat_ucast_small unat_ucast_up)
  have e: "enc_len n = [ucast n]" using True by (simp add: enc_len_def)
  have d: "drop (unat off) buf = ucast n # rest" using assms(1) e by simp
  then have i: "unat off < length buf" by (metis drop_all linorder_not_less neq_Nil_conv)
  then have r: "buf ! unat off = ucast n" using d Cons_nth_drop_Suc [OF i] by simp
  have "\<not> limit \<le> off" using assms(3) e by (simp add: word_le_nat_alt)
  then show ?thesis using i r n e by (simp add: cg_fastcgi_len_def buf_read_def)
next
  case False
  define b0 where "b0 = (0x80 OR ucast (drop_bit 24 n) :: byte)"
  have e: "enc_len n = [b0, ucast (drop_bit 16 n), ucast (drop_bit 8 n), ucast n]"
    using False by (simp add: enc_len_def b0_def)
  have "b0 AND 0x80 = 0x80"
    unfolding b0_def by (intro bit_word_eqI) (auto simp: bit_simps bit_0x80)
  then have "\<not> b0 < 128" using word_and_le2 [of b0 "0x80"] word_and_le1 [of b0 "0x80"]
    by (metis not_less)
  moreover have d: "drop (unat off) buf = b0 # ucast (drop_bit 16 n) # ucast (drop_bit 8 n) # ucast n # rest"
    using assms(1) e by simp
  then have "length (drop (unat off) buf) = 4 + length rest" by simp
  then have l: "unat off + 4 \<le> length buf" by simp
  then have "buf ! unat off = b0"
    using d Cons_nth_drop_Suc [of "unat off" buf] by simp
  moreover have o4: "unat (off + 4) = unat off + 4"
    using assms(3,4) e by (intro unat_length_small) simp
  moreover have "\<not> limit \<le> off" "\<not> limit < off + 4"
    using assms(3) e by (simp_all add: word_le_nat_alt word_less_nat_alt o4)
  moreover have "take 4 (drop (unat off) buf) = enc_len n" using d e by simp
  ultimately show ?thesis
    using l e len_bytes [OF assms(2)]
    by (simp add: cg_fastcgi_len_def buf_read_def buf_slice_def b0_def)
qed

section \<open>What the parameters of a request mean\<close>

text \<open>
  The texts that the handlers see, and what a pair does to them: the path of the request
  without its query, the req_method, and the value of the session cookie.
\<close>

definition req_shape :: "cg_client_req \<Rightarrow> bool" where
  "req_shape req \<longleftrightarrow> length (uri req) = 128 \<and> length (req_method req) = 16 \<and>
     length (req_session_id req) = 32 \<and> length (stdin_buf req) = 4096 \<and>
     has_nul (uri req) \<and> has_nul (req_method req) \<and> has_nul (req_session_id req) \<and>
     unat (stdin_len req) < 4096 \<and> stdin_buf req ! unat (stdin_len req) = 0"

type_synonym req_view = "byte list \<times> byte list \<times> byte list"

definition view_req :: "cg_client_req \<Rightarrow> req_view" where
  "view_req req = (cstr (uri req), cstr (req_method req), cstr (req_session_id req))"

definition cookie_value :: "byte list \<Rightarrow> byte list option" where
  "cookie_value v =
     map_option (\<lambda>i. cstr (take 31 (takeWhile (\<lambda>c. c \<noteq> 59) (drop (i + 8) v))))
       (find (\<lambda>i. take 8 (drop i v) = str ''SESSION='') [0..<length v])"

fun view_pair :: "byte list \<times> byte list \<Rightarrow> req_view \<Rightarrow> req_view" where
  "view_pair (n, v) (u, m, s) =
     (if n = str ''REQUEST_URI'' then (takeWhile (\<lambda>c. c \<noteq> 0 \<and> c \<noteq> 63) (take 127 v), m, s)
      else if n = str ''REQUEST_METHOD'' then (u, cstr (take 15 v), s)
      else if n = str ''HTTP_COOKIE'' then (u, m, case cookie_value v of None \<Rightarrow> s | Some c \<Rightarrow> c)
      else (u, m, s))"

lemma copy_text_ok:
  assumes "clen \<le> length src" and "clen < length dst"
  shows "\<exists>d. copy_text dst src clen = Inr d \<and> length d = length dst \<and>
    take clen d = take clen src \<and> d ! clen = 0"
proof -
  let ?s = "take clen src"
  define d1 where "d1 = buf_splice dst 0 ?s"
  have ls: "length ?s = clen" using assms(1) by simp
  have l1: "length d1 = length dst" using assms(2) by (simp add: d1_def ls)
  define d where "d = buf_splice d1 clen [0]"
  have w: "copy_text dst src clen = Inr d"
    using assms ls l1 by (simp add: copy_text_def buf_in_bounds d1_def d_def)
  have "take clen d1 = ?s" using take_buf_splice [of 0 ?s dst] assms(2) ls by (simp add: d1_def)
  then have t: "take clen d = ?s"
    using take_buf_splice_before [of clen clen d1 "[0]"] assms(2) l1 by (simp add: d_def)
  have "d ! clen = 0" using nth_buf_splice [of clen "[0]" d1 clen] assms(2) l1 by (simp add: d_def)
  then show ?thesis using w t l1 assms(2) by (intro exI [of _ d]) (simp add: d_def)
qed

lemma cstr_of_take:
  assumes "d ! clen = 0" and "clen < length d"
  shows "cstr d = cstr (take clen d)"
proof -
  have "d = take clen d @ 0 # drop (Suc clen) d"
    using id_take_nth_drop [OF assms(2)] assms(1) by simp
  then show ?thesis unfolding cstr_def
    by (metis (mono_tags, lifting) takeWhile_append takeWhile_tail)
qed

lemma has_nul_at: "d ! k = 0 \<Longrightarrow> k < length d \<Longrightarrow> has_nul d"
  by (metis nth_mem)

lemma cut_query_cstr:
  assumes "d ! clen = 0" and "clen < length d"
  shows "cstr (cut_query d clen) = takeWhile (\<lambda>c. c \<noteq> 0 \<and> c \<noteq> 63) (take clen d)"
    and "length (cut_query d clen) = length d" and "has_nul (cut_query d clen)"
proof -
  show "length (cut_query d clen) = length d" by (simp add: cut_query_def split: option.split)
  show "has_nul (cut_query d clen)"
  proof (cases "first_index (\<lambda>c. c = 63) (take clen d)")
    case None
    then show ?thesis using has_nul_at [OF assms] by (simp add: cut_query_def)
  next
    case (Some i)
    then have "i < length d" by (simp add: first_index_Some)
    then show ?thesis using Some has_nul_at [of "d[i := 0]" i] by (simp add: cut_query_def)
  qed
  show "cstr (cut_query d clen) = takeWhile (\<lambda>c. c \<noteq> 0 \<and> c \<noteq> 63) (take clen d)"
  proof (cases "first_index (\<lambda>c. c = 63) (take clen d)")
    case None
    then have "\<forall>c \<in> set (take clen d). c \<noteq> 63" by (simp add: first_index_None)
    then have "takeWhile (\<lambda>c. c \<noteq> 0 \<and> c \<noteq> 63) (take clen d) = cstr (take clen d)"
      unfolding cstr_def by (intro takeWhile_cong) auto
    then show ?thesis using None cstr_of_take [OF assms] by (simp add: cut_query_def)
  next
    case (Some i)
    then have i: "i < clen" "i < length d" "d ! i = 63" "\<forall>j < i. d ! j \<noteq> 63"
      using assms(2) by (auto simp: first_index_Some)
    have "cstr (d[i := 0]) = cstr (take i d)"
      using cstr_of_take [of "d[i := 0]" i] i(2) by simp
    also have "\<dots> = takeWhile (\<lambda>c. c \<noteq> 0 \<and> c \<noteq> 63) (take i d)"
      unfolding cstr_def using i(2,4) by (intro takeWhile_cong) (auto simp: in_set_conv_nth)
    also have "\<dots> = takeWhile (\<lambda>c. c \<noteq> 0 \<and> c \<noteq> 63) (take clen d)"
    proof -
      have "take clen d = take i d @ 63 # drop (Suc i) (take clen d)"
        using id_take_nth_drop [of i "take clen d"] i by (simp add: min_def)
      then show ?thesis by (metis (mono_tags, lifting) takeWhile_append takeWhile_tail)
    qed
    finally show ?thesis using Some by (simp add: cut_query_def)
  qed
qed

lemma memcmp_text:
  assumes "length s = n" and "n \<le> length p"
  shows "\<exists>c. cg_memcmp_avx2 p (str s) n = Inr c \<and> (c = 0 \<longleftrightarrow> take n p = str s)"
  using memcmp_bytes_zero [of n p "str s"] assms
  by (simp add: cg_memcmp_avx2_bytes)

lemma cookie_end_eq:
  assumes "v_len \<le> length cookie" and "j \<le> v_len"
  shows "cookie_end cookie v_len j =
    Inr (j + length (takeWhile (\<lambda>c. c \<noteq> 59) (take (v_len - j) (drop j cookie))))"
  using assms(2)
proof (induction "v_len - j" arbitrary: j)
  case 0
  then show ?case by (subst cookie_end.simps) simp
next
  case (Suc k)
  then have j: "j < v_len" by simp
  have IH: "cookie_end cookie v_len (Suc j) =
      Inr (Suc j + length (takeWhile (\<lambda>c. c \<noteq> 59) (take (v_len - Suc j) (drop (Suc j) cookie))))"
    using Suc by (intro Suc.hyps(1)) auto
  have "take (v_len - j) (drop j cookie) = cookie ! j # take (v_len - Suc j) (drop (Suc j) cookie)"
    using j assms(1) by (simp add: Cons_nth_drop_Suc [symmetric] Suc_diff_Suc flip: take_Suc_Cons)
  then show ?case using j IH assms(1) by (subst cookie_end.simps) (simp add: buf_read_ok)
qed

lemma cookie_scan_eq:
  assumes "v_len \<le> length cookie" and "length sid = 32" "has_nul sid" and "i \<le> v_len"
  shows "\<exists>sid'. cookie_scan sid cookie v_len i = Inr sid' \<and> length sid' = 32 \<and>
    has_nul sid' \<and> cstr sid' = (case find (\<lambda>i. take 8 (drop i (take v_len cookie)) = str ''SESSION='') [i..<v_len] of
      None \<Rightarrow> cstr sid
    | Some k \<Rightarrow> cstr (take 31 (takeWhile (\<lambda>c. c \<noteq> 59) (drop (k + 8) (take v_len cookie)))))"
  using assms(4)
proof (induction "v_len - i" arbitrary: i)
  case 0
  then show ?case using assms(2,3) by (subst cookie_scan.simps) simp
next
  case (Suc k)
  then have i: "i < v_len" by simp
  let ?v = "take v_len cookie"
  have upt: "[i..<v_len] = i # [Suc i..<v_len]" using i by (rule upt_conv_Cons)
  have IH: "\<exists>sid'. cookie_scan sid cookie v_len (Suc i) = Inr sid' \<and> length sid' = 32 \<and>
      has_nul sid' \<and> cstr sid' = (case find (\<lambda>i. take 8 (drop i ?v) = str ''SESSION='') [Suc i..<v_len] of
        None \<Rightarrow> cstr sid | Some k \<Rightarrow> cstr (take 31 (takeWhile (\<lambda>c. c \<noteq> 59) (drop (k + 8) ?v))))"
    using Suc by (intro Suc.hyps(1)) auto
  show ?case
  proof (cases "take 8 (drop i ?v) = str ''SESSION=''")
    case True
    then have "length (take 8 (drop i ?v)) = 8" by simp
    then have room: "8 \<le> v_len - i" using assms(1) by simp
    then have "take 8 (drop i cookie) = str ''SESSION=''" using True assms(1) by (simp add: drop_take)
    then have cmp: "cg_memcmp_avx2 (drop i cookie) (str ''SESSION='') 8 = Inr 0"
      using memcmp_text [of "''SESSION=''" 8 "drop i cookie"] room assms(1) by auto
    define w where "w = takeWhile (\<lambda>c. c \<noteq> 59) (drop (i + 8) ?v)"
    define clen where "clen = (if length w > 31 then 31 else length w)"
    have wd: "take (v_len - (i + 8)) (drop (i + 8) cookie) = drop (i + 8) ?v"
      using assms(1) by (simp add: drop_take)
    have "length w \<le> length (drop (i + 8) ?v)" unfolding w_def by (rule length_takeWhile_le)
    then have lw: "length w \<le> length (drop (i + 8) cookie)" using assms(1) by simp
    then have cl: "clen \<le> length (drop (i + 8) cookie)" "clen < length sid"
      using assms(2) by (simp_all add: clen_def)
    then obtain d where d: "copy_text sid (drop (i + 8) cookie) clen = Inr d" "length d = length sid"
        "take clen d = take clen (drop (i + 8) cookie)" "d ! clen = 0"
      using copy_text_ok by blast
    have "take (length w) (drop (i + 8) ?v) = w"
      unfolding w_def by (metis takeWhile_eq_take)
    then have "take clen (drop (i + 8) ?v) = take 31 w"
      by (cases "length w > 31") (auto simp: clen_def min_def dest: arg_cong [of _ _ "take 31"])
    moreover have "clen \<le> v_len - (i + 8)"
      using \<open>length w \<le> length (drop (i + 8) ?v)\<close> assms(1) by (simp add: clen_def split: if_splits)
    then have "take clen (drop (i + 8) ?v) = take clen (drop (i + 8) cookie)"
      by (simp add: drop_take min_def)
    ultimately have "cstr d = cstr (take 31 w)"
      using cstr_of_take [OF d(4)] cl(2) d(2,3) by simp
    moreover have ce: "cookie_end cookie v_len (i + 8) = Inr (i + 8 + length w)"
      using cookie_end_eq [of v_len cookie "i + 8"] room assms(1) i wd by (simp add: w_def)
    have "cookie_scan sid cookie v_len i = Inr d"
      using i room cmp d(1) ce
      by (subst cookie_scan.simps) (cases "31 < length w"; simp add: Let_def clen_def)
    moreover have "has_nul d" using d(2,4) cl(2) by (intro has_nul_at [of d clen]) simp_all
    ultimately show ?thesis using d(2) assms(2) upt True by (simp add: w_def)
  next
    case False
    have "\<exists>c. (if 8 \<le> v_len - i then cg_memcmp_avx2 (drop i cookie) (str ''SESSION='') 8 else Inr 1) = Inr c
        \<and> c \<noteq> 0"
    proof (cases "8 \<le> v_len - i")
      case True
      then have "take 8 (drop i ?v) = take 8 (drop i cookie)" by (simp add: drop_take)
      then show ?thesis
        using memcmp_text [of "''SESSION=''" 8 "drop i cookie"] True False assms(1) by auto
    qed simp
    then have "cookie_scan sid cookie v_len i = cookie_scan sid cookie v_len (Suc i)"
      using i by (subst cookie_scan.simps) auto
    then show ?thesis using IH upt False by simp
  qed
qed

text \<open>A pair has its abstract effect on the texts of the request.\<close>

lemma params_pair_view:
  assumes shape: "req_shape req" and n: "unat n_len \<le> length name" and v: "unat v_len \<le> length val"
  shows "\<exists>req'. params_pair req name n_len val v_len = Inr req' \<and> req_shape req' \<and>
    view_req req' = view_pair (take (unat n_len) name, take (unat v_len) val) (view_req req)"
proof -
  let ?n = "take (unat n_len) name" and ?v = "take (unat v_len) val"
  have cmp: "\<exists>c. (if n_len = k then cg_memcmp_avx2 name (str s) l else Inr 1) = Inr c \<and>
      (c = 0 \<longleftrightarrow> ?n = str s)" if k: "unat k = l" "length s = l" for k s l
  proof (cases "n_len = k")
    case True
    then show ?thesis using memcmp_text [of s l name] n k by simp
  next
    case False
    then have "unat n_len \<noteq> length s" using k by (simp add: word_unat_eq_iff)
    then have "?n \<noteq> str s" using n by (metis length_str length_take min_absorb2)
    then show ?thesis using False by simp
  qed
  obtain cu where cu: "(if n_len = 11 then cg_memcmp_avx2 name (str ''REQUEST_URI'') 11 else Inr 1) = Inr cu"
      "cu = 0 \<longleftrightarrow> ?n = str ''REQUEST_URI''"
    using cmp [of 11 11 "''REQUEST_URI''"] by auto
  obtain cm where cm: "(if n_len = 14 then cg_memcmp_avx2 name (str ''REQUEST_METHOD'') 14 else Inr 1) = Inr cm"
      "cm = 0 \<longleftrightarrow> ?n = str ''REQUEST_METHOD''"
    using cmp [of 14 14 "''REQUEST_METHOD''"] by auto
  obtain cc where cc: "(if n_len = 11 then cg_memcmp_avx2 name (str ''HTTP_COOKIE'') 11 else Inr 1) = Inr cc"
      "cc = 0 \<longleftrightarrow> ?n = str ''HTTP_COOKIE''"
    using cmp [of 11 11 "''HTTP_COOKIE''"] by auto
  show ?thesis
  proof (cases "?n = str ''REQUEST_URI''")
    case True
    define clen where "clen = (if v_len < 127 then unat v_len else 127)"
    have clen: "clen = min 127 (unat v_len)" by (simp add: clen_def word_less_nat_alt)
    then have "clen \<le> length val" "clen < length (uri req)"
      using v shape by (simp_all add: req_shape_def)
    then obtain d where d: "copy_text (uri req) val clen = Inr d" "length d = length (uri req)"
        "take clen d = take clen val" "d ! clen = 0" "clen < length d"
      using copy_text_ok [of clen val "uri req"] by auto
    have "take clen val = take 127 ?v" by (simp add: clen min.commute)
    then have "cstr (cut_query d clen) = takeWhile (\<lambda>c. c \<noteq> 0 \<and> c \<noteq> 63) (take 127 ?v)"
      using cut_query_cstr(1) [OF d(4,5)] d(3) by simp
    moreover have "params_pair req name n_len val v_len = Inr (req\<lparr>uri := cut_query d clen\<rparr>)"
      unfolding params_pair_def cu(1) using cu(2) True d(1) by (simp add: clen_def)
    ultimately show ?thesis
      using True shape cut_query_cstr(2,3) [OF d(4,5)] d(2) by (simp add: req_shape_def view_req_def)
  next
    case nu: False
    show ?thesis
    proof (cases "?n = str ''REQUEST_METHOD''")
      case True
      define clen where "clen = (if v_len < 15 then unat v_len else 15)"
      have clen: "clen = min 15 (unat v_len)" by (simp add: clen_def word_less_nat_alt)
      then have "clen \<le> length val" "clen < length (req_method req)"
        using v shape by (simp_all add: req_shape_def)
      then obtain d where d: "copy_text (req_method req) val clen = Inr d" "length d = length (req_method req)"
          "take clen d = take clen val" "d ! clen = 0" "clen < length d"
        using copy_text_ok [of clen val "req_method req"] by auto
      have "take clen val = take 15 ?v" by (simp add: clen min.commute)
      then have "cstr d = cstr (take 15 ?v)" using cstr_of_take [OF d(4,5)] d(3) by simp
      moreover have "params_pair req name n_len val v_len = Inr (req\<lparr>req_method := d\<rparr>)"
        unfolding params_pair_def cu(1) cm(1) using cu(2) cm(2) nu True d(1) by (simp add: clen_def)
      moreover have "has_nul d" by (rule has_nul_at [OF d(4,5)])
      ultimately show ?thesis using True shape d(2) by (simp add: req_shape_def view_req_def str_def)
    next
      case nm: False
      show ?thesis
      proof (cases "?n = str ''HTTP_COOKIE''")
        case True
        obtain sid where sid: "cookie_scan (req_session_id req) val (unat v_len) 0 = Inr sid"
            "length sid = 32" "has_nul sid"
            "cstr sid = (case cookie_value ?v of None \<Rightarrow> cstr (req_session_id req) | Some c \<Rightarrow> c)"
        proof -
          have "length ?v = unat v_len" using v by simp
          then have "(case cookie_value ?v of None \<Rightarrow> cstr (req_session_id req) | Some c \<Rightarrow> c) =
              (case find (\<lambda>i. take 8 (drop i ?v) = str ''SESSION='') [0..<unat v_len] of
                None \<Rightarrow> cstr (req_session_id req)
              | Some k \<Rightarrow> cstr (take 31 (takeWhile (\<lambda>c. c \<noteq> 59) (drop (k + 8) ?v))))"
            unfolding cookie_value_def by (simp split: option.split)
          then show thesis
            using cookie_scan_eq [of "unat v_len" val "req_session_id req" 0] v shape that
            by (auto simp: req_shape_def)
        qed
        have "params_pair req name n_len val v_len = Inr (req\<lparr>req_session_id := sid\<rparr>)"
          unfolding params_pair_def cu(1) cm(1) cc(1) using cu(2) cm(2) cc(2) nu nm True sid(1) by simp
        then show ?thesis using True nu nm shape sid(2-4) by (simp add: req_shape_def view_req_def str_def)
      next
        case False
        have "params_pair req name n_len val v_len = Inr req"
          unfolding params_pair_def cu(1) cm(1) cc(1) using cu(2) cm(2) cc(2) nu nm False by simp
        then show ?thesis using nu nm False shape by (simp add: view_req_def)
      qed
    qed
  qed
qed

section \<open>The parameters of a record\<close>

text \<open>The encoding of a list of pairs, as the server sends it.\<close>

definition enc_pair :: "byte list \<times> byte list \<Rightarrow> byte list" where
  "enc_pair p = enc_len (word_of_nat (length (fst p))) @ enc_len (word_of_nat (length (snd p))) @
     fst p @ snd p"

definition enc_pairs :: "(byte list \<times> byte list) list \<Rightarrow> byte list" where
  "enc_pairs ps = concat (map enc_pair ps)"

lemma enc_len_pos [simp]: "0 < length (enc_len n)"
  by (simp add: enc_len_def)

lemma length_enc_len_le: "length (enc_len n) \<le> 4"
  by (simp add: enc_len_def)

lemma unat_off_add:
  assumes "unat (off :: u32) + n \<le> m" and "m < 2 ^ 31"
  shows "unat (off + word_of_nat n) = unat off + n"
  using assms by (subst unat_add_small) (simp_all add: unat_of_nat)

lemma params_loop_pairs:
  assumes "req_shape req" and "drop (unat off) payload = enc_pairs ps @ rest"
    and "unat off + length (enc_pairs ps) \<le> unat cl" and "unat cl < 2 ^ 31" and "unat cl \<le> length payload"
  shows "\<exists>req' off'. params_loop req payload cl off = params_loop req' payload cl off' \<and> req_shape req' \<and>
    view_req req' = fold view_pair ps (view_req req) \<and> unat off' = unat off + length (enc_pairs ps)"
  using assms(1-3)
proof (induction ps arbitrary: req off)
  case Nil
  then show ?case by (intro exI [of _ req] exI [of _ off]) (simp add: enc_pairs_def)
next
  case (Cons p ps)
  obtain nm v where p: "p = (nm, v)" by (cases p)
  define nl where "nl = (word_of_nat (length nm) :: u32)"
  define vl where "vl = (word_of_nat (length v) :: u32)"
  define a where "a = length (enc_len nl)"
  define b where "b = length (enc_len vl)"
  have bytes: "drop (unat off) payload =
      enc_len nl @ enc_len vl @ nm @ v @ enc_pairs ps @ rest"
    using Cons.prems(2) by (simp add: p enc_pairs_def enc_pair_def nl_def vl_def)
  have total: "unat off + a + b + length nm + length v + length (enc_pairs ps) \<le> unat cl"
    using Cons.prems(3) by (simp add: p enc_pairs_def enc_pair_def nl_def vl_def a_def b_def)
  have lens: "unat nl = length nm" "unat vl = length v"
    using total assms(4) by (simp_all add: nl_def vl_def unat_of_nat)
  then have small: "nl < 0x80000000" "vl < 0x80000000"
    using total assms(4) by (simp_all add: word_less_nat_alt)
  have ab: "0 < a" "0 < b" by (simp_all only: a_def b_def enc_len_pos)
  define p1 where "p1 = off + word_of_nat a"
  define p2 where "p2 = p1 + word_of_nat b"
  have p1: "unat p1 = unat off + a"
    unfolding p1_def using total assms(4) by (intro unat_off_add [of _ _ "unat cl"]) simp_all
  then have p2: "unat p2 = unat off + a + b"
    unfolding p2_def using total assms(4) by (subst unat_off_add [of _ _ "unat cl"]) simp_all
  have l1: "cg_fastcgi_len payload off cl = Inr (nl, p1)"
    unfolding p1_def a_def using bytes small(1) total assms(4)
    by (intro fastcgi_len_enc) (simp_all add: a_def)
  have d1: "drop (unat p1) payload = enc_len vl @ nm @ v @ enc_pairs ps @ rest"
    using arg_cong [OF bytes, of "drop a"] by (simp add: p1 a_def add.commute)
  then have l2: "cg_fastcgi_len payload p1 cl = Inr (vl, p2)"
    unfolding p2_def b_def using small(2) total assms(4) p1
    by (intro fastcgi_len_enc) (simp_all add: b_def)
  have d2: "drop (unat p2) payload = nm @ v @ enc_pairs ps @ rest"
    using arg_cong [OF d1, of "drop b"] by (simp add: p1 p2 b_def add.commute)
  have p2n: "unat (p2 + nl) = unat p2 + length nm"
    unfolding nl_def using total assms(4) p2 by (intro unat_off_add [of _ _ "unat cl"]) simp_all
  then have p3: "unat (p2 + nl + vl) = unat p2 + length nm + length v"
    unfolding vl_def using total assms(4) p2 by (subst unat_off_add [of _ _ "unat cl"]) simp_all
  have dv: "drop (unat (p2 + nl)) payload = v @ enc_pairs ps @ rest"
    unfolding p2n using arg_cong [OF d2, of "drop (length nm)"] by (simp add: add.commute)
  have d3: "drop (unat (p2 + nl + vl)) payload = enc_pairs ps @ rest"
    unfolding p3 using arg_cong [OF d2, of "drop (length nm + length v)"] by (simp add: ac_simps)
  obtain req1 where req1: "params_pair req (drop (unat p2) payload) nl (drop (unat (p2 + nl)) payload) vl = Inr req1"
      "req_shape req1" "view_req req1 = view_pair (nm, v) (view_req req)"
    using params_pair_view [OF Cons.prems(1), of nl "drop (unat p2) payload" vl "drop (unat (p2 + nl)) payload"]
    unfolding d2 dv lens by auto
  have "unat (p2 + nl + vl) + length (enc_pairs ps) \<le> unat cl" using total p2 p3 by simp
  from Cons.IH [OF req1(2) d3 this] obtain req' off' where
    req': "params_loop req1 payload cl (p2 + nl + vl) = params_loop req' payload cl off'" "req_shape req'"
      "view_req req' = fold view_pair ps (view_req req1)" "unat off' = unat (p2 + nl + vl) + length (enc_pairs ps)" by blast
  have "off < cl" using total ab by (simp add: word_less_nat_alt)
  moreover have "\<not> cl < p2 + nl + vl" using total p2 by (simp add: word_less_nat_alt p3)
  ultimately have "params_loop req payload cl off = params_loop req' payload cl off'"
    using l1 l2 req1(1) req'(1) by (subst params_loop.simps) simp
  moreover have "unat off' = unat off + length (enc_pairs (p # ps))"
    using req'(4) p2 p3 by (simp add: p enc_pairs_def enc_pair_def nl_def vl_def a_def b_def)
  ultimately show ?case using req'(2,3) req1(3) p by auto
qed

lemma params_loop_enc:
  assumes "req_shape req" and "drop (unat off) payload = enc_pairs ps @ rest"
    and "unat cl = unat off + length (enc_pairs ps)" and "unat cl < 2 ^ 31" and "unat cl \<le> length payload"
  shows "\<exists>req'. params_loop req payload cl off = Some (Inr req') \<and> req_shape req' \<and>
    view_req req' = fold view_pair ps (view_req req)"
proof -
  obtain req' off' where r: "params_loop req payload cl off = params_loop req' payload cl off'" "req_shape req'"
      "view_req req' = fold view_pair ps (view_req req)" "unat off' = unat off + length (enc_pairs ps)"
    using params_loop_pairs [OF assms(1,2) _ assms(4,5)] assms(3) by auto
  then have "\<not> off' < cl" using assms(3) by (simp add: word_less_nat_alt)
  then show ?thesis using r by (intro exI [of _ req']) (subst r(1), subst params_loop.simps, simp)
qed

lemma handle_params_enc:
  assumes "req_shape req" and "take (unat cl) payload = enc_pairs ps"
    and "unat cl = length (enc_pairs ps)" and "unat cl \<le> length payload"
  shows "\<exists>req'. cg_fastcgi_handle_params req payload cl = Inr req' \<and> req_shape req' \<and>
    view_req req' = fold view_pair ps (view_req req)"
proof -
  have u: "unat (ucast cl :: u32) = unat cl" by (simp add: unat_ucast_up)
  have c: "unat cl < 2 ^ 16" using unsigned_less [of cl, where ?'a = nat] by simp
  have "drop (unat (0 :: u32)) payload = enc_pairs ps @ drop (unat cl) payload"
    by (simp flip: assms(2))
  then obtain req' where "params_loop req payload (ucast cl) 0 = Some (Inr req')" "req_shape req'"
      "view_req req' = fold view_pair ps (view_req req)"
    using params_loop_enc [OF assms(1), of 0 payload ps "drop (unat cl) payload" "ucast cl"]
      assms(3,4) u c by auto
  then show ?thesis by (simp add: cg_fastcgi_handle_params_def)
qed

text \<open>A length that is cut off at the end of a record is never passed: the loop does not end.\<close>

lemma truncated_len:
  assumes "p < cl" and "unat cl \<le> length payload" and "128 \<le> payload ! unat p"
    and "unat cl < unat p + 4" and "unat cl < 2 ^ 31"
  shows "cg_fastcgi_len payload p cl = Inr (0, p)"
proof -
  have "unat p < unat cl" using assms(1) by (simp add: word_less_nat_alt)
  moreover have "unat (p + 4) = unat p + 4"
    using assms(5) \<open>unat p < unat cl\<close> by (intro unat_length_small) simp
  ultimately show ?thesis
    using assms by (simp add: cg_fastcgi_len_def buf_read_ok word_le_nat_alt word_less_nat_alt not_le not_less)
qed

lemma params_loop_truncated:
  assumes "params_loop req payload cl p = Some r"
  shows "\<not> (p < cl \<and> unat cl \<le> length payload \<and> 128 \<le> payload ! unat p \<and>
    unat cl < unat p + 4 \<and> unat cl < 2 ^ 31)"
proof (rule params_loop.raw_induct [OF _ assms])
  fix f req payload cl p r
  assume IH: "\<And>req payload cl p r. f req payload cl p = Some r \<Longrightarrow>
      \<not> (p < cl \<and> unat cl \<le> length payload \<and> 128 \<le> payload ! unat p \<and>
        unat cl < unat p + 4 \<and> unat cl < 2 ^ 31)"
    and step: "(if p < cl then
        (case cg_fastcgi_len payload p cl of Inl e \<Rightarrow> Some (Inl e)
         | Inr (n_len, p1) \<Rightarrow> (case cg_fastcgi_len payload p1 cl of Inl e \<Rightarrow> Some (Inl e)
           | Inr (v_len, p2) \<Rightarrow>
              if cl < p2 + n_len + v_len then Some (Inr req)
              else (case params_pair req (drop (unat p2) payload) n_len
                         (drop (unat (p2 + n_len)) payload) v_len of
                 Inl e \<Rightarrow> Some (Inl e) | Inr req' \<Rightarrow> f req' payload cl (p2 + n_len + v_len))))
      else Some (Inr req)) = Some r"
  show "\<not> (p < cl \<and> unat cl \<le> length payload \<and> 128 \<le> payload ! unat p \<and>
      unat cl < unat p + 4 \<and> unat cl < 2 ^ 31)"
  proof
    assume h: "p < cl \<and> unat cl \<le> length payload \<and> 128 \<le> payload ! unat p \<and>
      unat cl < unat p + 4 \<and> unat cl < 2 ^ 31"
    then have l: "cg_fastcgi_len payload p cl = Inr (0, p)" by (intro truncated_len) auto
    have "params_pair req (drop (unat p) payload) 0 (drop (unat p) payload) 0 = Inr req"
      by (simp add: params_pair_def)
    moreover have "\<not> cl < p" using h by auto
    ultimately have "f req payload cl p = Some r" using step h l by simp
    then show False using IH h by blast
  qed
qed

lemma handle_params_truncated:
  assumes "req_shape req" and "take (unat cl) payload = enc_pairs ps @ t" and "unat cl = length (enc_pairs ps @ t)"
    and "unat cl \<le> length payload" and "t \<noteq> []" and "length t < 4" and "128 \<le> hd t"
  shows "cg_fastcgi_handle_params req payload cl = Inl Diverges"
proof -
  have u: "unat (ucast cl :: u32) = unat cl" by (simp add: unat_ucast_up)
  have c: "unat cl < 2 ^ 16" using unsigned_less [of cl, where ?'a = nat] by simp
  have d: "payload = enc_pairs ps @ t @ drop (unat cl) payload" using append_take_drop_id [of "unat cl" payload] assms(2) by simp
  then have "drop (unat (0 :: u32)) payload = enc_pairs ps @ (t @ drop (unat cl) payload)" by simp
  from params_loop_pairs [OF assms(1) this, of "ucast cl"] obtain req' off' where
    r: "params_loop req payload (ucast cl) 0 = params_loop req' payload (ucast cl) off'" "unat off' = length (enc_pairs ps)"
    using assms(3,4) u c by auto
  have "payload ! length (enc_pairs ps) = hd t" using d assms(5) by (metis hd_append2 hd_conv_nth nth_append_length append_is_Nil_conv list.collapse append_Cons)
  then have h: "128 \<le> payload ! unat off'" using r(2) assms(7) by simp
  have lt: "off' < ucast cl" using r(2) u assms(3,5) by (simp add: word_less_nat_alt)
  have near: "unat (ucast cl :: u32) < unat off' + 4" "unat (ucast cl :: u32) \<le> length payload" "unat (ucast cl :: u32) < 2 ^ 31"
    using r(2) u assms(3,4,6) c by simp_all
  have "params_loop req' payload (ucast cl) off' = None"
    using params_loop_truncated [of req' payload "ucast cl" off'] h lt near by (cases "params_loop req' payload (ucast cl) off'") auto
  then show ?thesis using r(1) by (simp add: cg_fastcgi_handle_params_def)
qed

text \<open>The loop over the parameters can only hang at an offset that the lengths behind it do not pass.\<close>

definition params_stall :: "byte list \<Rightarrow> u32 \<Rightarrow> u32 \<Rightarrow> bool" where
  "params_stall payload cl p \<longleftrightarrow> p < cl \<and> (\<exists>n p1 v p2. cg_fastcgi_len payload p cl = Inr (n, p1) \<and>
     cg_fastcgi_len payload p1 cl = Inr (v, p2) \<and> p2 + n + v \<le> p)"

lemma params_loop_stalls:
  assumes "params_loop req payload cl p = None"
  shows "\<exists>p. params_stall payload cl p"
proof (rule ccontr)
  assume go: "\<nexists>p. params_stall payload cl p"
  have "params_loop req payload cl p \<noteq> None" for req p
  proof (induction "unat cl - unat p" arbitrary: req p rule: less_induct)
    case less
    show ?case
    proof (cases "p < cl")
      case True
      then have next_less: "unat cl - unat q < unat cl - unat p" if "\<not> q \<le> p" for q
        using that by (simp add: word_less_nat_alt word_le_nat_alt)
      have fwd: "\<not> p2 + n + v \<le> p" if "cg_fastcgi_len payload p cl = Inr (n, p1)" "cg_fastcgi_len payload p1 cl = Inr (v, p2)"
        for n p1 v p2 using go True that unfolding params_stall_def by blast
      show ?thesis
        using True less.hyps [OF next_less [OF fwd]]
        by (subst params_loop.simps) (auto split: sum.splits prod.splits)
    qed (subst params_loop.simps, simp)
  qed
  then show False using assms by blast
qed

section \<open>Memory safety of the parser\<close>

lemma fastcgi_len_safe:
  assumes "unat limit \<le> length buf" and "unat limit < 2 ^ 16" and "unat off \<le> unat limit"
  shows "\<exists>n off'. cg_fastcgi_len buf off limit = Inr (n, off') \<and> unat n < 2 ^ 31 \<and>
    unat off \<le> unat off' \<and> unat off' \<le> unat limit"
proof (cases "limit \<le> off")
  case True
  then show ?thesis using assms(3) by (simp add: cg_fastcgi_len_def)
next
  case False
  then have o: "unat off < unat limit" by (simp add: word_le_nat_alt)
  then have up: "unat (off + 4) = unat off + 4" "unat (off + 1) = unat off + 1"
    using assms(2) by (intro unat_length_small; simp)+
  define b where "b = buf ! unat off"
  have b8: "unat b < 256" using unsigned_less [of b, where ?'a = nat] by simp
  show ?thesis
  proof (cases "b < 128 \<or> limit < off + 4")
    case True
    then show ?thesis
      using False o up assms(1) b8
      by (auto simp: cg_fastcgi_len_def buf_read_ok b_def unat_ucast_up)
  next
    case far: False
    then have l4: "unat off + 4 \<le> unat limit" by (simp add: word_less_nat_alt up)
    define bs where "bs = take 4 (drop (unat off) buf)"
    define n where "n = (push_bit 24 (ucast (bs ! 0 AND 0x7f)) OR push_bit 16 (ucast (bs ! 1)) OR
               push_bit 8 (ucast (bs ! 2)) OR ucast (bs ! 3) :: u32)"
    have hi: "\<not> bit (w :: byte) k" if "8 \<le> k" for w k
      using bit_imp_le_length [of w k] that by auto
    have top: "\<not> bit n 31" by (simp add: n_def bit_simps bit_0x7f hi)
    have "take_bit 31 n = n"
    proof (rule bit_word_eqI)
      fix i assume "i < LENGTH(32)"
      then have "i < 31 \<or> i = 31" by fastforce
      then show "bit (take_bit 31 n) i = bit n i" using top by (auto simp: bit_take_bit_iff)
    qed
    then have "unat n < 2 ^ 31"
      by (metis take_bit_nat_less_exp unsigned_take_bit_eq)
    then show ?thesis
      using False far l4 up assms(1)
      by (simp add: cg_fastcgi_len_def buf_read_ok buf_slice_ok b_def bs_def n_def)
  qed
qed

lemma params_pair_safe:
  assumes shape: "req_shape req" and cl: "unat cl \<le> length payload" "unat cl < 2 ^ 16"
    and lens: "unat p2 \<le> unat cl" "unat n_len < 2 ^ 31" "unat v_len < 2 ^ 31"
    and fits: "\<not> cl < p2 + n_len + v_len"
  shows "\<exists>req'. params_pair req (drop (unat p2) payload) n_len
      (drop (unat (p2 + n_len)) payload) v_len = Inr req' \<and> req_shape req'"
proof (cases "n_len = 11 \<or> n_len = 14")
  case True
  then have n: "unat n_len \<le> 14" by auto
  have p: "unat (p2 + n_len) = unat p2 + unat n_len"
    using lens cl n by (subst unat_add_small) simp_all
  have s: "unat (p2 + n_len + v_len) = unat p2 + unat n_len + unat v_len"
    using lens cl n p by (subst unat_add_small) simp_all
  then have "unat p2 + unat n_len + unat v_len \<le> unat cl"
    using fits by (simp add: word_less_nat_alt)
  then have "unat n_len \<le> length (drop (unat p2) payload)"
      "unat v_len \<le> length (drop (unat (p2 + n_len)) payload)"
    using cl p by simp_all
  then show ?thesis using params_pair_view [OF shape] by blast
next
  case False
  then show ?thesis using shape by (simp add: params_pair_def)
qed

lemma params_loop_safe:
  assumes "params_loop req payload cl p = Some r"
  shows "req_shape req \<longrightarrow> unat cl \<le> length payload \<longrightarrow> unat cl < 2 ^ 16 \<longrightarrow>
    (\<exists>req'. r = Inr req' \<and> req_shape req')"
proof (rule params_loop.raw_induct [OF _ assms])
  fix f req payload cl p r
  assume IH: "\<And>req payload cl p r. f req payload cl p = Some r \<Longrightarrow>
      req_shape req \<longrightarrow> unat cl \<le> length payload \<longrightarrow> unat cl < 2 ^ 16 \<longrightarrow>
      (\<exists>req'. r = Inr req' \<and> req_shape req')"
    and step: "(if p < cl then
        (case cg_fastcgi_len payload p cl of Inl e \<Rightarrow> Some (Inl e)
         | Inr (n_len, p1) \<Rightarrow> (case cg_fastcgi_len payload p1 cl of Inl e \<Rightarrow> Some (Inl e)
           | Inr (v_len, p2) \<Rightarrow>
              if cl < p2 + n_len + v_len then Some (Inr req)
              else (case params_pair req (drop (unat p2) payload) n_len
                         (drop (unat (p2 + n_len)) payload) v_len of
                 Inl e \<Rightarrow> Some (Inl e) | Inr req' \<Rightarrow> f req' payload cl (p2 + n_len + v_len))))
      else Some (Inr req)) = Some r"
  show "req_shape req \<longrightarrow> unat cl \<le> length payload \<longrightarrow> unat cl < 2 ^ 16 \<longrightarrow>
      (\<exists>req'. r = Inr req' \<and> req_shape req')"
  proof (intro impI)
    assume h: "req_shape req" "unat cl \<le> length payload" "unat cl < 2 ^ 16"
    show "\<exists>req'. r = Inr req' \<and> req_shape req'"
    proof (cases "p < cl")
      case True
      then have "unat p \<le> unat cl" by (simp add: word_less_nat_alt)
      then obtain n p1 where l1: "cg_fastcgi_len payload p cl = Inr (n, p1)" "unat n < 2 ^ 31"
          "unat p1 \<le> unat cl"
        using fastcgi_len_safe h by blast
      obtain v p2 where l2: "cg_fastcgi_len payload p1 cl = Inr (v, p2)" "unat v < 2 ^ 31"
          "unat p2 \<le> unat cl"
        using fastcgi_len_safe l1(3) h by blast
      show ?thesis
      proof (cases "cl < p2 + n + v")
        case False
        then obtain req' where "params_pair req (drop (unat p2) payload) n
            (drop (unat (p2 + n)) payload) v = Inr req'" "req_shape req'"
          using params_pair_safe h l1(2) l2 by blast
        moreover from this have "f req' payload cl (p2 + n + v) = Some r"
          using step True False l1(1) l2(1) by simp
        ultimately show ?thesis using IH h by blast
      qed (use step True l1(1) l2(1) h in auto)
    qed (use step h in auto)
  qed
qed

lemma handle_params_safe:
  assumes "req_shape req" and "unat cl \<le> length payload"
  shows "cg_fastcgi_handle_params req payload cl = Inl Diverges \<or>
    (\<exists>req'. cg_fastcgi_handle_params req payload cl = Inr req' \<and> req_shape req')"
proof (cases "params_loop req payload (ucast cl) 0")
  case (Some r)
  have "unat (ucast cl :: u32) = unat cl" by (simp add: unat_ucast_up)
  moreover have "unat cl < 2 ^ 16" using unsigned_less [of cl, where ?'a = nat] by simp
  ultimately show ?thesis
    using params_loop_safe [OF Some] assms Some by (auto simp: cg_fastcgi_handle_params_def)
qed (simp add: cg_fastcgi_handle_params_def)

lemma begin_request_ok:
  assumes "req_shape req" and "2 < length payload"
  shows "\<exists>req'. cg_fastcgi_handle_begin_request req hdr payload = Inr req' \<and> req_shape req' \<and>
    req_id req' = hdr_request_id hdr \<and> keep_alive req' = payload ! 2 AND 1 \<and>
    cstr (req_session_id req') = [] \<and> cstr (stdin_buf req') = [] \<and> stdin_len req' = 0 \<and>
    uri req' = uri req \<and> req_method req' = req_method req"
proof -
  obtain c sid d sb where "req_session_id req = c # sid" "stdin_buf req = d # sb"
    using assms(1) by (cases "req_session_id req"; cases "stdin_buf req") (auto simp: req_shape_def)
  then show ?thesis
    using assms by (simp add: cg_fastcgi_handle_begin_request_def req_shape_def buf_read_ok
        buf_write_def buf_splice_def)
qed

text \<open>The body: what fits is appended, and the terminator is kept behind it.\<close>

lemma handle_stdin_safe:
  assumes shape: "req_shape req" and "unat cl \<le> length payload"
  shows "\<exists>req'. cg_fastcgi_handle_stdin req cl payload = Inr (req', if cl = 0 then 0 else 1) \<and>
    req_shape req' \<and>
    take (unat (stdin_len req')) (stdin_buf req') = take (unat (stdin_len req)) (stdin_buf req) @
      (if unat (stdin_len req) + unat cl < 4096 then take (unat cl) payload else [])"
proof -
  let ?n = "unat (stdin_len req)" and ?c = "unat cl"
  have c16: "?c < 2 ^ 16" using unsigned_less [of cl, where ?'a = nat] by simp
  have n: "?n < 4096" and lb: "length (stdin_buf req) = 4096" using shape by (simp_all add: req_shape_def)
  have sum: "unat (stdin_len req + ucast cl) = ?n + ?c"
    using n c16 by (subst unat_add_small) (simp_all add: unat_ucast_up)
  consider "cl = 0" | "cl \<noteq> 0" "\<not> ?n + ?c < 4096" | "cl \<noteq> 0" "?n + ?c < 4096" by blast
  then show ?thesis
  proof cases
    case 1
    then show ?thesis using shape by (simp add: cg_fastcgi_handle_stdin_def)
  next
    case 2
    then show ?thesis
      using shape sum by (simp add: cg_fastcgi_handle_stdin_def word_less_nat_alt)
  next
    case 3
    define s where "s = take ?c payload"
    have ls: "length s = ?c" using assms(2) by (simp add: s_def)
    define b1 where "b1 = buf_splice (stdin_buf req) ?n s"
    have l1: "length b1 = 4096" using 3 lb ls by (simp add: b1_def)
    define b2 where "b2 = buf_splice b1 (?n + ?c) [0]"
    have l2: "length b2 = 4096" using 3 l1 by (simp add: b2_def)
    have w: "buf_write (stdin_buf req) ?n s = Inr b1" "buf_write b1 (?n + ?c) [0] = Inr b2"
      using 3 lb ls l1 by (simp_all add: buf_write_ok b1_def b2_def)
    have run: "cg_fastcgi_handle_stdin req cl payload =
        Inr (req\<lparr>stdin_len := stdin_len req + ucast cl, stdin_buf := b2\<rparr>, 1)"
      using 3 assms(2) sum w
      by (simp add: cg_fastcgi_handle_stdin_def word_less_nat_alt buf_slice_ok s_def Let_def)
    have t1: "take (?n + ?c) b1 = take ?n (stdin_buf req) @ s"
      using take_buf_splice [of ?n s "stdin_buf req"] 3 lb ls by (simp add: b1_def)
    then have t2: "take (?n + ?c) b2 = take ?n (stdin_buf req) @ s"
      using take_buf_splice_before [of "?n + ?c" "?n + ?c" b1 "[0]"] 3 l1 by (simp add: b2_def)
    have "b2 ! (?n + ?c) = 0"
      using nth_buf_splice [of "?n + ?c" "[0]" b1 "?n + ?c"] 3 l1 by (simp add: b2_def)
    then have "req_shape (req\<lparr>stdin_len := stdin_len req + ucast cl, stdin_buf := b2\<rparr>)"
      using shape l2 sum 3 by (simp add: req_shape_def)
    then show ?thesis using run 3 t2 sum by (simp add: s_def)
  qed
qed

section \<open>The parser loop\<close>

text \<open>
  The valid bytes lie in the buffer, with \<open>k\<close> more behind them. With three more no access leaves
  the buffer; with fewer a BEGIN_REQUEST at its very end may, and nothing else.
\<close>

definition rx_slack :: "nat \<Rightarrow> cg_buffer_metadata \<Rightarrow> bool" where
  "rx_slack k meta \<longleftrightarrow> meta_pos meta \<le> meta_valid meta \<and> unat (meta_valid meta) + k \<le> length (meta_buf meta)"

definition rx_ok :: "cg_buffer_metadata \<Rightarrow> bool" where
  "rx_ok meta \<longleftrightarrow> rx_slack 3 meta"

definition leftover :: "cg_buffer_metadata \<Rightarrow> nat" where
  "leftover meta = unat (meta_valid meta) - unat (meta_pos meta)"

definition same_buffer :: "cg_buffer_metadata \<Rightarrow> cg_buffer_metadata \<Rightarrow> bool" where
  "same_buffer m m' \<longleftrightarrow> meta_buf m' = meta_buf m \<and> meta_len m' = meta_len m \<and>
     meta_valid m' = meta_valid m \<and> unat (meta_pos m) \<le> unat (meta_pos m')"

lemma rx_advance:
  assumes "rx_slack s meta" and "\<not> meta_valid meta - meta_pos meta < k"
  shows "unat (meta_pos meta + k) = unat (meta_pos meta) + unat k"
    and "rx_slack s (meta\<lparr>meta_pos := meta_pos meta + k\<rparr>)"
    and "same_buffer meta (meta\<lparr>meta_pos := meta_pos meta + k\<rparr>)"
    and "unat (meta_pos meta) + unat k \<le> unat (meta_valid meta)"
proof -
  have "unat (meta_valid meta - meta_pos meta) = unat (meta_valid meta) - unat (meta_pos meta)"
    using assms(1) by (simp add: rx_slack_def unat_sub)
  moreover have "unat (meta_pos meta) \<le> unat (meta_valid meta)"
    using assms(1) by (simp add: rx_slack_def word_le_nat_alt)
  moreover have "unat k \<le> unat (meta_valid meta - meta_pos meta)"
    using assms(2) by (simp add: word_less_nat_alt)
  ultimately show le: "unat (meta_pos meta) + unat k \<le> unat (meta_valid meta)" by linarith
  then show u: "unat (meta_pos meta + k) = unat (meta_pos meta) + unat k"
    using unsigned_less [of "meta_valid meta", where ?'a = nat] by (intro unat_add_small) simp
  show "rx_slack s (meta\<lparr>meta_pos := meta_pos meta + k\<rparr>)"
    using assms(1) le u by (simp add: rx_slack_def word_le_nat_alt)
  show "same_buffer meta (meta\<lparr>meta_pos := meta_pos meta + k\<rparr>)"
    by (simp add: same_buffer_def u)
qed

text \<open>The second half of a step: the header is known.\<close>

definition parse_record ::
  "cg_buffer_metadata \<Rightarrow> cg_client_req \<Rightarrow> cg_fastcgi_header \<Rightarrow>
   (cg_buffer_metadata \<times> cg_client_req \<times> cg_fastcgi_header \<times> int option) cres" where
  "parse_record meta req hdr =
     (let content_len = bswap16 (hdr_content_len hdr);
          total_payload = ucast content_len + ucast (hdr_padding_len hdr) :: u32;
          payload = drop (unat (meta_pos meta)) (meta_buf meta);
          hdr0 = hdr\<lparr>hdr_type := 0\<rparr>; meta' = meta\<lparr>meta_pos := meta_pos meta + total_payload\<rparr>
      in if meta_valid meta - meta_pos meta < total_payload then Inr (meta, req, hdr, Some 1)
         else if hdr_type hdr = CG_FASTCGI_BEGIN_REQUEST then
           cbind (cg_fastcgi_handle_begin_request req hdr payload) (\<lambda>req. Inr (meta', req, hdr0, None))
         else if hdr_type hdr = CG_FASTCGI_PARAMS then
           cbind (cg_fastcgi_handle_params req payload content_len) (\<lambda>req. Inr (meta', req, hdr0, None))
         else if hdr_type hdr = CG_FASTCGI_STDIN then
           cbind (cg_fastcgi_handle_stdin req content_len payload) (\<lambda>(req, status).
             Inr (meta', req, hdr0, if status = 0 then Some 0 else None))
         else Inr (meta', req, hdr0, None))"

lemma parse_step_saved: "hdr_type hdr \<noteq> 0 \<Longrightarrow> parse_step meta req hdr = parse_record meta req hdr"
  by (simp add: parse_step_def parse_record_def Let_def)

lemma parse_step_fresh:
  assumes "rx_slack s meta" and "hdr_type hdr = 0" and "\<not> meta_valid meta - meta_pos meta < 8"
  shows "parse_step meta req hdr = parse_record (meta\<lparr>meta_pos := meta_pos meta + 8\<rparr>) req
    (load_header (take 8 (drop (unat (meta_pos meta)) (meta_buf meta))))"
  using rx_advance(4) [OF assms(1,3)] assms
  by (simp add: parse_step_def parse_record_def Let_def buf_slice_ok rx_slack_def)

definition step_result_ok ::
  "nat \<Rightarrow> cg_buffer_metadata \<Rightarrow> cg_buffer_metadata \<times> cg_client_req \<times> cg_fastcgi_header \<times> int option \<Rightarrow> bool" where
  "step_result_ok s meta r = (case r of (meta', req', hdr', st) \<Rightarrow>
     rx_slack s meta' \<and> same_buffer meta meta' \<and> req_shape req' \<and>
     (case st of None \<Rightarrow> hdr_type hdr' = 0
      | Some v \<Rightarrow> (v = 0 \<and> hdr_type hdr' = 0) \<or> (v = 1 \<and> leftover meta' < 65790)))"

lemma parse_record_safe:
  assumes rx: "rx_slack s meta" and shape: "req_shape req"
  shows "parse_record meta req hdr = Inl Diverges \<or> s < 3 \<and> parse_record meta req hdr = Inl Out_Of_Bounds \<or>
    (\<exists>r. parse_record meta req hdr = Inr r \<and> step_result_ok s meta r)"
proof -
  define cl where "cl = bswap16 (hdr_content_len hdr)"
  define total where "total = (ucast cl + ucast (hdr_padding_len hdr) :: u32)"
  define payload where "payload = drop (unat (meta_pos meta)) (meta_buf meta)"
  have c: "unat cl \<le> 65535" "unat (hdr_padding_len hdr) \<le> 255"
    using unsigned_less [of cl, where ?'a = nat] unsigned_less [of "hdr_padding_len hdr", where ?'a = nat]
    by simp_all
  then have total: "unat total = unat cl + unat (hdr_padding_len hdr)"
    unfolding total_def by (subst unat_add_small) (simp_all add: unat_ucast_up)
  show ?thesis
  proof (cases "meta_valid meta - meta_pos meta < total")
    case True
    have "unat (meta_valid meta - meta_pos meta) = leftover meta"
      using rx by (simp add: rx_slack_def unat_sub leftover_def)
    then have "leftover meta < 65790" using True total c by (simp add: word_less_nat_alt)
    then show ?thesis
      using True rx shape
      by (simp add: parse_record_def Let_def step_result_ok_def same_buffer_def flip: cl_def total_def)
  next
    case False
    note adv = rx_advance [OF rx False]
    have pl: "unat cl \<le> length payload" "3 \<le> s \<Longrightarrow> 2 < length payload"
      using adv(4) rx total by (simp_all add: payload_def rx_slack_def word_le_nat_alt)
    note unfolds = parse_record_def Let_def cl_def [symmetric] total_def [symmetric] payload_def [symmetric]
    consider "hdr_type hdr = CG_FASTCGI_BEGIN_REQUEST" | "hdr_type hdr = CG_FASTCGI_PARAMS"
      | "hdr_type hdr = CG_FASTCGI_STDIN"
      | "hdr_type hdr \<notin> {CG_FASTCGI_BEGIN_REQUEST, CG_FASTCGI_PARAMS, CG_FASTCGI_STDIN}" by blast
    then show ?thesis
    proof cases
      case 1
      show ?thesis
      proof (cases "2 < length payload")
        case True
        obtain req' where "cg_fastcgi_handle_begin_request req hdr payload = Inr req'" "req_shape req'"
          using begin_request_ok [OF shape True] by blast
        then show ?thesis using 1 False adv(2,3) unfolding unfolds by (simp add: step_result_ok_def)
      next
        case short: False
        then have "cg_fastcgi_handle_begin_request req hdr payload = Inl Out_Of_Bounds"
          by (simp add: cg_fastcgi_handle_begin_request_def buf_read_def)
        moreover have "s < 3" using pl(2) short by (cases "s < 3") simp_all
        ultimately show ?thesis using 1 False unfolding unfolds by simp
      qed
    next
      case 2
      then show ?thesis
        using handle_params_safe [OF shape pl(1)] False adv(2,3)
        unfolding unfolds by (auto simp: step_result_ok_def)
    next
      case 3
      obtain req' where "cg_fastcgi_handle_stdin req cl payload = Inr (req', if cl = 0 then 0 else 1)"
          "req_shape req'"
        using handle_stdin_safe [OF shape pl(1)] by blast
      then show ?thesis using 3 False adv(2,3) unfolding unfolds by (simp add: step_result_ok_def)
    next
      case 4
      then show ?thesis using False adv(2,3) shape unfolding unfolds by (simp add: step_result_ok_def)
    qed
  qed
qed

lemma parse_step_safe:
  assumes rx: "rx_slack s meta" and shape: "req_shape req"
  shows "parse_step meta req hdr = Inl Diverges \<or> s < 3 \<and> parse_step meta req hdr = Inl Out_Of_Bounds \<or>
    (\<exists>meta' req' hdr' st. parse_step meta req hdr = Inr (meta', req', hdr', st) \<and>
      step_result_ok s meta (meta', req', hdr', st) \<and>
      (st = None \<longrightarrow> hdr_type hdr \<noteq> 0 \<or> unat (meta_pos meta) < unat (meta_pos meta')))"
proof (cases "hdr_type hdr = 0")
  case False
  then show ?thesis
    using parse_record_safe [OF rx shape, of hdr] by (auto simp: parse_step_saved)
next
  case fresh: True
  show ?thesis
  proof (cases "meta_valid meta - meta_pos meta < 8")
    case True
    have "unat (meta_valid meta - meta_pos meta) = leftover meta"
      using rx by (simp add: rx_slack_def unat_sub leftover_def)
    then have "leftover meta < 65790" using True by (simp add: word_less_nat_alt)
    then show ?thesis
      using True fresh rx shape by (simp add: parse_step_def step_result_ok_def same_buffer_def)
  next
    case False
    define m8 where "m8 = meta\<lparr>meta_pos := meta_pos meta + 8\<rparr>"
    define h where "h = load_header (take 8 (drop (unat (meta_pos meta)) (meta_buf meta)))"
    note adv = rx_advance [OF rx False]
    have step: "parse_step meta req hdr = parse_record m8 req h"
      using parse_step_fresh [OF rx fresh False] by (simp add: m8_def h_def)
    have m8: "rx_slack s m8" "same_buffer meta m8" "unat (meta_pos m8) = unat (meta_pos meta) + 8"
      using adv by (simp_all add: m8_def)
    show ?thesis
    proof (cases "parse_record m8 req h")
      case (Inl e)
      then show ?thesis using parse_record_safe [OF m8(1) shape, of h] step by auto
    next
      case (Inr r)
      obtain meta' req' hdr' st where r: "r = (meta', req', hdr', st)" by (cases r)
      then have ok: "step_result_ok s m8 (meta', req', hdr', st)"
        using parse_record_safe [OF m8(1) shape, of h] Inr by auto
      then have "step_result_ok s meta (meta', req', hdr', st)"
        and "unat (meta_pos meta) < unat (meta_pos meta')"
        using m8(2,3) by (auto simp: step_result_ok_def same_buffer_def)
      then show ?thesis using step Inr r by simp
    qed
  qed
qed

text \<open>
  The loop of the parser itself ends on every input: the position grows in every iteration, but
  for the one that finishes a saved header. What can hang is the loop over the parameters.
\<close>

lemma same_buffer_trans: "same_buffer a b \<Longrightarrow> same_buffer b c \<Longrightarrow> same_buffer a c"
  by (simp add: same_buffer_def)

lemma same_buffer_refl [simp]: "same_buffer m m"
  by (simp add: same_buffer_def)

lemma parse_loop_slack:
  assumes "rx_slack k meta" and "req_shape req"
  shows "parse_loop meta req hdr = Some (Inl Diverges) \<or>
    k < 3 \<and> parse_loop meta req hdr = Some (Inl Out_Of_Bounds) \<or>
    (\<exists>meta' req' hdr' s. parse_loop meta req hdr = Some (Inr (meta', req', hdr', s)) \<and>
      rx_slack k meta' \<and> same_buffer meta meta' \<and> req_shape req' \<and>
      ((s = 0 \<and> hdr_type hdr' = 0) \<or> (s = 1 \<and> leftover meta' < 65790)))"
  using assms
proof (induction "2 * leftover meta + of_bool (hdr_type hdr \<noteq> 0)" arbitrary: meta req hdr rule: less_induct)
  case less
  show ?case
  proof (cases "meta_pos meta < meta_valid meta")
    case False
    then have "leftover meta = 0" by (simp add: leftover_def word_less_nat_alt)
    then show ?thesis using False less.prems by (subst parse_loop.simps) (simp add: parse_loop.simps)
  next
    case True
    consider "parse_step meta req hdr = Inl Diverges" | "k < 3" "parse_step meta req hdr = Inl Out_Of_Bounds"
      | meta' req' hdr' st where "parse_step meta req hdr = Inr (meta', req', hdr', st)"
          "step_result_ok k meta (meta', req', hdr', st)"
          "st = None \<longrightarrow> hdr_type hdr \<noteq> 0 \<or> unat (meta_pos meta) < unat (meta_pos meta')"
      using parse_step_safe [OF less.prems] by blast
    then show ?thesis
    proof cases
      case 1
      then show ?thesis using True by (subst parse_loop.simps) simp
    next
      case 2
      then show ?thesis using True by (subst (2) parse_loop.simps) simp
    next
      case 3
      show ?thesis
      proof (cases st)
        case (Some s)
        then show ?thesis
          using 3 True by (subst (1 2 3) parse_loop.simps) (simp add: step_result_ok_def)
      next
        case None
        have ok: "rx_slack k meta'" "same_buffer meta meta'" "req_shape req'" "hdr_type hdr' = 0"
          using 3(2) None by (simp_all add: step_result_ok_def)
        have "unat (meta_pos meta) < unat (meta_valid meta)" using True by (simp add: word_less_nat_alt)
        then have "2 * leftover meta' + of_bool (hdr_type hdr' \<noteq> 0) <
            2 * leftover meta + of_bool (hdr_type hdr \<noteq> 0)"
          using ok(2,4) 3(3) None by (cases "hdr_type hdr = 0") (auto simp: leftover_def same_buffer_def)
        note IH = less.hyps [OF this ok(1,3)]
        have "parse_loop meta req hdr = parse_loop meta' req' hdr'"
          using True 3(1) None by (subst parse_loop.simps) simp
        then show ?thesis using IH same_buffer_trans [OF ok(2)] by auto
      qed
    qed
  qed
qed

lemma parse_loop_safe:
  assumes "rx_ok meta" and "req_shape req"
  shows "parse_loop meta req hdr = Some (Inl Diverges) \<or>
    (\<exists>meta' req' hdr' s. parse_loop meta req hdr = Some (Inr (meta', req', hdr', s)) \<and>
      rx_ok meta' \<and> same_buffer meta meta' \<and> req_shape req' \<and>
      ((s = 0 \<and> hdr_type hdr' = 0) \<or> (s = 1 \<and> leftover meta' < 65790)))"
  using parse_loop_slack [of 3 meta req hdr] assms by (simp add: rx_ok_def)

text \<open>
  Where the parser hangs, when it does: its own loop has taken finitely many records, and the next
  one is a PARAMS record whose content has an offset that the loop over the parameters does not
  pass.
\<close>

definition next_record :: "cg_buffer_metadata \<Rightarrow> cg_fastcgi_header \<Rightarrow> cg_fastcgi_header \<times> byte list" where
  "next_record meta hdr =
     (if hdr_type hdr = 0
      then (load_header (take 8 (drop (unat (meta_pos meta)) (meta_buf meta))), drop (unat (meta_pos meta) + 8) (meta_buf meta))
      else (hdr, drop (unat (meta_pos meta)) (meta_buf meta)))"

type_synonym parser_state = "cg_buffer_metadata \<times> cg_client_req \<times> cg_fastcgi_header"

definition parse_goes :: "parser_state \<Rightarrow> parser_state \<Rightarrow> bool" where
  "parse_goes x y \<longleftrightarrow> (case x of (meta, req, hdr) \<Rightarrow> case y of (meta', req', hdr') \<Rightarrow>
     meta_pos meta < meta_valid meta \<and> parse_step meta req hdr = Inr (meta', req', hdr', None))"

definition params_hang :: "parser_state \<Rightarrow> bool" where
  "params_hang x \<longleftrightarrow> (case x of (meta, req, hdr) \<Rightarrow> case next_record meta hdr of (h, payload) \<Rightarrow>
     let cl = bswap16 (hdr_content_len h) in
     hdr_type h = CG_FASTCGI_PARAMS \<and> unat cl \<le> length payload \<and> (\<exists>p. params_stall payload (ucast cl) p) \<and>
     cg_fastcgi_handle_params req payload cl = Inl Diverges)"

lemma handle_params_diverges:
  assumes "req_shape req" and "unat cl \<le> length payload" and "cg_fastcgi_handle_params req payload cl = Inl Diverges"
  shows "\<exists>p. params_stall payload (ucast cl) p"
proof (cases "params_loop req payload (ucast cl) 0")
  case None
  then show ?thesis by (rule params_loop_stalls)
next
  case (Some r)
  have "unat (ucast cl :: u32) = unat cl" by (simp add: unat_ucast_up)
  moreover have "unat cl < 2 ^ 16" using unsigned_less [of cl, where ?'a = nat] by simp
  ultimately show ?thesis
    using params_loop_safe [OF Some] assms Some by (auto simp: cg_fastcgi_handle_params_def)
qed

lemma parse_record_diverges:
  assumes rx: "rx_slack s meta" and shape: "req_shape req" and div: "parse_record meta req hdr = Inl Diverges"
  shows "hdr_type hdr = CG_FASTCGI_PARAMS \<and>
    unat (bswap16 (hdr_content_len hdr)) \<le> length (drop (unat (meta_pos meta)) (meta_buf meta)) \<and>
    cg_fastcgi_handle_params req (drop (unat (meta_pos meta)) (meta_buf meta)) (bswap16 (hdr_content_len hdr)) = Inl Diverges"
proof -
  define cl where "cl = bswap16 (hdr_content_len hdr)"
  define total where "total = (ucast cl + ucast (hdr_padding_len hdr) :: u32)"
  define payload where "payload = drop (unat (meta_pos meta)) (meta_buf meta)"
  have "unat cl \<le> 65535" "unat (hdr_padding_len hdr) \<le> 255"
    using unsigned_less [of cl, where ?'a = nat] unsigned_less [of "hdr_padding_len hdr", where ?'a = nat] by simp_all
  then have total: "unat total = unat cl + unat (hdr_padding_len hdr)"
    unfolding total_def by (subst unat_add_small) (simp_all add: unat_ucast_up)
  note unfolds = parse_record_def Let_def cl_def [symmetric] total_def [symmetric] payload_def [symmetric]
  have go: "\<not> meta_valid meta - meta_pos meta < total" using div unfolding unfolds by (simp split: if_splits)
  have pl: "unat cl \<le> length payload"
    using rx_advance(4) [OF rx go] rx total by (simp add: payload_def rx_slack_def word_le_nat_alt)
  obtain req' where "cg_fastcgi_handle_stdin req cl payload = Inr (req', if cl = 0 then 0 else 1)"
    using handle_stdin_safe [OF shape pl] by blast
  moreover have "cg_fastcgi_handle_begin_request req hdr payload \<noteq> Inl Diverges"
    using begin_request_ok [OF shape, of payload hdr]
    by (cases "2 < length payload") (auto simp: cg_fastcgi_handle_begin_request_def buf_read_def)
  ultimately show ?thesis
    using div go pl unfolding unfolds by (auto simp: cbind_def split: if_splits sum.splits)
qed

lemma parse_step_diverges:
  assumes rx: "rx_slack s meta" and shape: "req_shape req" and div: "parse_step meta req hdr = Inl Diverges"
  shows "params_hang (meta, req, hdr)"
proof (cases "hdr_type hdr = 0")
  case False
  then show ?thesis
    using parse_record_diverges [OF rx shape] div handle_params_diverges [OF shape]
    by (auto simp: params_hang_def next_record_def parse_step_saved Let_def)
next
  case True
  have go: "\<not> meta_valid meta - meta_pos meta < 8" using div True by (auto simp: parse_step_def)
  note adv = rx_advance [OF rx go]
  have "parse_record (meta\<lparr>meta_pos := meta_pos meta + 8\<rparr>) req
      (load_header (take 8 (drop (unat (meta_pos meta)) (meta_buf meta)))) = Inl Diverges"
    using div parse_step_fresh [OF rx True go] by simp
  from parse_record_diverges [OF adv(2) shape this] show ?thesis
    using True adv(1) handle_params_diverges [OF shape] by (auto simp: params_hang_def next_record_def Let_def)
qed

lemma parse_loop_hangs:
  assumes "parse_loop meta req hdr = Some r"
  shows "r = Inl Diverges \<longrightarrow> rx_slack s meta \<longrightarrow> req_shape req \<longrightarrow>
    (\<exists>x. parse_goes\<^sup>*\<^sup>* (meta, req, hdr) x \<and> params_hang x)"
proof (rule parse_loop.raw_induct [OF _ assms])
  fix f meta req hdr r
  assume IH: "\<And>meta req hdr r. f meta req hdr = Some r \<Longrightarrow>
      r = Inl Diverges \<longrightarrow> rx_slack s meta \<longrightarrow> req_shape req \<longrightarrow> (\<exists>x. parse_goes\<^sup>*\<^sup>* (meta, req, hdr) x \<and> params_hang x)"
    and step: "(if meta_pos meta < meta_valid meta then
        (case parse_step meta req hdr of
           Inl e \<Rightarrow> Some (Inl e)
         | Inr (meta', req', hdr', Some status) \<Rightarrow> Some (Inr (meta', req', hdr', status))
         | Inr (meta', req', hdr', None) \<Rightarrow> f meta' req' hdr')
      else Some (Inr (meta, req, hdr, 1))) = Some r"
  show "r = Inl Diverges \<longrightarrow> rx_slack s meta \<longrightarrow> req_shape req \<longrightarrow>
      (\<exists>x. parse_goes\<^sup>*\<^sup>* (meta, req, hdr) x \<and> params_hang x)"
  proof (intro impI)
    assume h: "r = Inl Diverges" "rx_slack s meta" "req_shape req"
    have go: "meta_pos meta < meta_valid meta" using step h(1) by (auto split: if_splits)
    show "\<exists>x. parse_goes\<^sup>*\<^sup>* (meta, req, hdr) x \<and> params_hang x"
    proof (cases "parse_step meta req hdr")
      case (Inl e)
      then have "parse_step meta req hdr = Inl Diverges" using step go h(1) by simp
      from parse_step_diverges [OF h(2,3) this] show ?thesis by blast
    next
      case (Inr y)
      obtain meta' req' hdr' st where y: "y = (meta', req', hdr', st)" by (cases y)
      then have st: "st = None" "f meta' req' hdr' = Some (Inl Diverges)" using step go h(1) Inr by (auto split: option.splits)
      have "rx_slack s meta'" "req_shape req'"
        using parse_step_safe [OF h(2,3), of hdr] Inr y by (auto simp: step_result_ok_def)
      then obtain x where x: "parse_goes\<^sup>*\<^sup>* (meta', req', hdr') x" "params_hang x" using IH [OF st(2)] by blast
      have "parse_goes (meta, req, hdr) (meta', req', hdr')" using go Inr y st(1) by (simp add: parse_goes_def)
      then show ?thesis using x converse_rtranclp_into_rtranclp by metis
    qed
  qed
qed

text \<open>Whenever the parser returns on a buffer that may be full, the buffer is as it should be.\<close>

lemma parse_returns:
  assumes "rx_slack k meta" and "req_shape req" and "cg_fastcgi_parse meta req hdr = Inr (meta', req', hdr', s)"
  shows "rx_slack k meta'" "same_buffer meta meta'" "req_shape req'"
    "(s = 0 \<and> hdr_type hdr' = 0) \<or> (s = 1 \<and> leftover meta' < 65790)"
  using parse_loop_slack [OF assms(1,2), of hdr] assms(3)
  by (auto simp: cg_fastcgi_parse_def returns_or_diverges_def split: option.splits)

section \<open>The layout of outgoing records\<close>

lemma bit_byte_high: "8 \<le> k \<Longrightarrow> \<not> bit (w :: byte) k"
  using bit_imp_le_length [of w k] by auto

lemma bit_u16_high: "16 \<le> k \<Longrightarrow> \<not> bit (w :: u16) k"
  using bit_imp_le_length [of w k] by auto

lemma store_load_u16: "store_u16 (load_u16 b0 b1) = [b0, b1]"
proof -
  have "(ucast (ucast b0 OR push_bit 8 (ucast b1) :: u16) :: byte) = b0"
    by (rule bit_word_eqI) (auto simp: bit_simps)
  moreover have "(ucast (drop_bit 8 (ucast b0 OR push_bit 8 (ucast b1) :: u16)) :: byte) = b1"
    by (rule bit_word_eqI) (auto simp: bit_simps bit_byte_high)
  ultimately show ?thesis by (simp add: store_u16_def load_u16_def)
qed

lemma store_bswap16: "store_u16 (bswap16 w) = rev (store_u16 w)"
proof -
  have "(ucast (push_bit 8 w OR drop_bit 8 w) :: byte) = ucast (drop_bit 8 w)"
    by (rule bit_word_eqI) (auto simp: bit_simps)
  moreover have "(ucast (drop_bit 8 (push_bit 8 w OR drop_bit 8 w)) :: byte) = ucast w"
    by (rule bit_word_eqI) (auto simp: bit_simps bit_u16_high)
  ultimately show ?thesis by (simp add: store_u16_def bswap16_def)
qed

lemma bswap16_bswap16 [simp]: "bswap16 (bswap16 w) = w"
proof (rule bit_word_eqI)
  fix i assume "i < LENGTH(16)"
  then show "bit (bswap16 (bswap16 w)) i = bit w i"
    by (auto simp: bswap16_def bit_simps bit_u16_high)
qed

lemma length_store_u16 [simp]: "length (store_u16 w) = 2"
  by (simp add: store_u16_def)

definition stdout_record :: "u16 \<Rightarrow> byte list \<Rightarrow> byte list" where
  "stdout_record rid body =
     [1, CG_FASTCGI_STDOUT] @ rev (store_u16 rid) @ rev (store_u16 (word_of_nat (length body))) @
     [0, 0] @ body"

definition end_record :: "u16 \<Rightarrow> byte list" where
  "end_record rid =
     [1, CG_FASTCGI_END_REQUEST] @ rev (store_u16 rid) @ [0, 8, 0, 0] @ replicate 8 0"

definition tx_ok :: "cg_buffer_metadata \<Rightarrow> bool" where
  "tx_ok tx \<longleftrightarrow> length (meta_buf tx) = 65790 \<and> meta_len tx = 65790 \<and> unat (meta_valid tx) \<le> 65790"

definition tx_text :: "cg_buffer_metadata \<Rightarrow> byte list" where
  "tx_text tx = take (unat (meta_valid tx)) (meta_buf tx)"

lemma length_store_header [simp]: "length (store_header h) = 8"
  by (simp add: store_header_def)

text \<open>Appending bytes behind the valid ones.\<close>

lemma tx_append:
  assumes "tx_ok tx" and "unat (meta_valid tx) + length bs \<le> 65790" and "unat n = length bs"
  shows "\<exists>b. buf_write (meta_buf tx) (unat (meta_valid tx)) bs = Inr b \<and>
    tx_ok (tx\<lparr>meta_buf := b, meta_valid := meta_valid tx + n\<rparr>) \<and>
    unat (meta_valid tx + n) = unat (meta_valid tx) + length bs \<and>
    tx_text (tx\<lparr>meta_buf := b, meta_valid := meta_valid tx + n\<rparr>) = tx_text tx @ bs"
proof -
  have lb: "length (meta_buf tx) = 65790" using assms(1) by (simp add: tx_ok_def)
  have v: "unat (meta_valid tx + n) = unat (meta_valid tx) + length bs"
    using assms(2,3) by (subst unat_add_small) simp_all
  define b where "b = buf_splice (meta_buf tx) (unat (meta_valid tx)) bs"
  have "length b = 65790" using assms(2) lb by (simp add: b_def)
  moreover have "take (unat (meta_valid tx) + length bs) b = tx_text tx @ bs"
    using take_buf_splice [of "unat (meta_valid tx)" bs "meta_buf tx"] assms(2) lb
    by (simp add: b_def tx_text_def)
  ultimately show ?thesis
    using assms(1,2) v lb
    by (intro exI [of _ b]) (simp add: buf_write_ok b_def [symmetric] tx_ok_def tx_text_def)
qed

lemma fastcgi_stdout_ok:
  assumes tx: "tx_ok tx" and fits: "unat (meta_valid tx) + 8 + length body \<le> 65790"
    and len: "unat resp_len = length body" and resp: "take (length body) resp = body"
  shows "\<exists>tx'. cg_fastcgi_stdout tx rid resp resp_len = Inr tx' \<and> tx_ok tx' \<and>
    unat (meta_valid tx') = unat (meta_valid tx) + 8 + length body \<and>
    tx_text tx' = tx_text tx @ stdout_record rid body \<and> meta_pos tx' = meta_pos tx"
proof -
  define hdr where "hdr = \<lparr>hdr_version = 1, hdr_type = CG_FASTCGI_STDOUT, hdr_request_id = bswap16 rid,
    hdr_content_len = bswap16 (ucast resp_len), hdr_padding_len = 0, hdr_reserved = 0\<rparr>"
  have "(ucast resp_len :: u16) = word_of_nat (length body)"
    by (simp add: word_unat_eq_iff unat_ucast_mod unat_of_nat len)
  then have rec: "store_header hdr @ body = stdout_record rid body"
    by (simp add: hdr_def store_header_def store_bswap16 stdout_record_def)
  have ml: "unat (meta_len tx) = 65790" using tx by (simp add: tx_ok_def)
  obtain b where b: "buf_write (meta_buf tx) (unat (meta_valid tx)) (store_header hdr) = Inr b"
      "tx_ok (tx\<lparr>meta_buf := b, meta_valid := meta_valid tx + 8\<rparr>)"
      "unat (meta_valid tx + 8) = unat (meta_valid tx) + 8"
      "tx_text (tx\<lparr>meta_buf := b, meta_valid := meta_valid tx + 8\<rparr>) = tx_text tx @ store_header hdr"
    using tx_append [OF tx, of "store_header hdr" 8] fits by auto
  define tx1 where "tx1 = tx\<lparr>meta_buf := b, meta_valid := meta_valid tx + 8\<rparr>"
  have tx1: "tx_ok tx1" "unat (meta_valid tx1) = unat (meta_valid tx) + 8"
      "tx_text tx1 = tx_text tx @ store_header hdr" "meta_pos tx1 = meta_pos tx"
    using b by (simp_all add: tx1_def)
  show ?thesis
  proof (cases "resp_len = 0")
    case True
    then have nil: "body = []" using len by simp
    have "cg_fastcgi_stdout tx rid resp resp_len = Inr tx1"
      using True nil b(1) fits ml by (simp add: cg_fastcgi_stdout_def Let_def hdr_def tx1_def)
    moreover have "store_header hdr = stdout_record rid body" using rec nil by simp
    ultimately show ?thesis using tx1 nil by simp
  next
    case False
    then have pos: "0 < resp_len" by (simp add: word_gt_0)
    have lr: "length body \<le> length resp" using resp by (metis length_take min.cobounded1)
    have slice: "buf_slice resp 0 (unat resp_len) = Inr body"
      using lr resp len by (simp add: buf_slice_def)
    obtain b2 where b2: "buf_write (meta_buf tx1) (unat (meta_valid tx1)) body = Inr b2"
        "tx_ok (tx1\<lparr>meta_buf := b2, meta_valid := meta_valid tx1 + resp_len\<rparr>)"
        "unat (meta_valid tx1 + resp_len) = unat (meta_valid tx1) + length body"
        "tx_text (tx1\<lparr>meta_buf := b2, meta_valid := meta_valid tx1 + resp_len\<rparr>) = tx_text tx1 @ body"
      using tx_append [OF tx1(1) _ len] fits tx1(2) by auto
    have "cg_fastcgi_stdout tx rid resp resp_len =
        Inr (tx1\<lparr>meta_buf := b2, meta_valid := meta_valid tx1 + resp_len\<rparr>)"
      using False pos b(1) b2(1) slice fits ml len
      by (simp add: cg_fastcgi_stdout_def Let_def tx1_def flip: hdr_def)
    then show ?thesis using b2 tx1 rec by simp
  qed
qed

lemma fastcgi_stdout_dropped:
  assumes "65790 < unat (meta_valid tx) + 8 + unat resp_len" and "tx_ok tx"
  shows "cg_fastcgi_stdout tx rid resp resp_len = Inr tx"
  using assms by (simp add: cg_fastcgi_stdout_def tx_ok_def)

lemma fastcgi_end_ok:
  assumes tx: "tx_ok tx" and fits: "unat (meta_valid tx) + 24 \<le> 65790"
  shows "\<exists>tx'. cg_fastcgi_end tx rid = Inr tx' \<and> tx_ok tx' \<and>
    tx_text tx' = tx_text tx @ stdout_record rid [] @ end_record rid \<and> meta_pos tx' = meta_pos tx"
proof -
  define hdr where "hdr = \<lparr>hdr_version = 1, hdr_type = CG_FASTCGI_END_REQUEST, hdr_request_id = bswap16 rid,
    hdr_content_len = bswap16 8, hdr_padding_len = 0, hdr_reserved = 0\<rparr>"
  have rec: "store_header hdr @ replicate 8 0 = end_record rid"
    by (simp add: hdr_def store_header_def store_bswap16 end_record_def) (simp add: store_u16_def)
  have ml: "unat (meta_len tx) = 65790" using tx by (simp add: tx_ok_def)
  obtain tx0 where tx0: "cg_fastcgi_stdout tx rid [] 0 = Inr tx0" "tx_ok tx0"
      "unat (meta_valid tx0) = unat (meta_valid tx) + 8" "tx_text tx0 = tx_text tx @ stdout_record rid []"
      "meta_pos tx0 = meta_pos tx"
    using fastcgi_stdout_ok [OF tx, of "[]" 0 "[]" rid] fits by auto
  obtain b where b: "buf_write (meta_buf tx0) (unat (meta_valid tx0)) (store_header hdr) = Inr b"
      "tx_ok (tx0\<lparr>meta_buf := b, meta_valid := meta_valid tx0 + 8\<rparr>)"
      "unat (meta_valid tx0 + 8) = unat (meta_valid tx0) + 8"
      "tx_text (tx0\<lparr>meta_buf := b, meta_valid := meta_valid tx0 + 8\<rparr>) = tx_text tx0 @ store_header hdr"
    using tx_append [OF tx0(2), of "store_header hdr" 8] fits tx0(3) by auto
  define tx1 where "tx1 = tx0\<lparr>meta_buf := b, meta_valid := meta_valid tx0 + 8\<rparr>"
  have tx1: "tx_ok tx1" "unat (meta_valid tx1) = unat (meta_valid tx) + 16"
      "tx_text tx1 = tx_text tx0 @ store_header hdr" "meta_pos tx1 = meta_pos tx"
    using b tx0 by (simp_all add: tx1_def)
  obtain b2 where b2: "buf_write (meta_buf tx1) (unat (meta_valid tx1)) (replicate 8 0) = Inr b2"
      "tx_ok (tx1\<lparr>meta_buf := b2, meta_valid := meta_valid tx1 + 8\<rparr>)"
      "tx_text (tx1\<lparr>meta_buf := b2, meta_valid := meta_valid tx1 + 8\<rparr>) = tx_text tx1 @ replicate 8 0"
    using tx_append [OF tx1(1), of "replicate 8 0" 8] fits tx1(2) by auto
  have "cg_fastcgi_end tx rid = Inr (tx1\<lparr>meta_buf := b2, meta_valid := meta_valid tx1 + 8\<rparr>)"
    using fits ml tx0(1) b(1) b2(1)
    by (simp add: cg_fastcgi_end_def Let_def tx1_def flip: hdr_def)
  then show ?thesis using b2 tx1 tx0 rec by simp
qed

text \<open>The guard of \<open>cg_fastcgi_end\<close> asks for 16 bytes, and 24 are written.\<close>

lemma fastcgi_end_overflow:
  assumes tx: "tx_ok tx" and "65790 < unat (meta_valid tx) + 24" and "unat (meta_valid tx) + 16 \<le> 65790"
  shows "cg_fastcgi_end tx rid = Inl Out_Of_Bounds"
proof -
  obtain tx0 where tx0: "cg_fastcgi_stdout tx rid [] 0 = Inr tx0" "tx_ok tx0"
      "unat (meta_valid tx0) = unat (meta_valid tx) + 8"
    using fastcgi_stdout_ok [OF tx, of "[]" 0 "[]" rid] assms(3) by auto
  have lb: "length (meta_buf tx0) = 65790" "unat (meta_len tx) = 65790"
    using tx0(2) tx by (simp_all add: tx_ok_def)
  have u8: "unat (meta_valid tx0 + 8) = unat (meta_valid tx0) + 8"
    using tx0(3) assms(3) by (subst unat_add_small) simp_all
  show ?thesis
    using assms tx0 lb u8
    by (simp add: cg_fastcgi_end_def Let_def buf_write_def)
qed

end
