(* ===== verification/CG_Client.thy ===== *)
theory CG_Client
  imports CG_Fastcgi
begin

text \<open>
  The pool of client contexts of \<open>src/core/cg_client.c\<close>. A client is its index in the pool. The
  allocator hands out the first free context and marks it; it leaves the request in it alone.
\<close>

section \<open>The pool\<close>

datatype cg_client_state = CG_CLIENT_STATE_FREE | CG_CLIENT_STATE_IN_USE

record cg_client_ctx =
  cli_state :: cg_client_state
  fcgi_cli_ctx :: cg_fastcgi_client_ctx
  cli_req :: cg_client_req

definition cg_client_pool_init :: "cg_client_ctx list \<Rightarrow> nat \<Rightarrow> cg_client_ctx list cres" where
  "cg_client_pool_init pool count =
     (if count \<le> length pool then
        Inr (map (\<lambda>c. c\<lparr>cli_state := CG_CLIENT_STATE_FREE,
                        fcgi_cli_ctx := cg_fastcgi_client_init (fcgi_cli_ctx c)\<rparr>) (take count pool) @
             drop count pool)
      else Inl Out_Of_Bounds)"

definition cg_client_alloc ::
  "cg_client_ctx list \<Rightarrow> nat \<Rightarrow> (cg_client_ctx list \<times> nat option) cres" where
  "cg_client_alloc pool pool_size =
     (case first_index (\<lambda>c. cli_state c = CG_CLIENT_STATE_FREE) (take pool_size pool) of
        Some i \<Rightarrow> Inr (pool[i := (pool ! i)\<lparr>cli_state := CG_CLIENT_STATE_IN_USE\<rparr>], Some i)
      | None \<Rightarrow> if length pool < pool_size then Inl Out_Of_Bounds else Inr (pool, None))"

text \<open>A NULL client is \<open>None\<close>.\<close>

definition cg_client_free :: "cg_client_ctx list \<Rightarrow> nat option \<Rightarrow> cg_client_ctx list cres" where
  "cg_client_free pool client =
     (case client of
        None \<Rightarrow> Inr pool
      | Some i \<Rightarrow>
          if i < length pool then Inr (pool[i := (pool ! i)\<lparr>cli_state := CG_CLIENT_STATE_FREE\<rparr>])
          else Inl Bad_Pointer)"

section \<open>Allocation\<close>

abbreviation in_use :: "cg_client_ctx \<Rightarrow> bool" where
  "in_use c \<equiv> cli_state c = CG_CLIENT_STATE_IN_USE"

definition used_clients :: "cg_client_ctx list \<Rightarrow> nat set" where
  "used_clients pool = {i. i < length pool \<and> in_use (pool ! i)}"

lemma not_in_use: "cli_state c = CG_CLIENT_STATE_FREE \<longleftrightarrow> \<not> in_use c"
  by (cases "cli_state c") simp_all

lemma client_alloc_cases:
  assumes "n = length pool"
  shows "case cg_client_alloc pool n of
      Inr (pool', Some i) \<Rightarrow> i \<notin> used_clients pool \<and> used_clients pool' = insert i (used_clients pool) \<and>
        length pool' = length pool \<and> i < length pool \<and> (\<forall>j < i. j \<in> used_clients pool) \<and>
        (\<forall>j. j \<noteq> i \<longrightarrow> pool' ! j = pool ! j) \<and>
        pool' ! i = (pool ! i)\<lparr>cli_state := CG_CLIENT_STATE_IN_USE\<rparr>
    | Inr (pool', None) \<Rightarrow> pool' = pool \<and> used_clients pool = {0..<length pool}
    | Inl e \<Rightarrow> False"
proof (cases "first_index (\<lambda>c. cli_state c = CG_CLIENT_STATE_FREE) pool")
  case None
  then have "used_clients pool = {0..<length pool}"
    by (auto simp: first_index_None used_clients_def not_in_use)
  then show ?thesis using None assms by (simp add: cg_client_alloc_def)
next
  case (Some i)
  then have i: "i < length pool" "\<not> in_use (pool ! i)" "\<forall>j < i. in_use (pool ! j)"
    by (auto simp: first_index_Some not_in_use)
  have used: "used_clients (pool[i := (pool ! i)\<lparr>cli_state := CG_CLIENT_STATE_IN_USE\<rparr>]) =
      insert i (used_clients pool)"
    using i(1) by (auto simp: used_clients_def nth_list_update)
  show ?thesis
    using Some i assms used by (simp add: cg_client_alloc_def) (auto simp: used_clients_def)
qed

lemma client_free_used:
  assumes "i < length pool"
  shows "\<exists>pool'. cg_client_free pool (Some i) = Inr pool' \<and> used_clients pool' = used_clients pool - {i} \<and>
    length pool' = length pool"
  using assms by (auto simp: cg_client_free_def used_clients_def nth_list_update)

lemma client_pool_init_ok:
  assumes "count = length pool"
  shows "\<exists>pool'. cg_client_pool_init pool count = Inr pool' \<and> length pool' = length pool \<and>
    used_clients pool' = {} \<and>
    (\<forall>c \<in> set pool'. fcli_state (fcgi_cli_ctx c) = CG_FASTCGI_CLIENT_STATE_FREE \<and>
       meta_valid (rx_buf_meta (fcgi_cli_ctx c)) = 0 \<and> fcli_sockfd (fcgi_cli_ctx c) = - 1)"
  using assms
  by (auto simp: cg_client_pool_init_def used_clients_def cg_fastcgi_client_init_def)

end
