(* ===== verification/CG_Store.thy ===== *)
theory CG_Store
  imports CG_Prelude
begin

text \<open>
  The interfaces of the stores, as their clients use them: a search by key that can fail to end
  when the store has no room left, the removal of a key, and the addition of one. The hash map,
  the sessions and the accounts are instances, each in its own theory.
\<close>

section \<open>Sequences of operations\<close>

datatype ('k, 'v) map_op = Put 'k 'v | Drop 'k

fun is_put :: "('k, 'v) map_op \<Rightarrow> bool" where
  "is_put (Put k v) = True"
| "is_put (Drop k) = False"

fun apply_op :: "('k, 'v) map_op \<Rightarrow> ('k \<rightharpoonup> 'v) \<Rightarrow> ('k \<rightharpoonup> 'v)" where
  "apply_op (Put k v) f = f(k \<mapsto> v)"
| "apply_op (Drop k) f = f(k := None)"

fun run_ops :: "('m \<Rightarrow> 'k \<Rightarrow> 'v \<Rightarrow> 'm cres) \<Rightarrow> ('m \<Rightarrow> 'k \<Rightarrow> 'm cres) \<Rightarrow>
    ('k, 'v) map_op list \<Rightarrow> 'm \<Rightarrow> 'm cres" where
  "run_ops ins del [] m = Inr m"
| "run_ops ins del (Put k v # ops) m = cbind (ins m k v) (run_ops ins del ops)"
| "run_ops ins del (Drop k # ops) m = cbind (del m k) (run_ops ins del ops)"

lemma run_ops_Cons:
  "run_ops ins del (op # ops) m = cbind (run_ops ins del [op] m) (run_ops ins del ops)"
  by (cases op) (simp_all add: cbind_assoc)

text \<open>What a store keeps of an argument, and when an addition is allowed, are up to the store.\<close>

abbreviation op_view :: "('a \<Rightarrow> 'v) \<Rightarrow> ('k, 'a) map_op \<Rightarrow> ('k, 'v) map_op" where
  "op_view what \<equiv> map_map_op (\<lambda>k. k) what"

lemma is_put_view [simp]: "is_put (op_view what op) = is_put op"
  by (cases op) simp_all

lemma op_view_ident [simp]: "map (op_view (\<lambda>v. v)) ops = ops"
  by (intro map_idI) (simp add: map_op.map_ident)

fun allowed :: "(('k \<rightharpoonup> 'v) \<Rightarrow> 'k \<Rightarrow> bool) \<Rightarrow> ('a \<Rightarrow> 'v) \<Rightarrow> ('k, 'a) map_op list \<Rightarrow> ('k \<rightharpoonup> 'v) \<Rightarrow> bool" where
  "allowed may what [] f = True"
| "allowed may what (op # ops) f \<longleftrightarrow>
     (case op of Put k a \<Rightarrow> may f k | Drop k \<Rightarrow> True) \<and> allowed may what ops (apply_op (op_view what op) f)"

lemma allowed_always: "allowed (\<lambda>f k. True) what ops f"
  by (induction ops arbitrary: f) (simp_all split: map_op.split)

section \<open>Search\<close>

locale keyed_search =
  fixes invar :: "'m \<Rightarrow> bool"
    and lookup :: "'m \<Rightarrow> 'k \<Rightarrow> 'v option"
    and room :: "'m \<Rightarrow> nat"
    and find :: "'m \<Rightarrow> 'k \<Rightarrow> 'v option cres"
  assumes find_present: "invar m \<Longrightarrow> lookup m k = Some v \<Longrightarrow> find m k = Inr (Some v)"
    and find_absent: "invar m \<Longrightarrow> lookup m k = None \<Longrightarrow> 0 < room m \<Longrightarrow> find m k = Inr None"
    and find_stuck: "invar m \<Longrightarrow> lookup m k = None \<Longrightarrow> room m = 0 \<Longrightarrow> find m k = Inl Diverges"
begin

lemma find_eq:
  assumes "invar m" and "lookup m k \<noteq> None \<or> 0 < room m"
  shows "find m k = Inr (lookup m k)"
  using assms find_present find_absent by (cases "lookup m k") auto

lemma find_cases:
  assumes "invar m"
  shows "find m k = (if lookup m k = None \<and> room m = 0 then Inl Diverges else Inr (lookup m k))"
  using assms find_eq [of m k] find_stuck [of m k] by auto

end

section \<open>Removal\<close>

locale keyed_store = keyed_search +
  fixes remove_key :: "'a \<Rightarrow> 'b \<Rightarrow> 'a cres"
  assumes remove_ok: "invar m \<Longrightarrow> lookup m k \<noteq> None \<or> 0 < room m \<Longrightarrow>
      \<exists>m'. remove_key m k = Inr m' \<and> invar m' \<and> lookup m' = (lookup m)(k := None) \<and> room m' = room m"
begin

lemma removed_unknown:
  assumes "invar m" and "0 < room m" and "remove_key m k = Inr m'"
  shows "find m' k = Inr None"
proof -
  have "invar m' \<and> lookup m' = (lookup m)(k := None) \<and> room m' = room m"
    using remove_ok [OF assms(1), of k] assms(2,3) by auto
  then show ?thesis using assms(2) by (simp add: find_absent)
qed

lemma removed_others:
  assumes "invar m" and "0 < room m" and "remove_key m k = Inr m'" and "k' \<noteq> k"
  shows "find m' k' = find m k'"
proof -
  have "invar m' \<and> lookup m' = (lookup m)(k := None) \<and> room m' = room m"
    using remove_ok [OF assms(1), of k] assms(2,3) by auto
  then show ?thesis using assms(1,2,4) by (simp add: find_eq)
qed

end

section \<open>Addition\<close>

text \<open>
  \<open>room\<close> bounds the number of additions that are sure to return; \<open>may\<close> says which keys can be
  added, and \<open>what\<close> which part of the argument a search gives back.
\<close>

locale growing_store = keyed_store +
  fixes may :: "('b \<Rightarrow> 'c option) \<Rightarrow> 'b \<Rightarrow> bool"
    and what :: "'d \<Rightarrow> 'c"
    and add_key :: "'a \<Rightarrow> 'b \<Rightarrow> 'd \<Rightarrow> 'a cres"
  assumes add_ok: "invar m \<Longrightarrow> may (lookup m) k \<Longrightarrow> 0 < room m \<Longrightarrow>
      \<exists>m'. add_key m k a = Inr m' \<and> invar m' \<and> lookup m' = (lookup m)(k \<mapsto> what a) \<and> room m \<le> Suc (room m')"
begin

lemma step_ok:
  assumes "invar m" and "0 < room m" and "allowed may what [op] (lookup m)"
  shows "\<exists>m'. run_ops add_key remove_key [op] m = Inr m' \<and> invar m' \<and>
    lookup m' = apply_op (op_view what op) (lookup m) \<and> room m \<le> room m' + (if is_put op then 1 else 0)"
proof (cases op)
  case (Put k v)
  then show ?thesis using add_ok [of m k v] assms by auto
next
  case (Drop k)
  then show ?thesis using remove_ok [of m k] assms by auto
qed

lemma run_ops_refines:
  assumes "invar m" and "allowed may what ops (lookup m)" and "length (filter is_put ops) < room m"
  shows "\<exists>m'. run_ops add_key remove_key ops m = Inr m' \<and> invar m' \<and>
    lookup m' = fold apply_op (map (op_view what) ops) (lookup m) \<and> room m \<le> room m' + length (filter is_put ops) \<and>
    (\<forall>k. find m' k = Inr (fold apply_op (map (op_view what) ops) (lookup m) k))"
  using assms
proof (induction ops arbitrary: m)
  case Nil
  then show ?case by (simp add: find_eq)
next
  case (Cons op ops)
  obtain m1 where m1: "run_ops add_key remove_key [op] m = Inr m1" "invar m1"
      "lookup m1 = apply_op (op_view what op) (lookup m)" "room m \<le> room m1 + (if is_put op then 1 else 0)"
    using step_ok [of m op] Cons.prems by auto
  have "length (filter is_put ops) < room m1" "allowed may what ops (lookup m1)"
    using Cons.prems(2,3) m1(3,4) by (simp_all split: if_splits)
  from Cons.IH [OF m1(2) this(2,1)] m1(1,3,4) show ?case
    by (subst run_ops_Cons) (auto split: if_splits)
qed

end

end
