(* ===== verification/CG_Hashmap.thy ===== *)
theory CG_Hashmap
  imports CG_Text CG_Store
begin

text \<open>
  The hash map of \<open>src/data/cg_hashmap.c\<close>: linear probing over a table whose size is a power
  of two, with the marks 0 (never used), 1 (occupied) and 2 (deleted). The probe loops have no
  bound of their own, so they are partial functions; \<open>hashmap_wf\<close> is what the operations keep
  true of a table, \<open>hm_lookup\<close> the finite map that a table stands for, and \<open>hm_room\<close> the
  number of never-used slots, which decides whether a search for an absent key ends.
\<close>

section \<open>The table\<close>

record 'v cg_hashmap_entry =
  ent_key :: u64
  ent_val :: 'v
  ent_occupied :: byte

text \<open>\<open>hm_entries\<close> is \<open>None\<close> for the NULL pointer.\<close>

record 'v cg_hashmap =
  hm_entries :: "'v cg_hashmap_entry list option"
  hm_capacity :: u32
  hm_count :: u32

partial_function (option) hashmap_probe ::
  "'v cg_hashmap_entry list \<Rightarrow> u32 \<Rightarrow> u64 \<Rightarrow> u32 \<Rightarrow> nat option cres option" where
  "hashmap_probe es msk key idx =
     (if length es \<le> unat idx then Some (Inl Out_Of_Bounds)
      else if ent_occupied (es ! unat idx) \<noteq> 0 then
        (if ent_occupied (es ! unat idx) = 1 \<and> ent_key (es ! unat idx) = key
         then Some (Inr (Some (unat idx)))
         else hashmap_probe es msk key ((idx + 1) AND msk))
      else Some (Inr None))"

definition cg_hashmap_get_key_uint :: "'v cg_hashmap \<Rightarrow> u64 \<Rightarrow> nat option cres" where
  "cg_hashmap_get_key_uint m key =
     (case hm_entries m of
        None \<Rightarrow> Inr None
      | Some es \<Rightarrow>
          if hm_capacity m = 0 then Inr None
          else let hash = cg_hash_uint64 key; msk = hm_capacity m - 1;
                   idx = ucast (hash AND ucast msk) :: u32
               in returns_or_diverges (hashmap_probe es msk key idx))"

definition cg_hashmap_get_key_str :: "'v cg_hashmap \<Rightarrow> byte list \<Rightarrow> nat \<Rightarrow> nat option cres" where
  "cg_hashmap_get_key_str m key key_len =
     cbind (cg_hash_str key key_len) (cg_hashmap_get_key_uint m)"

partial_function (option) hashmap_slot_probe ::
  "'v cg_hashmap_entry list \<Rightarrow> u32 \<Rightarrow> u32 \<Rightarrow> nat cres option" where
  "hashmap_slot_probe es msk idx =
     (if length es \<le> unat idx then Some (Inl Out_Of_Bounds)
      else if ent_occupied (es ! unat idx) = 1
      then hashmap_slot_probe es msk ((idx + 1) AND msk)
      else Some (Inr (unat idx)))"

definition cg_hashmap_insert_key_uint :: "'v cg_hashmap \<Rightarrow> u64 \<Rightarrow> 'v \<Rightarrow> 'v cg_hashmap cres" where
  "cg_hashmap_insert_key_uint m key val =
     (case hm_entries m of
        None \<Rightarrow> Inr m
      | Some es \<Rightarrow>
          cbind (cg_hashmap_get_key_uint m key) (\<lambda>existing.
            case existing of
              Some i \<Rightarrow> Inr (m\<lparr>hm_entries := Some (es[i := (es ! i)\<lparr>ent_val := val\<rparr>])\<rparr>)
            | None \<Rightarrow>
                let hash = cg_hash_uint64 key; msk = hm_capacity m - 1;
                    idx = ucast (hash AND ucast msk) :: u32
                in cbind (returns_or_diverges (hashmap_slot_probe es msk idx)) (\<lambda>i.
                     Inr (m\<lparr>hm_entries := Some (es[i :=
                              \<lparr>ent_key = key, ent_val = val, ent_occupied = 1\<rparr>]),
                            hm_count := hm_count m + 1\<rparr>))))"

definition cg_hashmap_insert_key_str ::
  "'v cg_hashmap \<Rightarrow> byte list \<Rightarrow> nat \<Rightarrow> 'v \<Rightarrow> 'v cg_hashmap cres" where
  "cg_hashmap_insert_key_str m key key_len val =
     cbind (cg_hash_str key key_len) (\<lambda>ikey. cg_hashmap_insert_key_uint m ikey val)"

definition cg_hashmap_delete_key_uint :: "'v cg_hashmap \<Rightarrow> u64 \<Rightarrow> 'v cg_hashmap cres" where
  "cg_hashmap_delete_key_uint m key =
     (case hm_entries m of
        None \<Rightarrow> Inr m
      | Some es \<Rightarrow>
          cbind (cg_hashmap_get_key_uint m key) (\<lambda>entry.
            case entry of
              Some i \<Rightarrow> Inr (m\<lparr>hm_entries := Some (es[i := (es ! i)\<lparr>ent_occupied := 2\<rparr>]),
                                hm_count := hm_count m - 1\<rparr>)
            | None \<Rightarrow> Inr m))"

section \<open>What a table stands for\<close>

abbreviation live :: "'v cg_hashmap_entry \<Rightarrow> bool" where
  "live e \<equiv> ent_occupied e = 1"

abbreviation entry_for :: "u64 \<Rightarrow> 'v cg_hashmap_entry \<Rightarrow> bool" where
  "entry_for k e \<equiv> live e \<and> ent_key e = k"

definition slot_of :: "nat \<Rightarrow> u64 \<Rightarrow> nat \<Rightarrow> nat" where
  "slot_of cap key j = (unat (cg_hash_uint64 key) + j) mod cap"

definition path_open :: "'v cg_hashmap_entry list \<Rightarrow> u64 \<Rightarrow> nat \<Rightarrow> bool" where
  "path_open es key i \<longleftrightarrow>
     (\<exists>j < length es. slot_of (length es) key j = i \<and>
        (\<forall>j' < j. ent_occupied (es ! slot_of (length es) key j') \<noteq> 0))"

definition table_wf :: "'v cg_hashmap_entry list \<Rightarrow> bool" where
  "table_wf es \<longleftrightarrow>
     (\<exists>k < 32. length es = 2 ^ k) \<and>
     (\<forall>i < length es. live (es ! i) \<longrightarrow> path_open es (ent_key (es ! i)) i) \<and>
     (\<forall>i < length es. \<forall>j < length es.
        live (es ! i) \<and> live (es ! j) \<and> ent_key (es ! i) = ent_key (es ! j) \<longrightarrow> i = j)"

definition table_lookup :: "'v cg_hashmap_entry list \<Rightarrow> u64 \<Rightarrow> 'v option" where
  "table_lookup es k = map_option (\<lambda>i. ent_val (es ! i)) (first_index (entry_for k) es)"

definition live_count :: "'v cg_hashmap_entry list \<Rightarrow> nat" where
  "live_count es = length (filter live es)"

definition fresh_count :: "'v cg_hashmap_entry list \<Rightarrow> nat" where
  "fresh_count es = length (filter (\<lambda>e. ent_occupied e = 0) es)"

definition hm_table :: "'v cg_hashmap \<Rightarrow> 'v cg_hashmap_entry list" where
  "hm_table m = (case hm_entries m of None \<Rightarrow> [] | Some es \<Rightarrow> es)"

definition hashmap_wf :: "'v cg_hashmap \<Rightarrow> bool" where
  "hashmap_wf m \<longleftrightarrow>
     hm_entries m \<noteq> None \<and> table_wf (hm_table m) \<and>
     unat (hm_capacity m) = length (hm_table m) \<and> unat (hm_count m) = live_count (hm_table m)"

definition hm_lookup :: "'v cg_hashmap \<Rightarrow> u64 \<Rightarrow> 'v option" where
  "hm_lookup m = table_lookup (hm_table m)"

definition hm_room :: "'v cg_hashmap \<Rightarrow> nat" where
  "hm_room m = fresh_count (hm_table m)"

section \<open>Probe sequences\<close>

lemma slot_of_less: "0 < cap \<Longrightarrow> slot_of cap key j < cap"
  by (simp add: slot_of_def)

lemma slot_of_Suc: "slot_of cap key (Suc j) = (slot_of cap key j + 1) mod cap"
  by (simp add: slot_of_def mod_Suc_eq)

lemma slot_of_surj:
  assumes "i < cap"
  shows "\<exists>j < cap. slot_of cap key j = i"
proof -
  let ?h = "unat (cg_hash_uint64 key)"
  define r where "r = ?h mod cap"
  have r: "r < cap" using assms by (simp add: r_def)
  let ?j = "(i + (cap - r)) mod cap"
  have "(?h + ?j) mod cap = (r + (i + (cap - r))) mod cap"
    by (simp add: r_def mod_add_left_eq mod_add_right_eq)
  also have "r + (i + (cap - r)) = i + cap"
    using r by simp
  finally have "slot_of cap key ?j = i" using assms by (simp add: slot_of_def)
  moreover have "?j < cap" using assms by simp
  ultimately show ?thesis by blast
qed

text \<open>The word arithmetic of the probe is the arithmetic of slots.\<close>

definition slot_word :: "nat \<Rightarrow> u64 \<Rightarrow> nat \<Rightarrow> u32" where
  "slot_word cap key j = word_of_nat (slot_of cap key j)"

lemma table_size_bound: "k < 32 \<Longrightarrow> (2::nat) ^ k \<le> 2147483648"
  using power_increasing [of k 31 "2::nat"] by simp

lemma unat_slot_word:
  assumes "k < 32"
  shows "unat (slot_word (2 ^ k) key j) = slot_of (2 ^ k) key j"
proof -
  have "slot_of (2 ^ k) key j < 2 ^ k" by (simp add: slot_of_less)
  then show ?thesis
    using table_size_bound [OF assms] by (simp add: slot_word_def unat_of_nat)
qed

lemma capacity_mask:
  assumes "unat (cap :: u32) = 2 ^ k" and "k < 32"
  shows "cap - 1 = mask k"
proof -
  have "cap = word_of_nat (unat cap)" by simp
  also have "\<dots> = 2 ^ k" unfolding assms(1) by simp
  finally show ?thesis by (simp add: mask_eq_exp_minus_1)
qed

lemma unat_and_mask: "unat (w AND mask k) = unat w mod 2 ^ k"
  by (simp only: take_bit_eq_mask [symmetric] unsigned_take_bit_eq take_bit_eq_mod [of k "unat w"])

lemma first_slot:
  assumes "k < 32"
  shows "ucast (cg_hash_uint64 key AND ucast (mask k :: u32)) = slot_word (2 ^ k) key 0"
proof -
  have mk: "(ucast (mask k :: u32) :: u64) = mask k"
    using assms by (intro bit_word_eqI) (auto simp: bit_simps)
  have "unat (cg_hash_uint64 key AND mask k) < 2 ^ LENGTH(32)"
    unfolding unat_and_mask
    using table_size_bound [OF assms] less_le_trans [OF mod_less_divisor [of "2 ^ k"]] by simp
  then have "unat (ucast (cg_hash_uint64 key AND mask k) :: u32) = slot_of (2 ^ k) key 0"
    by (subst unat_ucast_small) (simp_all add: unat_and_mask slot_of_def)
  then show ?thesis
    unfolding mk word_unat_eq_iff unat_slot_word [OF assms] .
qed

lemma next_slot:
  assumes "k < 32"
  shows "(slot_word (2 ^ k) key j + 1) AND mask k = slot_word (2 ^ k) key (Suc j)"
proof -
  note le = table_size_bound [OF assms]
  have "slot_of (2 ^ k) key j < 2 ^ k" by (simp add: slot_of_less)
  with le have "unat (slot_word (2 ^ k) key j + 1) = slot_of (2 ^ k) key j + 1"
    using assms by (subst unat_add_small) (simp_all add: unat_slot_word)
  then show ?thesis
    using assms by (simp add: word_unat_eq_iff unat_and_mask unat_slot_word slot_of_Suc)
qed

text \<open>The probe skips every slot that neither matches nor was never used.\<close>

lemma hashmap_probe_skip:
  assumes k: "k < 32" "length es = 2 ^ k"
    and "\<And>i. i < j \<Longrightarrow> ent_occupied (es ! slot_of (2 ^ k) key i) \<noteq> 0"
    and "\<And>i. i < j \<Longrightarrow> \<not> entry_for key (es ! slot_of (2 ^ k) key i)"
  shows "hashmap_probe es (mask k) key (slot_word (2 ^ k) key 0) =
    hashmap_probe es (mask k) key (slot_word (2 ^ k) key j)"
  using assms(3,4)
proof (induction j)
  case (Suc j)
  have "hashmap_probe es (mask k) key (slot_word (2 ^ k) key j) =
      hashmap_probe es (mask k) key ((slot_word (2 ^ k) key j + 1) AND mask k)"
    using Suc.prems [of j] k slot_of_less [of "2 ^ k" key j]
    by (subst hashmap_probe.simps) (auto simp: unat_slot_word)
  with Suc show ?case using k by (simp add: next_slot)
qed simp

lemma hashmap_slot_probe_skip:
  assumes k: "k < 32" "length es = 2 ^ k"
    and "\<And>i. i < j \<Longrightarrow> live (es ! slot_of (2 ^ k) key i)"
  shows "hashmap_slot_probe es (mask k) (slot_word (2 ^ k) key 0) =
    hashmap_slot_probe es (mask k) (slot_word (2 ^ k) key j)"
  using assms(3)
proof (induction j)
  case (Suc j)
  have "hashmap_slot_probe es (mask k) (slot_word (2 ^ k) key j) =
      hashmap_slot_probe es (mask k) ((slot_word (2 ^ k) key j + 1) AND mask k)"
    using Suc.prems [of j] k slot_of_less [of "2 ^ k" key j]
    by (subst hashmap_slot_probe.simps) (simp add: unat_slot_word)
  with Suc show ?case using k by (simp add: next_slot)
qed simp

section \<open>Lookup\<close>

lemma table_wfE:
  assumes "table_wf es"
  obtains k where "k < 32" "length es = 2 ^ k"
  using assms by (auto simp: table_wf_def)

lemma table_lookup_Some:
  assumes "table_wf es"
  shows "table_lookup es key = Some v \<longleftrightarrow>
    (\<exists>i < length es. entry_for key (es ! i) \<and> ent_val (es ! i) = v)"
proof
  assume "table_lookup es key = Some v"
  then show "\<exists>i < length es. entry_for key (es ! i) \<and> ent_val (es ! i) = v"
    by (auto simp: table_lookup_def first_index_Some)
next
  assume "\<exists>i < length es. entry_for key (es ! i) \<and> ent_val (es ! i) = v"
  then obtain i where i: "i < length es" "entry_for key (es ! i)" "ent_val (es ! i) = v" by blast
  have "first_index (entry_for key) es = Some i"
    using i assms unfolding table_wf_def by (intro first_index_unique) auto
  with i show "table_lookup es key = Some v" by (simp add: table_lookup_def)
qed

lemma table_lookup_None: "table_lookup es key = None \<longleftrightarrow> (\<forall>i < length es. \<not> entry_for key (es ! i))"
  by (auto simp: table_lookup_def first_index_None all_set_conv_all_nth)

lemma table_lookup_index:
  assumes "table_wf es" and "i < length es" and "entry_for key (es ! i)"
  shows "table_lookup es key = Some (ent_val (es ! i))"
  using assms(2,3) by (subst table_lookup_Some [OF assms(1)]) blast

lemma probe_hit:
  assumes wf: "table_wf es" and i: "i < length es" "entry_for key (es ! i)"
    and k: "k < 32" "length es = 2 ^ k"
  shows "hashmap_probe es (mask k) key (slot_word (2 ^ k) key 0) = Some (Inr (Some i))"
proof -
  have "path_open es key i" using wf i by (auto simp: table_wf_def)
  then obtain n where n: "slot_of (2 ^ k) key n = i"
      "\<And>j'. j' < n \<Longrightarrow> ent_occupied (es ! slot_of (2 ^ k) key j') \<noteq> 0"
    by (auto simp: path_open_def k)
  define j where "j = (LEAST j. slot_of (2 ^ k) key j = i)"
  have j: "slot_of (2 ^ k) key j = i" "j \<le> n"
    using n(1) unfolding j_def by (auto intro: LeastI Least_le)
  have "\<not> entry_for key (es ! slot_of (2 ^ k) key j')" if "j' < j" for j'
  proof
    assume "entry_for key (es ! slot_of (2 ^ k) key j')"
    moreover have "slot_of (2 ^ k) key j' < length es" using k by (simp add: slot_of_less)
    ultimately have "slot_of (2 ^ k) key j' = i" using wf i by (auto simp: table_wf_def)
    with that show False unfolding j_def by (auto dest: not_less_Least)
  qed
  then have "hashmap_probe es (mask k) key (slot_word (2 ^ k) key 0) =
      hashmap_probe es (mask k) key (slot_word (2 ^ k) key j)"
    using k n(2) j(2) by (intro hashmap_probe_skip) auto
  also have "\<dots> = Some (Inr (Some i))"
    using i j k by (subst hashmap_probe.simps) (simp add: unat_slot_word)
  finally show ?thesis .
qed

lemma probe_miss:
  assumes wf: "table_wf es" and absent: "table_lookup es key = None"
    and i: "i < length es" "ent_occupied (es ! i) = 0" and k: "k < 32" "length es = 2 ^ k"
  shows "hashmap_probe es (mask k) key (slot_word (2 ^ k) key 0) = Some (Inr None)"
proof -
  let ?empty = "\<lambda>j. ent_occupied (es ! slot_of (2 ^ k) key j) = 0"
  obtain n where "slot_of (2 ^ k) key n = i" using slot_of_surj [of i "2 ^ k" key] i k by auto
  then have ex: "?empty n" using i by simp
  define j where "j = (LEAST j. ?empty j)"
  have j: "?empty j" unfolding j_def by (rule LeastI [of ?empty, OF ex])
  have less: "slot_of (2 ^ k) key j' < length es" for j' using k by (simp add: slot_of_less)
  have "hashmap_probe es (mask k) key (slot_word (2 ^ k) key 0) =
      hashmap_probe es (mask k) key (slot_word (2 ^ k) key j)"
    using k absent less unfolding table_lookup_None
    by (intro hashmap_probe_skip) (auto simp: j_def dest: not_less_Least)
  also have "\<dots> = Some (Inr None)"
    using j less [of j] k by (subst hashmap_probe.simps) (simp add: unat_slot_word)
  finally show ?thesis .
qed

text \<open>With no never-used slot, the search for an absent key goes round for ever.\<close>

lemma probe_never_returns:
  assumes "hashmap_probe es msk key idx = Some r"
  shows "length es = 2 ^ k \<longrightarrow> msk = mask k \<longrightarrow> unat idx < length es \<longrightarrow>
    (\<exists>i < length es. ent_occupied (es ! i) = 0 \<or> entry_for key (es ! i))"
proof (rule hashmap_probe.raw_induct [OF _ assms])
  fix f es msk key idx and r :: "nat option cres"
  assume IH: "\<And>es msk key idx r. f es msk key idx = Some r \<Longrightarrow>
      length (es :: 'a cg_hashmap_entry list) = 2 ^ k \<longrightarrow> msk = mask k \<longrightarrow> unat idx < length es \<longrightarrow>
      (\<exists>i < length es. ent_occupied (es ! i) = 0 \<or> entry_for key (es ! i))"
    and step: "(if length es \<le> unat idx then Some (Inl Out_Of_Bounds)
      else if ent_occupied (es ! unat idx) \<noteq> 0
      then if entry_for key (es ! unat idx) then Some (Inr (Some (unat idx)))
        else f es msk key ((idx + 1) AND msk)
      else Some (Inr None)) = Some r"
  show "length es = 2 ^ k \<longrightarrow> msk = mask k \<longrightarrow> unat idx < length es \<longrightarrow>
      (\<exists>i < length es. ent_occupied (es ! i) = 0 \<or> entry_for key (es ! i))"
  proof (intro impI)
    assume h: "length es = 2 ^ k" "msk = mask k" "unat idx < length es"
    show "\<exists>i < length es. ent_occupied (es ! i) = 0 \<or> entry_for key (es ! i)"
    proof (cases "ent_occupied (es ! unat idx) = 0 \<or> entry_for key (es ! unat idx)")
      case True
      with h show ?thesis by blast
    next
      case False
      then have "f es msk key ((idx + 1) AND msk) = Some r" using step h(3) by (auto split: if_splits)
      moreover have "unat ((idx + 1) AND msk) < length es" using h by (simp add: unat_and_mask)
      ultimately show ?thesis using IH h(1,2) by blast
    qed
  qed
qed

lemma probe_diverges:
  assumes k: "length es = 2 ^ k" and "table_lookup es key = None"
    and full: "\<forall>i < length es. ent_occupied (es ! i) \<noteq> 0" and "unat idx < length es"
  shows "hashmap_probe es (mask k) key idx = None"
proof (rule ccontr)
  assume "hashmap_probe es (mask k) key idx \<noteq> None"
  then obtain r where "hashmap_probe es (mask k) key idx = Some r" by blast
  then obtain i where "i < length es" "ent_occupied (es ! i) = 0 \<or> entry_for key (es ! i)"
    using probe_never_returns k assms(4) by blast
  then show False using full assms(2) by (auto simp: table_lookup_None)
qed

lemma hashmap_get_unfold:
  assumes "hashmap_wf m" and "k < 32" and "length (hm_table m) = 2 ^ k"
  shows "cg_hashmap_get_key_uint m key = returns_or_diverges
    (hashmap_probe (hm_table m) (mask k) key (slot_word (2 ^ k) key 0))"
proof -
  have cap: "unat (hm_capacity m) = 2 ^ k" using assms by (simp add: hashmap_wf_def)
  then have "hm_capacity m \<noteq> 0" by auto
  moreover obtain es where "hm_entries m = Some es" "hm_table m = es"
    using assms(1) by (auto simp: hashmap_wf_def hm_table_def)
  ultimately show ?thesis
    using capacity_mask [OF cap assms(2)] first_slot [OF assms(2), of key]
    by (simp add: cg_hashmap_get_key_uint_def Let_def)
qed

lemma fresh_count_pos: "0 < fresh_count es \<longleftrightarrow> (\<exists>i < length es. ent_occupied (es ! i) = 0)"
  by (simp add: fresh_count_def filter_empty_conv) (metis in_set_conv_nth)

lemma hashmap_get_hit:
  assumes wf: "hashmap_wf m" and "hm_lookup m key = Some v"
  shows "\<exists>i < length (hm_table m). cg_hashmap_get_key_uint m key = Inr (Some i) \<and>
    entry_for key (hm_table m ! i) \<and> ent_val (hm_table m ! i) = v"
proof -
  have t: "table_wf (hm_table m)" using wf by (simp add: hashmap_wf_def)
  then obtain k where k: "k < 32" "length (hm_table m) = 2 ^ k" by (rule table_wfE)
  obtain i where i: "i < length (hm_table m)" "entry_for key (hm_table m ! i)"
      "ent_val (hm_table m ! i) = v"
    using assms(2) t unfolding hm_lookup_def by (auto simp: table_lookup_Some)
  then have "cg_hashmap_get_key_uint m key = Inr (Some i)"
    using hashmap_get_unfold [OF wf k, of key] probe_hit [OF t i(1,2) k] by simp
  with i show ?thesis by blast
qed

lemma hashmap_get_miss:
  assumes wf: "hashmap_wf m" and "hm_lookup m key = None" and "0 < hm_room m"
  shows "cg_hashmap_get_key_uint m key = Inr None"
proof -
  have t: "table_wf (hm_table m)" using wf by (simp add: hashmap_wf_def)
  then obtain k where k: "k < 32" "length (hm_table m) = 2 ^ k" by (rule table_wfE)
  obtain i where "i < length (hm_table m)" "ent_occupied (hm_table m ! i) = 0"
    using assms(3) by (auto simp: hm_room_def fresh_count_pos)
  then show ?thesis
    using hashmap_get_unfold [OF wf k, of key] probe_miss [OF t _ _ _ k] assms(2)
    by (simp add: hm_lookup_def)
qed

lemma hashmap_get_diverges:
  assumes wf: "hashmap_wf m" and "hm_lookup m key = None" and "hm_room m = 0"
  shows "cg_hashmap_get_key_uint m key = Inl Diverges"
proof -
  have t: "table_wf (hm_table m)" using wf by (simp add: hashmap_wf_def)
  then obtain k where k: "k < 32" "length (hm_table m) = 2 ^ k" by (rule table_wfE)
  have "\<forall>i < length (hm_table m). ent_occupied (hm_table m ! i) \<noteq> 0"
    using assms(3) fresh_count_pos [of "hm_table m"] by (auto simp: hm_room_def)
  then have "hashmap_probe (hm_table m) (mask k) key (slot_word (2 ^ k) key 0) = None"
    using k assms(2)
    by (intro probe_diverges) (simp_all add: hm_lookup_def unat_slot_word slot_of_less)
  then show ?thesis using hashmap_get_unfold [OF wf k, of key] by simp
qed

section \<open>Updates of a table\<close>

lemma table_wf_path:
  "table_wf es \<Longrightarrow> i < length es \<Longrightarrow> live (es ! i) \<Longrightarrow> path_open es (ent_key (es ! i)) i"
  by (simp add: table_wf_def)

lemma table_wf_unique:
  "table_wf es \<Longrightarrow> i < length es \<Longrightarrow> j < length es \<Longrightarrow> live (es ! i) \<Longrightarrow> live (es ! j) \<Longrightarrow>
   ent_key (es ! i) = ent_key (es ! j) \<Longrightarrow> i = j"
  by (simp add: table_wf_def)

lemma table_wfI:
  assumes "\<exists>k < 32. length es = 2 ^ k"
    and "\<And>i. i < length es \<Longrightarrow> live (es ! i) \<Longrightarrow> path_open es (ent_key (es ! i)) i"
    and "\<And>i j. i < length es \<Longrightarrow> j < length es \<Longrightarrow> live (es ! i) \<Longrightarrow> live (es ! j) \<Longrightarrow>
      ent_key (es ! i) = ent_key (es ! j) \<Longrightarrow> i = j"
  shows "table_wf es"
  using assms unfolding table_wf_def by blast

text \<open>A table stays well formed when one entry changes and its key and path are right.\<close>

lemma table_wf_update:
  assumes wf: "table_wf es" and i: "i < length es" and e: "ent_occupied e \<noteq> 0"
    and path: "live e \<Longrightarrow> path_open (es[i := e]) (ent_key e) i"
    and uniq: "\<And>n. live e \<Longrightarrow> n < length es \<Longrightarrow> live (es ! n) \<Longrightarrow> ent_key (es ! n) = ent_key e \<Longrightarrow> n = i"
    and mono: "\<And>ky n. path_open es ky n \<Longrightarrow> path_open (es[i := e]) ky n"
  shows "table_wf (es[i := e])"
proof -
  have "path_open (es[i := e]) (ent_key (es[i := e] ! n)) n"
    if "n < length es" "live (es[i := e] ! n)" for n
  proof (cases "n = i")
    case True
    then show ?thesis using that path i by simp
  next
    case False
    then have "path_open es (ent_key (es ! n)) n" using that by (intro table_wf_path [OF wf]) simp_all
    then show ?thesis using False mono by simp
  qed
  moreover have "n = n'"
    if n: "n < length es" "n' < length es" "live (es[i := e] ! n)" "live (es[i := e] ! n')"
      "ent_key (es[i := e] ! n) = ent_key (es[i := e] ! n')" for n n'
  proof -
    consider "n = i" "n' = i" | "n = i" "n' \<noteq> i" | "n \<noteq> i" "n' = i" | "n \<noteq> i" "n' \<noteq> i" by blast
    then show ?thesis
    proof cases
      case 2
      then have "live e" "live (es ! n')" "ent_key (es ! n') = ent_key e" using n i by simp_all
      with 2 uniq [OF _ n(2)] show ?thesis by simp
    next
      case 3
      then have "live e" "live (es ! n)" "ent_key (es ! n) = ent_key e" using n i by simp_all
      with 3 uniq [OF _ n(1)] show ?thesis by simp
    next
      case 4
      then show ?thesis using n by (intro table_wf_unique [OF wf n(1,2)]) simp_all
    qed simp
  qed
  moreover have "\<exists>k < 32. length es = 2 ^ k" using wf by (simp add: table_wf_def)
  ultimately show ?thesis
    by (intro table_wfI) simp_all
qed

lemma path_open_mono:
  assumes "path_open es key i" and "length es' = length es"
    and "\<And>j. j < length es \<Longrightarrow> ent_occupied (es ! j) \<noteq> 0 \<Longrightarrow> ent_occupied (es' ! j) \<noteq> 0"
  shows "path_open es' key i"
proof -
  obtain j where j: "j < length es" "slot_of (length es) key j = i"
      "\<forall>j' < j. ent_occupied (es ! slot_of (length es) key j') \<noteq> 0"
    using assms(1) by (auto simp: path_open_def)
  have "slot_of (length es) key j' < length es" for j' using j(1) by (intro slot_of_less) linarith
  then show ?thesis
    unfolding path_open_def assms(2) using j assms(3) by (intro exI [of _ j]) simp
qed

lemma table_lookupI:
  assumes "table_wf es" and "\<And>v. f = Some v \<longleftrightarrow> (\<exists>i < length es. entry_for key (es ! i) \<and> ent_val (es ! i) = v)"
  shows "table_lookup es key = f"
proof -
  have "table_lookup es key = Some v \<longleftrightarrow> f = Some v" for v
    by (simp add: assms(2) table_lookup_Some [OF assms(1)])
  then show ?thesis by (metis not_Some_eq)
qed

lemma slot_probe_finds:
  assumes k: "k < 32" "length es = 2 ^ k" and i: "i < length es" "\<not> live (es ! i)"
  shows "\<exists>j < 2 ^ k. hashmap_slot_probe es (mask k) (slot_word (2 ^ k) key 0) =
      Some (Inr (slot_of (2 ^ k) key j)) \<and> \<not> live (es ! slot_of (2 ^ k) key j) \<and>
      (\<forall>j' < j. live (es ! slot_of (2 ^ k) key j'))"
proof -
  let ?free = "\<lambda>j. \<not> live (es ! slot_of (2 ^ k) key j)"
  obtain n where n: "n < 2 ^ k" "slot_of (2 ^ k) key n = i"
    using slot_of_surj [of i "2 ^ k" key] i k by auto
  then have ex: "?free n" using i by simp
  define j where "j = (LEAST j. ?free j)"
  have j: "?free j" unfolding j_def by (rule LeastI [of ?free, OF ex])
  have jn: "j \<le> n" unfolding j_def by (rule Least_le [of ?free, OF ex])
  have before: "\<forall>j' < j. live (es ! slot_of (2 ^ k) key j')"
    unfolding j_def by (auto dest: not_less_Least)
  have "hashmap_slot_probe es (mask k) (slot_word (2 ^ k) key 0) =
      hashmap_slot_probe es (mask k) (slot_word (2 ^ k) key j)"
    using k before by (intro hashmap_slot_probe_skip) auto
  also have "\<dots> = Some (Inr (slot_of (2 ^ k) key j))"
    using j k slot_of_less [of "2 ^ k" key j]
    by (subst hashmap_slot_probe.simps) (simp add: unat_slot_word)
  finally show ?thesis using j before jn n(1) by (intro exI [of _ j]) auto
qed

definition new_entry :: "u64 \<Rightarrow> 'v \<Rightarrow> 'v cg_hashmap_entry" where
  "new_entry key val = \<lparr>ent_key = key, ent_val = val, ent_occupied = 1\<rparr>"

lemma new_entry_sel [simp]:
  "ent_key (new_entry key val) = key" "ent_val (new_entry key val) = val"
  "ent_occupied (new_entry key val) = 1"
  by (simp_all add: new_entry_def)

text \<open>Storing a new key in the first slot of its path that is not occupied.\<close>

lemma table_wf_store:
  assumes wf: "table_wf es" and absent: "table_lookup es key = None"
    and k: "length es = 2 ^ k" and j: "j < 2 ^ k" "\<not> live (es ! slot_of (2 ^ k) key j)"
    and before: "\<forall>j' < j. live (es ! slot_of (2 ^ k) key j')"
  shows "table_wf (es[slot_of (2 ^ k) key j := new_entry key val])"
    (is "table_wf ?es'")
proof -
  let ?i = "slot_of (2 ^ k) key j"
  have il: "?i < length es" using k by (simp add: slot_of_less)
  show ?thesis
  proof (rule table_wf_update [OF wf il])
    show "path_open ?es' ky n" if "path_open es ky n" for ky n
      using that by (rule path_open_mono) (auto simp: nth_list_update il)
    show "path_open ?es' (ent_key (new_entry key val)) ?i"
      unfolding path_open_def using k j(1) before slot_of_less [of "2 ^ k" key] il
      by (intro exI [of _ j]) (auto simp: nth_list_update)
  qed (use absent in \<open>auto simp: table_lookup_None\<close>)
qed

lemma table_lookup_store:
  assumes wf: "table_wf es" "table_wf (es[i := new_entry key val])"
    and absent: "table_lookup es key = None" and i: "i < length es" "\<not> live (es ! i)"
  shows "table_lookup (es[i := new_entry key val]) = (table_lookup es)(key \<mapsto> val)"
proof (rule ext, rule table_lookupI [OF wf(2)])
  fix ky v
  show "((table_lookup es)(key \<mapsto> val)) ky = Some v \<longleftrightarrow>
    (\<exists>n < length (es[i := new_entry key val]). entry_for ky (es[i := new_entry key val] ! n) \<and>
      ent_val (es[i := new_entry key val] ! n) = v)" (is "_ \<longleftrightarrow> ?R")
  proof (cases "ky = key")
    case True
    have "?R \<longleftrightarrow> v = val"
      using absent i True unfolding table_lookup_None by (auto simp: nth_list_update)
    with True show ?thesis by auto
  next
    case False
    have "?R \<longleftrightarrow> (\<exists>n < length es. entry_for ky (es ! n) \<and> ent_val (es ! n) = v)"
      using i False by (auto simp: nth_list_update)
    with False show ?thesis by (simp add: table_lookup_Some [OF wf(1)])
  qed
qed

text \<open>Overwriting the value of a key, and marking its entry as deleted.\<close>

lemma table_wf_mark:
  assumes wf: "table_wf es" and i: "i < length es" "live (es ! i)"
    and e: "ent_key e = ent_key (es ! i)" "ent_occupied e \<noteq> 0"
  shows "table_wf (es[i := e])"
proof (rule table_wf_update [OF wf i(1) e(2)])
  show path: "path_open (es[i := e]) ky n" if "path_open es ky n" for ky n
    using e i by (intro path_open_mono [OF that]) (auto simp: nth_list_update)
  show "path_open (es[i := e]) (ent_key e) i"
    using table_wf_path [OF wf i] by (simp add: e(1) path)
  show "n = i" if "n < length es" "live (es ! n)" "ent_key (es ! n) = ent_key e" for n
    using that i e(1) by (intro table_wf_unique [OF wf]) simp_all
qed

lemma table_lookup_mark:
  assumes wf: "table_wf es" and i: "i < length es" "entry_for key (es ! i)"
    and e: "ent_key e = key" "ent_occupied e \<noteq> 0"
  shows "table_lookup (es[i := e]) =
    (table_lookup es)(key := if live e then Some (ent_val e) else None)"
proof (rule ext, rule table_lookupI)
  show "table_wf (es[i := e])" using assms by (intro table_wf_mark) auto
  fix ky v
  show "((table_lookup es)(key := if live e then Some (ent_val e) else None)) ky = Some v \<longleftrightarrow>
    (\<exists>n < length (es[i := e]). entry_for ky (es[i := e] ! n) \<and> ent_val (es[i := e] ! n) = v)"
    (is "_ \<longleftrightarrow> ?R")
  proof (cases "ky = key")
    case True
    have only: "n = i" if "n < length es" "entry_for key (es ! n)" for n
      using that i by (intro table_wf_unique [OF wf]) simp_all
    have "?R \<longleftrightarrow> live e \<and> ent_val e = v"
    proof
      assume ?R
      then obtain n where n: "n < length es" "entry_for ky (es[i := e] ! n)"
          "ent_val (es[i := e] ! n) = v" by auto
      have "n = i"
      proof (rule ccontr)
        assume ne: "n \<noteq> i"
        with n True have "entry_for key (es ! n)" by simp
        with only n(1) ne show False by blast
      qed
      with n i show "live e \<and> ent_val e = v" by simp
    next
      assume "live e \<and> ent_val e = v"
      then show ?R using i e True by (intro exI [of _ i]) simp
    qed
    with True show ?thesis by auto
  next
    case False
    have "entry_for ky (es[i := e] ! n) \<and> ent_val (es[i := e] ! n) = v \<longleftrightarrow>
        entry_for ky (es ! n) \<and> ent_val (es ! n) = v" if "n < length es" for n
      using that i e False by (cases "n = i") simp_all
    then have "?R \<longleftrightarrow> (\<exists>n < length es. entry_for ky (es ! n) \<and> ent_val (es ! n) = v)"
      unfolding length_list_update by blast
    with False show ?thesis by (simp add: table_lookup_Some [OF wf])
  qed
qed

section \<open>The operations on well-formed maps\<close>

lemma hashmap_wf_table: "hashmap_wf m \<Longrightarrow> table_wf (hm_table m)"
  by (simp add: hashmap_wf_def)

lemma hashmap_wf_entries: "hashmap_wf m \<Longrightarrow> hm_entries m = Some (hm_table m)"
  by (auto simp: hashmap_wf_def hm_table_def)

lemma hashmap_wf_size: "hashmap_wf m \<Longrightarrow> length (hm_table m) \<le> 2147483648"
  using table_size_bound by (auto simp: hashmap_wf_def table_wf_def)

lemma live_fresh_le: "live_count es + fresh_count es \<le> length es"
  by (induction es) (auto simp: live_count_def fresh_count_def)

lemma full_no_room: "live_count (hm_table m) = length (hm_table m) \<Longrightarrow> hm_room m = 0"
  using live_fresh_le [of "hm_table m"] by (simp add: hm_room_def)

lemma hm_table_update [simp]: "hm_table (m\<lparr>hm_entries := Some es\<rparr>) = es"
    "hm_table (m\<lparr>hm_entries := Some es, hm_count := c\<rparr>) = es"
  by (simp_all add: hm_table_def)

lemma live_count_store:
  "i < length es \<Longrightarrow> \<not> live (es ! i) \<Longrightarrow> live_count (es[i := new_entry key val]) = Suc (live_count es)"
  using length_filter_update [of i es live "new_entry key val"] by (simp add: live_count_def)

lemma fresh_count_update:
  "i < length es \<Longrightarrow> fresh_count es \<le> Suc (fresh_count (es[i := e]))"
  using length_filter_update [of i es "\<lambda>e. ent_occupied e = 0" e]
  by (auto simp: fresh_count_def split: if_splits)

lemma fresh_count_same:
  assumes "i < length es" and "ent_occupied (es ! i) \<noteq> 0" and "ent_occupied e \<noteq> 0"
  shows "fresh_count (es[i := e]) = fresh_count es"
  using length_filter_update [of i es "\<lambda>e. ent_occupied e = 0" e] assms
  by (simp add: fresh_count_def)

lemma live_count_mark:
  assumes "i < length es" and "live (es ! i)"
  shows "live_count (es[i := e]) = (if live e then live_count es else live_count es - 1)"
    and "0 < live_count es"
proof -
  have "live_count (es[i := e]) + 1 = live_count es + (if live e then 1 else 0)"
    using length_filter_update [of i es live e] assms by (simp add: live_count_def)
  then show "live_count (es[i := e]) = (if live e then live_count es else live_count es - 1)"
    by (simp split: if_splits)
  have "es ! i \<in> set (filter live es)" using assms by simp
  then show "0 < live_count es" unfolding live_count_def by (metis length_pos_if_in_set)
qed

lemma hashmap_overwrite:
  assumes wf: "hashmap_wf m" and "hm_lookup m key = Some v"
  shows "\<exists>m'. cg_hashmap_insert_key_uint m key val = Inr m' \<and> hashmap_wf m' \<and>
    hm_lookup m' = (hm_lookup m)(key \<mapsto> val) \<and> hm_room m' = hm_room m"
proof -
  let ?t = "hm_table m"
  obtain i where i: "i < length ?t" "entry_for key (?t ! i)"
      "cg_hashmap_get_key_uint m key = Inr (Some i)"
    using hashmap_get_hit [OF assms] by blast
  define e where "e = (?t ! i)\<lparr>ent_val := val\<rparr>"
  have e: "ent_key e = key" "ent_val e = val" "live e" using i by (simp_all add: e_def)
  let ?m' = "m\<lparr>hm_entries := Some (?t[i := e])\<rparr>"
  have "cg_hashmap_insert_key_uint m key val = Inr ?m'"
    by (simp add: cg_hashmap_insert_key_uint_def hashmap_wf_entries [OF wf] i(3) e_def)
  moreover have "hashmap_wf ?m'"
    using wf table_wf_mark [OF hashmap_wf_table [OF wf] i(1)] i(2) e live_count_mark [OF i(1)]
    by (simp add: hashmap_wf_def)
  moreover have "hm_lookup ?m' = (hm_lookup m)(key \<mapsto> val)"
    using table_lookup_mark [OF hashmap_wf_table [OF wf] i(1,2) e(1)] e by (simp add: hm_lookup_def)
  moreover have "hm_room ?m' = hm_room m"
    using fresh_count_same [OF i(1)] i(2) e by (simp add: hm_room_def)
  ultimately show ?thesis by blast
qed

lemma hashmap_add:
  assumes wf: "hashmap_wf m" and absent: "hm_lookup m key = None" and room: "0 < hm_room m"
  shows "\<exists>m'. cg_hashmap_insert_key_uint m key val = Inr m' \<and> hashmap_wf m' \<and>
    hm_lookup m' = (hm_lookup m)(key \<mapsto> val) \<and> hm_room m \<le> Suc (hm_room m') \<and>
    hm_count m' = hm_count m + 1"
proof -
  let ?t = "hm_table m"
  note t = hashmap_wf_table [OF wf]
  then obtain k where k: "k < 32" "length ?t = 2 ^ k" by (rule table_wfE)
  obtain n where n: "n < length ?t" "ent_occupied (?t ! n) = 0"
    using room by (auto simp: hm_room_def fresh_count_pos)
  then have "\<not> live (?t ! n)" by simp
  then obtain j where j: "j < 2 ^ k" "\<not> live (?t ! slot_of (2 ^ k) key j)"
      "hashmap_slot_probe ?t (mask k) (slot_word (2 ^ k) key 0) = Some (Inr (slot_of (2 ^ k) key j))"
      "\<forall>j' < j. live (?t ! slot_of (2 ^ k) key j')"
    using slot_probe_finds [OF k n(1)] by blast
  define i where "i = slot_of (2 ^ k) key j"
  have i: "i < length ?t" "\<not> live (?t ! i)" using k j(2) by (simp_all add: i_def slot_of_less)
  define es' where "es' = ?t[i := new_entry key val]"
  have cap: "unat (hm_capacity m) = 2 ^ k" using wf k by (simp add: hashmap_wf_def)
  let ?m' = "m\<lparr>hm_entries := Some es', hm_count := hm_count m + 1\<rparr>"
  have wf': "table_wf es'"
    using table_wf_store [OF t _ k(2) j(1,2,4)] absent by (simp add: hm_lookup_def es'_def i_def)
  have "cg_hashmap_insert_key_uint m key val = Inr ?m'"
    using j(3) capacity_mask [OF cap k(1)] first_slot [OF k(1), of key]
    by (simp add: cg_hashmap_insert_key_uint_def hashmap_wf_entries [OF wf]
        hashmap_get_miss [OF assms] Let_def es'_def i_def new_entry_def)
  moreover have "hashmap_wf ?m'"
  proof -
    have "unat (hm_count m) + 1 \<le> length ?t"
      using wf room live_fresh_le [of ?t] by (simp add: hashmap_wf_def hm_room_def)
    then have "unat (hm_count m + 1) = Suc (unat (hm_count m))"
      using hashmap_wf_size [OF wf] by (subst unat_add_small) simp_all
    then show ?thesis
      using wf wf' live_count_store [OF i] by (simp add: hashmap_wf_def es'_def)
  qed
  moreover have "hm_lookup ?m' = (hm_lookup m)(key \<mapsto> val)"
    using table_lookup_store [OF t _ _ i] wf' absent by (simp add: hm_lookup_def es'_def)
  moreover have "hm_room m \<le> Suc (hm_room ?m')"
    using fresh_count_update [OF i(1)] by (simp add: hm_room_def es'_def)
  ultimately show ?thesis by (intro exI [of _ ?m']) simp
qed

lemma hashmap_remove:
  assumes wf: "hashmap_wf m" and "hm_lookup m key = Some v"
  shows "\<exists>m'. cg_hashmap_delete_key_uint m key = Inr m' \<and> hashmap_wf m' \<and>
    hm_lookup m' = (hm_lookup m)(key := None) \<and> hm_room m' = hm_room m \<and>
    hm_count m' = hm_count m - 1"
proof -
  let ?t = "hm_table m"
  obtain i where i: "i < length ?t" "entry_for key (?t ! i)"
      "cg_hashmap_get_key_uint m key = Inr (Some i)"
    using hashmap_get_hit [OF assms] by blast
  define e where "e = (?t ! i)\<lparr>ent_occupied := 2\<rparr>"
  have e: "ent_key e = key" "ent_occupied e \<noteq> 0" "\<not> live e" using i by (simp_all add: e_def)
  let ?m' = "m\<lparr>hm_entries := Some (?t[i := e]), hm_count := hm_count m - 1\<rparr>"
  have "cg_hashmap_delete_key_uint m key = Inr ?m'"
    by (simp add: cg_hashmap_delete_key_uint_def hashmap_wf_entries [OF wf] i(3) e_def)
  moreover have "hashmap_wf ?m'"
  proof -
    have "unat (hm_count m) = live_count ?t" using wf by (simp add: hashmap_wf_def)
    then have "unat (hm_count m - 1) = live_count ?t - 1"
      using live_count_mark(2) [OF i(1)] i(2) by (subst unat_minus_one) auto
    then show ?thesis
      using wf table_wf_mark [OF hashmap_wf_table [OF wf] i(1)] i(2) e live_count_mark [OF i(1)]
      by (simp add: hashmap_wf_def)
  qed
  moreover have "hm_lookup ?m' = (hm_lookup m)(key := None)"
    using table_lookup_mark [OF hashmap_wf_table [OF wf] i(1,2) e(1,2)] e by (simp add: hm_lookup_def)
  moreover have "hm_room ?m' = hm_room m"
    using fresh_count_same [OF i(1)] i(2) e by (simp add: hm_room_def)
  ultimately show ?thesis by (intro exI [of _ ?m']) simp
qed

lemma hashmap_remove_absent:
  assumes "hashmap_wf m" and "hm_lookup m key = None" and "0 < hm_room m"
  shows "cg_hashmap_delete_key_uint m key = Inr m"
  using hashmap_wf_entries [OF assms(1)] hashmap_get_miss [OF assms]
  by (simp add: cg_hashmap_delete_key_uint_def)

text \<open>The value that a caller reads through the entry pointer it was given.\<close>

definition hashmap_value :: "'v cg_hashmap \<Rightarrow> u64 \<Rightarrow> 'v option cres" where
  "hashmap_value m key = cbind (cg_hashmap_get_key_uint m key)
     (\<lambda>r. Inr (map_option (\<lambda>i. ent_val (hm_table m ! i)) r))"

lemma hashmap_value_hit:
  assumes "hashmap_wf m" and "hm_lookup m key = Some v"
  shows "hashmap_value m key = Inr (Some v)"
proof -
  obtain i where "cg_hashmap_get_key_uint m key = Inr (Some i)" "ent_val (hm_table m ! i) = v"
    using hashmap_get_hit [OF assms] by blast
  then show ?thesis by (simp add: hashmap_value_def)
qed

section \<open>The table as a store\<close>

interpretation hm: growing_store hashmap_wf hm_lookup hm_room hashmap_value cg_hashmap_delete_key_uint
  "\<lambda>f k. True" "\<lambda>v. v" cg_hashmap_insert_key_uint
proof unfold_locales
  fix m :: "'v cg_hashmap" and k :: u64 and v :: 'v
  assume wf: "hashmap_wf m"
  show "hashmap_value m k = Inr (Some v)" if "hm_lookup m k = Some v"
    using hashmap_value_hit [OF wf that] .
  show "hashmap_value m k = Inr None" if "hm_lookup m k = None" "0 < hm_room m"
    using hashmap_get_miss [OF wf that] by (simp add: hashmap_value_def)
  show "hashmap_value m k = Inl Diverges" if "hm_lookup m k = None" "hm_room m = 0"
    using hashmap_get_diverges [OF wf that] by (simp add: hashmap_value_def)
  show "\<exists>m'. cg_hashmap_insert_key_uint m k v = Inr m' \<and> hashmap_wf m' \<and>
      hm_lookup m' = (hm_lookup m)(k \<mapsto> v) \<and> hm_room m \<le> Suc (hm_room m')"
    if "0 < hm_room m"
    using that hashmap_overwrite [OF wf, of k _ v] hashmap_add [OF wf, of k v]
    by (cases "hm_lookup m k") fastforce+
  show "\<exists>m'. cg_hashmap_delete_key_uint m k = Inr m' \<and> hashmap_wf m' \<and>
      hm_lookup m' = (hm_lookup m)(k := None) \<and> hm_room m' = hm_room m"
    if "hm_lookup m k \<noteq> None \<or> 0 < hm_room m"
    using that hashmap_remove [OF wf, of k] hashmap_remove_absent [OF wf, of k] wf
    by (cases "hm_lookup m k") (fastforce simp: fun_upd_idem)+
qed

text \<open>Every sequence of operations on the table refines the same sequence on a finite map.\<close>

lemma hashmap_ops_refine:
  assumes "hashmap_wf m" and "length (filter is_put ops) < hm_room m"
  shows "\<exists>m'. run_ops cg_hashmap_insert_key_uint cg_hashmap_delete_key_uint ops m = Inr m' \<and>
    hashmap_wf m' \<and> hm_lookup m' = fold apply_op ops (hm_lookup m) \<and>
    (\<forall>k. hashmap_value m' k = Inr (fold apply_op ops (hm_lookup m) k))"
  using hm.run_ops_refines [OF assms(1) allowed_always assms(2)]
  by auto

text \<open>A map whose entries were all zeroed: what a new database file holds.\<close>

lemma hashmap_wf_zeroed:
  assumes "k < 32" and "unat (hm_capacity m) = 2 ^ k" and "hm_count m = 0"
    and "hm_entries m = Some es" and "length es = 2 ^ k" and "\<forall>e \<in> set es. ent_occupied e = 0"
  shows "hashmap_wf m" and "hm_lookup m = Map.empty" and "hm_room m = 2 ^ k"
proof -
  have t: "hm_table m = es" using assms by (simp add: hm_table_def)
  have z: "\<And>i. i < length es \<Longrightarrow> ent_occupied (es ! i) = 0" using assms(6) by simp
  have "live_count es = 0" using assms(6) by (simp add: live_count_def filter_empty_conv)
  moreover have "table_wf es" using assms(1,5) z by (intro table_wfI) auto
  ultimately show "hashmap_wf m" using assms t by (simp add: hashmap_wf_def)
  show "hm_lookup m = Map.empty"
    using z by (intro ext) (simp add: hm_lookup_def t table_lookup_None)
  show "hm_room m = 2 ^ k" using assms(5,6) by (simp add: hm_room_def t fresh_count_def)
qed

end
