(* ===== verification/CG_Time.thy ===== *)
theory CG_Time
  imports CG_Arith
begin

text \<open>
  The clock of \<open>src/platform/cg_time.c\<close>. What the kernel answers (the vDSO function when it was
  found, the system call otherwise) is an argument; the conversion of the seconds into a date
  is the code's, and is shown to be the Gregorian calendar for every 32-bit time.
\<close>

section \<open>The operations\<close>

text \<open>\<open>g_vdso_gettime\<close> with the seconds it delivers, or \<open>None\<close> when the symbol was not found.\<close>

definition cg_time_get :: "u64 option \<Rightarrow> u64 \<Rightarrow> u64" where
  "cg_time_get vdso sys_time = (case vdso of None \<Rightarrow> sys_time | Some tv_sec \<Rightarrow> tv_sec)"

definition civil_of_days :: "u32 \<Rightarrow> u32 \<times> u32 \<times> u32" where
  "civil_of_days days_since_epoch =
     (let z = days_since_epoch + 719468;
          era = z div 146097;
          doe = z - (era * 146097);
          yoe = (doe - (doe div 1460) + (doe div 36524) - (doe div 146096)) div 365;
          y = yoe + (era * 400);
          doy = doe - ((365 * yoe) + (yoe div 4) - (yoe div 100));
          mp = ((5 * doy) + 2) div 153;
          d = doy - (((153 * mp) + 2) div 5) + 1;
          m = mp + (if mp < 10 then 3 else - 9);
          y = y + (if m \<le> 2 then 1 else 0)
      in (y, m, d))"

definition cg_datetime_str_get :: "u64 \<Rightarrow> byte list \<Rightarrow> byte list cres" where
  "cg_datetime_str_get now out =
     (let seconds = ucast now :: u32;
          days_since_epoch = cg_div86400_u32 seconds;
          secs_of_day = seconds - (days_since_epoch * 86400);
          hours = cg_div3600_u32 secs_of_day;
          hour_r = secs_of_day - (hours * 3600);
          minutes = cg_div60_u32 hour_r;
          secs = hour_r - (minutes * 60);
          (y, m, d) = civil_of_days days_since_epoch
      in cbind (cg_write_digits4 out 0 y) (\<lambda>out.
         cbind (cg_write_digits2 out 5 m) (\<lambda>out.
         cbind (cg_write_digits2 out 8 d) (\<lambda>out.
         cbind (cg_write_digits2 out 11 hours) (\<lambda>out.
         cbind (cg_write_digits2 out 14 minutes) (\<lambda>out.
           cg_write_digits2 out 17 secs))))))"

section \<open>The calendar\<close>

definition leap :: "nat \<Rightarrow> bool" where
  "leap y \<longleftrightarrow> y mod 4 = 0 \<and> (y mod 100 \<noteq> 0 \<or> y mod 400 = 0)"

definition year_days :: "nat \<Rightarrow> nat" where
  "year_days y = (if leap y then 366 else 365)"

definition month_days :: "nat \<Rightarrow> nat \<Rightarrow> nat" where
  "month_days y m =
     (if m = 2 then (if leap y then 29 else 28) else if m \<in> {4, 6, 9, 11} then 30 else 31)"

definition valid_date :: "nat \<Rightarrow> nat \<Rightarrow> nat \<Rightarrow> bool" where
  "valid_date y m d \<longleftrightarrow> 1970 \<le> y \<and> 1 \<le> m \<and> m \<le> 12 \<and> 1 \<le> d \<and> d \<le> month_days y m"

text \<open>The days from the first of January 1970 to a date.\<close>

definition day_number :: "nat \<Rightarrow> nat \<Rightarrow> nat \<Rightarrow> nat" where
  "day_number y m d =
     sum_list (map year_days [1970..<y]) + sum_list (map (month_days y) [1..<m]) + (d - 1)"

text \<open>The first day of a year that begins in March, counted in a cycle of 400 years.\<close>

definition ystart :: "nat \<Rightarrow> nat" where
  "ystart y = 365 * y + y div 4 - y div 100 + y div 400"

definition mstart :: "nat \<Rightarrow> nat" where
  "mstart mp = (153 * mp + 2) div 5"

lemma div_Suc_of_bool: "Suc y div n = y div n + of_bool (n dvd Suc y)"
  by (simp add: div_Suc dvd_eq_mod_eq_0)

lemma leap_dvd: "leap y \<longleftrightarrow> 4 dvd y \<and> (\<not> 100 dvd y \<or> 400 dvd y)"
  by (simp add: leap_def dvd_eq_mod_eq_0)

lemma ystart_step_arith:
  assumes "(b :: nat) \<le> a" and "B \<longrightarrow> A" and "C \<longrightarrow> B"
  shows "365 * Suc y + (a + of_bool A) - (b + of_bool B) + (c + of_bool C) =
    365 * y + a - b + c + (if A \<and> (\<not> B \<or> C) then 366 else 365)"
  using assms by (cases A; cases B; cases C) auto

lemma ystart_Suc: "ystart (Suc y) = ystart y + year_days (Suc y)"
  unfolding ystart_def year_days_def leap_dvd div_Suc_of_bool
proof (rule ystart_step_arith)
  show "y div 100 \<le> y div 4" by (rule div_le_mono2) simp_all
  show "100 dvd Suc y \<longrightarrow> 4 dvd Suc y" using dvd_trans [of 4 100 "Suc y"] by simp
  show "400 dvd Suc y \<longrightarrow> 100 dvd Suc y" using dvd_trans [of 100 400 "Suc y"] by simp
qed

lemma ystart_mono: "a \<le> b \<Longrightarrow> ystart a \<le> ystart b"
  by (rule lift_Suc_mono_le [of ystart]) (simp_all only: ystart_Suc le_add1)

lemma ystart_era_arith:
  "(b :: nat) \<le> a \<Longrightarrow>
   365 * (y + 400 * e) + (a + 100 * e) - (b + 4 * e) + (c + e) = 365 * y + a - b + c + 146097 * e"
  by simp

lemma ystart_era: "ystart (y + 400 * e) = ystart y + 146097 * e"
proof -
  have "(y + 400 * e) div 4 = y div 4 + 100 * e" using div_mult_self2 [of 4 y "100 * e"] by simp
  moreover have "(y + 400 * e) div 100 = y div 100 + 4 * e"
    using div_mult_self2 [of 100 y "4 * e"] by simp
  moreover have "(y + 400 * e) div 400 = y div 400 + e" using div_mult_self2 [of 400 y e] by simp
  moreover have "y div 100 \<le> y div 4" by (rule div_le_mono2) simp_all
  ultimately show ?thesis unfolding ystart_def by (simp only: ystart_era_arith)
qed

lemma sum_year_days: "sum_list (map year_days [1970..<1970 + n]) + 719162 = ystart (1969 + n)"
proof (induction n)
  case (Suc n)
  have "[1970..<1970 + Suc n] = [1970..<1970 + n] @ [1970 + n]"
    using upt_Suc_append [of 1970 "1970 + n"] by simp
  with Suc show ?case using ystart_Suc [of "1969 + n"] by (simp del: upt_Suc)
qed (simp add: ystart_def)

lemma year_of_day:
  "doe < ystart n \<Longrightarrow> \<exists>y < n. ystart y \<le> doe \<and> doe < ystart (Suc y)"
proof (induction n)
  case (Suc n)
  show ?case
  proof (cases "doe < ystart n")
    case True
    with Suc.IH show ?thesis using less_SucI by blast
  next
    case False
    with Suc.prems show ?thesis by (intro exI [of _ n]) simp
  qed
qed (simp add: ystart_def)

section \<open>Years and months from days\<close>

definition yoe_days :: "nat \<Rightarrow> nat" where
  "yoe_days doe = doe - doe div 1460 + doe div 36524 - doe div 146096"

lemma yoe_step_arith:
  "(a' :: nat) \<le> Suc a \<Longrightarrow> a \<le> doe \<Longrightarrow> b \<le> b' \<Longrightarrow> doe - a + b - 0 \<le> Suc doe - a' + b' - 0"
  by simp

lemma yoe_days_Suc:
  assumes "Suc doe < 146097"
  shows "yoe_days doe \<le> yoe_days (Suc doe)"
proof (cases "Suc doe = 146096")
  case True
  then have "doe = 146095" by simp
  then show ?thesis by (simp add: yoe_days_def)
next
  case False
  then have z: "Suc doe div 146096 = 0" "doe div 146096 = 0" using assms by (simp_all add: div_eq_0_iff)
  show ?thesis unfolding yoe_days_def z
    by (rule yoe_step_arith) (simp_all add: div_Suc div_le_mono del: div_less_dividend)
qed

lemma yoe_days_mono: "a \<le> b \<Longrightarrow> b < 146097 \<Longrightarrow> yoe_days a \<le> yoe_days b"
proof (induction b rule: dec_induct)
  case (step b)
  then have "yoe_days a \<le> yoe_days b" using Suc_lessD by blast
  also have "\<dots> \<le> yoe_days (Suc b)" using step.prems by (rule yoe_days_Suc)
  finally show ?case .
qed simp

text \<open>
  The corner values of the year and month formulas, checked one by one. The tables are over
  integers, where evaluation works on binary numerals.
\<close>

definition ystart_int :: "int \<Rightarrow> int" where
  "ystart_int y = 365 * y + y div 4 - y div 100 + y div 400"

definition yoe_days_int :: "int \<Rightarrow> int" where
  "yoe_days_int doe = doe - doe div 1460 + doe div 36524 - doe div 146096"

definition mstart_int :: "int \<Rightarrow> int" where
  "mstart_int mp = (153 * mp + 2) div 5"

lemma int_ystart: "int (ystart y) = ystart_int (int y)"
proof -
  have "y div 100 \<le> y div 4" by (simp add: div_le_mono2)
  then show ?thesis by (simp add: ystart_def ystart_int_def of_nat_diff zdiv_int)
qed

lemma int_yoe_days: "int (yoe_days doe) = yoe_days_int (int doe)"
proof -
  have "doe div 146096 \<le> doe div 36524" by (rule div_le_mono2) simp_all
  moreover have "doe div 1460 \<le> doe" by (rule div_le_dividend)
  ultimately have "int (doe - doe div 1460 + doe div 36524 - doe div 146096) =
      int doe - int (doe div 1460) + int (doe div 36524) - int (doe div 146096)"
    by (simp add: of_nat_diff del: of_nat_div zdiv_int)
  then show ?thesis by (simp add: yoe_days_def yoe_days_int_def zdiv_int)
qed

lemma int_mstart: "int (mstart mp) = mstart_int (int mp)"
  by (simp add: mstart_def mstart_int_def zdiv_int)

lemma yoe_table:
  "list_all (\<lambda>y. 365 * y \<le> yoe_days_int (ystart_int y) \<and>
     yoe_days_int (ystart_int (y + 1) - 1) < 365 * (y + 1)) [0..399]"
  by code_simp

lemma month_table:
  "list_all (\<lambda>doy. let mp = (5 * doy + 2) div 153 in
     mp < 12 \<and> mstart_int mp \<le> doy \<and> (mp < 11 \<longrightarrow> doy < mstart_int (mp + 1))) [0..365]"
  by code_simp

lemma yoe_correct:
  assumes "y < 400" and "ystart y \<le> doe" and "doe < ystart (Suc y)"
  shows "yoe_days doe div 365 = y"
proof -
  have e: "ystart 400 = 146097" by (simp add: ystart_def)
  have bound: "ystart (Suc y) \<le> 146097" unfolding e [symmetric] using assms(1) by (intro ystart_mono) simp
  have pos: "1 \<le> ystart (Suc y)" using assms(3) by simp
  have "int y \<in> set [0..399]" using assms(1) by simp
  then have tab: "365 * int y \<le> yoe_days_int (ystart_int (int y))"
      "yoe_days_int (ystart_int (int y + 1) - 1) < 365 * (int y + 1)"
    using yoe_table unfolding list_all_iff by blast+
  have "ystart y < 146097" using assms bound by linarith
  then have lo: "365 * y \<le> yoe_days (ystart y)"
    using tab(1) unfolding int_ystart [symmetric] int_yoe_days [symmetric] by linarith
  have "ystart (Suc y) - 1 < 146097" using bound pos by linarith
  moreover have "int (ystart (Suc y) - 1) = ystart_int (int y + 1) - 1"
    using pos int_ystart [of "Suc y"] by (simp add: of_nat_diff add.commute)
  ultimately have "int (yoe_days (ystart (Suc y) - 1)) < 365 * (int y + 1)"
    using tab(2) by (simp only: int_yoe_days)
  then have "int (yoe_days (ystart (Suc y) - 1)) < int (365 * (y + 1))"
    by (simp only: of_nat_mult of_nat_add of_nat_1 of_nat_numeral)
  then have hi: "yoe_days (ystart (Suc y) - 1) < 365 * (y + 1)" by (simp only: of_nat_less_iff)
  have "yoe_days (ystart y) \<le> yoe_days doe"
    using assms bound by (intro yoe_days_mono) linarith+
  moreover have "yoe_days doe \<le> yoe_days (ystart (Suc y) - 1)"
    using assms bound by (intro yoe_days_mono) linarith+
  ultimately have "365 * y \<le> yoe_days doe" "yoe_days doe < 365 * Suc y"
    using lo hi by simp_all
  then show ?thesis by (intro div_nat_eqI) (simp_all add: mult.commute)
qed

lemma month_correct:
  fixes doy :: nat
  assumes "doy < 366"
  defines "mp \<equiv> (5 * doy + 2) div 153"
  shows "mp < 12" "mstart mp \<le> doy" "mp < 11 \<Longrightarrow> doy < mstart (Suc mp)"
proof -
  have i: "int mp = (5 * int doy + 2) div 153" by (simp add: mp_def zdiv_int)
  have "int doy \<in> set [0..365]" using assms(1) by simp
  then have t: "int mp < 12" "mstart_int (int mp) \<le> int doy"
      "int mp < 11 \<longrightarrow> int doy < mstart_int (int mp + 1)"
    using month_table unfolding list_all_iff Let_def i by blast+
  show "mp < 12" using t(1) by simp
  show "mstart mp \<le> doy" using t(2) int_mstart [of mp] by linarith
  show "doy < mstart (Suc mp)" if "mp < 11"
    using t(3) that int_mstart [of "Suc mp"] by (simp add: add.commute)
qed

definition month_of :: "nat \<Rightarrow> nat" where
  "month_of mp = (if mp < 10 then mp + 3 else mp - 9)"

text \<open>A day of a March year, as a date of the calendar.\<close>

lemma less_12_cases:
  assumes "mp < (12::nat)"
  shows "mp \<in> {0, 1, 2, 3, 4, 5, 6, 7, 8, 9, 10, 11}"
  using assms unfolding insert_iff empty_iff by presburger

lemma march_date_number:
  fixes M :: nat
  assumes "1970 \<le> M \<or> 10 \<le> mp \<and> 1969 \<le> M" and mp: "mp < 12"
  shows "day_number (M + (if 10 \<le> mp then 1 else 0)) (month_of mp) d + 719468 =
    ystart M + mstart mp + (d - 1)"
proof (cases "10 \<le> mp")
  case True
  have y: "sum_list (map year_days [1970..<M + 1]) + 719162 = ystart M"
    using sum_year_days [of "M - 1969"] assms(1) by (auto simp del: upt_Suc)
  have "mp = 10 \<or> mp = 11" using True mp by linarith
  then have m: "sum_list (map (month_days (M + 1)) [1..<month_of mp]) + 306 = mstart mp"
    by (auto simp: month_of_def mstart_def month_days_def upt_conv_Cons)
  show ?thesis using y m True by (simp add: day_number_def del: upt_Suc)
next
  case False
  have "sum_list (map year_days [1970..<M]) + 719162 = ystart (M - 1)"
    using sum_year_days [of "M - 1970"] assms(1) False by simp
  moreover have "ystart M = ystart (M - 1) + year_days M"
    using ystart_Suc [of "M - 1"] assms(1) False by simp
  moreover have "sum_list (map (month_days M) [1..<month_of mp]) + 306 = mstart mp + year_days M"
    using less_12_cases [OF mp] False
    by (auto simp: month_of_def mstart_def month_days_def year_days_def upt_conv_Cons)
  ultimately show ?thesis using False by (simp add: day_number_def)
qed

section \<open>The date of a 32-bit time\<close>

text \<open>The civil date computed without wrap-around.\<close>

definition civil_nat :: "nat \<Rightarrow> nat \<times> nat \<times> nat" where
  "civil_nat days =
     (let z = days + 719468; era = z div 146097; doe = z mod 146097;
          yoe = yoe_days doe div 365; doy = doe - ystart yoe;
          mp = (5 * doy + 2) div 153
      in (yoe + 400 * era + (if 10 \<le> mp then 1 else 0), month_of mp, doy - mstart mp + 1))"

lemma march_year:
  assumes "doe < 146097"
  defines "y \<equiv> yoe_days doe div 365"
  shows "y < 400" and "ystart y \<le> doe" and "doe < ystart (Suc y)"
proof -
  have e: "ystart 400 = 146097" by (simp add: ystart_def)
  obtain Y where Y: "Y < 400" "ystart Y \<le> doe" "doe < ystart (Suc Y)"
    using year_of_day [of doe 400] assms(1) unfolding e by blast
  moreover have "y = Y" unfolding y_def by (rule yoe_correct [OF Y])
  ultimately show "y < 400" and "ystart y \<le> doe" and "doe < ystart (Suc y)" by simp_all
qed

lemma month_day_bound:
  assumes "mp < 12" and "mstart mp \<le> doy" and "mp < 11 \<Longrightarrow> doy < mstart (Suc mp)"
    and "doy < year_days (Suc M)"
  shows "doy - mstart mp + 1 \<le> month_days (M + (if 10 \<le> mp then 1 else 0)) (month_of mp)"
  using less_12_cases [OF assms(1)] assms(2-4)
  by (auto simp: month_of_def mstart_def month_days_def year_days_def split: if_splits)

lemma civil_nat_correct:
  assumes "civil_nat days = (y, m, d)"
  shows "valid_date y m d \<and> day_number y m d = days"
proof -
  define z where "z = days + 719468"
  define doe where "doe = z mod 146097"
  define era where "era = z div 146097"
  define yoe where "yoe = yoe_days doe div 365"
  define doy where "doy = doe - ystart yoe"
  define mp where "mp = (5 * doy + 2) div 153"
  have ymd: "y = yoe + 400 * era + (if 10 \<le> mp then 1 else 0)" "m = month_of mp"
      "d = doy - mstart mp + 1"
    using assms by (simp_all add: civil_nat_def Let_def z_def doe_def era_def yoe_def doy_def mp_def)
  have "doe < 146097" by (simp add: doe_def)
  note Y = march_year [OF this, folded yoe_def]
  define M where "M = yoe + 400 * era"
  have yM: "ystart M = ystart yoe + 146097 * era" by (simp add: M_def ystart_era)
  have zs: "z = ystart M + doy" using Y(2) by (simp add: yM doy_def doe_def era_def)
  have "doy < year_days (Suc yoe)" using Y ystart_Suc [of yoe] by (simp add: doy_def)
  moreover have "year_days (Suc M) = year_days (Suc yoe)"
  proof -
    have "Suc M = Suc yoe + 400 * era" by (simp add: M_def)
    then have "ystart (Suc M) = ystart (Suc yoe) + 146097 * era" by (simp only: ystart_era)
    then show ?thesis using ystart_Suc [of M] ystart_Suc [of yoe] yM by simp
  qed
  ultimately have doy: "doy < year_days (Suc M)" by simp
  then have "doy < 366" by (simp add: year_days_def split: if_splits)
  note mo = month_correct [OF this, folded mp_def]
  have M1969: "1969 \<le> M"
  proof (rule ccontr)
    assume "\<not> 1969 \<le> M"
    then have "ystart (Suc M) \<le> ystart 1969" by (intro ystart_mono) simp
    moreover have "z < ystart (Suc M)" using zs doy by (simp add: ystart_Suc)
    moreover have "ystart 1969 = 719162" by (simp add: ystart_def)
    ultimately show False by (simp add: z_def)
  qed
  have num: "M = 1969 \<Longrightarrow> 10 \<le> mp"
  proof (rule ccontr)
    assume "M = 1969" "\<not> 10 \<le> mp"
    moreover from this have "mstart (Suc mp) \<le> 306"
      using less_12_cases [OF mo(1)] by (auto simp: mstart_def)
    moreover have "ystart 1969 = 719162" by (simp add: ystart_def)
    ultimately show False using zs mo(3) by (simp add: z_def)
  qed
  have "1970 \<le> M \<or> 10 \<le> mp \<and> 1969 \<le> M"
    using M1969 num by (cases "M = 1969") simp_all
  then have "day_number y m d + 719468 = ystart M + mstart mp + (d - 1)"
    unfolding ymd M_def [symmetric] using mo(1) by (rule march_date_number)
  then have "day_number y m d = days"
    using zs mo(2) ymd(3) by (simp add: z_def)
  moreover have "d \<le> month_days y m"
    unfolding ymd M_def [symmetric] by (rule month_day_bound [OF mo doy])
  moreover have "1970 \<le> y" using M1969 num ymd(1) by (cases "M = 1969") (simp_all add: M_def)
  moreover have "1 \<le> m \<and> m \<le> 12" using mo(1) unfolding ymd(2) month_of_def by (cases "mp < 10") auto
  ultimately show ?thesis by (simp add: valid_date_def ymd(3))
qed

text \<open>The words of the code do not wrap around below the year 2107.\<close>

lemma civil_nat_bounds:
  assumes "days \<le> 49710" and "civil_nat days = (y, m, d)"
  shows "y < 10000" and "m < 100" and "d < 100"
proof -
  have v: "valid_date y m d" "day_number y m d = days"
    using civil_nat_correct [OF assms(2)] by simp_all
  have "month_days y m \<le> 31" by (simp add: month_days_def)
  with v(1) show "m < 100" and "d < 100" unfolding valid_date_def by simp_all
  have "(days + 719468) div 146097 \<le> 5" using assms(1) by (simp add: div_le_mono)
  moreover have "yoe_days ((days + 719468) mod 146097) div 365 < 400" by (rule march_year) simp
  ultimately show "y < 10000" using assms(2) by (auto simp: civil_nat_def Let_def split: if_splits)
qed

lemma civil_of_days_nat:
  assumes "unat x \<le> 49710" and "civil_of_days x = (y, m, d)"
  shows "civil_nat (unat x) = (unat y, unat m, unat d)"
proof -
  define z where "z = x + 719468"
  have z: "unat z = unat x + 719468" using assms(1) unfolding z_def by (subst unat_add_small) simp_all
  define era where "era = z div 146097"
  have era: "unat era = unat z div 146097" by (simp add: era_def unat_div_distrib)
  define doe where "doe = z mod 146097"
  have doe: "unat doe = unat z mod 146097" by (simp add: doe_def unat_mod_distrib)
  then have doe_less: "unat doe < 146097" by simp
  define f where "f = doe - (doe div 1460) + (doe div 36524) - (doe div 146096)"
  have "unat (doe - doe div 1460) = unat doe - unat doe div 1460"
    by (subst unat_sub) (simp_all add: word_le_nat_alt unat_div_distrib)
  then have "unat (doe - doe div 1460 + doe div 36524) = unat doe - unat doe div 1460 + unat doe div 36524"
    using doe_less by (subst unat_add_small) (simp_all add: unat_div_distrib less_mult_imp_div_less)
  moreover have "unat doe div 146096 \<le> unat doe div 36524" by (rule div_le_mono2) simp_all
  ultimately have f: "unat f = yoe_days (unat doe)"
    unfolding f_def yoe_days_def
    by (subst unat_sub) (simp_all add: word_le_nat_alt unat_div_distrib trans_le_add2)
  define yoe where "yoe = f div 365"
  have yoe: "unat yoe = yoe_days (unat doe) div 365" by (simp add: yoe_def unat_div_distrib f)
  note Y = march_year [OF doe_less, folded yoe]
  define s where "s = 365 * yoe + yoe div 4 - yoe div 100"
  have s1: "unat (365 * yoe) = 365 * unat yoe" using Y(1) by (subst unat_mult_small) simp_all
  have s2: "unat (365 * yoe + yoe div 4) = 365 * unat yoe + unat yoe div 4"
    using Y(1) s1 by (subst unat_add_small) (simp_all add: unat_div_distrib)
  have "unat yoe div 100 \<le> unat yoe div 4" by (rule div_le_mono2) simp_all
  then have s: "unat s = ystart (unat yoe)"
    using Y(1) s2 unfolding s_def
    by (subst unat_sub) (simp_all add: word_le_nat_alt unat_div_distrib trans_le_add2 ystart_def)
  define doy where "doy = doe - s"
  have doy: "unat doy = unat doe - ystart (unat yoe)"
    using Y(2) s by (simp add: doy_def unat_sub word_le_nat_alt)
  have "unat doy < year_days (Suc (unat yoe))" using Y ystart_Suc [of "unat yoe"] by (simp add: doy)
  then have doy_less: "unat doy < 366" by (simp add: year_days_def split: if_splits)
  define mp where "mp = ((5 * doy) + 2) div 153"
  have "unat (5 * doy) = 5 * unat doy" using doy_less by (subst unat_mult_small) simp_all
  then have "unat (5 * doy + 2) = 5 * unat doy + 2" using doy_less by (subst unat_add_small) simp_all
  then have mp: "unat mp = (5 * unat doy + 2) div 153" by (simp add: mp_def unat_div_distrib)
  note mo = month_correct [OF doy_less, folded mp]
  have "unat (153 * mp) = 153 * unat mp" using mo(1) by (subst unat_mult_small) simp_all
  then have "unat (153 * mp + 2) = 153 * unat mp + 2" using mo(1) by (subst unat_add_small) simp_all
  then have ms: "unat ((153 * mp + 2) div 5) = mstart (unat mp)"
    by (simp add: unat_div_distrib mstart_def)
  then have "unat (doy - (153 * mp + 2) div 5) = unat doy - mstart (unat mp)"
    using mo(2) by (simp add: unat_sub word_le_nat_alt)
  then have d: "unat (doy - (153 * mp + 2) div 5 + 1) = unat doy - mstart (unat mp) + 1"
    using doy_less by (subst unat_add_small) simp_all
  define mm where "mm = mp + (if mp < 10 then 3 else - 9)"
  have mm: "unat mm = month_of (unat mp)"
  proof (cases "mp < 10")
    case True
    then have "unat mp < 10" by (simp add: word_less_nat_alt)
    with True show ?thesis by (simp add: mm_def month_of_def unat_add_small)
  next
    case False
    then have "\<not> unat mp < 10" and "9 \<le> mp" by (simp_all add: word_less_nat_alt word_le_nat_alt)
    with False show ?thesis by (simp add: mm_def month_of_def unat_sub word_le_nat_alt)
  qed
  have early: "mm \<le> 2 \<longleftrightarrow> 10 \<le> unat mp"
    using mo(1) unfolding word_le_nat_alt mm by (auto simp: month_of_def)
  have era5: "unat era \<le> 5" using assms(1) z by (simp add: era div_le_mono)
  then have e1: "unat (era * 400) = unat era * 400" by (subst unat_mult_small) simp_all
  then have "unat (yoe + era * 400) = unat yoe + 400 * unat era"
    using era5 Y(1) by (subst unat_add_small) simp_all
  then have y: "unat (yoe + era * 400 + (if mm \<le> 2 then 1 else 0)) =
      unat yoe + 400 * unat era + (if 10 \<le> unat mp then 1 else 0)"
    using era5 Y(1) early by (subst unat_add_small) simp_all
  have "y = yoe + era * 400 + (if mm \<le> 2 then 1 else 0)" "m = mm" "d = doy - (153 * mp + 2) div 5 + 1"
    using assms(2) unfolding civil_of_days_def Let_def z_def [symmetric] era_def [symmetric]
      minus_div_mult_eq_mod doe_def [symmetric] f_def [symmetric] yoe_def [symmetric]
      s_def [symmetric] doy_def [symmetric] mp_def [symmetric] mm_def [symmetric]
    by (auto simp only: prod.inject)
  then show ?thesis
    using y mm d unfolding civil_nat_def Let_def z [symmetric] era [symmetric] doe [symmetric]
      yoe [symmetric] doy [symmetric] mp [symmetric] by (simp only:)
qed

text \<open>The text \<open>YYYY-MM-DD HH:MM:SS\<close>: the separators are those of the caller's buffer.\<close>

definition digits2 :: "nat \<Rightarrow> byte list" where
  "digits2 n = [digit (n div 10), digit (n mod 10)]"

definition digits4 :: "nat \<Rightarrow> byte list" where
  "digits4 n = [digit (n div 1000 mod 10), digit (n div 100 mod 10), digit (n div 10 mod 10), digit (n mod 10)]"

definition datetime_text :: "byte list \<Rightarrow> nat \<Rightarrow> nat \<Rightarrow> nat \<Rightarrow> nat \<Rightarrow> byte list" where
  "datetime_text out y m d sod =
     digits4 y @ [out ! 4] @ digits2 m @ [out ! 7] @ digits2 d @ [out ! 10] @
     digits2 (sod div 3600) @ [out ! 13] @ digits2 (sod mod 3600 div 60) @ [out ! 16] @
     digits2 (sod mod 60) @ drop 19 out"

lemma datetime_writes:
  assumes "19 \<le> length out" and "unat m < 100" and "unat d < 100" and "unat h < 100"
    and "unat mi < 100" and "unat s < 100"
  shows "cbind (cg_write_digits4 out 0 y) (\<lambda>out.
     cbind (cg_write_digits2 out 5 m) (\<lambda>out.
     cbind (cg_write_digits2 out 8 d) (\<lambda>out.
     cbind (cg_write_digits2 out 11 h) (\<lambda>out.
     cbind (cg_write_digits2 out 14 mi) (\<lambda>out. cg_write_digits2 out 17 s))))) =
   Inr (digits4 (unat y) @ [out ! 4] @ digits2 (unat m) @ [out ! 7] @ digits2 (unat d) @ [out ! 10] @
     digits2 (unat h) @ [out ! 13] @ digits2 (unat mi) @ [out ! 16] @ digits2 (unat s) @ drop 19 out)"
proof -
  define xs where "xs = take 19 out"
  have "length xs = 19" using assms(1) by (simp add: xs_def)
  then have "xs = map ((!) xs) [0..<19]" using map_nth [of xs] by simp
  also have "[0..<19] = [0,1,2,3,4,5,6,7,8,9,10,11,12,13,14,15,16,17,18]"
    by (simp add: upt_conv_Cons)
  finally obtain b0 b1 b2 b3 b4 b5 b6 b7 b8 b9 b10 b11 b12 b13 b14 b15 b16 b17 b18 where
    "take 19 out = [b0,b1,b2,b3,b4,b5,b6,b7,b8,b9,b10,b11,b12,b13,b14,b15,b16,b17,b18]"
    unfolding xs_def list.map by blast
  then have "out = [b0,b1,b2,b3,b4,b5,b6,b7,b8,b9,b10,b11,b12,b13,b14,b15,b16,b17,b18] @ drop 19 out"
    by (metis append_take_drop_id)
  then obtain r where out:
    "out = [b0,b1,b2,b3,b4,b5,b6,b7,b8,b9,b10,b11,b12,b13,b14,b15,b16,b17,b18] @ r" ..
  show ?thesis
    using assms(2-) by (simp add: out write_digits4_eq write_digits2_eq digits4_def digits2_def
        buf_write_def buf_splice_def)
qed

lemma datetime_str_correct:
  assumes "19 \<le> length out" and "civil_nat (unat (ucast now :: u32) div 86400) = (y, m, d)"
  shows "cg_datetime_str_get now out =
    Inr (datetime_text out y m d (unat (ucast now :: u32) mod 86400))"
proof -
  define t where "t = (ucast now :: u32)"
  obtain y' m' d' where c: "civil_of_days (cg_div86400_u32 t) = (y', m', d')" by (metis prod_cases3)
  have days: "unat (cg_div86400_u32 t) \<le> 49710" using u32_le [of t] by (simp add: unat_div86400)
  have ymd: "y = unat y'" "m = unat m'" "d = unat d'"
    using civil_of_days_nat [OF days c] assms(2) by (simp_all add: unat_div86400 t_def)
  note b = civil_nat_bounds [OF days civil_of_days_nat [OF days c]]
  have sub: "unat (a - q * k) = unat a mod unat k"
    if "unat q = unat a div unat k" for a q k :: u32
  proof -
    have "q = a div k" using that by (simp add: word_unat_eq_iff unat_div_distrib)
    then show ?thesis by (simp add: minus_div_mult_eq_mod unat_mod_distrib)
  qed
  define sod where "sod = t - cg_div86400_u32 t * 86400"
  have sod: "unat sod = unat t mod 86400" using sub [of _ t 86400] by (simp add: sod_def unat_div86400)
  define hr where "hr = sod - cg_div3600_u32 sod * 3600"
  have hr: "unat hr = unat sod mod 3600" using sub [of _ sod 3600] by (simp add: hr_def unat_div3600)
  define sc where "sc = hr - cg_div60_u32 hr * 60"
  have sc: "unat sc = unat hr mod 60" using sub [of _ hr 60] by (simp add: sc_def unat_div60)
  have sod_less: "unat sod < 86400" by (simp add: sod)
  have "unat sod div 3600 < 100" and "unat sod mod 3600 div 60 < 100" and "unat sod mod 60 < 100"
    using sod_less by (simp_all add: less_mult_imp_div_less)
  moreover have "unat sod mod 3600 mod 60 = unat sod mod 60" by (simp add: mod_mod_cancel)
  ultimately show ?thesis
    using assms(1) b unfolding cg_datetime_str_get_def Let_def t_def [symmetric] c prod.case
      sod_def [symmetric] hr_def [symmetric] sc_def [symmetric]
    by (subst datetime_writes)
      (simp_all add: datetime_text_def ymd unat_div3600 unat_div60 sc hr sod)
qed

end
