(* ===== verification/CG_Sessiondb.thy ===== *)
theory CG_Sessiondb
  imports CG_Hashmap CG_Time
begin

text \<open>
  The session store of \<open>src/data/cg_sessiondb.c\<close>: a pool of 4096 session records and a hash map
  from session identifiers to pool indices, both kept in a mapped file. \<open>sessiondb_wf\<close> ties the
  two together and \<open>sess_abs\<close> is the finite map from session identifiers to users that the
  store promises, as an instance of \<open>growing_store\<close>. The answers of the kernel (the descriptor, the file size, the mapping, the
  random number, the time) are arguments.
\<close>

section \<open>The store\<close>

record cg_sessiondb_header =
  shdr_magic :: u64
  shdr_version :: u32
  shdr_entry_count :: u32
  shdr_entry_size :: u32

record cg_sessiondb_entry =
  session_id :: u64
  user_id :: u32
  creation_timestamp :: u32
  last_seen_timestamp :: u32
  sess_is_active :: byte
  sess_flags :: byte

record cg_sessiondb =
  sdb_hdr :: cg_sessiondb_header
  sdb_map :: "u64 cg_hashmap"
  sdb_pool :: "cg_sessiondb_entry list"

text \<open>The file that is mapped: the pointer inside the map means nothing on disk.\<close>

record sessiondb_image =
  simg_hdr :: cg_sessiondb_header
  simg_map_entries :: "u64 cg_hashmap_entry list"
  simg_pool :: "cg_sessiondb_entry list"

definition SESSIONDB_POOL_SIZE :: nat where
  "SESSIONDB_POOL_SIZE = 4096"

definition SESSIONDB_MAGIC_BYTES :: u64 where
  "SESSIONDB_MAGIC_BYTES = 0x47535345535F4743"

text \<open>An object of the file after it was zeroed.\<close>

definition zero_session :: cg_sessiondb_entry where
  "zero_session = \<lparr>session_id = 0, user_id = 0, creation_timestamp = 0, last_seen_timestamp = 0,
     sess_is_active = 0, sess_flags = 0\<rparr>"

definition zero_hashmap_entry :: "u64 cg_hashmap_entry" where
  "zero_hashmap_entry = \<lparr>ent_key = 0, ent_val = 0, ent_occupied = 0\<rparr>"

definition sessiondb_open :: "sessiondb_image \<Rightarrow> cg_sessiondb" where
  "sessiondb_open img =
     \<lparr>sdb_hdr = simg_hdr img,
      sdb_map = \<lparr>hm_entries = Some (simg_map_entries img), hm_capacity = 4096,
                 hm_count = shdr_entry_count (simg_hdr img)\<rparr>,
      sdb_pool = simg_pool img\<rparr>"

text \<open>
  The mapping fails with a negative error number, which is not the \<open>MAP_FAILED\<close> (all ones) that
  the code compares it with: any other such value is used as an address.
\<close>

definition mmap_error :: "u64 \<Rightarrow> bool" where
  "mmap_error addr \<longleftrightarrow> - 4096 < sint addr \<and> sint addr < 0"

definition cg_sessiondb_init ::
  "u32 \<Rightarrow> u64 \<Rightarrow> u64 \<Rightarrow> sessiondb_image \<Rightarrow> cg_sessiondb option cres" where
  "cg_sessiondb_init fd st_size map_addr img =
     (if sint fd < 0 then Inr None
      else let is_new = (st_size = 0)
           in if map_addr = - 1 then Inr None
      else if mmap_error map_addr then Inl Bad_Pointer
      else if is_new then
        Inr (Some (sessiondb_open
          \<lparr>simg_hdr = \<lparr>shdr_magic = SESSIONDB_MAGIC_BYTES, shdr_version = 1,
                       shdr_entry_count = 0, shdr_entry_size = 24\<rparr>,
           simg_map_entries = replicate SESSIONDB_POOL_SIZE zero_hashmap_entry,
           simg_pool = replicate SESSIONDB_POOL_SIZE zero_session\<rparr>))
      else if shdr_magic (simg_hdr img) \<noteq> SESSIONDB_MAGIC_BYTES then Inr None
      else Inr (Some (sessiondb_open img)))"

text \<open>\<open>getrandom\<close> is the count it returned and the eight bytes of the object it filled.\<close>

type_synonym getrandom_result = "int \<times> u64"

definition cg_sessiondb_session_id_get :: "getrandom_result \<Rightarrow> u64" where
  "cg_sessiondb_session_id_get rnd =
     (case rnd of (res, bytes) \<Rightarrow> if res < 8 then 0 else if bytes = 0 then 1 else bytes)"

definition cg_sessiondb_index_get :: "u64 \<Rightarrow> u64" where
  "cg_sessiondb_index_get sid =
     (let hash = cg_hash_uint64 sid in ucast (ucast (hash AND 4095) :: u32))"

text \<open>The result is the pool index of the record that the code returns a pointer to.\<close>

definition cg_sessiondb_entry_get :: "cg_sessiondb \<Rightarrow> u64 \<Rightarrow> nat option cres" where
  "cg_sessiondb_entry_get db sid =
     cbind (cg_hashmap_get_key_uint (sdb_map db) sid) (\<lambda>hentry.
       case hentry of
         None \<Rightarrow> Inr None
       | Some i \<Rightarrow>
           (let h = hm_table (sdb_map db) ! i in
            if ent_occupied h \<noteq> 0 then
              (if unat (ent_val h) < length (sdb_pool db) then Inr (Some (unat (ent_val h)))
               else Inl Out_Of_Bounds)
            else Inr None))"

text \<open>
  The result is the store and, for the return value 0, the copy left in \<open>out\<close>; for the return
  value 1 nothing is written there.
\<close>

definition cg_sessiondb_entry_create ::
  "cg_sessiondb \<Rightarrow> u32 \<Rightarrow> getrandom_result \<Rightarrow> u64 \<Rightarrow> (cg_sessiondb \<times> cg_sessiondb_entry option) cres"
  where
  "cg_sessiondb_entry_create db uid rnd now =
     (if 4096 \<le> hm_count (sdb_map db) then Inr (db, None)
      else let sid = cg_sessiondb_session_id_get rnd
           in if sid = 0 then Inr (db, None)
      else case first_index (\<lambda>e. sess_is_active e = 0) (take SESSIONDB_POOL_SIZE (sdb_pool db)) of
        None \<Rightarrow> Inr (db, None)
      | Some pool_idx \<Rightarrow>
          let entry = \<lparr>session_id = sid, user_id = uid, creation_timestamp = ucast now,
                       last_seen_timestamp = ucast now, sess_is_active = 1, sess_flags = 0\<rparr>
          in cbind (cg_hashmap_insert_key_uint (sdb_map db) sid (word_of_nat pool_idx)) (\<lambda>m.
               Inr (db\<lparr>sdb_hdr := (sdb_hdr db)\<lparr>shdr_entry_count := shdr_entry_count (sdb_hdr db) + 1\<rparr>,
                       sdb_map := m,
                       sdb_pool := (sdb_pool db)[pool_idx := entry]\<rparr>, Some entry)))"

definition cg_sessiondb_entry_delete :: "cg_sessiondb \<Rightarrow> u64 \<Rightarrow> cg_sessiondb cres" where
  "cg_sessiondb_entry_delete db sid =
     cbind (cg_sessiondb_entry_get db sid) (\<lambda>entry.
       case entry of
         None \<Rightarrow> Inr db
       | Some i \<Rightarrow>
           cbind (cg_hashmap_delete_key_uint (sdb_map db) sid) (\<lambda>m.
             Inr (db\<lparr>sdb_hdr := (sdb_hdr db)\<lparr>shdr_entry_count := shdr_entry_count (sdb_hdr db) - 1\<rparr>,
                     sdb_map := m,
                     sdb_pool := (sdb_pool db)[i := (sdb_pool db ! i)\<lparr>sess_is_active := 0\<rparr>]\<rparr>)))"

section \<open>The contract\<close>

abbreviation sess_active :: "cg_sessiondb_entry \<Rightarrow> bool" where
  "sess_active e \<equiv> sess_is_active e \<noteq> 0"

definition sess_index :: "cg_sessiondb \<Rightarrow> u64 \<Rightarrow> u64 option" where
  "sess_index db = hm_lookup (sdb_map db)"

definition sess_abs :: "cg_sessiondb \<Rightarrow> u64 \<Rightarrow> u32 option" where
  "sess_abs db sid = map_option (\<lambda>v. user_id (sdb_pool db ! unat v)) (sess_index db sid)"

definition sess_room :: "cg_sessiondb \<Rightarrow> nat" where
  "sess_room db = hm_room (sdb_map db)"

definition sessiondb_wf :: "cg_sessiondb \<Rightarrow> bool" where
  "sessiondb_wf db \<longleftrightarrow>
     length (sdb_pool db) = SESSIONDB_POOL_SIZE \<and>
     hashmap_wf (sdb_map db) \<and> hm_capacity (sdb_map db) = 4096 \<and>
     shdr_entry_count (sdb_hdr db) = hm_count (sdb_map db) \<and>
     (\<forall>sid v. sess_index db sid = Some v \<longrightarrow>
        unat v < SESSIONDB_POOL_SIZE \<and> sess_active (sdb_pool db ! unat v) \<and>
        session_id (sdb_pool db ! unat v) = sid) \<and>
     (\<forall>i < SESSIONDB_POOL_SIZE. sess_active (sdb_pool db ! i) \<longrightarrow>
        sess_index db (session_id (sdb_pool db ! i)) = Some (word_of_nat i))"

lemma sessiondb_wfD:
  assumes "sessiondb_wf db"
  shows "length (sdb_pool db) = SESSIONDB_POOL_SIZE" "hashmap_wf (sdb_map db)"
    "hm_capacity (sdb_map db) = 4096" "shdr_entry_count (sdb_hdr db) = hm_count (sdb_map db)"
    "\<And>sid v. sess_index db sid = Some v \<Longrightarrow> unat v < SESSIONDB_POOL_SIZE \<and>
       sess_active (sdb_pool db ! unat v) \<and> session_id (sdb_pool db ! unat v) = sid"
    "\<And>i. i < SESSIONDB_POOL_SIZE \<Longrightarrow> sess_active (sdb_pool db ! i) \<Longrightarrow>
       sess_index db (session_id (sdb_pool db ! i)) = Some (word_of_nat i)"
  using assms unfolding sessiondb_wf_def by blast+

lemma sess_table_size: "sessiondb_wf db \<Longrightarrow> length (hm_table (sdb_map db)) = 4096"
  using sessiondb_wfD(2,3) [of db] by (simp add: hashmap_wf_def)

lemma sess_get_present:
  assumes wf: "sessiondb_wf db" and v: "sess_index db sid = Some v"
  shows "cg_sessiondb_entry_get db sid = Inr (Some (unat v))"
proof -
  obtain i where i: "cg_hashmap_get_key_uint (sdb_map db) sid = Inr (Some i)"
      "entry_for sid (hm_table (sdb_map db) ! i)" "ent_val (hm_table (sdb_map db) ! i) = v"
    using hashmap_get_hit [OF sessiondb_wfD(2) [OF wf]] v by (auto simp: sess_index_def)
  then show ?thesis
    using sessiondb_wfD(1,5) [OF wf] v by (simp add: cg_sessiondb_entry_get_def Let_def)
qed

lemma sess_get_absent:
  assumes "sessiondb_wf db" and "sess_index db sid = None" and "0 < sess_room db"
  shows "cg_sessiondb_entry_get db sid = Inr None"
  using hashmap_get_miss [OF sessiondb_wfD(2) [OF assms(1)]] assms(2,3)
  by (simp add: cg_sessiondb_entry_get_def sess_index_def sess_room_def)

lemma sess_get_stuck:
  assumes "sessiondb_wf db" and "sess_index db sid = None" and "sess_room db = 0"
  shows "cg_sessiondb_entry_get db sid = Inl Diverges"
  using hashmap_get_diverges [OF sessiondb_wfD(2) [OF assms(1)]] assms(2,3)
  by (simp add: cg_sessiondb_entry_get_def sess_index_def sess_room_def)

lemma sess_abs_None: "sess_abs db sid = None \<longleftrightarrow> sess_index db sid = None"
  by (simp add: sess_abs_def)

section \<open>A free slot below the limit\<close>

lemma active_le_live:
  assumes wf: "sessiondb_wf db"
  shows "length (filter sess_active (sdb_pool db)) \<le> live_count (hm_table (sdb_map db))"
proof -
  let ?p = "sdb_pool db" and ?t = "hm_table (sdb_map db)"
  define A where "A = {i. i < length ?p \<and> sess_active (?p ! i)}"
  define L where "L = {n. n < length ?t \<and> live (?t ! n)}"
  have ex: "\<exists>n \<in> L. ent_val (?t ! n) = word_of_nat i" if i: "i \<in> A" for i
  proof -
    have "sess_index db (session_id (?p ! i)) = Some (word_of_nat i)"
      using i sessiondb_wfD(1,6) [OF wf] by (simp add: A_def)
    then show ?thesis
      using table_lookup_Some [OF hashmap_wf_table [OF sessiondb_wfD(2) [OF wf]]]
      unfolding sess_index_def hm_lookup_def L_def by blast
  qed
  define f where "f n = unat (ent_val (?t ! n))" for n
  have "A \<subseteq> f ` L"
  proof
    fix i assume i: "i \<in> A"
    then have "i < 4096" using sessiondb_wfD(1) [OF wf] by (simp add: A_def SESSIONDB_POOL_SIZE_def)
    then have "unat (word_of_nat i :: u64) = i" by (simp add: unat_of_nat)
    with ex [OF i] show "i \<in> f ` L" by (force simp: f_def)
  qed
  then have "card A \<le> card L"
    by (intro surj_card_le) (simp add: L_def)
  then show ?thesis
    by (simp add: A_def L_def live_count_def length_filter_conv_card)
qed

lemma free_slot:
  assumes wf: "sessiondb_wf db" and "hm_count (sdb_map db) < 4096"
  shows "\<exists>i < SESSIONDB_POOL_SIZE.
    first_index (\<lambda>e. sess_is_active e = 0) (take SESSIONDB_POOL_SIZE (sdb_pool db)) = Some i \<and>
    sess_is_active (sdb_pool db ! i) = 0"
proof -
  note len = sessiondb_wfD(1) [OF wf]
  have "unat (hm_count (sdb_map db)) < 4096" using assms(2) by (simp add: word_less_nat_alt)
  then have "live_count (hm_table (sdb_map db)) < length (sdb_pool db)"
    using sessiondb_wfD(2) [OF wf] len by (simp add: hashmap_wf_def SESSIONDB_POOL_SIZE_def)
  then have "length (filter sess_active (sdb_pool db)) < length (sdb_pool db)"
    using active_le_live [OF wf] by simp
  then have "\<exists>e \<in> set (sdb_pool db). sess_is_active e = 0"
    using length_filter_less [of _ "sdb_pool db" sess_active]
    by (metis (mono_tags, lifting) filter_True less_irrefl)
  then obtain i where "first_index (\<lambda>e. sess_is_active e = 0) (sdb_pool db) = Some i"
    by (metis (mono_tags) first_index_None not_None_eq)
  then show ?thesis using len by (auto simp: first_index_Some)
qed

section \<open>Creating and deleting sessions\<close>

lemma hm_insert_capacity:
  "cg_hashmap_insert_key_uint m k v = Inr m' \<Longrightarrow> hm_capacity m' = hm_capacity m"
  by (auto simp: cg_hashmap_insert_key_uint_def Let_def cbind_eq_Inr split: option.splits)

lemma hm_delete_capacity:
  "cg_hashmap_delete_key_uint m k = Inr m' \<Longrightarrow> hm_capacity m' = hm_capacity m"
  by (auto simp: cg_hashmap_delete_key_uint_def cbind_eq_Inr split: option.splits)

definition new_session :: "u64 \<Rightarrow> u32 \<Rightarrow> u64 \<Rightarrow> cg_sessiondb_entry" where
  "new_session sid uid now =
     \<lparr>session_id = sid, user_id = uid, creation_timestamp = ucast now,
      last_seen_timestamp = ucast now, sess_is_active = 1, sess_flags = 0\<rparr>"

lemma new_session_sel [simp]:
  "session_id (new_session sid uid now) = sid" "user_id (new_session sid uid now) = uid"
  "sess_is_active (new_session sid uid now) = 1"
  by (simp_all add: new_session_def)

lemma sess_create_ok:
  assumes wf: "sessiondb_wf db" and count: "hm_count (sdb_map db) < 4096"
    and rnd: "8 \<le> res" "sid = (if bytes = 0 then 1 else bytes)"
    and fresh: "sess_index db sid = None" and room: "0 < sess_room db"
  shows "\<exists>db'. cg_sessiondb_entry_create db uid (res, bytes) now =
      Inr (db', Some (new_session sid uid now)) \<and> sessiondb_wf db' \<and>
    sess_abs db' = (sess_abs db)(sid \<mapsto> uid) \<and> sess_room db \<le> Suc (sess_room db') \<and>
    hm_count (sdb_map db') = hm_count (sdb_map db) + 1"
proof -
  note W = sessiondb_wfD [OF wf]
  obtain i where i: "i < SESSIONDB_POOL_SIZE" "sess_is_active (sdb_pool db ! i) = 0"
      "first_index (\<lambda>e. sess_is_active e = 0) (take SESSIONDB_POOL_SIZE (sdb_pool db)) = Some i"
    using free_slot [OF wf count] by blast
  define v where "v = (word_of_nat i :: u64)"
  have v: "unat v = i" using i(1) by (simp add: v_def unat_of_nat SESSIONDB_POOL_SIZE_def)
  obtain m where m: "cg_hashmap_insert_key_uint (sdb_map db) sid v = Inr m" "hashmap_wf m"
      "hm_lookup m = (hm_lookup (sdb_map db))(sid \<mapsto> v)" "hm_room (sdb_map db) \<le> Suc (hm_room m)"
      "hm_count m = hm_count (sdb_map db) + 1"
    using hashmap_add [OF W(2)] fresh room by (auto simp: sess_index_def sess_room_def)
  define e where "e = new_session sid uid now"
  define db' where "db' = db\<lparr>sdb_hdr := (sdb_hdr db)\<lparr>shdr_entry_count := shdr_entry_count (sdb_hdr db) + 1\<rparr>,
    sdb_map := m, sdb_pool := (sdb_pool db)[i := e]\<rparr>"
  have sid: "cg_sessiondb_session_id_get (res, bytes) = sid" "sid \<noteq> 0"
    using rnd by (simp_all add: cg_sessiondb_session_id_get_def)
  have run: "cg_sessiondb_entry_create db uid (res, bytes) now = Inr (db', Some e)"
    using count i(3) m(1) sid
    by (simp add: cg_sessiondb_entry_create_def Let_def v_def db'_def e_def new_session_def)
  have index: "sess_index db' = (sess_index db)(sid \<mapsto> v)"
    by (simp add: sess_index_def db'_def m(3))
  have unused: "unat w \<noteq> i" if "sess_index db s = Some w" for s w
    using W(5) [OF that] i(2) by auto
  have pool: "sdb_pool db' ! j = (if j = i then e else sdb_pool db ! j)"
    if "j < SESSIONDB_POOL_SIZE" for j
    using that i(1) W(1) by (simp add: db'_def)
  have "sessiondb_wf db'"
    unfolding sessiondb_wf_def
  proof (intro conjI allI impI)
    show "length (sdb_pool db') = SESSIONDB_POOL_SIZE" using W(1) by (simp add: db'_def)
    show "hashmap_wf (sdb_map db')" using m(2) by (simp add: db'_def)
    show "hm_capacity (sdb_map db') = 4096" using hm_insert_capacity [OF m(1)] W(3) by (simp add: db'_def)
    show "shdr_entry_count (sdb_hdr db') = hm_count (sdb_map db')" using W(4) m(5) by (simp add: db'_def)
    fix s w assume s: "sess_index db' s = Some w"
    have "unat w < SESSIONDB_POOL_SIZE \<and> sess_active (sdb_pool db' ! unat w) \<and>
        session_id (sdb_pool db' ! unat w) = s"
    proof (cases "s = sid")
      case True
      then show ?thesis using s i(1) pool v by (simp add: index e_def)
    next
      case False
      then have old: "sess_index db s = Some w" using s by (simp add: index)
      then show ?thesis using W(5) [OF old] unused [OF old] pool by simp
    qed
    then show "unat w < SESSIONDB_POOL_SIZE" "sess_active (sdb_pool db' ! unat w)"
        "session_id (sdb_pool db' ! unat w) = s" by simp_all
  next
    fix j assume j: "j < SESSIONDB_POOL_SIZE" "sess_active (sdb_pool db' ! j)"
    show "sess_index db' (session_id (sdb_pool db' ! j)) = Some (word_of_nat j)"
    proof (cases "j = i")
      case True
      then show ?thesis using pool [OF j(1)] by (simp add: index e_def v_def)
    next
      case False
      then have old: "sess_index db (session_id (sdb_pool db ! j)) = Some (word_of_nat j)"
        using j W(6) pool by simp
      then have "session_id (sdb_pool db ! j) \<noteq> sid" using fresh by auto
      then show ?thesis using old False pool [OF j(1)] by (simp add: index)
    qed
  qed
  moreover have "sess_abs db' = (sess_abs db)(sid \<mapsto> uid)"
  proof
    fix s
    show "sess_abs db' s = ((sess_abs db)(sid \<mapsto> uid)) s"
    proof (cases "s = sid")
      case True
      then show ?thesis using i(1) v pool by (simp add: sess_abs_def index e_def)
    next
      case False
      then show ?thesis using W(5) [of s] unused [of s] pool
        by (cases "sess_index db s") (simp_all add: sess_abs_def index)
    qed
  qed
  ultimately show ?thesis
    using run m(4,5) by (intro exI [of _ db']) (simp add: e_def sess_room_def db'_def)
qed

lemma sess_delete_ok:
  assumes wf: "sessiondb_wf db" and v: "sess_index db sid = Some v"
  shows "\<exists>db'. cg_sessiondb_entry_delete db sid = Inr db' \<and> sessiondb_wf db' \<and>
    sess_abs db' = (sess_abs db)(sid := None) \<and> sess_room db' = sess_room db \<and>
    hm_count (sdb_map db') = hm_count (sdb_map db) - 1"
proof -
  note W = sessiondb_wfD [OF wf]
  obtain m where m: "cg_hashmap_delete_key_uint (sdb_map db) sid = Inr m" "hashmap_wf m"
      "hm_lookup m = (hm_lookup (sdb_map db))(sid := None)" "hm_room m = hm_room (sdb_map db)"
      "hm_count m = hm_count (sdb_map db) - 1"
    using hashmap_remove [OF W(2)] v by (auto simp: sess_index_def)
  define i where "i = unat v"
  have i: "i < SESSIONDB_POOL_SIZE" "sess_active (sdb_pool db ! i)" "session_id (sdb_pool db ! i) = sid"
    using W(5) [OF v] by (simp_all add: i_def)
  define e where "e = (sdb_pool db ! i)\<lparr>sess_is_active := 0\<rparr>"
  define db' where "db' = db\<lparr>sdb_hdr := (sdb_hdr db)\<lparr>shdr_entry_count := shdr_entry_count (sdb_hdr db) - 1\<rparr>,
    sdb_map := m, sdb_pool := (sdb_pool db)[i := e]\<rparr>"
  have run: "cg_sessiondb_entry_delete db sid = Inr db'"
    using m(1) sess_get_present [OF wf v]
    by (simp add: cg_sessiondb_entry_delete_def db'_def e_def i_def)
  have index: "sess_index db' = (sess_index db)(sid := None)"
    by (simp add: sess_index_def db'_def m(3))
  have pool: "sdb_pool db' ! j = (if j = i then e else sdb_pool db ! j)"
    if "j < SESSIONDB_POOL_SIZE" for j
    using that i(1) W(1) by (simp add: db'_def)
  have other: "unat w \<noteq> i" if "sess_index db s = Some w" "s \<noteq> sid" for s w
    using W(5) [OF that(1)] i(3) that(2) by auto
  have "sessiondb_wf db'"
    unfolding sessiondb_wf_def
  proof (intro conjI allI impI)
    show "length (sdb_pool db') = SESSIONDB_POOL_SIZE" using W(1) by (simp add: db'_def)
    show "hashmap_wf (sdb_map db')" using m(2) by (simp add: db'_def)
    show "hm_capacity (sdb_map db') = 4096" using hm_delete_capacity [OF m(1)] W(3) by (simp add: db'_def)
    show "shdr_entry_count (sdb_hdr db') = hm_count (sdb_map db')" using W(4) m(5) by (simp add: db'_def)
    fix s w assume s: "sess_index db' s = Some w"
    then have old: "sess_index db s = Some w" "s \<noteq> sid" by (auto simp: index split: if_splits)
    then show "unat w < SESSIONDB_POOL_SIZE" "sess_active (sdb_pool db' ! unat w)"
        "session_id (sdb_pool db' ! unat w) = s"
      using W(5) [OF old(1)] other [OF old] pool by simp_all
  next
    fix j assume j: "j < SESSIONDB_POOL_SIZE" "sess_active (sdb_pool db' ! j)"
    then have ji: "j \<noteq> i" using pool by (auto simp: e_def)
    then have old: "sess_index db (session_id (sdb_pool db ! j)) = Some (word_of_nat j)"
      using j W(6) pool by simp
    have "session_id (sdb_pool db ! j) \<noteq> sid"
    proof
      assume "session_id (sdb_pool db ! j) = sid"
      then have "v = word_of_nat j" using old v by simp
      then have "i = j" using j(1) by (simp add: i_def unat_of_nat SESSIONDB_POOL_SIZE_def)
      with ji show False by simp
    qed
    then show "sess_index db' (session_id (sdb_pool db' ! j)) = Some (word_of_nat j)"
      using old ji pool [OF j(1)] by (simp add: index)
  qed
  moreover have "sess_abs db' = (sess_abs db)(sid := None)"
  proof
    fix s
    show "sess_abs db' s = ((sess_abs db)(sid := None)) s"
    proof (cases "s = sid")
      case False
      then show ?thesis using W(5) [of s] other [of s] pool
        by (cases "sess_index db s") (simp_all add: sess_abs_def index)
    qed (simp add: sess_abs_def index)
  qed
  ultimately show ?thesis
    using run m(4,5) by (intro exI [of _ db']) (simp add: sess_room_def db'_def)
qed

text \<open>Creation fails, without a change, when the store is full or no random number came.\<close>

lemma sess_create_refused:
  "4096 \<le> hm_count (sdb_map db) \<or> res < 8 \<Longrightarrow>
   cg_sessiondb_entry_create db uid (res, bytes) now = Inr (db, None)"
  by (auto simp: cg_sessiondb_entry_create_def cg_sessiondb_session_id_get_def)

text \<open>A full store: the table has no never-used slot left.\<close>

lemma sess_full_no_room:
  assumes wf: "sessiondb_wf db" and "hm_count (sdb_map db) = 4096"
  shows "sess_room db = 0"
proof -
  have "live_count (hm_table (sdb_map db)) = unat (hm_count (sdb_map db))"
    using sessiondb_wfD(2) [OF wf] by (simp add: hashmap_wf_def)
  then show ?thesis
    using sess_table_size [OF wf] assms(2) by (simp add: sess_room_def full_no_room)
qed

section \<open>The sessions as a store\<close>

text \<open>
  What the services make of the store: the user of a session, the opening of one at the time
  \<open>now\<close> with the number that the kernel gave, and its end.
\<close>

definition session_user :: "cg_sessiondb \<Rightarrow> u64 \<Rightarrow> u32 option cres" where
  "session_user db sid = cbind (cg_sessiondb_entry_get db sid)
     (\<lambda>r. Inr (map_option (\<lambda>i. user_id (sdb_pool db ! i)) r))"

definition session_open :: "cg_sessiondb \<Rightarrow> u64 \<Rightarrow> u32 \<times> u64 \<Rightarrow> cg_sessiondb cres" where
  "session_open db sid a = cbind (cg_sessiondb_entry_create db (fst a) (8, sid) (snd a)) (\<lambda>r. Inr (fst r))"

definition new_number :: "(u64 \<Rightarrow> u32 option) \<Rightarrow> u64 \<Rightarrow> bool" where
  "new_number f sid \<longleftrightarrow> sid \<noteq> 0 \<and> f sid = None"

lemma sess_count_room:
  assumes wf: "sessiondb_wf db" and "0 < sess_room db"
  shows "hm_count (sdb_map db) < 4096"
proof -
  have "unat (hm_count (sdb_map db)) \<le> 4096"
    using sessiondb_wfD(2) [OF wf] sess_table_size [OF wf] length_filter_le [of live "hm_table (sdb_map db)"]
    by (simp add: hashmap_wf_def live_count_def)
  moreover have "unat (hm_count (sdb_map db)) \<noteq> 4096"
    using sess_full_no_room [OF wf] assms(2) by (auto simp: word_unat_eq_iff)
  ultimately show ?thesis by (simp add: word_less_nat_alt)
qed

interpretation ss: growing_store sessiondb_wf sess_abs sess_room session_user cg_sessiondb_entry_delete
  new_number fst session_open
proof unfold_locales
  fix db sid u and a :: "u32 \<times> u64"
  assume wf: "sessiondb_wf db"
  show "session_user db sid = Inr (Some u)" if "sess_abs db sid = Some u"
    using that sess_get_present [OF wf] by (auto simp: session_user_def sess_abs_def)
  show "session_user db sid = Inr None" if "sess_abs db sid = None" "0 < sess_room db"
    using that sess_get_absent [OF wf] by (simp add: session_user_def sess_abs_None)
  show "session_user db sid = Inl Diverges" if "sess_abs db sid = None" "sess_room db = 0"
    using that sess_get_stuck [OF wf] by (simp add: session_user_def sess_abs_None)
  show "\<exists>db'. cg_sessiondb_entry_delete db sid = Inr db' \<and> sessiondb_wf db' \<and>
      sess_abs db' = (sess_abs db)(sid := None) \<and> sess_room db' = sess_room db"
    if "sess_abs db sid \<noteq> None \<or> 0 < sess_room db"
  proof (cases "sess_index db sid")
    case None
    then have "cg_sessiondb_entry_delete db sid = Inr db" "sess_abs db sid = None"
      using that sess_get_absent [OF wf] by (simp_all add: cg_sessiondb_entry_delete_def sess_abs_None)
    then show ?thesis using wf by (intro exI [of _ db]) (auto simp: fun_upd_idem)
  next
    case (Some v)
    then show ?thesis using sess_delete_ok [OF wf] by blast
  qed
  show "\<exists>db'. session_open db sid a = Inr db' \<and> sessiondb_wf db' \<and>
      sess_abs db' = (sess_abs db)(sid \<mapsto> fst a) \<and> sess_room db \<le> Suc (sess_room db')"
    if "new_number (sess_abs db) sid" "0 < sess_room db"
    using that sess_create_ok [OF wf sess_count_room [OF wf that(2)], of 8 sid sid "fst a" "snd a"]
    by (fastforce simp: session_open_def new_number_def sess_abs_None)
qed

text \<open>A new file.\<close>

lemma sess_init_new:
  assumes "0 \<le> sint fd" and "map_addr \<noteq> - 1" and "\<not> mmap_error map_addr"
  shows "\<exists>db. cg_sessiondb_init fd 0 map_addr img = Inr (Some db) \<and> sessiondb_wf db \<and>
    sess_abs db = Map.empty \<and> sess_room db = 4096"
proof -
  define m where "m = \<lparr>hm_entries = Some (replicate SESSIONDB_POOL_SIZE zero_hashmap_entry),
    hm_capacity = (4096 :: u32), hm_count = (0 :: u32)\<rparr>"
  have z: "\<forall>e \<in> set (replicate SESSIONDB_POOL_SIZE zero_hashmap_entry). ent_occupied e = 0"
    by (simp add: zero_hashmap_entry_def)
  have entries: "(12 :: nat) < 32" "unat (hm_capacity m) = 2 ^ 12" "hm_count m = 0"
      "hm_entries m = Some (replicate SESSIONDB_POOL_SIZE zero_hashmap_entry)"
      "length (replicate SESSIONDB_POOL_SIZE zero_hashmap_entry) = 2 ^ 12"
    by (simp_all add: m_def SESSIONDB_POOL_SIZE_def)
  note m = hashmap_wf_zeroed [OF entries z]
  define db where "db = \<lparr>sdb_hdr = \<lparr>shdr_magic = SESSIONDB_MAGIC_BYTES, shdr_version = 1,
      shdr_entry_count = 0, shdr_entry_size = 24\<rparr>, sdb_map = m,
    sdb_pool = replicate SESSIONDB_POOL_SIZE zero_session\<rparr>"
  have "cg_sessiondb_init fd 0 map_addr img = Inr (Some db)"
    using assms by (simp add: cg_sessiondb_init_def sessiondb_open_def db_def m_def)
  moreover have "sess_index db = Map.empty" using m(2) by (simp add: sess_index_def db_def)
  moreover from this have "sessiondb_wf db"
    using m(1) by (simp add: sessiondb_wf_def db_def m_def zero_session_def)
  ultimately show ?thesis
    using m(3) by (intro exI [of _ db]) (auto simp: sess_abs_def sess_room_def db_def)
qed

end
