(* ===== verification/CG_Userdb.thy ===== *)
theory CG_Userdb
  imports CG_Text CG_Sessiondb
begin

text \<open>
  The user accounts of \<open>src/data/cg_userdb.c\<close>: a pool of 1024 records in a mapped file. The
  members \<open>username\<close>, \<open>description\<close> and \<open>completed_hashes\<close> are arrays of fixed size; names
  handed to the functions are C strings.
\<close>

section \<open>The store\<close>

record cg_userdb_header =
  uhdr_magic :: u64
  uhdr_version :: u32
  uhdr_count :: u32

record cg_userdb_entry =
  uid :: u32
  username :: "byte list"
  description :: "byte list"
  pass_hash :: u64
  total_points :: u32
  completed_count :: u32
  completed_hashes :: "u64 list"
  user_is_active :: byte

record cg_userdb =
  udb_hdr :: cg_userdb_header
  udb_pool :: "cg_userdb_entry list"

definition USERDB_POOL_SIZE :: nat where
  "USERDB_POOL_SIZE = 1024"

definition USERDB_MAGIC_BYTES :: u64 where
  "USERDB_MAGIC_BYTES = 0x53524553555F4743"

definition zero_user :: cg_userdb_entry where
  "zero_user = \<lparr>uid = 0, username = replicate 32 0, description = replicate 2048 0,
     pass_hash = 0, total_points = 0, completed_count = 0,
     completed_hashes = replicate 32 0, user_is_active = 0\<rparr>"

definition cg_userdb_init :: "u32 \<Rightarrow> u64 \<Rightarrow> u64 \<Rightarrow> cg_userdb \<Rightarrow> cg_userdb option cres" where
  "cg_userdb_init fd st_size map_addr img =
     (if sint fd < 0 then Inr None
      else let is_new = (st_size = 0)
           in if map_addr = - 1 then Inr None
      else if mmap_error map_addr then Inl Bad_Pointer
      else if is_new then
        Inr (Some \<lparr>udb_hdr = \<lparr>uhdr_magic = USERDB_MAGIC_BYTES, uhdr_version = 1, uhdr_count = 0\<rparr>,
                   udb_pool = replicate USERDB_POOL_SIZE zero_user\<rparr>)
      else if uhdr_magic (udb_hdr img) \<noteq> USERDB_MAGIC_BYTES then Inr None
      else Inr (Some img))"

text \<open>A record is handed on as its pool index.\<close>

fun userdb_find_loop :: "cg_userdb_entry list \<Rightarrow> nat \<Rightarrow> byte list \<Rightarrow> nat option cres" where
  "userdb_find_loop [] i name = Inr None"
| "userdb_find_loop (e # es) i name =
     (if user_is_active e \<noteq> 0 then
        cbind (cg_strcmp (username e) name) (\<lambda>c.
          if c = 0 then Inr (Some i) else userdb_find_loop es (i + 1) name)
      else userdb_find_loop es (i + 1) name)"

definition cg_userdb_find :: "cg_userdb \<Rightarrow> byte list \<Rightarrow> nat option cres" where
  "cg_userdb_find db name = userdb_find_loop (take USERDB_POOL_SIZE (udb_pool db)) 0 name"

definition cg_userdb_find_by_id :: "cg_userdb \<Rightarrow> u32 \<Rightarrow> nat option" where
  "cg_userdb_find_by_id db n =
     first_index (\<lambda>e. user_is_active e \<noteq> 0 \<and> uid e = n) (take USERDB_POOL_SIZE (udb_pool db))"

text \<open>The record that registration leaves in the slot \<open>i\<close>, whose old content is \<open>e\<close>.\<close>

definition userdb_fill :: "nat \<Rightarrow> cg_userdb_entry \<Rightarrow> byte list \<Rightarrow> byte list \<Rightarrow> cg_userdb_entry cres" where
  "userdb_fill i e name password =
     cbind (cg_strlen name) (\<lambda>slen.
     let len = (if slen > 31 then 31 else slen) in
     cbind (buf_slice name 0 len) (\<lambda>nm.
     cbind (buf_write (username e) 0 nm) (\<lambda>un.
     cbind (buf_write un len [0]) (\<lambda>un.
     cbind (cg_strlen password) (\<lambda>plen.
     cbind (cg_hash_str password plen) (\<lambda>h.
       Inr (e\<lparr>uid := word_of_nat i + 1, username := un, description := replicate 2048 0,
              pass_hash := h, total_points := 0, completed_count := 0,
              completed_hashes := replicate 32 0, user_is_active := 1\<rparr>)))))))"

text \<open>The result: the store, the return value, and the copy left in \<open>out\<close> when it is 0.\<close>

definition cg_userdb_create ::
  "cg_userdb \<Rightarrow> byte list \<Rightarrow> byte list \<Rightarrow> (cg_userdb \<times> int \<times> cg_userdb_entry option) cres" where
  "cg_userdb_create db name password =
     cbind (cg_userdb_find db name) (\<lambda>found.
       case found of
         Some _ \<Rightarrow> Inr (db, 1, None)
       | None \<Rightarrow>
           (case first_index (\<lambda>e. user_is_active e = 0) (take USERDB_POOL_SIZE (udb_pool db)) of
              None \<Rightarrow> Inr (db, 2, None)
            | Some i \<Rightarrow>
                cbind (userdb_fill i (udb_pool db ! i) name password) (\<lambda>e.
                  Inr (db\<lparr>udb_hdr := (udb_hdr db)\<lparr>uhdr_count := uhdr_count (udb_hdr db) + 1\<rparr>,
                          udb_pool := (udb_pool db)[i := e]\<rparr>, 0, Some e))))"

definition cg_userdb_delete :: "cg_userdb \<Rightarrow> u32 \<Rightarrow> cg_userdb \<times> int" where
  "cg_userdb_delete db n =
     (case cg_userdb_find_by_id db n of
        Some i \<Rightarrow>
          if user_is_active (udb_pool db ! i) \<noteq> 0 then
            (db\<lparr>udb_hdr := (udb_hdr db)\<lparr>uhdr_count :=
                  (if 0 < uhdr_count (udb_hdr db) then uhdr_count (udb_hdr db) - 1
                   else uhdr_count (udb_hdr db))\<rparr>,
                udb_pool := (udb_pool db)[i := (udb_pool db ! i)\<lparr>user_is_active := 0\<rparr>]\<rparr>, 0)
          else (db, 1)
      | None \<Rightarrow> (db, 1))"

section \<open>The contract\<close>

abbreviation user_active :: "cg_userdb_entry \<Rightarrow> bool" where
  "user_active e \<equiv> user_is_active e \<noteq> 0"

definition user_shape :: "cg_userdb_entry \<Rightarrow> bool" where
  "user_shape e \<longleftrightarrow> length (username e) = 32 \<and> has_nul (username e) \<and>
     length (description e) = 2048 \<and> has_nul (description e) \<and>
     length (completed_hashes e) = 32 \<and> unat (completed_count e) \<le> 32"

definition active_users :: "cg_userdb \<Rightarrow> nat" where
  "active_users db = length (filter user_active (udb_pool db))"

definition userdb_wf :: "cg_userdb \<Rightarrow> bool" where
  "userdb_wf db \<longleftrightarrow>
     length (udb_pool db) = USERDB_POOL_SIZE \<and>
     (\<forall>e \<in> set (udb_pool db). user_shape e) \<and>
     (\<forall>i < USERDB_POOL_SIZE. user_active (udb_pool db ! i) \<longrightarrow> uid (udb_pool db ! i) = word_of_nat i + 1) \<and>
     unat (uhdr_count (udb_hdr db)) = active_users db"

lemma userdb_wfD:
  assumes "userdb_wf db"
  shows "length (udb_pool db) = USERDB_POOL_SIZE"
    "\<And>e. e \<in> set (udb_pool db) \<Longrightarrow> user_shape e"
    "\<And>i. i < USERDB_POOL_SIZE \<Longrightarrow> user_active (udb_pool db ! i) \<Longrightarrow>
       uid (udb_pool db ! i) = word_of_nat i + 1"
    "unat (uhdr_count (udb_hdr db)) = active_users db"
  using assms unfolding userdb_wf_def by blast+

text \<open>The slot in which a name is registered.\<close>

definition user_slot :: "cg_userdb \<Rightarrow> byte list \<Rightarrow> nat option" where
  "user_slot db nm = first_index (\<lambda>e. user_active e \<and> cstr (username e) = nm) (udb_pool db)"

lemma userdb_find_loop_eq:
  assumes "has_nul name" and "\<And>e. e \<in> set es \<Longrightarrow> user_active e \<Longrightarrow> has_nul (username e)"
  shows "userdb_find_loop es i name =
    Inr (map_option ((+) i) (first_index (\<lambda>e. user_active e \<and> cstr (username e) = cstr name) es))"
  using assms(2)
proof (induction es arbitrary: i)
  case (Cons e es)
  have IH: "userdb_find_loop es (Suc i) name = Inr (map_option ((+) (Suc i))
      (first_index (\<lambda>e. user_active e \<and> cstr (username e) = cstr name) es))"
    using Cons.prems by (intro Cons.IH) simp
  have shift: "map_option ((+) (Suc i)) r = map_option ((+) i) (map_option Suc r)" for r
    by (cases r) simp_all
  show ?case
  proof (cases "user_active e")
    case True
    then have "has_nul (username e)" using Cons.prems by simp
    then obtain v where "cg_strcmp (username e) name = Inr v"
        "v = 0 \<longleftrightarrow> cstr (username e) = cstr name"
      using cg_strcmp_zero [OF _ assms(1)] by blast
    then show ?thesis using True IH shift by simp
  next
    case False
    then show ?thesis using IH shift by simp
  qed
qed simp

lemma userdb_find_eq:
  assumes "userdb_wf db" and "has_nul name"
  shows "cg_userdb_find db name = Inr (user_slot db (cstr name))"
proof -
  have "take USERDB_POOL_SIZE (udb_pool db) = udb_pool db"
    using userdb_wfD(1) [OF assms(1)] by simp
  moreover have "userdb_find_loop (udb_pool db) 0 name = Inr (map_option ((+) 0) (user_slot db (cstr name)))"
    unfolding user_slot_def using userdb_wfD(2) [OF assms(1)]
    by (intro userdb_find_loop_eq [OF assms(2)]) (auto simp: user_shape_def)
  moreover have "map_option ((+) 0) r = r" for r :: "nat option" by (cases r) simp_all
  ultimately show ?thesis by (simp add: cg_userdb_find_def)
qed

lemma unat_slot_id: "i < USERDB_POOL_SIZE \<Longrightarrow> unat (word_of_nat i + 1 :: u32) = i + 1"
  by (subst unat_add_small) (simp_all add: USERDB_POOL_SIZE_def unat_of_nat)

lemma word_of_slot_inj:
  assumes "i < USERDB_POOL_SIZE" and "j < USERDB_POOL_SIZE"
  shows "(word_of_nat i + 1 :: u32) = word_of_nat j + 1 \<longleftrightarrow> i = j"
  using unat_slot_id [OF assms(1)] unat_slot_id [OF assms(2)] by (metis add_right_cancel)

lemma find_by_id_Some:
  assumes "userdb_wf db"
  shows "cg_userdb_find_by_id db n = Some i \<longleftrightarrow>
    i < USERDB_POOL_SIZE \<and> user_active (udb_pool db ! i) \<and> n = word_of_nat i + 1"
proof -
  note W = userdb_wfD [OF assms]
  have t: "take USERDB_POOL_SIZE (udb_pool db) = udb_pool db" using W(1) by simp
  show ?thesis
  proof
    assume "cg_userdb_find_by_id db n = Some i"
    then show "i < USERDB_POOL_SIZE \<and> user_active (udb_pool db ! i) \<and> n = word_of_nat i + 1"
      using W(1,3) by (auto simp: cg_userdb_find_by_id_def t first_index_Some)
  next
    assume i: "i < USERDB_POOL_SIZE \<and> user_active (udb_pool db ! i) \<and> n = word_of_nat i + 1"
    have "first_index (\<lambda>e. user_active e \<and> uid e = n) (udb_pool db) = Some i"
    proof (rule first_index_unique)
      show "i < length (udb_pool db)" using i W(1) by simp
      show "user_active (udb_pool db ! i) \<and> uid (udb_pool db ! i) = n" using i W(3) by simp
      fix j assume j: "j < length (udb_pool db)" "user_active (udb_pool db ! j) \<and> uid (udb_pool db ! j) = n"
      then have "(word_of_nat j + 1 :: u32) = word_of_nat i + 1" using i W(1,3) by metis
      then show "j = i" using word_of_slot_inj i j(1) W(1) by metis
    qed
    then show "cg_userdb_find_by_id db n = Some i" by (simp add: cg_userdb_find_by_id_def t)
  qed
qed

section \<open>Registration\<close>

text \<open>The first 31 bytes of the name are kept.\<close>

definition stored_name :: "byte list \<Rightarrow> byte list" where
  "stored_name name = take 31 (cstr name)"

lemma userdb_fill_ok:
  assumes "user_shape e" and "has_nul name" and "has_nul password"
  shows "\<exists>e'. userdb_fill i e name password = Inr e' \<and> user_shape e' \<and> user_active e' \<and>
    uid e' = word_of_nat i + 1 \<and> cstr (username e') = stored_name name \<and>
    pass_hash e' = ucast (crc32c (cstr password)) \<and> description e' = replicate 2048 0 \<and>
    total_points e' = 0 \<and> completed_count e' = 0"
proof -
  define len where "len = (if length (cstr name) > 31 then 31 else length (cstr name))"
  have len: "len \<le> 31" "len \<le> length (cstr name)" "len = min 31 (length (cstr name))"
    by (simp_all add: len_def)
  then have lb: "len < length name" using length_cstr_less [OF assms(2)] by simp
  have nm: "take len name = stored_name name"
  proof -
    have "take len name = take len (take (length (cstr name)) name)" using len(2) by simp
    also have "\<dots> = take len (cstr name)" by (simp only: take_cstr)
    also have "\<dots> = stored_name name"
      by (cases "length (cstr name) > 31") (simp_all add: stored_name_def len_def)
    finally show ?thesis .
  qed
  have u: "length (username e) = 32" using assms(1) by (simp add: user_shape_def)
  define un where "un = buf_splice (buf_splice (username e) 0 (stored_name name)) len [0]"
  have ls: "length (stored_name name) = len" by (simp add: stored_name_def len(3))
  have l1: "length (buf_splice (username e) 0 (stored_name name)) = 32"
    using u ls len(1) by simp
  have take_un: "take (len + 1) un = stored_name name @ [0]"
  proof -
    have "take (len + 1) un = take len (buf_splice (username e) 0 (stored_name name)) @ [0]"
      using take_buf_splice [of len "[0]" "buf_splice (username e) 0 (stored_name name)"] l1 len(1)
      by (simp add: un_def)
    also have "take len (buf_splice (username e) 0 (stored_name name)) = stored_name name"
      using take_buf_splice [of 0 "stored_name name" "username e"] u ls len(1) by simp
    finally show ?thesis .
  qed
  have un: "un = stored_name name @ 0 # drop (len + 1) un"
    using take_un append_take_drop_id [of "len + 1" un] by (metis append.assoc append_Cons append_Nil)
  have "0 \<notin> set (stored_name name)"
    using cstr_no_nul [of name] by (auto simp: stored_name_def dest: in_set_takeD)
  then have cs: "cstr un = stored_name name" using un by (metis cstr_append_nul)
  have hn: "has_nul un" by (subst un) simp
  have lu: "length un = 32" using l1 len(1) by (simp add: un_def)
  have w1: "buf_write (username e) 0 (stored_name name) = Inr (buf_splice (username e) 0 (stored_name name))"
    using u ls len(1) by (simp add: buf_in_bounds)
  have w2: "buf_write (buf_splice (username e) 0 (stored_name name)) len [0] = Inr un"
    using l1 len(1) by (simp add: buf_in_bounds un_def)
  have h: "cg_hash_str password (length (cstr password)) = Inr (ucast (crc32c (cstr password)))"
    using cg_hash_str_crc [of "length (cstr password)" password] length_cstr_less [OF assms(3)]
    by (simp add: take_cstr)
  have sl: "buf_slice name 0 len = Inr (stored_name name)"
    using lb nm by (simp add: buf_in_bounds)
  show ?thesis
    using assms(2,3) sl w1 w2 h lu hn cs
    by (simp add: userdb_fill_def Let_def user_shape_def flip: len_def)
qed

lemma first_free:
  assumes "userdb_wf db" and "active_users db < USERDB_POOL_SIZE"
  shows "\<exists>i < USERDB_POOL_SIZE. first_index (\<lambda>e. user_is_active e = 0)
    (take USERDB_POOL_SIZE (udb_pool db)) = Some i \<and> user_is_active (udb_pool db ! i) = 0 \<and>
    (\<forall>j < i. user_active (udb_pool db ! j))"
proof -
  note len = userdb_wfD(1) [OF assms(1)]
  have "\<exists>e \<in> set (udb_pool db). user_is_active e = 0"
    using assms(2) len by (metis (mono_tags, lifting) active_users_def filter_True less_irrefl)
  then obtain i where "first_index (\<lambda>e. user_is_active e = 0) (udb_pool db) = Some i"
    by (metis (mono_tags) first_index_None not_None_eq)
  then show ?thesis using len by (auto simp: first_index_Some)
qed

lemma active_users_le: "userdb_wf db \<Longrightarrow> active_users db \<le> 1024"
  using userdb_wfD(1) [of db] length_filter_le [of user_active "udb_pool db"]
  by (simp add: active_users_def USERDB_POOL_SIZE_def)

lemma userdb_create_known:
  assumes "userdb_wf db" and "has_nul name" and "user_slot db (cstr name) = Some i"
  shows "cg_userdb_create db name password = Inr (db, 1, None)"
  using userdb_find_eq [OF assms(1,2)] assms(3) by (simp add: cg_userdb_create_def)

lemma userdb_create_full:
  assumes "userdb_wf db" and "has_nul name" and "user_slot db (cstr name) = None"
    and "active_users db = USERDB_POOL_SIZE"
  shows "cg_userdb_create db name password = Inr (db, 2, None)"
proof -
  have "length (filter user_active (udb_pool db)) = length (udb_pool db)"
    using assms(4) userdb_wfD(1) [OF assms(1)] by (simp add: active_users_def)
  then have "\<forall>e \<in> set (udb_pool db). user_active e"
    using length_filter_less [of _ "udb_pool db" user_active] by fastforce
  then have "first_index (\<lambda>e. user_is_active e = 0) (take USERDB_POOL_SIZE (udb_pool db)) = None"
    by (auto simp: first_index_None dest: in_set_takeD)
  then show ?thesis
    using userdb_find_eq [OF assms(1,2)] assms(3) by (simp add: cg_userdb_create_def)
qed

lemma userdb_create_new:
  assumes wf: "userdb_wf db" and "has_nul name" and "has_nul password"
    and "user_slot db (cstr name) = None" and room: "active_users db < USERDB_POOL_SIZE"
  shows "\<exists>db' i e. cg_userdb_create db name password = Inr (db', 0, Some e) \<and>
    i < USERDB_POOL_SIZE \<and> user_is_active (udb_pool db ! i) = 0 \<and>
    udb_pool db' = (udb_pool db)[i := e] \<and> userdb_wf db' \<and>
    user_active e \<and> uid e = word_of_nat i + 1 \<and> cstr (username e) = stored_name name \<and>
    pass_hash e = ucast (crc32c (cstr password)) \<and> total_points e = 0 \<and> completed_count e = 0 \<and>
    active_users db' = active_users db + 1 \<and> user_shape e \<and> (\<forall>j < i. user_active (udb_pool db ! j))"
proof -
  note W = userdb_wfD [OF wf]
  obtain i where i: "i < USERDB_POOL_SIZE" "user_is_active (udb_pool db ! i) = 0"
      "\<forall>j < i. user_active (udb_pool db ! j)"
      "first_index (\<lambda>e. user_is_active e = 0) (take USERDB_POOL_SIZE (udb_pool db)) = Some i"
    using first_free [OF wf room] by blast
  have "user_shape (udb_pool db ! i)" using W(1,2) i(1) by simp
  then obtain e where e: "userdb_fill i (udb_pool db ! i) name password = Inr e" "user_shape e"
      "user_active e" "uid e = word_of_nat i + 1" "cstr (username e) = stored_name name"
      "pass_hash e = ucast (crc32c (cstr password))" "total_points e = 0" "completed_count e = 0"
    using userdb_fill_ok [OF _ assms(2,3)] by metis
  define db' where "db' = db\<lparr>udb_hdr := (udb_hdr db)\<lparr>uhdr_count := uhdr_count (udb_hdr db) + 1\<rparr>,
    udb_pool := (udb_pool db)[i := e]\<rparr>"
  have run: "cg_userdb_create db name password = Inr (db', 0, Some e)"
    using userdb_find_eq [OF wf assms(2)] assms(4) i(4) e(1) by (simp add: cg_userdb_create_def db'_def)
  have count: "active_users db' = active_users db + 1"
    using length_filter_update [of i "udb_pool db" user_active e] i(1,2) e(3) W(1)
    by (simp add: active_users_def db'_def)
  have "unat (uhdr_count (udb_hdr db) + 1) = active_users db + 1"
    using W(4) active_users_le [OF wf] by (subst unat_add_small) simp_all
  moreover have "\<forall>x \<in> set (udb_pool db'). user_shape x"
    using W(2) e(2) set_update_subset_insert [of "udb_pool db" i e] by (auto simp: db'_def)
  moreover have "uid (udb_pool db' ! j) = word_of_nat j + 1"
    if "j < USERDB_POOL_SIZE" "user_active (udb_pool db' ! j)" for j
    using that W(1) W(3) [of j] e(4) by (cases "j = i") (simp_all add: db'_def)
  ultimately have "userdb_wf db'"
    using W(1) count by (simp add: userdb_wf_def db'_def)
  then show ?thesis using run i e count by (intro exI [of _ db'] exI [of _ i] exI [of _ e]) (simp add: db'_def)
qed

lemma stored_name_short: "length (cstr name) \<le> 31 \<Longrightarrow> stored_name name = cstr name"
  by (simp add: stored_name_def)

lemma user_slot_created:
  assumes wf: "userdb_wf db" and i: "i < USERDB_POOL_SIZE" "user_is_active (udb_pool db ! i) = 0"
    and e: "user_active e" and new: "user_slot db (cstr (username e)) = None"
    and pool: "udb_pool db' = (udb_pool db)[i := e]"
  shows "user_slot db' = (user_slot db)(cstr (username e) \<mapsto> i)"
proof
  fix nm
  note len = userdb_wfD(1) [OF wf]
  show "user_slot db' nm = ((user_slot db)(cstr (username e) \<mapsto> i)) nm"
  proof (cases "nm = cstr (username e)")
    case True
    have no: "\<not> (user_active x \<and> cstr (username x) = nm)" if "x \<in> set (udb_pool db)" for x
      using new that True by (simp add: user_slot_def first_index_None)
    have "first_index (\<lambda>x. user_active x \<and> cstr (username x) = nm) (udb_pool db') = Some i"
    proof (rule first_index_unique)
      show "i < length (udb_pool db')" using i len pool by simp
      show "user_active (udb_pool db' ! i) \<and> cstr (username (udb_pool db' ! i)) = nm"
        using i len pool e True by simp
      fix j assume j: "j < length (udb_pool db')"
          "user_active (udb_pool db' ! j) \<and> cstr (username (udb_pool db' ! j)) = nm"
      show "j = i"
      proof (rule ccontr)
        assume "j \<noteq> i"
        then have "udb_pool db' ! j = udb_pool db ! j" by (simp add: pool)
        then show False using no [of "udb_pool db ! j"] j pool by simp
      qed
    qed
    then show ?thesis using True by (simp add: user_slot_def)
  next
    case False
    have "first_index (\<lambda>x. user_active x \<and> cstr (username x) = nm) (udb_pool db') =
        first_index (\<lambda>x. user_active x \<and> cstr (username x) = nm) (udb_pool db)"
    proof (rule first_index_cong_nth)
      fix j assume "j < length (udb_pool db')"
      then show "(user_active (udb_pool db' ! j) \<and> cstr (username (udb_pool db' ! j)) = nm) \<longleftrightarrow>
          (user_active (udb_pool db ! j) \<and> cstr (username (udb_pool db ! j)) = nm)"
        using i False pool by (cases "j = i") auto
    qed (simp add: pool)
    then show ?thesis using False by (simp add: user_slot_def)
  qed
qed

text \<open>No stored name is longer than 31 bytes, so a longer one is never found.\<close>

lemma long_name_unknown:
  assumes wf: "userdb_wf db" and "31 < length nm"
  shows "user_slot db nm = None"
proof -
  have "cstr (username e) \<noteq> nm" if "e \<in> set (udb_pool db)" for e
  proof -
    have "has_nul (username e)" "length (username e) = 32"
      using userdb_wfD(2) [OF wf that] by (simp_all add: user_shape_def)
    then have "length (cstr (username e)) < 32" using length_cstr_less by metis
    then show ?thesis using assms(2) by auto
  qed
  then show ?thesis by (auto simp: user_slot_def first_index_None)
qed

section \<open>Deletion\<close>

lemma userdb_delete_unknown:
  "cg_userdb_find_by_id db n = None \<Longrightarrow> cg_userdb_delete db n = (db, 1)"
  by (simp add: cg_userdb_delete_def)

lemma userdb_delete_ok:
  assumes wf: "userdb_wf db" and found: "cg_userdb_find_by_id db n = Some i"
  shows "\<exists>db'. cg_userdb_delete db n = (db', 0) \<and> userdb_wf db' \<and>
    udb_pool db' = (udb_pool db)[i := (udb_pool db ! i)\<lparr>user_is_active := 0\<rparr>] \<and>
    cg_userdb_find_by_id db' = (cg_userdb_find_by_id db)(n := None)"
proof -
  note W = userdb_wfD [OF wf]
  have i: "i < USERDB_POOL_SIZE" "user_active (udb_pool db ! i)" "n = word_of_nat i + 1"
    using found find_by_id_Some [OF wf] by blast+
  define e where "e = (udb_pool db ! i)\<lparr>user_is_active := 0\<rparr>"
  define c where "c = uhdr_count (udb_hdr db)"
  define db' where "db' = db\<lparr>udb_hdr := (udb_hdr db)\<lparr>uhdr_count := (if 0 < c then c - 1 else c)\<rparr>,
    udb_pool := (udb_pool db)[i := e]\<rparr>"
  have run: "cg_userdb_delete db n = (db', 0)"
    using found i(2) by (simp add: cg_userdb_delete_def db'_def e_def c_def)
  have count: "active_users db' + 1 = active_users db"
    using length_filter_update [of i "udb_pool db" user_active e] i W(1)
    by (simp add: active_users_def db'_def e_def)
  have cu: "unat c = active_users db" using W(4) by (simp add: c_def)
  then have "c \<noteq> 0" using count by auto
  then have "unat (uhdr_count (udb_hdr db')) = active_users db'"
    using cu count by (simp add: db'_def unat_minus_one word_gt_0)
  moreover have "\<forall>x \<in> set (udb_pool db'). user_shape x"
  proof -
    have "user_shape e" using W(1,2) i(1) by (simp add: e_def user_shape_def)
    then show ?thesis
      using W(2) set_update_subset_insert [of "udb_pool db" i e] by (auto simp: db'_def)
  qed
  moreover have ids: "user_active (udb_pool db' ! j) \<longleftrightarrow> user_active (udb_pool db ! j) \<and> j \<noteq> i"
      "user_active (udb_pool db' ! j) \<Longrightarrow> uid (udb_pool db' ! j) = word_of_nat j + 1"
    if "j < USERDB_POOL_SIZE" for j
    using that W(1) W(3) [of j] by (cases "j = i"; simp add: db'_def e_def)+
  ultimately have wf': "userdb_wf db'"
    using W(1) by (simp add: userdb_wf_def db'_def)
  have "cg_userdb_find_by_id db' m = Some j \<longleftrightarrow>
      ((cg_userdb_find_by_id db)(n := None)) m = Some j" for m j
  proof (cases "m = n")
    case True
    have "\<not> (j < USERDB_POOL_SIZE \<and> user_active (udb_pool db' ! j) \<and> n = word_of_nat j + 1)"
      using ids(1) [of j] i(1,3) word_of_slot_inj [of i j] by auto
    then show ?thesis using True find_by_id_Some [OF wf', of n j] by simp
  next
    case False
    then have "j < USERDB_POOL_SIZE \<and> user_active (udb_pool db' ! j) \<and> m = word_of_nat j + 1 \<longleftrightarrow>
        j < USERDB_POOL_SIZE \<and> user_active (udb_pool db ! j) \<and> m = word_of_nat j + 1"
      using ids(1) [of j] i(3) by blast
    then show ?thesis
      using False find_by_id_Some [OF wf', of m j] find_by_id_Some [OF wf, of m j] by simp
  qed
  then have "cg_userdb_find_by_id db' m = ((cg_userdb_find_by_id db)(n := None)) m" for m
    by (metis not_None_eq)
  then show ?thesis using run wf' by (intro exI [of _ db']) (auto simp: db'_def e_def)
qed

section \<open>The accounts as a store\<close>

text \<open>By number, the accounts are searched slot by slot: there is always room, and the search ends.\<close>

definition account_removed :: "cg_userdb \<Rightarrow> u32 \<Rightarrow> cg_userdb cres" where
  "account_removed db n = Inr (fst (cg_userdb_delete db n))"

interpretation us: keyed_store userdb_wf cg_userdb_find_by_id "\<lambda>db. 1" "\<lambda>db n. Inr (cg_userdb_find_by_id db n)" account_removed
proof unfold_locales
  fix db n
  assume wf: "userdb_wf db"
  show "\<exists>db'. account_removed db n = Inr db' \<and> userdb_wf db' \<and>
      cg_userdb_find_by_id db' = (cg_userdb_find_by_id db)(n := None) \<and> (1 :: nat) = 1"
  proof (cases "cg_userdb_find_by_id db n")
    case None
    then show ?thesis using wf by (auto simp: account_removed_def userdb_delete_unknown fun_upd_idem)
  next
    case (Some i)
    then show ?thesis using userdb_delete_ok [OF wf Some] by (auto simp: account_removed_def)
  qed
qed simp_all

lemma userdb_init_new:
  assumes "0 \<le> sint fd" and "map_addr \<noteq> - 1" and "\<not> mmap_error map_addr"
  shows "\<exists>db. cg_userdb_init fd 0 map_addr img = Inr (Some db) \<and> userdb_wf db \<and>
    active_users db = 0 \<and> user_slot db = Map.empty"
proof -
  define db where "db = \<lparr>udb_hdr = \<lparr>uhdr_magic = USERDB_MAGIC_BYTES, uhdr_version = 1, uhdr_count = 0\<rparr>,
    udb_pool = replicate USERDB_POOL_SIZE zero_user\<rparr>"
  have "cg_userdb_init fd 0 map_addr img = Inr (Some db)"
    using assms by (simp add: cg_userdb_init_def db_def)
  moreover have z: "active_users db = 0" by (simp add: active_users_def db_def zero_user_def)
  moreover have "user_shape zero_user" by (simp add: user_shape_def zero_user_def)
  then have "userdb_wf db" using z by (simp add: userdb_wf_def db_def) (simp add: zero_user_def)
  moreover have "user_slot db = Map.empty"
    by (intro ext) (simp add: user_slot_def first_index_None db_def zero_user_def)
  ultimately show ?thesis by (intro exI [of _ db]) simp
qed

end
