(* ===== verification/CG_Challengedb.thy ===== *)
theory CG_Challengedb
  imports CG_Text
begin

text \<open>
  The challenges: the table of \<open>src/data/cg_challengedb_data.c\<close> and the binary search of
  \<open>src/data/cg_challengedb.c\<close>. The search finds a challenge exactly when the table has it,
  because the table is sorted by the byte-wise order of the identifiers.
\<close>

section \<open>The data\<close>

datatype cg_answer_type = CG_ANS_TEXT | CG_ANS_BITMASK | CG_ANS_SINGLE

text \<open>The union: which member holds the answer.\<close>

datatype cg_answer = Text_Answer "byte list" | Numeric_Answer u32

record cg_question =
  q_id :: u32
  q_points :: u32
  q_type :: cg_answer_type
  q_answer :: cg_answer
  q_explanation :: "byte list"

record cg_challengedb =
  id_string :: "byte list"
  chal_total_points :: u32
  question_count :: u32
  questions :: "cg_question list"

definition q_fuzzer_001 :: "cg_question list" where
  "q_fuzzer_001 =
     [\<lparr>q_id = 1, q_points = 50, q_type = CG_ANS_SINGLE, q_answer = Numeric_Answer 1,
       q_explanation = lit (
      ''Total Length is 0x0014 (20 bytes). Since the IP header is 20 bytes and the'' @
      '' Protocol is TCP (0x06), there is no room left for the TCP header.'')\<rparr>]"

definition q_fuzzer_002 :: "cg_question list" where
  "q_fuzzer_002 =
     [\<lparr>q_id = 1, q_points = 50, q_type = CG_ANS_SINGLE, q_answer = Numeric_Answer 3,
       q_explanation = lit (
      ''The Flags field is 0x03, asserting both SYN and FIN simultaneously, which is an'' @
      '' invalid state transition.'')\<rparr>]"

definition q_fuzzer_003 :: "cg_question list" where
  "q_fuzzer_003 =
     [\<lparr>q_id = 1, q_points = 50, q_type = CG_ANS_SINGLE, q_answer = Numeric_Answer 2,
       q_explanation = lit (
      ''A checksum of 0x0000 means it was uncalculated. While permitted in IPv4 UDP, it'' @
      '' is strictly illegal in IPv6.'')\<rparr>]"

definition q_fuzzer_004 :: "cg_question list" where
  "q_fuzzer_004 =
     [\<lparr>q_id = 1, q_points = 50, q_type = CG_ANS_SINGLE, q_answer = Numeric_Answer 1,
       q_explanation = lit (
      ''The IHL (Internet Header Length) is the second nibble of the first byte.'')\<rparr>]"

definition q_fuzzer_005 :: "cg_question list" where
  "q_fuzzer_005 =
     [\<lparr>q_id = 1, q_points = 50, q_type = CG_ANS_SINGLE, q_answer = Numeric_Answer 2,
       q_explanation = lit (
      ''The 'Flags / Fragment Offset' field is 0x2000. This sets the 'More Fragments' (MF) flag while keeping the Fragment Offset at 0. However, the Total Length is'' @
      '' 0x001C (28 bytes). With a 20-byte IP header, the payload is only 8 bytes. Most'' @
      '' transport protocols require a larger initial fragment, and a 'More Fragments' flag on a packet this small often indicates a Teardrop-style attack or a'' @
      '' fuzzed offset inconsistency.'')\<rparr>]"

definition q_instruction_001 :: "cg_question list" where
  "q_instruction_001 =
     [\<lparr>q_id = 1, q_points = 50, q_type = CG_ANS_TEXT, q_answer = Text_Answer (lit ''512''),
       q_explanation = lit (
      ''rbx is zeroed, 0x100 (256) is added, and it is logically shifted left by 1'' @
      '' (multiplied by 2), resulting in 512.'')\<rparr>]"

definition q_instruction_002 :: "cg_question list" where
  "q_instruction_002 =
     [\<lparr>q_id = 1, q_points = 50, q_type = CG_ANS_TEXT, q_answer = Text_Answer (lit ''10''),
       q_explanation = lit (
      ''The stack is LIFO. rcx (10) was pushed last, so popping into rax places 10 into'' @
      '' the register.'')\<rparr>]"

definition q_instruction_003 :: "cg_question list" where
  "q_instruction_003 =
     [\<lparr>q_id = 1, q_points = 50, q_type = CG_ANS_TEXT, q_answer = Text_Answer (lit ''5''),
       q_explanation = lit (
      ''15 is less than 20. The LT (Less Than) conditional executes, placing 5 into r1.'')\<rparr>]"

definition q_instruction_004 :: "cg_question list" where
  "q_instruction_004 =
     [\<lparr>q_id = 1, q_points = 50, q_type = CG_ANS_TEXT, q_answer = Text_Answer (lit ''240''),
       q_explanation = lit (
      ''rax (0xFF / 11111111) is ANDed with rdx (0x0F / 00001111), resulting in 0x0F'' @
      '' (00001111). The NOT operation flips these bits to 11110000, which is 0xF0 or'' @
      '' 240 in decimal.'')\<rparr>]"

definition q_instruction_005 :: "cg_question list" where
  "q_instruction_005 =
     [\<lparr>q_id = 1, q_points = 50, q_type = CG_ANS_TEXT, q_answer = Text_Answer (lit ''37''),
       q_explanation = lit (
      ''The LEA (Load Effective Address) instruction performs the calculation: rax +'' @
      '' (rcx * 4) + 7. Substituting the values: 10 + (5 * 4) + 7 = 10 + 20 + 7 = 37.'')\<rparr>]"

definition q_protocol_001 :: "cg_question list" where
  "q_protocol_001 =
     [\<lparr>q_id = 1, q_points = 50, q_type = CG_ANS_SINGLE, q_answer = Numeric_Answer 3,
       q_explanation = lit (
      ''The Opcode field (0x0001) dictates this is a request.'')\<rparr>]"

definition q_protocol_002 :: "cg_question list" where
  "q_protocol_002 =
     [\<lparr>q_id = 1, q_points = 50, q_type = CG_ANS_SINGLE, q_answer = Numeric_Answer 2,
       q_explanation = lit (
      ''A Type 8, Code 0 structure represents an Echo Request.'')\<rparr>]"

definition q_protocol_003 :: "cg_question list" where
  "q_protocol_003 =
     [\<lparr>q_id = 1, q_points = 50, q_type = CG_ANS_SINGLE, q_answer = Numeric_Answer 3,
       q_explanation = lit (
      ''The Handshake Type (0x01) specifically identifies this payload as a Client'' @
      '' Hello.'')\<rparr>]"

definition q_protocol_004 :: "cg_question list" where
  "q_protocol_004 =
     [\<lparr>q_id = 1, q_points = 50, q_type = CG_ANS_SINGLE, q_answer = Numeric_Answer 2,
       q_explanation = lit (
      ''The Client IP Address (offsets 12-15) is 0x00000000. This indicates the client'' @
      '' does not yet have an assigned IP and is likely in the Discover or Request'' @
      '' phase.'')\<rparr>]"

definition q_protocol_005 :: "cg_question list" where
  "q_protocol_005 =
     [\<lparr>q_id = 1, q_points = 50, q_type = CG_ANS_SINGLE, q_answer = Numeric_Answer 1,
       q_explanation = lit (
      ''The Flags field (0x0100) has the 'QR' bit (bit 15) set to 0, indicating a'' @
      '' Query. The 'RD' bit (bit 8) is set to 1, indicating that Recursion is Desired.'')\<rparr>]"

definition g_challengedb :: "cg_challengedb list" where
  "g_challengedb =
     [\<lparr>id_string = lit ''fuzzer_001'', chal_total_points = 50, question_count = 1, questions = q_fuzzer_001\<rparr>,
      \<lparr>id_string = lit ''fuzzer_002'', chal_total_points = 50, question_count = 1, questions = q_fuzzer_002\<rparr>,
      \<lparr>id_string = lit ''fuzzer_003'', chal_total_points = 50, question_count = 1, questions = q_fuzzer_003\<rparr>,
      \<lparr>id_string = lit ''fuzzer_004'', chal_total_points = 50, question_count = 1, questions = q_fuzzer_004\<rparr>,
      \<lparr>id_string = lit ''fuzzer_005'', chal_total_points = 50, question_count = 1, questions = q_fuzzer_005\<rparr>,
      \<lparr>id_string = lit ''instruction_001'', chal_total_points = 50, question_count = 1, questions = q_instruction_001\<rparr>,
      \<lparr>id_string = lit ''instruction_002'', chal_total_points = 50, question_count = 1, questions = q_instruction_002\<rparr>,
      \<lparr>id_string = lit ''instruction_003'', chal_total_points = 50, question_count = 1, questions = q_instruction_003\<rparr>,
      \<lparr>id_string = lit ''instruction_004'', chal_total_points = 50, question_count = 1, questions = q_instruction_004\<rparr>,
      \<lparr>id_string = lit ''instruction_005'', chal_total_points = 50, question_count = 1, questions = q_instruction_005\<rparr>,
      \<lparr>id_string = lit ''protocol_001'', chal_total_points = 50, question_count = 1, questions = q_protocol_001\<rparr>,
      \<lparr>id_string = lit ''protocol_002'', chal_total_points = 50, question_count = 1, questions = q_protocol_002\<rparr>,
      \<lparr>id_string = lit ''protocol_003'', chal_total_points = 50, question_count = 1, questions = q_protocol_003\<rparr>,
      \<lparr>id_string = lit ''protocol_004'', chal_total_points = 50, question_count = 1, questions = q_protocol_004\<rparr>,
      \<lparr>id_string = lit ''protocol_005'', chal_total_points = 50, question_count = 1, questions = q_protocol_005\<rparr>]"

definition g_challengedb_size :: u32 where
  "g_challengedb_size = 15"

section \<open>The search\<close>

function challengedb_search ::
  "cg_challengedb list \<Rightarrow> byte list \<Rightarrow> int \<Rightarrow> int \<Rightarrow> nat option cres" where
  "challengedb_search db key left right =
     (if left \<le> right then
        (let mid = left + ((right - left) div 2) in
         if mid < 0 \<or> int (length db) \<le> mid then Inl Out_Of_Bounds
         else cbind (cg_strcmp (id_string (db ! nat mid)) key) (\<lambda>cmp.
           if cmp = 0 then Inr (Some (nat mid))
           else if cmp < 0 then challengedb_search db key (mid + 1) right
           else challengedb_search db key left (mid - 1)))
      else Inr None)"
  by pat_completeness auto
termination
  by (relation "measure (\<lambda>(db, key, left, right). nat (right + 1 - left))") auto

declare challengedb_search.simps [simp del]

definition cg_challengedb_find :: "byte list \<Rightarrow> nat option cres" where
  "cg_challengedb_find key =
     challengedb_search g_challengedb key 0 (sint g_challengedb_size - 1)"

section \<open>The search is complete on a sorted table\<close>

definition ids_sorted :: "cg_challengedb list \<Rightarrow> bool" where
  "ids_sorted db \<longleftrightarrow> sorted_wrt (\<lambda>a b. lex_cmp (cstr (id_string a)) (cstr (id_string b)) < 0) db"

lemma ids_sorted_nth:
  "ids_sorted db \<Longrightarrow> i < j \<Longrightarrow> j < length db \<Longrightarrow>
   lex_cmp (cstr (id_string (db ! i))) (cstr (id_string (db ! j))) < 0"
  unfolding ids_sorted_def by (erule sorted_wrt_nth_less)

lemma ids_below:
  assumes "ids_sorted db" and "i \<le> m" and "m < length db"
    and "lex_cmp (cstr (id_string (db ! m))) key < 0"
  shows "lex_cmp (cstr (id_string (db ! i))) key < 0"
  using assms ids_sorted_nth [of db i m] lex_cmp_trans by (cases "i = m") force+

lemma ids_above:
  assumes "ids_sorted db" and "m \<le> i" and "i < length db"
    and "0 < lex_cmp (cstr (id_string (db ! m))) key"
  shows "0 < lex_cmp (cstr (id_string (db ! i))) key"
proof (cases "i = m")
  case False
  then have "lex_cmp (cstr (id_string (db ! m))) (cstr (id_string (db ! i))) < 0"
    using assms by (intro ids_sorted_nth) auto
  moreover have "lex_cmp key (cstr (id_string (db ! m))) < 0"
    using assms(4) by (simp add: lex_cmp_swap [of key])
  ultimately have "lex_cmp key (cstr (id_string (db ! i))) < 0" using lex_cmp_trans by blast
  then show ?thesis by (simp add: lex_cmp_swap [of key])
qed (use assms in simp)

lemma search_correct:
  assumes sorted: "ids_sorted db" and nul: "\<forall>c \<in> set db. has_nul (id_string c)" "has_nul key"
    and "0 \<le> left" and "right < int (length db)" and "left \<le> right + 1"
    and "\<And>i. int i < left \<Longrightarrow> lex_cmp (cstr (id_string (db ! i))) (cstr key) < 0"
    and "\<And>i. right < int i \<Longrightarrow> i < length db \<Longrightarrow> 0 < lex_cmp (cstr (id_string (db ! i))) (cstr key)"
  shows "challengedb_search db key left right =
    Inr (first_index (\<lambda>c. cstr (id_string c) = cstr key) db)"
  using assms(4-)
proof (induction "nat (right + 1 - left)" arbitrary: left right rule: less_induct)
  case less
  show ?case
  proof (cases "left \<le> right")
    case False
    have "cstr (id_string (db ! i)) \<noteq> cstr key" if i: "i < length db" for i
    proof -
      have "int i < left \<or> right < int i" using False less.prems(3) by linarith
      then have "lex_cmp (cstr (id_string (db ! i))) (cstr key) \<noteq> 0"
        using less.prems(4) [of i] less.prems(5) [of i] i by auto
      then show ?thesis by (simp add: lex_cmp_0)
    qed
    then have "first_index (\<lambda>c. cstr (id_string c) = cstr key) db = None"
      by (auto simp: first_index_None in_set_conv_nth)
    then show ?thesis using False by (subst challengedb_search.simps) simp
  next
    case True
    define mid where "mid = left + (right - left) div 2"
    have mid: "left \<le> mid" "mid \<le> right" using True unfolding mid_def by linarith+
    then have range: "0 \<le> mid" "mid < int (length db)" using less.prems(1,2) by linarith+
    define m where "m = nat mid"
    have m: "int m = mid" "m < length db" using range by (simp_all add: m_def)
    then have "has_nul (id_string (db ! m))" using nul(1) by simp
    then obtain v where v: "cg_strcmp (id_string (db ! m)) key = Inr v"
        "sgn v = lex_cmp (cstr (id_string (db ! m))) (cstr key)"
      using cg_strcmp_sgn nul(2) by blast
    have step: "challengedb_search db key left right =
        (if v = 0 then Inr (Some m)
         else if v < 0 then challengedb_search db key (mid + 1) right
         else challengedb_search db key left (mid - 1))"
      using True range v(1) by (subst challengedb_search.simps) (simp add: Let_def mid_def m_def)
    consider "v = 0" | "v < 0" | "0 < v" by linarith
    then show ?thesis
    proof cases
      case 1
      then have eq: "cstr (id_string (db ! m)) = cstr key" using v(2) by (simp add: lex_cmp_0)
      have "first_index (\<lambda>c. cstr (id_string c) = cstr key) db = Some m"
      proof (rule first_index_unique [OF m(2)])
        show "cstr (id_string (db ! m)) = cstr key" by (rule eq)
      next
        fix j assume j: "j < length db" "cstr (id_string (db ! j)) = cstr key"
        then have "lex_cmp (cstr (id_string (db ! j))) (cstr (id_string (db ! m))) = 0"
          using eq by (simp add: lex_cmp_0)
        then show "j = m"
          using ids_sorted_nth [OF sorted, of j m] ids_sorted_nth [OF sorted, of m j] j(1) m(2)
            lex_cmp_swap [of "cstr (id_string (db ! j))" "cstr (id_string (db ! m))"]
          by (cases j m rule: linorder_cases) auto
      qed
      then show ?thesis using 1 step by simp
    next
      case 2
      then have neg: "lex_cmp (cstr (id_string (db ! m))) (cstr key) < 0" using v(2) by auto
      have "challengedb_search db key (mid + 1) right =
          Inr (first_index (\<lambda>c. cstr (id_string c) = cstr key) db)"
      proof (rule less.hyps)
        show "lex_cmp (cstr (id_string (db ! i))) (cstr key) < 0" if "int i < mid + 1" for i
          using that m by (intro ids_below [OF sorted _ m(2) neg]) linarith
      qed (use mid less.prems in auto)
      then show ?thesis using 2 step by simp
    next
      case 3
      then have pos: "0 < lex_cmp (cstr (id_string (db ! m))) (cstr key)" using v(2) by auto
      have "challengedb_search db key left (mid - 1) =
          Inr (first_index (\<lambda>c. cstr (id_string c) = cstr key) db)"
      proof (rule less.hyps)
        show "0 < lex_cmp (cstr (id_string (db ! i))) (cstr key)"
          if "mid - 1 < int i" "i < length db" for i
          using that m by (intro ids_above [OF sorted _ that(2) pos]) linarith
      qed (use mid less.prems in auto)
      then show ?thesis using 3 step by simp
    qed
  qed
qed

lemmas question_defs = q_fuzzer_001_def q_fuzzer_002_def q_fuzzer_003_def q_fuzzer_004_def q_fuzzer_005_def q_instruction_001_def q_instruction_002_def q_instruction_003_def q_instruction_004_def q_instruction_005_def q_protocol_001_def q_protocol_002_def q_protocol_003_def q_protocol_004_def q_protocol_005_def

lemma challenge_ids:
  "map id_string g_challengedb = map lit
     [''fuzzer_001'',
      ''fuzzer_002'',
      ''fuzzer_003'',
      ''fuzzer_004'',
      ''fuzzer_005'',
      ''instruction_001'',
      ''instruction_002'',
      ''instruction_003'',
      ''instruction_004'',
      ''instruction_005'',
      ''protocol_001'',
      ''protocol_002'',
      ''protocol_003'',
      ''protocol_004'',
      ''protocol_005'']"
  by (simp add: g_challengedb_def)

lemma challengedb_sorted: "ids_sorted g_challengedb"
  unfolding ids_sorted_def g_challengedb_def by code_simp

lemma challenge_ids_nul: "\<forall>c \<in> set g_challengedb. has_nul (id_string c)"
  by (simp add: g_challengedb_def)

lemma length_g_challengedb: "length g_challengedb = 15"
  by (simp add: g_challengedb_def)

lemma challengedb_find_correct:
  assumes "has_nul key"
  shows "cg_challengedb_find key = Inr (first_index (\<lambda>c. cstr (id_string c) = cstr key) g_challengedb)"
  unfolding cg_challengedb_find_def
  by (rule search_correct [OF challengedb_sorted challenge_ids_nul assms])
    (simp_all add: g_challengedb_size_def length_g_challengedb)

end
