(* ===== verification/CG_Router.thy ===== *)
theory CG_Router
  imports CG_Client CG_Sessiondb CG_Userdb CG_Challengedb
begin

text \<open>
  The services of \<open>src/services/cg_router.c\<close>: form decoding, the JSON writers, one handler per
  endpoint, and the routing table. A handler reads the request of its client and works on the
  two databases and the transmit buffer. A response under construction is the list of the bytes
  written so far in a buffer of the given capacity; the other bytes of the local arrays are
  never read. A NULL database is \<open>None\<close>.
\<close>

section \<open>The state the handlers work on\<close>

record server =
  srv_sessiondb :: "cg_sessiondb option"
  srv_userdb :: "cg_userdb option"
  srv_tx :: cg_buffer_metadata

text \<open>What the kernel answers during the handling of a request: the random number, the time.\<close>

record kernel =
  k_random :: getrandom_result
  k_now :: u64

type_synonym handler = "kernel \<Rightarrow> cg_client_req \<Rightarrow> server \<Rightarrow> server cres"

definition deref :: "'a option \<Rightarrow> 'a cres" where
  "deref p = (case p of None \<Rightarrow> Inl Bad_Pointer | Some x \<Rightarrow> Inr x)"

abbreviation crlf :: "byte list" where
  "crlf \<equiv> [13, 10]"

section \<open>Writers\<close>

definition append_bytes :: "nat \<Rightarrow> byte list \<Rightarrow> byte list \<Rightarrow> byte list cres" where
  "append_bytes cap p bs = (if length p + length bs \<le> cap then Inr (p @ bs) else Inl Out_Of_Bounds)"

definition append_str :: "nat \<Rightarrow> byte list \<Rightarrow> byte list \<Rightarrow> byte list cres" where
  "append_str cap p s = cbind (cg_strlen s) (\<lambda>len. append_bytes cap p (take len s))"

definition json_escape :: "byte \<Rightarrow> byte list" where
  "json_escape c =
     (if c = 34 then [92, 34] else if c = 92 then [92, 92] else if c = 8 then [92, 98]
      else if c = 12 then [92, 102] else if c = 10 then [92, 110] else if c = 13 then [92, 114]
      else if c = 9 then [92, 116] else if 0x20 \<le> c then [c] else [])"

fun append_json_escaped :: "nat \<Rightarrow> byte list \<Rightarrow> byte list \<Rightarrow> byte list cres" where
  "append_json_escaped cap p [] = Inl Out_Of_Bounds"
| "append_json_escaped cap p (c # s) =
     (if c = 0 then Inr p
      else cbind (append_bytes cap p (json_escape c)) (\<lambda>p. append_json_escaped cap p s))"

definition append_uint :: "nat \<Rightarrow> byte list \<Rightarrow> u64 \<Rightarrow> byte list cres" where
  "append_uint cap p val =
     cbind (cg_utoa val (replicate 32 0)) (\<lambda>(tmp, ptr, len). append_bytes cap p (take len (drop ptr tmp)))"

section \<open>Forms\<close>

fun form_match :: "byte list \<Rightarrow> byte list \<Rightarrow> bool cres" where
  "form_match [] (c # p) = Inr (c = 61)"
| "form_match (k # ks) (c # p) = (if c \<noteq> k then Inr False else form_match ks p)"
| "form_match _ [] = Inl Out_Of_Bounds"

definition hex_value :: "byte \<Rightarrow> int" where
  "hex_value c = (if sint c \<le> 57 then sint c - 48 else sint (c OR 0x20) - 97 + 10)"

definition hex_byte :: "byte \<Rightarrow> byte \<Rightarrow> byte" where
  "hex_byte a b = word_of_int (push_bit 4 (hex_value a) OR hex_value b)"

fun form_decode :: "byte list \<Rightarrow> byte list cres" where
  "form_decode [] = Inl Out_Of_Bounds"
| "form_decode (c # p) =
     (if c = 0 \<or> c = 38 then Inr []
      else if c = 43 then cbind (form_decode p) (\<lambda>t. Inr (32 # t))
      else if c = 37 then
        (case p of
           [] \<Rightarrow> Inl Out_Of_Bounds
         | a # p' \<Rightarrow>
             if a = 0 then cbind (form_decode p) (\<lambda>t. Inr (c # t))
             else
               (case p' of
                  [] \<Rightarrow> Inl Out_Of_Bounds
                | b # p'' \<Rightarrow>
                    if b = 0 then cbind (form_decode p) (\<lambda>t. Inr (c # t))
                    else cbind (form_decode p'') (\<lambda>t. Inr (hex_byte a b # t))))
      else cbind (form_decode p) (\<lambda>t. Inr (c # t)))"

fun form_skip :: "byte list \<Rightarrow> byte list" where
  "form_skip [] = []"
| "form_skip (c # p) = (if c = 0 then c # p else if c = 38 then p else form_skip p)"

lemma length_form_skip: "length (form_skip p) \<le> length p"
  by (induction p) auto

function form_scan :: "byte list \<Rightarrow> byte list \<Rightarrow> byte list option cres" where
  "form_scan [] key = Inl Out_Of_Bounds"
| "form_scan (c # p) key =
     (if c = 0 then Inr None
      else cbind (form_match key (c # p)) (\<lambda>m.
        if m then cbind (form_decode (drop (length key + 1) (c # p))) (\<lambda>t. Inr (Some t))
        else form_scan (form_skip (c # p)) key))"
  by pat_completeness auto
termination
proof (relation "measure (\<lambda>(p, key). length p)")
  fix c :: byte and p key :: "byte list" and m
  assume "c \<noteq> 0"
  then show "((form_skip (c # p), key), (c # p, key)) \<in> measure (\<lambda>(p, key). length p)"
    using length_form_skip [of p] by simp
qed simp

text \<open>
  \<open>out\<close> is an array of \<open>cap\<close> bytes; the result is the return value and the bytes written before
  the terminator.
\<close>

definition cg_get_form_value :: "byte list \<Rightarrow> byte list \<Rightarrow> nat \<Rightarrow> (bool \<times> byte list) cres" where
  "cg_get_form_value qs key cap =
     cbind (cg_strlen key) (\<lambda>key_len.
     cbind (form_scan qs (take key_len key)) (\<lambda>r.
       case r of
         None \<Rightarrow> if 1 \<le> cap then Inr (False, []) else Inl Out_Of_Bounds
       | Some t \<Rightarrow> if length t + 1 \<le> cap then Inr (True, t) else Inl Out_Of_Bounds))"

section \<open>Requests and replies\<close>

fun session_digits :: "u64 \<Rightarrow> byte list \<Rightarrow> u64 cres" where
  "session_digits sid [] = Inl Out_Of_Bounds"
| "session_digits sid (c # s) =
     (if c = 0 then Inr sid
      else if 48 \<le> c \<and> c \<le> 57 then session_digits (sid * 10 + ucast (c - 48)) s
      else Inr sid)"

definition get_session_id :: "cg_client_req \<Rightarrow> u64 cres" where
  "get_session_id req = session_digits 0 (req_session_id req)"

definition method_differs :: "cg_client_req \<Rightarrow> string \<Rightarrow> bool cres" where
  "method_differs req m =
     cbind (cg_memcmp_avx2 (req_method req) (lit m) (length m)) (\<lambda>c. Inr (c \<noteq> 0))"

text \<open>\<open>cg_fastcgi_stdout\<close> with a literal, and with the bytes of a response buffer.\<close>

definition reply :: "cg_client_req \<Rightarrow> byte list \<Rightarrow> server \<Rightarrow> server cres" where
  "reply req body srv =
     cbind (cg_strlen (body @ [0])) (\<lambda>n.
     cbind (cg_fastcgi_stdout (srv_tx srv) (req_id req) (body @ [0]) (word_of_nat n)) (\<lambda>tx.
       Inr (srv\<lparr>srv_tx := tx\<rparr>)))"

definition reply_buf :: "cg_client_req \<Rightarrow> byte list \<Rightarrow> server \<Rightarrow> server cres" where
  "reply_buf req p srv =
     cbind (cg_fastcgi_stdout (srv_tx srv) (req_id req) p (word_of_nat (length p))) (\<lambda>tx.
       Inr (srv\<lparr>srv_tx := tx\<rparr>))"

definition json_head :: "string \<Rightarrow> byte list" where
  "json_head status =
     str ''Status: '' @ str status @ crlf @ str ''Content-Type: application/json'' @ crlf @ crlf"

definition json_text :: "string \<Rightarrow> string \<Rightarrow> byte list" where
  "json_text status body = json_head status @ str body"

abbreviation http_ok :: "byte list" where
  "http_ok \<equiv> json_head ''200 OK'' @ [0]"

definition with_session ::
  "cg_client_req \<Rightarrow> server \<Rightarrow> (cg_sessiondb_entry option \<Rightarrow> server cres) \<Rightarrow> server cres" where
  "with_session req srv f =
     cbind (get_session_id req) (\<lambda>sid.
     cbind (deref (srv_sessiondb srv)) (\<lambda>db.
     cbind (cg_sessiondb_entry_get db sid) (\<lambda>r. f (map_option ((!) (sdb_pool db)) r))))"

section \<open>Profiles\<close>

definition cg_route_not_found :: handler where
  "cg_route_not_found k req srv =
     reply req (str ''Status: 404 Not Found'' @ crlf @ str ''Content-Type: text/plain'' @ crlf @ crlf @
       str ''404 - Endpoint not configured.'') srv"

text \<open>The loop that lists the completed challenges, from index \<open>i\<close> on.\<close>

function append_hashes :: "nat \<Rightarrow> byte list \<Rightarrow> cg_userdb_entry \<Rightarrow> nat \<Rightarrow> byte list cres" where
  "append_hashes cap p u i =
     (if i < unat (completed_count u) then
        cbind (if 0 < i then append_str cap p (lit '','') else Inr p) (\<lambda>p.
        cbind (append_str cap p (lit ''\"'')) (\<lambda>p.
        cbind (buf_read (completed_hashes u) i) (\<lambda>h.
        cbind (append_uint cap p h) (\<lambda>p.
        cbind (append_str cap p (lit ''\"'')) (\<lambda>p. append_hashes cap p u (i + 1))))))
      else Inr p)"
  by pat_completeness auto
termination
  by (relation "measure (\<lambda>(cap, p, u, i). unat (completed_count u) - i)") auto

declare append_hashes.simps [simp del]

definition profile_text :: "cg_userdb_entry \<Rightarrow> byte list cres" where
  "profile_text u =
     cbind (append_str 8192 [] http_ok) (\<lambda>p.
     cbind (append_str 8192 p (lit ''{\"status\":\"success\",\"username\":\"'')) (\<lambda>p.
     cbind (append_json_escaped 8192 p (username u)) (\<lambda>p.
     cbind (append_str 8192 p (lit ''\",\"is_guest\":false,\"total_points\":'')) (\<lambda>p.
     cbind (append_uint 8192 p (ucast (total_points u))) (\<lambda>p.
     cbind (append_str 8192 p (lit '',\"completed_count\":'')) (\<lambda>p.
     cbind (append_uint 8192 p (ucast (completed_count u))) (\<lambda>p.
     cbind (append_str 8192 p (lit '',\"description\":\"'')) (\<lambda>p.
     cbind (append_json_escaped 8192 p (description u)) (\<lambda>p.
     cbind (append_str 8192 p (lit ''\",\"completed_hashes\":['')) (\<lambda>p.
     cbind (append_hashes 8192 p u 0) (\<lambda>p.
     append_str 8192 p (lit '']}''))))))))))))"

definition cg_route_api_user_profile :: handler where
  "cg_route_api_user_profile k req srv =
     cbind (method_differs req ''GET'') (\<lambda>bad.
     if bad then reply req (json_text ''405 Method Not Allowed'' ''{\"error\":\"405\"}'') srv else
     cbind (buf_read (req_session_id req) 0) (\<lambda>c.
     if c = 0 then reply req (json_text ''401 Unauthorized'' ''{\"error\":\"No session\"}'') srv else
     with_session req srv (\<lambda>entry.
     case entry of
       None \<Rightarrow> reply req (json_text ''401 Unauthorized'' ''{\"error\":\"Invalid session\"}'') srv
     | Some e \<Rightarrow>
         if user_id e = 0 then
           cbind (append_str 8192 [] http_ok) (\<lambda>p.
           cbind (append_str 8192 p (lit ''{\"status\":\"success\",\"username\":\"Guest\",\"is_guest\":true,\"total_points\":0,\"description\":\"\",\"completed_count\":0,\"completed_hashes\":[]}'')) (\<lambda>p.
             reply_buf req p srv))
         else
           cbind (deref (srv_userdb srv)) (\<lambda>udb.
           case cg_userdb_find_by_id udb (user_id e) of
             None \<Rightarrow> reply req (json_text ''401 Unauthorized'' ''{\"error\":\"User missing\"}'') srv
           | Some i \<Rightarrow> cbind (profile_text (udb_pool udb ! i)) (\<lambda>p. reply_buf req p srv)))))"

text \<open>The description that the update stores in a record: at most 2047 bytes.\<close>

definition set_description :: "cg_userdb_entry \<Rightarrow> byte list \<Rightarrow> cg_userdb_entry cres" where
  "set_description u t =
     cbind (cg_strlen (t @ [0])) (\<lambda>n.
     let len = (if n > 2047 then 2047 else n) in
     cbind (buf_write (description u) 0 (take len t)) (\<lambda>d.
     cbind (buf_write d len [0]) (\<lambda>d. Inr (u\<lparr>description := d\<rparr>))))"

definition cg_route_api_user_profile_update :: handler where
  "cg_route_api_user_profile_update k req srv =
     cbind (method_differs req ''POST'') (\<lambda>bad.
     if bad then reply req (json_text ''405 Method Not Allowed'' ''{\"error\":\"405\"}'') srv else
     with_session req srv (\<lambda>entry.
     if case entry of None \<Rightarrow> True | Some e \<Rightarrow> user_id e = 0 then reply req (json_text ''401 Unauthorized'' ''{\"error\":\"Unauthorized\"}'') srv
     else
       cbind (deref (srv_userdb srv)) (\<lambda>udb.
       case cg_userdb_find_by_id udb (user_id (the entry)) of
         None \<Rightarrow> reply req (json_text ''401 Unauthorized'' ''{\"error\":\"User missing\"}'') srv
       | Some i \<Rightarrow>
           cbind (cg_get_form_value (stdin_buf req) (lit ''description'') 2048) (\<lambda>(found, t).
           cbind (if found then
                    cbind (set_description (udb_pool udb ! i) t) (\<lambda>u.
                      Inr (udb\<lparr>udb_pool := (udb_pool udb)[i := u]\<rparr>))
                  else Inr udb) (\<lambda>udb.
             reply req (json_text ''200 OK'' ''{\"status\":\"success\"}'') (srv\<lparr>srv_userdb := Some udb\<rparr>))))))"

definition public_profile_text :: "cg_userdb_entry \<Rightarrow> byte list cres" where
  "public_profile_text u =
     cbind (append_str 8192 [] http_ok) (\<lambda>p.
     cbind (append_str 8192 p (lit ''{\"status\":\"success\",\"username\":\"'')) (\<lambda>p.
     cbind (append_json_escaped 8192 p (username u)) (\<lambda>p.
     cbind (append_str 8192 p (lit ''\",\"total_points\":'')) (\<lambda>p.
     cbind (append_uint 8192 p (ucast (total_points u))) (\<lambda>p.
     cbind (append_str 8192 p (lit '',\"completed_count\":'')) (\<lambda>p.
     cbind (append_uint 8192 p (ucast (completed_count u))) (\<lambda>p.
     cbind (append_str 8192 p (lit '',\"description\":\"'')) (\<lambda>p.
     cbind (append_json_escaped 8192 p (description u)) (\<lambda>p.
     append_str 8192 p (lit ''\"}''))))))))))"

definition cg_route_api_public_profile :: handler where
  "cg_route_api_public_profile k req srv =
     cbind (method_differs req ''POST'') (\<lambda>bad.
     if bad then reply req (json_text ''405 Method Not Allowed'' ''{\"error\":\"405\"}'') srv else
     cbind (cg_get_form_value (stdin_buf req) (lit ''username'') 64) (\<lambda>(found, name).
     if \<not> found then reply req (json_text ''400 Bad Request'' ''{\"error\":\"Missing username\"}'') srv else
     cbind (deref (srv_userdb srv)) (\<lambda>udb.
     cbind (cg_userdb_find udb (name @ [0])) (\<lambda>r.
     case r of
       None \<Rightarrow> reply req (json_text ''404 Not Found'' ''{\"error\":\"User not found\"}'') srv
     | Some i \<Rightarrow> cbind (public_profile_text (udb_pool udb ! i)) (\<lambda>p. reply_buf req p srv)))))"

definition cg_route_api_user_stats :: handler where
  "cg_route_api_user_stats k req srv =
     with_session req srv (\<lambda>entry.
     cbind (append_str 256 [] http_ok) (\<lambda>p.
     cbind (if case entry of None \<Rightarrow> True | Some e \<Rightarrow> user_id e = 0 then
              append_str 256 p (lit ''{\"points\":0}'')
            else
              cbind (deref (srv_userdb srv)) (\<lambda>udb.
              let points = (case cg_userdb_find_by_id udb (user_id (the entry)) of
                              None \<Rightarrow> 0 | Some i \<Rightarrow> total_points (udb_pool udb ! i)) in
              cbind (append_str 256 p (lit ''{\"points\":'')) (\<lambda>p.
              cbind (append_uint 256 p (ucast points)) (\<lambda>p.
                append_str 256 p (lit ''}''))))) (\<lambda>p.
       reply_buf req p srv)))"

definition cg_route_api_user_delete :: handler where
  "cg_route_api_user_delete k req srv =
     cbind (method_differs req ''POST'') (\<lambda>bad.
     if bad then reply req (str ''Status: 405 Method Not Allowed'' @ crlf @ crlf) srv else
     with_session req srv (\<lambda>entry.
     if case entry of None \<Rightarrow> True | Some e \<Rightarrow> user_id e = 0
     then reply req (str ''Status: 401 Unauthorized'' @ crlf @ crlf) srv
     else
       cbind (deref (srv_userdb srv)) (\<lambda>udb.
         reply req (str ''Status: 200 OK'' @ crlf @ str ''Content-Type: application/json'' @ crlf @
             str ''Set-Cookie: SESSION=; expires=Thu, 01 Jan 1970 00:00:00 UTC; path=/;'' @ crlf @ crlf @
             str ''{\"status\":\"success\"}'')
           (srv\<lparr>srv_userdb := Some (fst (cg_userdb_delete udb (user_id (the entry))))\<rparr>))))"

section \<open>The leaderboard\<close>

text \<open>
  \<open>tops\<close> holds ten slots; a user enters before the first slot that is empty or has fewer points,
  and the slots from there on move down by one.
\<close>

definition leaderboard_insert ::
  "cg_userdb_entry list \<Rightarrow> nat \<Rightarrow> nat option list \<Rightarrow> nat option list" where
  "leaderboard_insert pool i tops =
     (case first_index (\<lambda>t. case t of None \<Rightarrow> True
         | Some n \<Rightarrow> total_points (pool ! n) < total_points (pool ! i)) tops of
        None \<Rightarrow> tops
      | Some j \<Rightarrow> take j tops @ Some i # butlast (drop j tops))"

definition leaderboard_top :: "cg_userdb_entry list \<Rightarrow> nat option list" where
  "leaderboard_top pool =
     fold (\<lambda>i tops. if user_is_active (pool ! i) \<noteq> 0 then leaderboard_insert pool i tops else tops)
       [0..<USERDB_POOL_SIZE] (replicate 10 None)"

fun leaderboard_rows :: "cg_userdb_entry list \<Rightarrow> nat option list \<Rightarrow> bool \<Rightarrow> byte list \<Rightarrow> byte list cres"
  where
  "leaderboard_rows pool [] is_first p = Inr p"
| "leaderboard_rows pool (None # tops) is_first p = Inr p"
| "leaderboard_rows pool (Some i # tops) is_first p =
     cbind (if \<not> is_first then append_str 2048 p (lit '','') else Inr p) (\<lambda>p.
     cbind (append_str 2048 p (lit ''{\"username\":\"'')) (\<lambda>p.
     cbind (append_json_escaped 2048 p (username (pool ! i))) (\<lambda>p.
     cbind (append_str 2048 p (lit ''\",\"points\":'')) (\<lambda>p.
     cbind (append_uint 2048 p (ucast (total_points (pool ! i)))) (\<lambda>p.
     cbind (append_str 2048 p (lit ''}'')) (\<lambda>p.
       leaderboard_rows pool tops False p))))))"

definition cg_route_api_leaderboard :: handler where
  "cg_route_api_leaderboard k req srv =
     cbind (method_differs req ''GET'') (\<lambda>bad.
     if bad then reply req (json_text ''405 Method Not Allowed'' ''{\"error\":\"405\"}'') srv else
     cbind (deref (srv_userdb srv)) (\<lambda>udb.
     cbind (append_str 2048 [] http_ok) (\<lambda>p.
     cbind (append_str 2048 p (lit ''{\"status\":\"success\",\"leaderboard\":['')) (\<lambda>p.
     cbind (leaderboard_rows (udb_pool udb) (leaderboard_top (udb_pool udb)) True p) (\<lambda>p.
     cbind (append_str 2048 p (lit '']}'')) (\<lambda>p. reply_buf req p srv))))))"

section \<open>Authentication\<close>

text \<open>
  The local \<open>entry\<close> is written by \<open>cg_sessiondb_entry_create\<close> only when it succeeds, and its
  return value is not looked at: after a failure the handler reads an object nobody wrote.
\<close>

definition open_session :: "kernel \<Rightarrow> u32 \<Rightarrow> server \<Rightarrow> (server \<times> u64) cres" where
  "open_session k user srv =
     cbind (deref (srv_sessiondb srv)) (\<lambda>db.
     cbind (cg_sessiondb_entry_create db user (k_random k) (k_now k)) (\<lambda>(db, entry).
     case entry of
       None \<Rightarrow> Inl Uninit_Read
     | Some e \<Rightarrow> Inr (srv\<lparr>srv_sessiondb := Some db\<rparr>, session_id e)))"

definition cookie_head :: "u64 \<Rightarrow> byte list cres" where
  "cookie_head sid =
     cbind (append_str 512 []
       (str ''Status: 200 OK'' @ crlf @ str ''Content-Type: application/json'' @ crlf @
        str ''Set-Cookie: SESSION='' @ [0])) (\<lambda>p.
     append_uint 512 p sid)"

definition cg_route_api_auth_guest :: handler where
  "cg_route_api_auth_guest k req srv =
     cbind (method_differs req ''POST'') (\<lambda>bad.
     if bad then reply req (json_text ''405 Method Not Allowed'' ''{\"error\":\"405 - This endpoint requires a POST request.\"}'') srv else
     cbind (open_session k 0 srv) (\<lambda>(srv, sid).
     cbind (cookie_head sid) (\<lambda>p.
     cbind (append_str 512 p (str ''; Path=/; SameSite=Lax'' @ crlf @ crlf @
       str ''{\"status\":\"success\",\"message\":\"Guest authenticated\"}'' @ [0])) (\<lambda>p.
       reply_buf req p srv))))"

definition form_credentials :: "cg_client_req \<Rightarrow> (byte list \<times> byte list) option cres" where
  "form_credentials req =
     cbind (cg_get_form_value (stdin_buf req) (lit ''username'') 64) (\<lambda>(found, name).
     if \<not> found then Inr None else
     cbind (cg_get_form_value (stdin_buf req) (lit ''password'') 64) (\<lambda>(found, password).
     if \<not> found then Inr None else Inr (Some (name @ [0], password @ [0]))))"

definition cg_route_api_auth_register :: handler where
  "cg_route_api_auth_register k req srv =
     cbind (method_differs req ''POST'') (\<lambda>bad.
     if bad then reply req (json_text ''405 Method Not Allowed'' ''{\"error\":\"405\"}'') srv else
     cbind (form_credentials req) (\<lambda>cred.
     case cred of
       None \<Rightarrow> reply req (json_text ''400 Bad Request'' ''{\"error\":\"Missing credentials\"}'') srv
     | Some (name, password) \<Rightarrow>
         cbind (deref (srv_userdb srv)) (\<lambda>udb.
         cbind (cg_userdb_create udb name password) (\<lambda>(udb, status, uentry).
         let srv = srv\<lparr>srv_userdb := Some udb\<rparr> in
         case uentry of
           None \<Rightarrow> reply req (json_text ''409 Conflict'' ''{\"error\":\"User exists or DB full\"}'') srv
         | Some u \<Rightarrow>
             cbind (open_session k (uid u) srv) (\<lambda>(srv, sid).
             cbind (cookie_head sid) (\<lambda>p.
             cbind (append_str 512 p (str ''; Path=/; SameSite=Lax'' @ crlf @ crlf @
               str ''{\"status\":\"success\",\"username\":\"'' @ [0])) (\<lambda>p.
             cbind (append_json_escaped 512 p (username u)) (\<lambda>p.
             cbind (append_str 512 p (lit ''\",\"total_points\":0}'')) (\<lambda>p.
               reply_buf req p srv)))))))))"

definition cg_route_api_auth_login :: handler where
  "cg_route_api_auth_login k req srv =
     cbind (method_differs req ''POST'') (\<lambda>bad.
     if bad then reply req (json_text ''405 Method Not Allowed'' ''{\"error\":\"405\"}'') srv else
     cbind (form_credentials req) (\<lambda>cred.
     case cred of
       None \<Rightarrow> reply req (json_text ''400 Bad Request'' ''{\"error\":\"Missing credentials\"}'') srv
     | Some (name, password) \<Rightarrow>
         cbind (deref (srv_userdb srv)) (\<lambda>udb.
         cbind (cg_userdb_find udb name) (\<lambda>r.
         cbind (cg_strlen password) (\<lambda>n.
         cbind (cg_hash_str password n) (\<lambda>hash.
         if case r of None \<Rightarrow> True | Some i \<Rightarrow> pass_hash (udb_pool udb ! i) \<noteq> hash
         then reply req (json_text ''401 Unauthorized'' ''{\"error\":\"Invalid credentials\"}'') srv
         else
           (let u = udb_pool udb ! the r in
             cbind (open_session k (uid u) srv) (\<lambda>(srv, sid).
             cbind (cookie_head sid) (\<lambda>p.
             cbind (append_str 512 p (str ''; Path=/; SameSite=Lax'' @ crlf @ crlf @
               str ''{\"status\":\"success\",\"username\":\"'' @ [0])) (\<lambda>p.
             cbind (append_json_escaped 512 p (username u)) (\<lambda>p.
             cbind (append_str 512 p (lit ''\",\"total_points\":'')) (\<lambda>p.
             cbind (append_uint 512 p (ucast (total_points u))) (\<lambda>p.
             cbind (append_str 512 p (lit ''}'')) (\<lambda>p.
               reply_buf req p srv))))))))))))))"

section \<open>Challenges\<close>

text \<open>The digits of the submitted text, anything else left out.\<close>

fun submitted_number :: "u32 \<Rightarrow> byte list \<Rightarrow> u32" where
  "submitted_number v [] = v"
| "submitted_number v (c # s) =
     (if c = 0 then v
      else if 48 \<le> c \<and> c \<le> 57 then submitted_number (v * 10 + ucast (c - 48)) s
      else submitted_number v s)"

definition answer_correct :: "cg_question \<Rightarrow> byte list \<Rightarrow> bool cres" where
  "answer_correct q submitted =
     (if q_type q = CG_ANS_TEXT then
        (case q_answer q of
           Text_Answer expected \<Rightarrow> cbind (cg_strcmp (submitted @ [0]) expected) (\<lambda>c. Inr (c = 0))
         | Numeric_Answer n \<Rightarrow> Inl Bad_Pointer)
      else
        (case q_answer q of
           Numeric_Answer n \<Rightarrow> Inr (submitted_number 0 submitted = n)
         | Text_Answer t \<Rightarrow> Inl Uninit_Read))"

text \<open>The form key of a question, in an array of 16 bytes.\<close>

definition question_key :: "cg_question \<Rightarrow> byte list cres" where
  "question_key q =
     cbind (append_str 16 [] (lit ''q'')) (\<lambda>p.
     cbind (append_uint 16 p (ucast (q_id q))) (\<lambda>p. append_bytes 16 p [0]))"

fun verify_questions ::
  "byte list \<Rightarrow> cg_question list \<Rightarrow> bool \<Rightarrow> u32 \<Rightarrow> byte list \<Rightarrow> (u32 \<times> byte list) cres" where
  "verify_questions form [] is_first total_earned p = Inr (total_earned, p)"
| "verify_questions form (q # qs) is_first total_earned p =
     cbind (question_key q) (\<lambda>key.
     cbind (cg_get_form_value form key 256) (\<lambda>(found, submitted).
     cbind (if found then answer_correct q submitted else Inr False) (\<lambda>is_correct.
     let total_earned = (if is_correct then total_earned + q_points q else total_earned) in
     cbind (if is_first then Inr p else append_str 4096 p (lit '','')) (\<lambda>p.
     cbind (append_str 4096 p (lit ''{\"id\":'')) (\<lambda>p.
     cbind (append_uint 4096 p (ucast (q_id q))) (\<lambda>p.
     cbind (append_str 4096 p (lit '',\"correct\":'')) (\<lambda>p.
     cbind (append_str 4096 p (if is_correct then lit ''true'' else lit ''false'')) (\<lambda>p.
     cbind (append_str 4096 p (lit '',\"earned\":'')) (\<lambda>p.
     cbind (append_uint 4096 p (if is_correct then ucast (q_points q) else 0)) (\<lambda>p.
     cbind (append_str 4096 p (lit '',\"explanation\":\"'')) (\<lambda>p.
     cbind (append_str 4096 p (q_explanation q)) (\<lambda>p.
     cbind (append_str 4096 p (lit ''\"}'')) (\<lambda>p.
       verify_questions form qs False total_earned p)))))))))))))"

text \<open>The points are added every time; the list of completed challenges has each one once.\<close>

definition award_points :: "cg_userdb_entry \<Rightarrow> u32 \<Rightarrow> u64 \<Rightarrow> cg_userdb_entry cres" where
  "award_points u total_earned hash =
     (let u = u\<lparr>total_points := total_points u + total_earned\<rparr>;
          n = unat (completed_count u);
          recorded = (first_index (\<lambda>h. h = hash) (take (min n 32) (completed_hashes u)) \<noteq> None)
      in if \<not> recorded \<and> n < 32 then
           cbind (buf_write (completed_hashes u) n [hash]) (\<lambda>hs.
             Inr (u\<lparr>completed_hashes := hs, completed_count := completed_count u + 1\<rparr>))
         else Inr u)"

definition award_user :: "server \<Rightarrow> u32 \<Rightarrow> byte list \<Rightarrow> u32 \<Rightarrow> server cres" where
  "award_user srv user chal_id total_earned =
     cbind (deref (srv_userdb srv)) (\<lambda>udb.
     case cg_userdb_find_by_id udb user of
       None \<Rightarrow> Inr srv
     | Some i \<Rightarrow>
         cbind (cg_strlen chal_id) (\<lambda>n.
         cbind (cg_hash_str chal_id n) (\<lambda>hash.
         cbind (award_points (udb_pool udb ! i) total_earned hash) (\<lambda>u.
           Inr (srv\<lparr>srv_userdb := Some (udb\<lparr>udb_pool := (udb_pool udb)[i := u]\<rparr>)\<rparr>)))))"

definition cg_route_api_challenge_verify :: handler where
  "cg_route_api_challenge_verify k req srv =
     cbind (method_differs req ''POST'') (\<lambda>bad.
     if bad then reply req (json_text ''405 Method Not Allowed'' ''{\"error\":\"405 - This endpoint requires a POST request.\"}'') srv else
     cbind (buf_read (req_session_id req) 0) (\<lambda>c.
     if c = 0 then reply req (json_text ''401 Unauthorized'' ''{\"error\":\"401 - Missing session.\"}'') srv else
     with_session req srv (\<lambda>entry.
     case entry of
       None \<Rightarrow> reply req (json_text ''401 Unauthorized'' ''{\"error\":\"401 - Invalid session.\"}'') srv
     | Some e \<Rightarrow>
         cbind (cg_get_form_value (stdin_buf req) (lit ''id'') 64) (\<lambda>(found, name).
         if \<not> found then reply req (json_text ''400 Bad Request'' ''{\"error\":\"400 - Missing challenge ID.\"}'') srv else
         cbind (cg_challengedb_find (name @ [0])) (\<lambda>r.
         case r of
           None \<Rightarrow> reply req (json_text ''404 Not Found'' ''{\"error\":\"404 - Challenge ID not found.\"}'') srv
         | Some ci \<Rightarrow>
             (let chal = g_challengedb ! ci in
             cbind (append_str 4096 [] http_ok) (\<lambda>p.
             cbind (append_str 4096 p (lit ''{\"status\":\"success\",\"message\":\"Payload evaluated.\",\"results\":['')) (\<lambda>p.
             cbind (verify_questions (stdin_buf req) (take (unat (question_count chal)) (questions chal))
                 True 0 p) (\<lambda>(total_earned, p).
             cbind (if total_earned = chal_total_points chal \<and> user_id e \<noteq> 0
                    then award_user srv (user_id e) (name @ [0]) total_earned else Inr srv) (\<lambda>srv.
             cbind (append_str 4096 p (lit ''],\"total_earned\":'')) (\<lambda>p.
             cbind (append_uint 4096 p (ucast total_earned)) (\<lambda>p.
             cbind (append_str 4096 p (lit '',\"max_points\":'')) (\<lambda>p.
             cbind (append_uint 4096 p (ucast (chal_total_points chal))) (\<lambda>p.
             cbind (append_str 4096 p (lit ''}'')) (\<lambda>p. reply_buf req p srv)))))))))))))))"

section \<open>Routing\<close>

text \<open>The handlers that the table points to, by name.\<close>

datatype route =
    Route_AuthGuest
  | Route_AuthRegister
  | Route_AuthLogin
  | Route_UserProfile
  | Route_UserProfileUpdate
  | Route_PublicProfile
  | Route_UserStats
  | Route_UserDelete
  | Route_Leaderboard
  | Route_ChallengeVerify

primrec route_handler :: "route \<Rightarrow> handler" where
  "route_handler Route_AuthGuest = cg_route_api_auth_guest"
| "route_handler Route_AuthRegister = cg_route_api_auth_register"
| "route_handler Route_AuthLogin = cg_route_api_auth_login"
| "route_handler Route_UserProfile = cg_route_api_user_profile"
| "route_handler Route_UserProfileUpdate = cg_route_api_user_profile_update"
| "route_handler Route_PublicProfile = cg_route_api_public_profile"
| "route_handler Route_UserStats = cg_route_api_user_stats"
| "route_handler Route_UserDelete = cg_route_api_user_delete"
| "route_handler Route_Leaderboard = cg_route_api_leaderboard"
| "route_handler Route_ChallengeVerify = cg_route_api_challenge_verify"

definition cg_route_map_init :: "route cg_hashmap \<Rightarrow> route cg_hashmap cres" where
  "cg_route_map_init m =
     cbind (cg_hashmap_insert_key_str m (lit ''/api/auth/guest'') 15 Route_AuthGuest) (\<lambda>m.
     cbind (cg_hashmap_insert_key_str m (lit ''/api/auth/register'') 18 Route_AuthRegister) (\<lambda>m.
     cbind (cg_hashmap_insert_key_str m (lit ''/api/auth/login'') 15 Route_AuthLogin) (\<lambda>m.
     cbind (cg_hashmap_insert_key_str m (lit ''/api/user/profile'') 17 Route_UserProfile) (\<lambda>m.
     cbind (cg_hashmap_insert_key_str m (lit ''/api/user/profile/update'') 24 Route_UserProfileUpdate) (\<lambda>m.
     cbind (cg_hashmap_insert_key_str m (lit ''/api/user/public'') 16 Route_PublicProfile) (\<lambda>m.
     cbind (cg_hashmap_insert_key_str m (lit ''/api/user/stats'') 15 Route_UserStats) (\<lambda>m.
     cbind (cg_hashmap_insert_key_str m (lit ''/api/user/delete'') 16 Route_UserDelete) (\<lambda>m.
     cbind (cg_hashmap_insert_key_str m (lit ''/api/leaderboard'') 16 Route_Leaderboard) (\<lambda>m.
     cbind (cg_hashmap_insert_key_str m (lit ''/api/challenge/verify'') 21 Route_ChallengeVerify) (\<lambda>m.
       Inr m))))))))))"

text \<open>The result has the request with the forced terminator of its path.\<close>

definition cg_route_map_reply ::
  "route cg_hashmap \<Rightarrow> kernel \<Rightarrow> cg_client_req \<Rightarrow> server \<Rightarrow> (cg_client_req \<times> server) cres" where
  "cg_route_map_reply m k req srv =
     (let srv = srv\<lparr>srv_tx := (srv_tx srv)\<lparr>meta_valid := 0, meta_pos := 0\<rparr>\<rparr> in
      cbind (buf_write (uri req) 127 [0]) (\<lambda>u.
      let req = req\<lparr>uri := u\<rparr> in
      cbind (cg_strlen (uri req)) (\<lambda>n.
      cbind (cg_hashmap_get_key_str m (uri req) n) (\<lambda>entry.
      cbind (case entry of
               None \<Rightarrow> cg_route_not_found k req srv
             | Some i \<Rightarrow> route_handler (ent_val (hm_table m ! i)) k req srv) (\<lambda>srv.
      cbind (cg_fastcgi_end (srv_tx srv) (req_id req)) (\<lambda>tx.
        Inr (req, srv\<lparr>srv_tx := tx\<rparr>)))))))"

section \<open>The writers inside their bounds\<close>

named_theorems writes \<open>writers that stay inside the response buffer\<close>

lemma append_bytes_ok [writes]:
  "length p + length bs \<le> cap \<Longrightarrow> append_bytes cap p bs = Inr (p @ bs)"
  by (simp add: append_bytes_def)

lemma append_str_ok [writes]:
  "has_nul s \<Longrightarrow> length p + length (cstr s) \<le> cap \<Longrightarrow> append_str cap p s = Inr (p @ cstr s)"
  by (simp add: append_str_def append_bytes_ok take_cstr)

lemma length_json_escape: "length (json_escape c) \<le> 2"
  by (simp add: json_escape_def)

definition json_text_of :: "byte list \<Rightarrow> byte list" where
  "json_text_of s = concat (map json_escape s)"

lemma length_json_text_of: "length (json_text_of s) \<le> 2 * length s"
proof (induction s)
  case (Cons c s)
  then show ?case using length_json_escape [of c] by (simp add: json_text_of_def)
qed (simp add: json_text_of_def)

lemma append_json_escaped_ok [writes]:
  "has_nul s \<Longrightarrow> length p + length (json_text_of (cstr s)) \<le> cap \<Longrightarrow>
   append_json_escaped cap p s = Inr (p @ json_text_of (cstr s))"
proof (induction s arbitrary: p)
  case (Cons c s)
  show ?case
  proof (cases "c = 0")
    case False
    then have "length (p @ json_escape c) + length (json_text_of (cstr s)) \<le> cap"
      using Cons.prems(2) by (simp add: json_text_of_def)
    then show ?thesis
      using False Cons.IH [of "p @ json_escape c"] Cons.prems
      by (simp add: append_bytes_ok json_text_of_def)
  qed (simp add: json_text_of_def)
qed simp

lemma append_uint_ok [writes]:
  assumes "length p + length (dec (unat v)) \<le> cap"
  shows "append_uint cap p v = Inr (p @ dec (unat v))"
proof -
  let ?d = "dec (unat v)"
  have "length ?d \<le> 20" by (rule length_dec_u64)
  then have "take (length ?d) (drop (20 - length ?d)
      (buf_splice (replicate 32 0) (20 - length ?d) (?d @ [0]))) = ?d"
    by (subst buf_splice_slice) simp_all
  then show ?thesis
    using assms cg_utoa_eq [of "replicate 32 0" v] by (simp add: append_uint_def append_bytes_ok)
qed

text \<open>The text between the quotes of a JSON string: no quote, no control character, no lone backslash.\<close>

fun json_string_body :: "byte list \<Rightarrow> bool" where
  "json_string_body [] = True"
| "json_string_body [c] = (c \<noteq> 34 \<and> c \<noteq> 92 \<and> 0x20 \<le> c)"
| "json_string_body (c # d # s) =
     (if c = 92 then d \<in> {34, 92, 98, 102, 110, 114, 116} \<and> json_string_body s
      else c \<noteq> 34 \<and> 0x20 \<le> c \<and> json_string_body (d # s))"

lemma json_string_body_plain:
  "c \<noteq> 34 \<Longrightarrow> c \<noteq> 92 \<Longrightarrow> 0x20 \<le> c \<Longrightarrow> json_string_body (c # s) \<longleftrightarrow> json_string_body s"
  by (cases s) auto

lemma json_escaped_body: "json_string_body (json_text_of s)"
proof (induction s)
  case (Cons c s)
  have "json_text_of (c # s) = json_escape c @ json_text_of s" by (simp add: json_text_of_def)
  then show ?case using Cons by (auto simp: json_escape_def json_string_body_plain)
qed (simp add: json_text_of_def)

section \<open>Session identifiers in cookies\<close>

lemma session_digits_dec:
  assumes "\<And>d. d \<in> set ds \<Longrightarrow> 48 \<le> unat d \<and> unat d \<le> 57"
  shows "session_digits v (ds @ 0 # r) =
    Inr (word_of_nat (foldl (\<lambda>v d. v * 10 + (unat d - 48)) (unat v) ds))"
  using assms
proof (induction ds arbitrary: v)
  case (Cons d ds)
  have d: "48 \<le> unat d" "unat d \<le> 57" using Cons.prems [of d] by simp_all
  then have dr: "48 \<le> d" "d \<le> 57" "d \<noteq> 0" by (auto simp: word_le_nat_alt)
  have "unat (d - 48) = unat d - 48" using dr(1) by (simp add: unat_sub)
  moreover have "(v * 10 + ucast (d - 48) :: u64) = word_of_nat (unat v * 10 + unat (d - 48))"
    by simp
  ultimately have step: "(v * 10 + ucast (d - 48) :: u64) = word_of_nat (unat v * 10 + (unat d - 48))"
    by simp
  have wrap: "word_of_nat (foldl (\<lambda>v d. v * 10 + (unat d - 48)) (unat (word_of_nat n :: u64)) ds) =
      (word_of_nat (foldl (\<lambda>v d. v * 10 + (unat d - 48)) n ds) :: u64)" for n
  proof (induction ds arbitrary: n)
    case (Cons e es)
    have "(word_of_nat (unat (word_of_nat n :: u64) * 10 + (unat e - 48)) :: u64) =
        word_of_nat (n * 10 + (unat e - 48))"
      by simp
    then show ?case
      using Cons [of "unat (word_of_nat n :: u64) * 10 + (unat e - 48)"] Cons [of "n * 10 + (unat e - 48)"]
      by simp
  qed simp
  have "session_digits v ((d # ds) @ 0 # r) = session_digits (v * 10 + ucast (d - 48)) (ds @ 0 # r)"
    using dr by simp
  also have "\<dots> = Inr (word_of_nat (foldl (\<lambda>v d. v * 10 + (unat d - 48))
      (unat (v * 10 + ucast (d - 48))) ds))"
    using Cons.prems by (intro Cons.IH) simp
  finally show ?case unfolding step wrap by simp
qed simp

lemma get_session_id_dec:
  assumes "has_nul (req_session_id req)" and "cstr (req_session_id req) = dec (unat sid)"
  shows "get_session_id req = Inr sid"
proof -
  obtain r where "req_session_id req = dec (unat sid) @ 0 # r"
    using has_nul_split [OF assms(1)] assms(2) by auto
  then have "get_session_id req =
      Inr (word_of_nat (foldl (\<lambda>v d. v * 10 + (unat d - 48)) (unat (0 :: u64)) (dec (unat sid))))"
    unfolding get_session_id_def using dec_digits by (simp add: session_digits_dec)
  also have "foldl (\<lambda>v d. v * 10 + (unat d - 48)) (unat (0 :: u64)) (dec (unat sid)) = unat sid"
    using dec_value_dec [of "unat sid"] by (simp add: dec_value_def)
  finally show ?thesis by simp
qed

lemma session_digits_total: "has_nul s \<Longrightarrow> \<exists>v'. session_digits v s = Inr v'"
proof (induction s arbitrary: v)
  case (Cons c s)
  then show ?case by (cases "c = 0") auto
qed simp

section \<open>Form values\<close>

text \<open>The decoding of a field that ends at an ampersand or at the end of the form.\<close>

lemma form_decode_total: "has_nul p \<Longrightarrow> \<exists>t. form_decode p = Inr t \<and> length t < length p"
proof (induction p rule: length_induct)
  case (1 q)
  then obtain c p where q: "q = c # p" by (cases q) auto
  show ?case
  proof (cases "c = 0 \<or> c = 38")
    case True
    then show ?thesis by (auto simp: q)
  next
    case False
    then have np: "has_nul p" using 1(2) q by auto
    then obtain t where t: "form_decode p = Inr t" "length t < length p" using 1(1) q by auto
    obtain a p' where p: "p = a # p'" using np by (cases p) auto
    show ?thesis
    proof (cases "c = 37 \<and> a \<noteq> 0")
      case True
      then have np': "has_nul p'" using np p by auto
      then obtain b p'' where p': "p' = b # p''" by (cases p') auto
      show ?thesis
      proof (cases "b = 0")
        case b: True
        then show ?thesis using False True t p p' q by auto
      next
        case b: False
        then have "has_nul p''" using np' p' by auto
        moreover have "length p'' < length q" using p p' q by simp
        ultimately obtain t where "form_decode p'' = Inr t" "length t < length p''"
          using 1(1) by blast
        then show ?thesis using False True b p p' q by auto
      qed
    next
      case other: False
      then show ?thesis using False t p q by auto
    qed
  qed
qed

end
