(* ===== verification/CG_Routes.thy ===== *)
theory CG_Routes
  imports CG_Router
begin

text \<open>
  The routing table: what \<open>cg_route_map_init\<close> leaves in the hash map of 32 slots, and which
  handler a path reaches. The keys are the CRC-32C values of the paths, so the table tells
  paths apart only by that value.
\<close>

section \<open>The table after its initialisation\<close>

definition route_paths :: "(string \<times> route) list" where
  "route_paths =
     [(''/api/auth/guest'', Route_AuthGuest), (''/api/auth/register'', Route_AuthRegister),
      (''/api/auth/login'', Route_AuthLogin), (''/api/user/profile'', Route_UserProfile),
      (''/api/user/profile/update'', Route_UserProfileUpdate), (''/api/user/public'', Route_PublicProfile),
      (''/api/user/stats'', Route_UserStats), (''/api/user/delete'', Route_UserDelete),
      (''/api/leaderboard'', Route_Leaderboard), (''/api/challenge/verify'', Route_ChallengeVerify)]"

definition path_key :: "string \<Rightarrow> u64" where
  "path_key s = ucast (crc32c (str s))"

definition route_table :: "u64 \<Rightarrow> route option" where
  "route_table = map_of (map (\<lambda>(s, r). (path_key s, r)) route_paths)"

text \<open>The handlers are finitely many: what holds of each route can be evaluated.\<close>

instantiation route :: enum
begin

definition enum_route :: "route list" where
  "enum_route = [Route_AuthGuest, Route_AuthRegister, Route_AuthLogin, Route_UserProfile, Route_UserProfileUpdate,
     Route_PublicProfile, Route_UserStats, Route_UserDelete, Route_Leaderboard, Route_ChallengeVerify]"

definition enum_all_route :: "(route \<Rightarrow> bool) \<Rightarrow> bool" where
  "enum_all_route P = list_all P enum_class.enum"

definition enum_ex_route :: "(route \<Rightarrow> bool) \<Rightarrow> bool" where
  "enum_ex_route P = list_ex P enum_class.enum"

instance
proof
  have "r \<in> set (enum_class.enum :: route list)" for r :: route by (cases r) (simp_all add: enum_route_def)
  then show all: "(UNIV :: route set) = set enum_class.enum" by blast
  show "distinct (enum_class.enum :: route list)" by (simp add: enum_route_def)
  show "enum_class.enum_all P \<longleftrightarrow> Ball UNIV P" for P :: "route \<Rightarrow> bool"
    unfolding enum_all_route_def list_all_iff all by (rule refl)
  show "enum_class.enum_ex P \<longleftrightarrow> Bex UNIV P" for P :: "route \<Rightarrow> bool"
    unfolding enum_ex_route_def list_ex_iff all by (rule refl)
qed

end

text \<open>Every handler is registered, under exactly one path.\<close>

lemma one_path_each: "\<forall>r :: route. length (filter (\<lambda>p. snd p = r) route_paths) = 1"
  by code_simp

lemma route_has_path: "\<exists>s. (s, r) \<in> set route_paths"
proof -
  have "length (filter (\<lambda>p. snd p = r) route_paths) = 1" using one_path_each by blast
  then have "filter (\<lambda>p. snd p = r) route_paths \<noteq> []" by (metis list.size(3) zero_neq_one)
  then show ?thesis by (fastforce simp: filter_empty_conv)
qed

text \<open>The bytes of the paths, and their hashes.\<close>

lemma path_bytes:
  "str ''/api/auth/guest'' =
     [47, 97, 112, 105, 47, 97, 117, 116, 104, 47, 103, 117, 101, 115, 116]"
  "str ''/api/auth/register'' =
     [47, 97, 112, 105, 47, 97, 117, 116, 104, 47, 114, 101, 103, 105, 115, 116, 101, 114]"
  "str ''/api/auth/login'' =
     [47, 97, 112, 105, 47, 97, 117, 116, 104, 47, 108, 111, 103, 105, 110]"
  "str ''/api/user/profile'' =
     [47, 97, 112, 105, 47, 117, 115, 101, 114, 47, 112, 114, 111, 102, 105, 108, 101]"
  "str ''/api/user/profile/update'' =
     [47, 97, 112, 105, 47, 117, 115, 101, 114, 47, 112, 114, 111, 102, 105, 108, 101, 47, 117, 112, 100, 97, 116, 101]"
  "str ''/api/user/public'' =
     [47, 97, 112, 105, 47, 117, 115, 101, 114, 47, 112, 117, 98, 108, 105, 99]"
  "str ''/api/user/stats'' =
     [47, 97, 112, 105, 47, 117, 115, 101, 114, 47, 115, 116, 97, 116, 115]"
  "str ''/api/user/delete'' =
     [47, 97, 112, 105, 47, 117, 115, 101, 114, 47, 100, 101, 108, 101, 116, 101]"
  "str ''/api/leaderboard'' =
     [47, 97, 112, 105, 47, 108, 101, 97, 100, 101, 114, 98, 111, 97, 114, 100]"
  "str ''/api/challenge/verify'' =
     [47, 97, 112, 105, 47, 99, 104, 97, 108, 108, 101, 110, 103, 101, 47, 118, 101, 114, 105, 102, 121]"
  by code_simp+

lemma path_crcs:
  "crc32c (str ''/api/auth/guest'') = 0x7f3863d"
  "crc32c (str ''/api/auth/register'') = 0xedb74233"
  "crc32c (str ''/api/auth/login'') = 0x9ba7738f"
  "crc32c (str ''/api/user/profile'') = 0x6a39fb2f"
  "crc32c (str ''/api/user/profile/update'') = 0xcbd59cec"
  "crc32c (str ''/api/user/public'') = 0xf47c79b"
  "crc32c (str ''/api/user/stats'') = 0xd7146b6d"
  "crc32c (str ''/api/user/delete'') = 0x84d55054"
  "crc32c (str ''/api/leaderboard'') = 0xb4891bd1"
  "crc32c (str ''/api/challenge/verify'') = 0x6e706cea"
  unfolding path_bytes by (simp_all add: crc32c_eval)

lemma path_keys:
  "map (\<lambda>p. path_key (fst p)) route_paths =
     [0x7f3863d, 0xedb74233, 0x9ba7738f, 0x6a39fb2f, 0xcbd59cec, 0xf47c79b, 0xd7146b6d, 0x84d55054, 0xb4891bd1, 0x6e706cea]"
  by (simp add: route_paths_def path_key_def path_crcs)

lemma path_keys_distinct: "distinct (map (\<lambda>p. path_key (fst p)) route_paths)"
  unfolding path_keys by simp

lemma insert_path:
  assumes "n = length s"
  shows "cg_hashmap_insert_key_str m (lit s) n r = cg_hashmap_insert_key_uint m (path_key s) r"
  using assms cg_hash_str_crc [of n "lit s"]
  by (simp add: cg_hashmap_insert_key_str_def path_key_def lit_def)

definition route_ops :: "(u64, route) map_op list" where
  "route_ops = map (\<lambda>p. Put (path_key (fst p)) (snd p)) route_paths"

lemma run_ops_fun:
  "run_ops ins del [] = Inr"
  "run_ops ins del (Put k v # ops) = (\<lambda>m. cbind (ins m k v) (run_ops ins del ops))"
  by (intro ext; simp)+

lemma route_map_init_ops:
  "cg_route_map_init m = run_ops cg_hashmap_insert_key_uint cg_hashmap_delete_key_uint route_ops m"
  by (simp add: cg_route_map_init_def insert_path route_ops_def route_paths_def run_ops_fun
      del: run_ops.simps)

lemma fold_puts:
  assumes "distinct (map fst kvs)" and "\<forall>k \<in> set (map fst kvs). f k = None"
  shows "fold apply_op (map (\<lambda>p. Put (fst p) (snd p)) kvs) f = f ++ map_of kvs"
  using assms
proof (induction kvs arbitrary: f)
  case (Cons p kvs)
  have "(f(fst p \<mapsto> snd p)) k = None" if "k \<in> set (map fst kvs)" for k
  proof -
    have "k \<noteq> fst p" using that Cons.prems(1) by (metis distinct.simps(2) list.simps(9))
    moreover have "f k = None" using that Cons.prems(2) by (metis list.set_intros(2) list.simps(9))
    ultimately show ?thesis by simp
  qed
  then have "fold apply_op (map (\<lambda>p. Put (fst p) (snd p)) kvs) (f(fst p \<mapsto> snd p)) =
      f(fst p \<mapsto> snd p) ++ map_of kvs"
    using Cons.prems by (intro Cons.IH) simp_all
  moreover have "f(fst p \<mapsto> snd p) ++ map_of kvs = f ++ map_of (p # kvs)"
  proof
    fix k
    have "map_of kvs (fst p) = None" using Cons.prems(1) by (simp add: map_of_eq_None_iff)
    then show "(f(fst p \<mapsto> snd p) ++ map_of kvs) k = (f ++ map_of (p # kvs)) k"
      by (cases "k = fst p"; cases p) (simp_all add: map_add_def split: option.split)
  qed
  ultimately show ?case by (simp only: list.map fold_simps apply_op.simps)
qed simp

text \<open>From 32 zeroed slots, the initialisation succeeds and leaves exactly the ten routes.\<close>

definition empty_route_map :: "route \<Rightarrow> route cg_hashmap" where
  "empty_route_map r =
     \<lparr>hm_entries = Some (replicate 32 \<lparr>ent_key = 0, ent_val = r, ent_occupied = 0\<rparr>),
      hm_capacity = 32, hm_count = 0\<rparr>"

lemma empty_route_map_ok:
  "hashmap_wf (empty_route_map r)" "hm_lookup (empty_route_map r) = Map.empty"
  "hm_room (empty_route_map r) = 32"
proof -
  define es where "es = replicate 32 \<lparr>ent_key = 0 :: u64, ent_val = r, ent_occupied = 0\<rparr>"
  have z: "(5 :: nat) < 32" "unat (hm_capacity (empty_route_map r)) = 2 ^ 5"
      "hm_count (empty_route_map r) = 0" "hm_entries (empty_route_map r) = Some es"
      "length es = 2 ^ 5" "\<forall>e \<in> set es. ent_occupied e = 0"
    by (simp_all add: empty_route_map_def es_def)
  show "hashmap_wf (empty_route_map r)" "hm_lookup (empty_route_map r) = Map.empty"
      "hm_room (empty_route_map r) = 32"
    using hashmap_wf_zeroed [OF z] by simp_all
qed

lemma route_table_map_of:
  "route_table = map_of (map (\<lambda>p. (path_key (fst p), snd p)) route_paths)"
  unfolding route_table_def by (rule arg_cong [of _ _ map_of]) (simp add: split_def)

lemma route_map_init_ok:
  "\<exists>m'. cg_route_map_init (empty_route_map r) = Inr m' \<and> hashmap_wf m' \<and> hm_lookup m' = route_table \<and>
     (\<forall>key. hashmap_value m' key = Inr (route_table key))"
proof -
  note e = empty_route_map_ok [of r]
  have puts: "filter is_put route_ops = route_ops"
    by (simp add: route_ops_def filter_id_conv)
  have "length (filter is_put route_ops) < hm_room (empty_route_map r)"
    unfolding puts e(3) by (simp add: route_ops_def route_paths_def)
  then obtain m' where m': "run_ops cg_hashmap_insert_key_uint cg_hashmap_delete_key_uint route_ops
        (empty_route_map r) = Inr m'" "hashmap_wf m'"
      "hm_lookup m' = fold apply_op route_ops (hm_lookup (empty_route_map r))"
      "\<forall>k. hashmap_value m' k = Inr (fold apply_op route_ops (hm_lookup (empty_route_map r)) k)"
    using hashmap_ops_refine [OF e(1)] by blast
  have "route_ops = map (\<lambda>p. Put (fst p) (snd p)) (map (\<lambda>p. (path_key (fst p), snd p)) route_paths)"
    by (simp add: route_ops_def)
  moreover have "distinct (map fst (map (\<lambda>p. (path_key (fst p), snd p)) route_paths))"
    using path_keys_distinct by (simp add: comp_def)
  ultimately have "fold apply_op route_ops Map.empty = route_table"
    using fold_puts [of "map (\<lambda>p. (path_key (fst p), snd p)) route_paths" Map.empty]
    by (simp add: route_table_map_of)
  then show ?thesis using m' e(2) by (auto simp: route_map_init_ops)
qed

lemma route_table_path: "p \<in> set route_paths \<Longrightarrow> route_table (path_key (fst p)) = Some (snd p)"
  unfolding route_table_map_of using path_keys_distinct
  by (intro map_of_is_SomeI) (auto simp: comp_def)

lemma route_table_onto: "ran route_table = UNIV"
proof -
  have "r \<in> ran route_table" for r
    using route_has_path [of r] route_table_path ranI by (metis snd_conv)
  then show ?thesis by blast
qed

end
