(* ===== verification/CG_Forms.thy ===== *)
theory CG_Forms
  imports CG_Router
begin

text \<open>
  The form parser of \<open>src/services/cg_router.c\<close> against the encoding that a browser uses: on a
  list of fields, each written as its key, an equals sign and its value with the special bytes
  written in hexadecimal, \<open>cg_get_form_value\<close> finds the first field with the key and gives back
  its value. On any other text that is terminated, it still returns.
\<close>

section \<open>The parser returns on every terminated text\<close>

lemma form_match_total:
  "has_nul p \<Longrightarrow> 0 \<notin> set key \<Longrightarrow> form_match key p = Inr (\<exists>r. p = key @ 61 # r)"
proof (induction key arbitrary: p)
  case Nil
  then show ?case by (cases p) auto
next
  case (Cons k ks)
  then obtain c q where p: "p = c # q" by (cases p) auto
  show ?case
  proof (cases "c = k")
    case True
    then have "has_nul q" using Cons.prems p by auto
    then show ?thesis using Cons.IH [of q] Cons.prems(2) True p by simp
  qed (simp add: p)
qed

lemma form_skip_nul: "has_nul p \<Longrightarrow> has_nul (form_skip p) \<or> p = []"
  by (induction p) auto

lemma form_scan_total:
  assumes "has_nul p" and "0 \<notin> set key"
  shows "\<exists>r. form_scan p key = Inr r \<and> (\<forall>t. r = Some t \<longrightarrow> length t < length p)"
  using assms(1)
proof (induction p rule: length_induct)
  case (1 q)
  then obtain c p where q: "q = c # p" by (cases q) auto
  show ?case
  proof (cases "c = 0")
    case True
    then show ?thesis by (simp add: q)
  next
    case nz: False
    show ?thesis
    proof (cases "\<exists>r. q = key @ 61 # r")
      case True
      then obtain r where r: "q = key @ 61 # r" by blast
      then have "has_nul r" using 1(2) assms(2) by auto
      then obtain t where "form_decode r = Inr t" "length t < length r"
        using form_decode_total by blast
      then show ?thesis
        using nz True form_match_total [OF 1(2) assms(2)] r q
        by (cases key) auto
    next
      case False
      have "length (form_skip q) < length q" using nz q length_form_skip [of p] by auto
      moreover have "has_nul (form_skip q)" using form_skip_nul [OF 1(2)] q by auto
      ultimately obtain r where "form_scan (form_skip q) key = Inr r"
          "\<forall>t. r = Some t \<longrightarrow> length t < length (form_skip q)"
        using 1(1) by blast
      moreover have "form_scan q key = form_scan (form_skip q) key"
        using nz False form_match_total [OF 1(2) assms(2)] q by simp
      ultimately show ?thesis using \<open>length (form_skip q) < length q\<close> by fastforce
    qed
  qed
qed

text \<open>What a form says about a key.\<close>

definition form_field :: "byte list \<Rightarrow> string \<Rightarrow> byte list option" where
  "form_field form key = (case form_scan form (str key) of Inl e \<Rightarrow> None | Inr r \<Rightarrow> r)"

lemma form_value_cases:
  assumes "has_nul form" and "0 \<notin> set (str key)" and "1 \<le> cap"
  shows "cg_get_form_value form (lit key) cap =
    (case form_field form key of
       None \<Rightarrow> Inr (False, [])
     | Some t \<Rightarrow> if length t < cap then Inr (True, t) else Inl Out_Of_Bounds)"
proof -
  obtain r where "form_scan form (str key) = Inr r" using form_scan_total assms(1,2) by blast
  then show ?thesis
    using assms(2,3) by (auto simp: cg_get_form_value_def form_field_def lit_def split: option.split)
qed

section \<open>Percent-encoding\<close>

definition hex_digit :: "nat \<Rightarrow> byte" where
  "hex_digit n = (if n < 10 then word_of_nat (48 + n) else word_of_nat (55 + n))"

definition enc_byte :: "byte \<Rightarrow> byte list" where
  "enc_byte c =
     (if c = 32 then [43]
      else if (48 \<le> c \<and> c \<le> 57) \<or> (65 \<le> c \<and> c \<le> 90) \<or> (97 \<le> c \<and> c \<le> 122) then [c]
      else [37, hex_digit (unat c div 16), hex_digit (unat c mod 16)])"

definition enc_text :: "byte list \<Rightarrow> byte list" where
  "enc_text t = concat (map enc_byte t)"

lemma hex_digit_cases:
  "list_all (\<lambda>n. hex_value (hex_digit n) = int n \<and> hex_digit n \<noteq> 0)
     [0, 1, 2, 3, 4, 5, 6, 7, 8, 9, 10, 11, 12, 13, 14, 15]"
  by (simp add: hex_value_def hex_digit_def)

lemma hex_value_digit:
  assumes "n < 16"
  shows "hex_value (hex_digit n) = int n" and "hex_digit n \<noteq> 0"
proof -
  have "n \<in> set [0, 1, 2, 3, 4, 5, 6, 7, 8, 9, 10, 11, 12, 13, 14, 15]"
    using assms unfolding set_simps insert_iff empty_iff by presburger
  then show "hex_value (hex_digit n) = int n" and "hex_digit n \<noteq> 0"
    using hex_digit_cases unfolding list_all_iff by blast+
qed

lemma hex_byte_digits: "hex_byte (hex_digit (unat c div 16)) (hex_digit (unat c mod 16)) = c"
proof -
  let ?n = "int (unat c)"
  have "push_bit 4 (?n div 16) OR ?n mod 16 = ?n"
  proof -
    have "push_bit 4 (drop_bit 4 ?n) OR take_bit 4 ?n = ?n"
      by (rule bit_eqI) (auto simp: bit_simps)
    then show ?thesis by (simp add: drop_bit_eq_div take_bit_eq_mod)
  qed
  moreover have "unat c div 16 < 16" using unsigned_less [of c, where ?'a = nat] by simp
  ultimately show ?thesis
    by (simp add: hex_byte_def hex_value_digit zdiv_int zmod_int)
qed

lemma form_decode_enc:
  assumes "e = 0 \<or> e = 38"
  shows "form_decode (enc_text t @ e # r) = Inr t"
proof (induction t)
  case Nil
  then show ?case using assms by (simp add: enc_text_def)
next
  case (Cons c t)
  have split: "enc_text (c # t) = enc_byte c @ enc_text t" by (simp add: enc_text_def)
  define plain where "plain = ((48 \<le> c \<and> c \<le> 57) \<or> (65 \<le> c \<and> c \<le> 90) \<or> (97 \<le> c \<and> c \<le> 122))"
  consider "c = 32" | "c \<noteq> 32" "plain" | "c \<noteq> 32" "\<not> plain" by blast
  then show ?case
  proof cases
    case 1
    have "enc_byte 32 = [43]" by (simp add: enc_byte_def)
    then show ?thesis using Cons unfolding split unfolding 1 by simp
  next
    case 2
    then have "c \<noteq> 0" "c \<noteq> 38" "c \<noteq> 43" "c \<noteq> 37" by (auto simp: plain_def)
    moreover have "enc_byte c = [c]" using 2 by (simp add: enc_byte_def plain_def)
    ultimately show ?thesis using Cons by (simp add: split)
  next
    case 3
    have "unat c div 16 < 16" using unsigned_less [of c, where ?'a = nat] by simp
    moreover have "enc_byte c = [37, hex_digit (unat c div 16), hex_digit (unat c mod 16)]"
      using 3 by (simp add: enc_byte_def plain_def)
    ultimately show ?thesis
      using Cons by (simp add: split hex_value_digit(2) hex_byte_digits)
  qed
qed

section \<open>Forms as lists of fields\<close>

definition enc_field :: "byte list \<times> byte list \<Rightarrow> byte list" where
  "enc_field f = fst f @ 61 # enc_text (snd f)"

fun enc_form :: "(byte list \<times> byte list) list \<Rightarrow> byte list" where
  "enc_form [] = []"
| "enc_form [f] = enc_field f"
| "enc_form (f # g # fs) = enc_field f @ 38 # enc_form (g # fs)"

definition plain_key :: "byte list \<Rightarrow> bool" where
  "plain_key k \<longleftrightarrow> k \<noteq> [] \<and> 0 \<notin> set k \<and> 38 \<notin> set k \<and> 61 \<notin> set k"

lemma enc_text_bytes: "c \<in> set (enc_text t) \<Longrightarrow> c \<noteq> 0 \<and> c \<noteq> 38"
proof (induction t)
  case (Cons d t)
  have "unat d div 16 < 16" using unsigned_less [of d, where ?'a = nat] by simp
  then have hi: "hex_digit (unat d div 16) \<noteq> 0" "hex_digit (unat d mod 16) \<noteq> 0"
    by (simp_all add: hex_value_digit)
  have "hex_digit n \<noteq> 38" if "n < 16" for n
  proof -
    have "hex_value (38 :: byte) = - 10" by (simp add: hex_value_def)
    then show ?thesis using hex_value_digit(1) [OF that] by auto
  qed
  then have "hex_digit (unat d div 16) \<noteq> 38" "hex_digit (unat d mod 16) \<noteq> 38"
    using \<open>unat d div 16 < 16\<close> by simp_all
  then have "c \<noteq> 0 \<and> c \<noteq> 38" if "c \<in> set (enc_byte d)"
    using that hi by (auto simp: enc_byte_def split: if_splits)
  then show ?case using Cons by (auto simp: enc_text_def)
qed (simp add: enc_text_def)

lemma form_skip_past: "0 \<notin> set p \<Longrightarrow> 38 \<notin> set p \<Longrightarrow> form_skip (p @ q) = form_skip q"
  by (induction p) auto

lemma key_eq_prefix:
  assumes "61 \<notin> set k" and "61 \<notin> set key"
  shows "k @ 61 # r = key @ 61 # s \<Longrightarrow> k = key \<and> r = s"
  using assms
proof (induction k arbitrary: key)
  case Nil
  then show ?case by (cases key) auto
next
  case (Cons a k)
  then show ?case by (cases key) auto
qed

lemma form_scan_field:
  assumes key: "plain_key key" and k: "plain_key k" and e: "e = 0 \<or> e = 38" and nul: "has_nul (e # r)"
  shows "form_scan (enc_field (k, v) @ e # r) key =
    (if k = key then Inr (Some v) else form_scan (form_skip (e # r)) key)"
proof -
  let ?p = "enc_field (k, v) @ e # r"
  obtain c k' where c: "k = c # k'" "c \<noteq> 0" using k by (cases k) (auto simp: plain_key_def)
  have m: "form_match key ?p = Inr (k = key)"
  proof -
    have "(\<exists>s. ?p = key @ 61 # s) \<longleftrightarrow> k = key"
    proof
      assume "\<exists>s. ?p = key @ 61 # s"
      then obtain s where "k @ 61 # (enc_text v @ e # r) = key @ 61 # s"
        by (auto simp: enc_field_def)
      then show "k = key" using key_eq_prefix key k unfolding plain_key_def by blast
    qed (simp add: enc_field_def)
    moreover have "has_nul ?p" using nul by auto
    ultimately show ?thesis using form_match_total [of ?p key] key by (simp add: plain_key_def)
  qed
  have p: "?p = c # (k' @ 61 # enc_text v @ e # r)" by (simp add: enc_field_def c(1))
  show ?thesis
  proof (cases "k = key")
    case True
    have "drop (length key + 1) ?p = enc_text v @ e # r" using True by (simp add: enc_field_def)
    then show ?thesis
      using True m c(2) form_decode_enc [OF e, of v r] unfolding p by simp
  next
    case False
    have "0 \<notin> set (k @ 61 # enc_text v)" "38 \<notin> set (k @ 61 # enc_text v)"
      using k enc_text_bytes by (auto simp: plain_key_def)
    then have "form_skip ?p = form_skip (e # r)"
      using form_skip_past [of "k @ 61 # enc_text v" "e # r"] by (simp add: enc_field_def)
    then show ?thesis using False m c(2) unfolding p by simp
  qed
qed

lemma form_scan_form:
  assumes key: "plain_key key" and "\<forall>f \<in> set fs. plain_key (fst f)"
  shows "form_scan (enc_form fs @ 0 # r) key = Inr (map_of fs key)"
  using assms(2)
proof (induction fs rule: enc_form.induct)
  case (2 f)
  then show ?case
    using form_scan_field [OF key, of "fst f" 0 r "snd f"] by (cases f) auto
next
  case (3 f g fs)
  have "form_scan (enc_form (f # g # fs) @ 0 # r) key =
      form_scan (enc_field (fst f, snd f) @ 38 # (enc_form (g # fs) @ 0 # r)) key" by simp
  also have "\<dots> = (if fst f = key then Inr (Some (snd f))
      else form_scan (form_skip (38 # (enc_form (g # fs) @ 0 # r))) key)"
    using 3(2) by (intro form_scan_field [OF key]) auto
  finally show ?case using 3 by (cases f) auto
qed simp

end
