(* ===== verification/CG_Services.thy ===== *)
theory CG_Services
  imports CG_Routes CG_Forms
begin

text \<open>
  What the endpoints do, on every branch: the replies, the changes of the two databases, and
  the conditions under which a handler cannot go on (a local array that is too small for the
  submitted text, a session that could not be created, a full session table).
\<close>

section \<open>Replies\<close>

lemma unat_of_char: "unat (of_char c :: byte) = of_char c"
proof -
  have "(of_char c :: byte) = word_of_nat (of_char c)" by (simp add: of_nat_of_char)
  also have "unat \<dots> = of_char c" using nat_of_char_less_256 [of c] by (simp only: unat_of_nat) simp
  finally show ?thesis .
qed

lemma of_char_inj_byte: "(of_char c :: byte) = of_char d \<longleftrightarrow> c = d"
  by (metis of_char_eqI unat_of_char)

lemma str_no_nul: "0 \<notin> set (str s) \<longleftrightarrow> CHR 0x00 \<notin> set s"
proof -
  have "(of_char (CHR 0x00) :: byte) \<in> set (str s) \<longleftrightarrow> CHR 0x00 \<in> set s"
    unfolding str_def set_map by (rule inj_image_mem_iff) (simp add: inj_def of_char_inj_byte)
  moreover have "(of_char (CHR 0x00) :: byte) = 0" by simp
  ultimately show ?thesis by simp
qed

lemma json_text_no_nul:
  "CHR 0x00 \<notin> set status \<Longrightarrow> CHR 0x00 \<notin> set body \<Longrightarrow> 0 \<notin> set (json_text status body)"
  using str_no_nul [of status] str_no_nul [of body] str_no_nul [of "''Status: ''"]
    str_no_nul [of "''Content-Type: application/json''"]
  by (simp add: json_text_def json_head_def)

definition srv_ready :: "server \<Rightarrow> bool" where
  "srv_ready srv \<longleftrightarrow> tx_ok (srv_tx srv) \<and> meta_valid (srv_tx srv) = 0"

text \<open>The server after a reply: only the transmit buffer has changed, and it holds the record.\<close>

definition replied :: "cg_client_req \<Rightarrow> byte list \<Rightarrow> server \<Rightarrow> server \<Rightarrow> bool" where
  "replied req body srv srv' \<longleftrightarrow>
     (\<exists>tx. srv' = srv\<lparr>srv_tx := tx\<rparr> \<and> tx_ok tx \<and>
        unat (meta_valid tx) = 8 + length body \<and> tx_text tx = stdout_record (req_id req) body)"

lemma reply_ok:
  assumes "srv_ready srv" and "0 \<notin> set body" and "length body \<le> 60000"
  shows "\<exists>srv'. reply req body srv = Inr srv' \<and> replied req body srv srv'"
proof -
  have tx: "tx_ok (srv_tx srv)" "unat (meta_valid (srv_tx srv)) = 0"
    using assms(1) by (simp_all add: srv_ready_def)
  have n: "unat (word_of_nat (length body) :: u32) = length body"
    using assms(3) by (simp add: unat_of_nat)
  have len: "cg_strlen (body @ [0]) = Inr (length body)" using assms(2) by simp
  obtain tx' where tx': "cg_fastcgi_stdout (srv_tx srv) (req_id req) (body @ [0])
        (word_of_nat (length body)) = Inr tx'" "tx_ok tx'"
      "unat (meta_valid tx') = unat (meta_valid (srv_tx srv)) + 8 + length body"
      "tx_text tx' = tx_text (srv_tx srv) @ stdout_record (req_id req) body"
    using fastcgi_stdout_ok [OF tx(1) _ n, of "body @ [0]" "req_id req"] tx(2) assms(3) by auto
  have "tx_text (srv_tx srv) = []" using tx(2) by (simp add: tx_text_def)
  then show ?thesis
    using len tx' tx(2) unfolding replied_def
    by (intro exI [of _ "srv\<lparr>srv_tx := tx'\<rparr>"] conjI exI [of _ tx']) (simp_all add: reply_def)
qed

lemma reply_buf_ok:
  assumes "srv_ready srv" and "length p \<le> 60000"
  shows "\<exists>srv'. reply_buf req p srv = Inr srv' \<and> replied req p srv srv'"
proof -
  have tx: "tx_ok (srv_tx srv)" "unat (meta_valid (srv_tx srv)) = 0"
    using assms(1) by (simp_all add: srv_ready_def)
  have n: "unat (word_of_nat (length p) :: u32) = length p"
    using assms(2) by (simp add: unat_of_nat)
  obtain tx' where tx': "cg_fastcgi_stdout (srv_tx srv) (req_id req) p
        (word_of_nat (length p)) = Inr tx'" "tx_ok tx'"
      "unat (meta_valid tx') = unat (meta_valid (srv_tx srv)) + 8 + length p"
      "tx_text tx' = tx_text (srv_tx srv) @ stdout_record (req_id req) p"
    using fastcgi_stdout_ok [OF tx(1) _ n, of p "req_id req"] tx(2) assms(2) by auto
  have "tx_text (srv_tx srv) = []" using tx(2) by (simp add: tx_text_def)
  then show ?thesis
    using tx' tx(2) unfolding replied_def
    by (intro exI [of _ "srv\<lparr>srv_tx := tx'\<rparr>"] conjI exI [of _ tx']) (simp_all add: reply_buf_def)
qed

lemma method_differs_eq:
  assumes "length (req_method req) = 16" and "length m \<le> 16"
  shows "method_differs req m = Inr (take (length m) (req_method req) \<noteq> str m)"
proof -
  obtain v where "memcmp_bytes (req_method req) (lit m) (length m) = Inr v"
      "v = 0 \<longleftrightarrow> take (length m) (req_method req) = take (length m) (lit m)"
    using memcmp_bytes_zero [of "length m" "req_method req" "lit m"] assms by (auto simp: lit_def)
  then show ?thesis
    using assms by (simp add: method_differs_def cg_memcmp_avx2_bytes lit_def)
qed

text \<open>Only the first bytes of the method are compared: a longer one that starts alike passes.\<close>

definition uses_method :: "cg_client_req \<Rightarrow> string \<Rightarrow> bool" where
  "uses_method req m \<longleftrightarrow> take (length m) (req_method req) = str m"

lemma method_differs_shape:
  assumes "req_shape req"
  shows "method_differs req ''POST'' = Inr (\<not> uses_method req ''POST'')"
    and "method_differs req ''GET'' = Inr (\<not> uses_method req ''GET'')"
  using assms method_differs_eq [of req "''POST''"] method_differs_eq [of req "''GET''"]
  by (simp_all add: req_shape_def uses_method_def)

section \<open>Sessions\<close>

text \<open>The user of a session number, as the handlers see it.\<close>

lemma with_session_found:
  assumes "get_session_id req = Inr sid" and "srv_sessiondb srv = Some db" and wf: "sessiondb_wf db"
    and "sess_abs db sid = Some u"
  shows "\<exists>e. with_session req srv f = f (Some e) \<and> user_id e = u \<and> session_id e = sid"
proof -
  obtain v where v: "sess_index db sid = Some v" "user_id (sdb_pool db ! unat v) = u"
    using assms(4) by (auto simp: sess_abs_def)
  then show ?thesis
    using assms(1,2) sess_get_present [OF wf v(1)] sessiondb_wfD(5) [OF wf v(1)]
    by (intro exI [of _ "sdb_pool db ! unat v"]) (simp add: with_session_def deref_def)
qed

lemma with_session_unknown:
  assumes "get_session_id req = Inr sid" and "srv_sessiondb srv = Some db" and "sessiondb_wf db"
    and "sess_abs db sid = None" and "0 < sess_room db"
  shows "with_session req srv f = f None"
  using assms sess_get_absent [of db sid]
  by (simp add: with_session_def deref_def sess_abs_None)

lemma with_session_stuck:
  assumes "get_session_id req = Inr sid" and "srv_sessiondb srv = Some db" and "sessiondb_wf db"
    and "sess_abs db sid = None" and "sess_room db = 0"
  shows "with_session req srv f = Inl Diverges"
  using assms sess_get_stuck [of db sid]
  by (simp add: with_session_def deref_def sess_abs_None)

text \<open>The session number of a request, and the user behind it.\<close>

definition request_session :: "cg_client_req \<Rightarrow> u64" where
  "request_session req = (case get_session_id req of Inl e \<Rightarrow> 0 | Inr sid \<Rightarrow> sid)"

lemma get_session_id_shape:
  assumes "req_shape req"
  shows "get_session_id req = Inr (request_session req)"
proof -
  obtain sid where "get_session_id req = Inr sid"
    using session_digits_total [of "req_session_id req" 0] assms
    by (auto simp: get_session_id_def req_shape_def)
  then show ?thesis by (simp add: request_session_def)
qed

lemma with_session_cases:
  assumes shape: "req_shape req" and db: "srv_sessiondb srv = Some db" and wf: "sessiondb_wf db"
    and "sess_abs db (request_session req) \<noteq> None \<or> 0 < sess_room db"
  shows "\<exists>e. (\<forall>f. with_session req srv f = f e) \<and>
    map_option user_id e = sess_abs db (request_session req)"
proof (cases "sess_abs db (request_session req)")
  case None
  then have "0 < sess_room db" using assms(4) by simp
  then show ?thesis
    using with_session_unknown [OF get_session_id_shape [OF shape] db wf None] None
    by (intro exI [of _ None]) simp
next
  case (Some u)
  obtain v where v: "sess_index db (request_session req) = Some v" "user_id (sdb_pool db ! unat v) = u"
    using Some by (auto simp: sess_abs_def)
  show ?thesis
    using get_session_id_shape [OF shape] db
      sess_get_present [OF wf v(1)] v(2) Some
    by (intro exI [of _ "Some (sdb_pool db ! unat v)"]) (simp add: with_session_def deref_def)
qed

lemma open_session_ok:
  assumes db: "srv_sessiondb srv = Some db" and wf: "sessiondb_wf db"
    and count: "hm_count (sdb_map db) < 4096"
    and rnd: "k_random k = (res, bytes)" "8 \<le> res" "sid = (if bytes = 0 then 1 else bytes)"
    and fresh: "sess_abs db sid = None" and room: "0 < sess_room db"
  shows "\<exists>db'. open_session k u srv = Inr (srv\<lparr>srv_sessiondb := Some db'\<rparr>, sid) \<and>
    sessiondb_wf db' \<and> sess_abs db' = (sess_abs db)(sid \<mapsto> u)"
proof -
  have "sess_index db sid = None" using fresh by (simp add: sess_abs_None)
  from sess_create_ok [OF wf count rnd(2,3) this room, of u "k_now k"]
  obtain db' where "cg_sessiondb_entry_create db u (res, bytes) (k_now k) =
      Inr (db', Some (new_session sid u (k_now k)))" "sessiondb_wf db'"
      "sess_abs db' = (sess_abs db)(sid \<mapsto> u)" by blast
  then show ?thesis
    using db rnd(1) by (intro exI [of _ db']) (simp add: open_session_def deref_def)
qed

lemma open_session_refused:
  assumes "srv_sessiondb srv = Some db" and "k_random k = (res, bytes)"
    and "4096 \<le> hm_count (sdb_map db) \<or> res < 8"
  shows "open_session k u srv = Inl Uninit_Read"
  using sess_create_refused [OF assms(3), of u bytes "k_now k"] assms(1,2)
  by (simp add: open_session_def deref_def)

text \<open>The head of a response that sets the cookie.\<close>

definition cookie_prefix :: "byte list" where
  "cookie_prefix = str ''Status: 200 OK'' @ crlf @ str ''Content-Type: application/json'' @ crlf @
     str ''Set-Cookie: SESSION=''"

lemma cookie_head_ok: "cookie_head sid = Inr (cookie_prefix @ dec (unat sid))"
proof -
  have "0 \<notin> set cookie_prefix"
    using str_no_nul [of "''Status: 200 OK''"] str_no_nul [of "''Content-Type: application/json''"]
      str_no_nul [of "''Set-Cookie: SESSION=''"] by (simp add: cookie_prefix_def)
  then have c: "cstr (cookie_prefix @ [0]) = cookie_prefix" by simp
  have l: "length cookie_prefix = 68" by (simp add: cookie_prefix_def)
  have "append_str 512 [] (cookie_prefix @ [0]) = Inr cookie_prefix"
    using append_str_ok [of "cookie_prefix @ [0]" "[]" 512] by (simp only: c l) (simp add: l)
  moreover have e: "cookie_head sid = cbind (append_str 512 [] (cookie_prefix @ [0])) (\<lambda>p. append_uint 512 p sid)"
    by (simp add: cookie_head_def cookie_prefix_def)
  ultimately show ?thesis
    using length_dec_u64 [of sid] by (simp add: append_uint_ok l)
qed

text \<open>The number that a cookie header carries.\<close>

lemma find_first_at:
  assumes "P k" and "\<forall>i < k. \<not> P i" and "k < n"
  shows "find P [0..<n] = Some k"
  using assms by (auto simp: find_Some_iff intro!: exI [of _ k])

lemma dec_bytes_plain: "c \<in> set (dec n) \<Longrightarrow> c \<noteq> 0 \<and> c \<noteq> 59"
  using dec_digits [of c n] by auto

lemma cookie_value_session:
  assumes "\<forall>i < length before. take 8 (drop i (before @ str ''SESSION='' @ dec (unat sid) @ after)) \<noteq> str ''SESSION=''"
    and "after = [] \<or> hd after = 59"
  shows "cookie_value (before @ str ''SESSION='' @ dec (unat (sid :: u64)) @ after) = Some (dec (unat sid))"
proof -
  let ?v = "before @ str ''SESSION='' @ dec (unat sid) @ after"
  have f: "find (\<lambda>i. take 8 (drop i ?v) = str ''SESSION='') [0..<length ?v] = Some (length before)"
    using assms(1) by (intro find_first_at) simp_all
  have t: "takeWhile (\<lambda>c. c \<noteq> 59) (dec (unat sid) @ after) = dec (unat sid)"
    using assms(2) dec_bytes_plain by (cases after) (auto simp: takeWhile_append)
  have "cstr (dec (unat sid)) = dec (unat sid)"
    using dec_bytes_plain by (auto simp: cstr_def intro!: takeWhile_eq_all_conv [THEN iffD2])
  moreover have "take 31 (dec (unat sid)) = dec (unat sid)"
    using length_dec_u64 [of sid] by simp
  ultimately show ?thesis unfolding cookie_value_def f by (simp add: t)
qed

end
