(* ===== verification/CG_Examples.thy ===== *)
theory CG_Examples
  imports CG_Services
begin

text \<open>
  Concrete objects at which the properties are applied: the two databases as a new file leaves
  them, a zeroed client and its empty buffers.
\<close>

section \<open>New databases\<close>

definition new_sessiondb :: cg_sessiondb where
  "new_sessiondb = sessiondb_open
     \<lparr>simg_hdr = \<lparr>shdr_magic = SESSIONDB_MAGIC_BYTES, shdr_version = 1,
                  shdr_entry_count = 0, shdr_entry_size = 24\<rparr>,
      simg_map_entries = replicate SESSIONDB_POOL_SIZE zero_hashmap_entry,
      simg_pool = replicate SESSIONDB_POOL_SIZE zero_session\<rparr>"

lemma new_sessiondb_init: "cg_sessiondb_init 3 0 0x7f0000000000 img = Inr (Some new_sessiondb)"
  by (simp add: cg_sessiondb_init_def new_sessiondb_def mmap_error_def)

lemma new_sessiondb_ok:
  "sessiondb_wf new_sessiondb" "sess_abs new_sessiondb = Map.empty" "sess_room new_sessiondb = 4096"
  using sess_init_new [of 3 "0x7f0000000000"] new_sessiondb_init by (auto simp: mmap_error_def)

lemma new_sessiondb_count: "hm_count (sdb_map new_sessiondb) = 0"
  by (simp add: new_sessiondb_def sessiondb_open_def)

definition new_userdb :: cg_userdb where
  "new_userdb = \<lparr>udb_hdr = \<lparr>uhdr_magic = USERDB_MAGIC_BYTES, uhdr_version = 1, uhdr_count = 0\<rparr>,
     udb_pool = replicate USERDB_POOL_SIZE zero_user\<rparr>"

lemma new_userdb_init: "cg_userdb_init 3 0 0x7f0000000000 img = Inr (Some new_userdb)"
  by (simp add: cg_userdb_init_def new_userdb_def mmap_error_def)

lemma new_userdb_ok:
  "userdb_wf new_userdb" "active_users new_userdb = 0" "user_slot new_userdb = Map.empty"
  using userdb_init_new [of 3 "0x7f0000000000"] new_userdb_init by (auto simp: mmap_error_def)

section \<open>A client\<close>

definition new_request :: cg_client_req where
  "new_request = \<lparr>uri = replicate 128 0, req_method = replicate 16 0, req_session_id = replicate 32 0,
     req_id = 0, keep_alive = 0, stdin_len = 0, stdin_buf = replicate 4096 0\<rparr>"

lemma new_request_shape: "req_shape new_request"
  by (simp add: req_shape_def new_request_def)

definition new_buffer :: cg_buffer_metadata where
  "new_buffer = \<lparr>meta_buf = replicate 65790 0, meta_len = 65790, meta_valid = 0, meta_pos = 0\<rparr>"

lemma new_buffer_ok: "tx_ok new_buffer" "rx_ok new_buffer" "tx_text new_buffer = []"
  by (simp_all add: tx_ok_def rx_ok_def rx_slack_def tx_text_def new_buffer_def)

definition new_server :: server where
  "new_server = \<lparr>srv_sessiondb = Some new_sessiondb, srv_userdb = Some new_userdb, srv_tx = new_buffer\<rparr>"

lemma new_server_ready: "srv_ready new_server"
  by (simp add: srv_ready_def new_server_def new_buffer_ok) (simp add: new_buffer_def)

definition new_client :: cg_client_ctx where
  "new_client = \<lparr>cli_state = CG_CLIENT_STATE_FREE,
     fcgi_cli_ctx = \<lparr>fcli_state = CG_FASTCGI_CLIENT_STATE_FREE,
       saved_hdr = \<lparr>hdr_version = 0, hdr_type = 0, hdr_request_id = 0, hdr_content_len = 0,
         hdr_padding_len = 0, hdr_reserved = 0\<rparr>,
       fcli_sockfd = - 1, rx_buf_meta = new_buffer, tx_buf_meta = new_buffer\<rparr>,
     cli_req = new_request\<rparr>"

section \<open>An account and a session\<close>

lemma new_pool_idle: "i < 1024 \<Longrightarrow> \<not> user_active (udb_pool new_userdb ! i)" "length (udb_pool new_userdb) = 1024"
  by (simp_all add: new_userdb_def USERDB_POOL_SIZE_def zero_user_def)

lemma cstr_literal: "CHR 0x00 \<notin> set s \<Longrightarrow> cstr (lit s) = str s"
  by (simp add: lit_def str_no_nul)

definition alice_userdb :: cg_userdb where
  "alice_userdb = (case cg_userdb_create new_userdb (lit ''alice'') (lit ''secret'') of
     Inr (db, st, u) \<Rightarrow> db | Inl e \<Rightarrow> new_userdb)"

definition alice :: cg_userdb_entry where
  "alice = udb_pool alice_userdb ! 0"

lemma alice_created: "cg_userdb_create new_userdb (lit ''alice'') (lit ''secret'') = Inr (alice_userdb, 0, Some alice)"
  and alice_userdb_ok: "userdb_wf alice_userdb" "user_slot alice_userdb = [str ''alice'' \<mapsto> 0]"
    "cg_userdb_find_by_id alice_userdb 1 = Some 0" "udb_pool alice_userdb ! 0 = alice"
    "active_users alice_userdb = 1" "0 < i \<Longrightarrow> i < 1024 \<Longrightarrow> \<not> user_active (udb_pool alice_userdb ! i)"
  and alice_ok: "uid alice = 1" "cstr (username alice) = str ''alice''" "user_active alice"
    "pass_hash alice = ucast (crc32c (str ''secret''))" "total_points alice = 0" "completed_count alice = 0"
proof -
  have c: "cstr (lit ''alice'') = str ''alice''" "cstr (lit ''secret'') = str ''secret''"
    by (simp_all add: cstr_literal)
  obtain db i u where r: "cg_userdb_create new_userdb (lit ''alice'') (lit ''secret'') = Inr (db, 0, Some u)"
      "userdb_wf db" "udb_pool db = (udb_pool new_userdb)[i := u]" "uid u = word_of_nat i + 1"
      "user_active u" "\<forall>j < i. user_active (udb_pool new_userdb ! j)" "i < USERDB_POOL_SIZE"
      "cstr (username u) = stored_name (lit ''alice'')" "pass_hash u = ucast (crc32c (str ''secret''))"
      "total_points u = 0" "completed_count u = 0" "user_is_active (udb_pool new_userdb ! i) = 0"
      "active_users db = active_users new_userdb + 1"
    using userdb_create_new [OF new_userdb_ok(1), of "lit ''alice''" "lit ''secret''"] new_userdb_ok c
    by (auto simp: USERDB_POOL_SIZE_def)
  have i: "i = 0" using r(6) new_pool_idle(1) [of 0] by (cases i) auto
  have nm: "cstr (username u) = str ''alice''" using r(8) stored_name_short [of "lit ''alice''"] c by simp
  have e: "alice_userdb = db" "alice = u"
    using r i new_pool_idle(2) by (simp_all add: alice_userdb_def alice_def)
  show "cg_userdb_create new_userdb (lit ''alice'') (lit ''secret'') = Inr (alice_userdb, 0, Some alice)"
      "userdb_wf alice_userdb" "udb_pool alice_userdb ! 0 = alice" "active_users alice_userdb = 1"
      "uid alice = 1" "cstr (username alice) = str ''alice''" "user_active alice"
      "pass_hash alice = ucast (crc32c (str ''secret''))" "total_points alice = 0" "completed_count alice = 0"
    using e r i nm new_pool_idle(2) new_userdb_ok by simp_all
  show "cg_userdb_find_by_id alice_userdb 1 = Some 0"
    using e r i new_pool_idle(2) by (subst find_by_id_Some) (simp_all add: USERDB_POOL_SIZE_def)
  show "\<not> user_active (udb_pool alice_userdb ! i)" if "0 < i" "i < 1024" for i
    using that e r i new_pool_idle(1) by simp
  have "user_slot db = (user_slot new_userdb)(cstr (username u) \<mapsto> i)"
    using r new_userdb_ok(3) by (intro user_slot_created [OF new_userdb_ok(1)]) simp_all
  then show "user_slot alice_userdb = [str ''alice'' \<mapsto> 0]" using e i nm new_userdb_ok(3) by simp
qed

definition session_of :: "u32 \<Rightarrow> cg_sessiondb" where
  "session_of u = (case cg_sessiondb_entry_create new_sessiondb u (8, 77) 1000 of
     Inr (db, e) \<Rightarrow> db | Inl e \<Rightarrow> new_sessiondb)"

lemma session_of_ok:
  "sessiondb_wf (session_of u)" "sess_abs (session_of u) = [77 \<mapsto> u]" "4095 \<le> sess_room (session_of u)"
  "hm_count (sdb_map (session_of u)) = 1"
proof -
  have n: "sess_index new_sessiondb 77 = None" using new_sessiondb_ok(2) sess_abs_None by metis
  obtain db where "cg_sessiondb_entry_create new_sessiondb u (8, 77) 1000 = Inr (db, Some (new_session 77 u 1000))"
      "sessiondb_wf db" "sess_abs db = [77 \<mapsto> u]" "4096 \<le> Suc (sess_room db)" "hm_count (sdb_map db) = 1"
    using sess_create_ok [OF new_sessiondb_ok(1), of 8 77 77 u 1000] n new_sessiondb_ok new_sessiondb_count by auto
  then show "sessiondb_wf (session_of u)" "sess_abs (session_of u) = [77 \<mapsto> u]"
      "4095 \<le> sess_room (session_of u)" "hm_count (sdb_map (session_of u)) = 1"
    by (simp_all add: session_of_def)
qed

section \<open>A request\<close>

definition sample_request :: "string \<Rightarrow> string \<Rightarrow> byte list \<Rightarrow> byte list \<Rightarrow> cg_client_req" where
  "sample_request path meth cookie body = new_request\<lparr>
     uri := str path @ replicate (128 - length path) 0,
     req_method := str meth @ replicate (16 - length meth) 0,
     req_session_id := cookie @ replicate (32 - length cookie) 0,
     stdin_len := word_of_nat (length body), stdin_buf := body @ replicate (4096 - length body) 0\<rparr>"

abbreviation short_request :: "string \<Rightarrow> string \<Rightarrow> byte list \<Rightarrow> byte list \<Rightarrow> bool" where
  "short_request path meth cookie body \<equiv>
     length path < 127 \<and> length meth < 16 \<and> length cookie < 32 \<and> length body < 4096"

lemma sample_request_shape:
  assumes "short_request path meth cookie body"
  shows "req_shape (sample_request path meth cookie body)"
proof -
  have "unat (word_of_nat (length body) :: u32) = length body"
    using assms by (simp add: unat_of_nat)
  then show ?thesis using assms by (simp add: req_shape_def sample_request_def new_request_def nth_append)
qed

lemma sample_request_method: "uses_method (sample_request path meth cookie body) meth"
  by (simp add: uses_method_def sample_request_def)

lemma sample_request_session:
  assumes "cookie = dec (unat sid)"
  shows "request_session (sample_request path meth cookie body) = sid"
    and "req_session_id (sample_request path meth cookie body) ! 0 \<noteq> 0"
proof -
  have l: "length cookie \<le> 20" using length_dec_u64 [of sid] assms by simp
  then obtain k where k: "32 - length cookie = Suc k" by (cases "32 - length cookie") auto
  let ?r = "sample_request path meth cookie body"
  have "cstr (req_session_id ?r) = dec (unat sid)" "has_nul (req_session_id ?r)"
    using k assms dec_no_nul by (simp_all add: sample_request_def)
  from get_session_id_dec [OF this(2,1)] show "request_session ?r = sid"
    by (simp add: request_session_def)
  show "req_session_id ?r ! 0 \<noteq> 0"
    using assms dec_no_nul [of "unat sid"] length_dec_pos [of "unat sid"]
    by (simp add: sample_request_def nth_append) (metis length_greater_0_conv nth_mem length_dec_pos)
qed

lemma sample_request_field:
  assumes "body = enc_form fs" and "length body < 4096" and "plain_key (str key)"
    and "\<forall>f \<in> set fs. plain_key (fst f)"
  shows "form_field (stdin_buf (sample_request path meth cookie body)) key = map_of fs (str key)"
proof -
  obtain k where "4096 - length body = Suc k" using assms(2) by (cases "4096 - length body") auto
  then show ?thesis
    using form_scan_form [OF assms(3,4), of "replicate k 0"] assms(1)
    by (simp add: form_field_def sample_request_def)
qed

definition sample_server :: "cg_sessiondb \<Rightarrow> cg_userdb \<Rightarrow> server" where
  "sample_server db udb = \<lparr>srv_sessiondb = Some db, srv_userdb = Some udb, srv_tx = new_buffer\<rparr>"

lemma sample_server_ok:
  "srv_ready (sample_server db udb)" "srv_sessiondb (sample_server db udb) = Some db"
  "srv_userdb (sample_server db udb) = Some udb"
  using new_server_ready by (simp_all add: srv_ready_def sample_server_def new_server_def)

end
