(* ===== verification/CG_Auth.thy ===== *)
theory CG_Auth
  imports CG_Services
begin

text \<open>
  The three endpoints that open a session: \<open>/api/auth/guest\<close>, \<open>/api/auth/register\<close> and
  \<open>/api/auth/login\<close>. Each lemma gives the reply and the two databases afterwards.
\<close>

section \<open>Text after text\<close>

lemma append_text_ok:
  "0 \<notin> set t \<Longrightarrow> length p + length t \<le> cap \<Longrightarrow> append_str cap p (t @ [0]) = Inr (p @ t)"
  using append_str_ok [of "t @ [0]" p cap] by simp

lemma append_lit_ok:
  "CHR 0x00 \<notin> set s \<Longrightarrow> length p + length s \<le> cap \<Longrightarrow> append_str cap p (lit s) = Inr (p @ str s)"
  using append_text_ok [of "str s" p cap] str_no_nul [of s] by (simp add: lit_def)

text \<open>What follows the session number in a response.\<close>

definition session_tail :: "string \<Rightarrow> byte list" where
  "session_tail body = str ''; Path=/; SameSite=Lax'' @ crlf @ crlf @ str body"

lemma session_tail_ok:
  assumes "CHR 0x00 \<notin> set body" and "length p + 27 + length body \<le> cap"
  shows "append_str cap p (str ''; Path=/; SameSite=Lax'' @ crlf @ crlf @ str body @ [0]) =
    Inr (p @ session_tail body)"
proof -
  have "0 \<notin> set (session_tail body)"
    using str_no_nul [of "''; Path=/; SameSite=Lax''"] str_no_nul [of body] assms(1)
    by (simp add: session_tail_def)
  moreover have "length p + length (session_tail body) \<le> cap"
    using assms(2) by (simp add: session_tail_def)
  ultimately show ?thesis
    using append_text_ok [of "session_tail body" p cap] by (simp add: session_tail_def)
qed

definition session_head :: "u64 \<Rightarrow> byte list" where
  "session_head sid = cookie_prefix @ dec (unat sid)"

lemma length_session_head: "length (session_head sid) \<le> 88"
  using length_dec_u64 [of sid] by (simp add: session_head_def cookie_prefix_def)

section \<open>A request that uses another method\<close>

lemma length_json_text: "length (json_text status body) = length status + length body + 44"
  by (simp add: json_text_def json_head_def)

lemma json_reply_ok:
  assumes "srv_ready srv" and "CHR 0x00 \<notin> set status" and "CHR 0x00 \<notin> set body"
    and "length status \<le> 1000" and "length body \<le> 1000"
  shows "\<exists>srv'. reply req (json_text status body) srv = Inr srv' \<and>
    replied req (json_text status body) srv srv'"
proof -
  have "length (json_text status body) \<le> 60000"
    using assms(4,5) by (simp add: length_json_text)
  then show ?thesis by (rule reply_ok [OF assms(1) json_text_no_nul [OF assms(2,3)]])
qed

section \<open>Guests\<close>

definition guest_text :: "u64 \<Rightarrow> byte list" where
  "guest_text sid =
     session_head sid @ session_tail ''{\"status\":\"success\",\"message\":\"Guest authenticated\"}''"

lemma guest_ok:
  assumes ready: "srv_ready srv" and shape: "req_shape req"
    and post: "uses_method req ''POST''"
    and sess: "open_session k 0 srv = Inr (srv\<lparr>srv_sessiondb := Some db'\<rparr>, sid)"
  shows "\<exists>srv'. cg_route_api_auth_guest k req srv = Inr srv' \<and>
    replied req (guest_text sid) (srv\<lparr>srv_sessiondb := Some db'\<rparr>) srv'"
proof -
  have ready': "srv_ready (srv\<lparr>srv_sessiondb := Some db'\<rparr>)"
    using ready by (simp add: srv_ready_def)
  have "length (guest_text sid) \<le> 60000"
    using length_session_head [of sid] by (simp add: guest_text_def session_tail_def)
  then show ?thesis
    using method_differs_shape [OF shape] post sess reply_buf_ok [OF ready', of "guest_text sid" req]
      session_tail_ok [of "''{\"status\":\"success\",\"message\":\"Guest authenticated\"}''" "session_head sid" 512]
      length_session_head [of sid]
    by (simp add: cg_route_api_auth_guest_def cookie_head_ok session_head_def guest_text_def)
qed

section \<open>Credentials in a form\<close>

lemma form_credentials_ok:
  assumes "has_nul (stdin_buf req)"
    and "form_field (stdin_buf req) ''username'' = Some n" and "length n < 64"
    and "form_field (stdin_buf req) ''password'' = Some w" and "length w < 64"
  shows "form_credentials req = Inr (Some (n @ [0], w @ [0]))"
  using assms form_value_cases [OF assms(1), of "''username''" 64]
    form_value_cases [OF assms(1), of "''password''" 64]
  by (simp add: form_credentials_def str_no_nul)

lemma form_credentials_missing:
  assumes "has_nul (stdin_buf req)"
    and "form_field (stdin_buf req) ''username'' = None \<or>
      (\<exists>n. form_field (stdin_buf req) ''username'' = Some n \<and> length n < 64) \<and>
      form_field (stdin_buf req) ''password'' = None"
  shows "form_credentials req = Inr None"
  using assms form_value_cases [OF assms(1), of "''username''" 64]
    form_value_cases [OF assms(1), of "''password''" 64]
  by (auto simp: form_credentials_def str_no_nul)

text \<open>The local arrays have 64 bytes, and nothing bounds what is decoded into them.\<close>

lemma form_credentials_overflow:
  assumes "has_nul (stdin_buf req)"
    and "form_field (stdin_buf req) ''username'' = Some n" and "64 \<le> length n"
  shows "form_credentials req = Inl Out_Of_Bounds"
  using assms form_value_cases [OF assms(1), of "''username''" 64]
  by (simp add: form_credentials_def str_no_nul)

lemma stdin_has_nul: "req_shape req \<Longrightarrow> has_nul (stdin_buf req)"
  unfolding req_shape_def by (metis nth_mem)

section \<open>Sessions of named users\<close>

definition user_text :: "u64 \<Rightarrow> byte list \<Rightarrow> byte list" where
  "user_text sid nm =
     session_head sid @ session_tail ''{\"status\":\"success\",\"username\":\"'' @ json_text_of nm"

lemma length_user_text:
  assumes "length nm \<le> 31"
  shows "length (user_text sid nm) \<le> 210"
  using assms length_session_head [of sid] length_json_text_of [of nm]
  by (simp add: user_text_def session_tail_def)

text \<open>The part of the response that both endpoints share, up to the name of the user.\<close>

lemma user_text_ok:
  assumes "user_shape u" and "cstr (username u) = nm" and "length nm \<le> 31"
  shows "cbind (cookie_head sid) (\<lambda>p.
      cbind (append_str 512 p (str ''; Path=/; SameSite=Lax'' @ crlf @ crlf @
        str ''{\"status\":\"success\",\"username\":\"'' @ [0])) (\<lambda>p.
      cbind (append_json_escaped 512 p (username u)) f)) = f (user_text sid nm)"
proof -
  let ?b = "''{\"status\":\"success\",\"username\":\"''"
  have l: "length (session_head sid @ session_tail ?b) + length (json_text_of nm) \<le> 512"
    using length_user_text [OF assms(3), of sid] by (simp add: user_text_def)
  have "append_str 512 (session_head sid) (str ''; Path=/; SameSite=Lax'' @ crlf @ crlf @ str ?b @ [0]) =
      Inr (session_head sid @ session_tail ?b)"
    using length_session_head [of sid] by (intro session_tail_ok) simp_all
  moreover have "append_json_escaped 512 (session_head sid @ session_tail ?b) (username u) =
      Inr (user_text sid nm)"
    using append_json_escaped_ok [of "username u" "session_head sid @ session_tail ?b" 512] l assms(1,2)
    by (simp add: user_text_def user_shape_def)
  ultimately show ?thesis
    unfolding cookie_head_ok session_head_def [symmetric] cbind_simps by (simp only: cbind_simps)
qed

section \<open>Registration\<close>

definition register_text :: "u64 \<Rightarrow> byte list \<Rightarrow> byte list" where
  "register_text sid nm = user_text sid nm @ str ''\",\"total_points\":0}''"

lemma register_new:
  assumes ready: "srv_ready srv" and shape: "req_shape req" and post: "uses_method req ''POST''"
    and cred: "form_credentials req = Inr (Some (name, password))"
    and udb: "srv_userdb srv = Some udb"
    and create: "cg_userdb_create udb name password = Inr (udb', 0, Some u)"
    and u: "user_shape u" "cstr (username u) = nm" "length nm \<le> 31"
    and sess: "open_session k (uid u) (srv\<lparr>srv_userdb := Some udb'\<rparr>) =
      Inr (srv\<lparr>srv_userdb := Some udb', srv_sessiondb := Some db'\<rparr>, sid)"
  shows "\<exists>srv'. cg_route_api_auth_register k req srv = Inr srv' \<and>
    replied req (register_text sid nm) (srv\<lparr>srv_userdb := Some udb', srv_sessiondb := Some db'\<rparr>) srv'"
proof -
  let ?srv = "srv\<lparr>srv_userdb := Some udb', srv_sessiondb := Some db'\<rparr>"
  have ready': "srv_ready ?srv" using ready by (simp add: srv_ready_def)
  have l: "length (user_text sid nm) \<le> 210" using length_user_text [OF u(3)] .
  have a: "append_str 512 (user_text sid nm) (lit ''\",\"total_points\":0}'') = Inr (register_text sid nm)"
    using l append_lit_ok [of "''\",\"total_points\":0}''" "user_text sid nm" 512]
    by (simp add: register_text_def)
  have "length (register_text sid nm) \<le> 60000" using l by (simp add: register_text_def)
  then obtain srv' where r: "reply_buf req (register_text sid nm) ?srv = Inr srv'"
      "replied req (register_text sid nm) ?srv srv'"
    using reply_buf_ok [OF ready', of "register_text sid nm" req] by auto
  have "cg_route_api_auth_register k req srv = reply_buf req (register_text sid nm) ?srv"
    using method_differs_shape [OF shape] post cred udb create sess
    by (simp add: cg_route_api_auth_register_def deref_def user_text_ok [OF u, simplified] a)
  then show ?thesis using r by auto
qed

lemma register_conflict:
  assumes ready: "srv_ready srv" and shape: "req_shape req" and post: "uses_method req ''POST''"
    and cred: "form_credentials req = Inr (Some (name, password))"
    and udb: "srv_userdb srv = Some udb"
    and create: "cg_userdb_create udb name password = Inr (udb, status, None)"
  shows "\<exists>srv'. cg_route_api_auth_register k req srv = Inr srv' \<and>
    replied req (json_text ''409 Conflict'' ''{\"error\":\"User exists or DB full\"}'') srv srv'"
proof -
  have s: "srv\<lparr>srv_userdb := Some udb\<rparr> = srv" using udb by (cases srv) simp
  show ?thesis
    using method_differs_shape [OF shape] post cred udb create
      json_reply_ok [OF ready, of "''409 Conflict''" "''{\"error\":\"User exists or DB full\"}''" req]
    by (simp add: cg_route_api_auth_register_def deref_def s)
qed

section \<open>Login\<close>

definition login_text :: "u64 \<Rightarrow> byte list \<Rightarrow> u32 \<Rightarrow> byte list" where
  "login_text sid nm points =
     user_text sid nm @ str ''\",\"total_points\":'' @ dec (unat points) @ str ''}''"

lemma login_ok:
  assumes ready: "srv_ready srv" and shape: "req_shape req" and post: "uses_method req ''POST''"
    and cred: "form_credentials req = Inr (Some (name @ [0], password @ [0]))"
    and udb: "srv_userdb srv = Some udb" and wf: "userdb_wf udb"
    and slot: "user_slot udb (cstr (name @ [0])) = Some i"
    and hash: "pass_hash (udb_pool udb ! i) = ucast (crc32c (cstr (password @ [0])))"
    and sess: "open_session k (uid (udb_pool udb ! i)) srv = Inr (srv\<lparr>srv_sessiondb := Some db'\<rparr>, sid)"
  shows "\<exists>srv'. cg_route_api_auth_login k req srv = Inr srv' \<and>
    replied req (login_text sid (cstr (username (udb_pool udb ! i))) (total_points (udb_pool udb ! i)))
      (srv\<lparr>srv_sessiondb := Some db'\<rparr>) srv'"
proof -
  let ?u = "udb_pool udb ! i"
  let ?srv = "srv\<lparr>srv_sessiondb := Some db'\<rparr>"
  let ?nm = "cstr (username ?u)"
  let ?t = "login_text sid ?nm (total_points ?u)"
  have i: "i < length (udb_pool udb)" using slot by (simp add: user_slot_def first_index_less)
  then have u: "user_shape ?u" using userdb_wfD(2) [OF wf] by simp
  then have nm: "length ?nm \<le> 31"
    using length_cstr_less [of "username ?u"] by (simp add: user_shape_def)
  have ready': "srv_ready ?srv" using ready by (simp add: srv_ready_def)
  have l: "length (user_text sid ?nm) \<le> 210" using length_user_text [OF nm] .
  have d: "length (dec (unat (total_points ?u))) \<le> 10" by (rule length_dec_u32)
  have find: "cg_userdb_find udb (name @ [0]) = Inr (Some i)"
    using userdb_find_eq [OF wf, of "name @ [0]"] slot by simp
  have h: "cg_hash_str (password @ [0]) (length (cstr (password @ [0]))) = Inr (pass_hash ?u)"
    using cg_hash_str_crc [of "length (cstr (password @ [0]))" "password @ [0]"] hash
      length_cstr_less [of "password @ [0]"] take_cstr [of "password @ [0]"] by simp
  have a: "append_str 512 (user_text sid ?nm) (lit ''\",\"total_points\":'') =
      Inr (user_text sid ?nm @ str ''\",\"total_points\":'')"
    using l by (intro append_lit_ok) simp_all
  have b: "append_uint 512 (user_text sid ?nm @ str ''\",\"total_points\":'') (ucast (total_points ?u)) =
      Inr (user_text sid ?nm @ str ''\",\"total_points\":'' @ dec (unat (total_points ?u)))"
    using l d append_uint_ok [of "user_text sid ?nm @ str ''\",\"total_points\":''"
        "ucast (total_points ?u)" 512]
    by (simp add: unat_ucast_up)
  have c: "append_str 512 (user_text sid ?nm @ str ''\",\"total_points\":'' @ dec (unat (total_points ?u)))
      (lit ''}'') = Inr ?t"
    using l d append_lit_ok [of "''}''" "user_text sid ?nm @ str ''\",\"total_points\":'' @ dec (unat (total_points ?u))" 512]
    by (simp add: login_text_def)
  have "length ?t \<le> 60000" using l d by (simp add: login_text_def)
  then obtain srv' where r: "reply_buf req ?t ?srv = Inr srv'" "replied req ?t ?srv srv'"
    using reply_buf_ok [OF ready', of ?t req] by auto
  have "cg_route_api_auth_login k req srv = reply_buf req ?t ?srv"
    using method_differs_shape [OF shape] post cred udb find h sess
    by (simp add: cg_route_api_auth_login_def deref_def user_text_ok [OF u refl nm, simplified] Let_def a b c)
  then show ?thesis using r by auto
qed

lemma login_refused:
  assumes ready: "srv_ready srv" and shape: "req_shape req" and post: "uses_method req ''POST''"
    and cred: "form_credentials req = Inr (Some (name @ [0], password @ [0]))"
    and udb: "srv_userdb srv = Some udb" and wf: "userdb_wf udb"
    and bad: "\<And>i. user_slot udb (cstr (name @ [0])) = Some i \<Longrightarrow>
      pass_hash (udb_pool udb ! i) \<noteq> ucast (crc32c (cstr (password @ [0])))"
  shows "\<exists>srv'. cg_route_api_auth_login k req srv = Inr srv' \<and>
    replied req (json_text ''401 Unauthorized'' ''{\"error\":\"Invalid credentials\"}'') srv srv'"
proof -
  have find: "cg_userdb_find udb (name @ [0]) = Inr (user_slot udb (cstr (name @ [0])))"
    using userdb_find_eq [OF wf, of "name @ [0]"] by simp
  have h: "cg_hash_str (password @ [0]) (length (cstr (password @ [0]))) =
      Inr (ucast (crc32c (cstr (password @ [0]))))"
    using cg_hash_str_crc [of "length (cstr (password @ [0]))" "password @ [0]"]
      length_cstr_less [of "password @ [0]"] take_cstr [of "password @ [0]"] by simp
  show ?thesis
    using method_differs_shape [OF shape] post cred udb find h bad
      json_reply_ok [OF ready, of "''401 Unauthorized''" "''{\"error\":\"Invalid credentials\"}''" req]
    by (cases "user_slot udb (cstr (name @ [0]))")
      (auto simp: cg_route_api_auth_login_def deref_def)
qed

end
