(* ===== verification/CG_Profiles.thy ===== *)
theory CG_Profiles
  imports CG_Auth
begin

text \<open>
  The endpoints that read and change a profile: \<open>/api/user/profile\<close>, \<open>/api/user/public\<close>,
  \<open>/api/user/stats\<close>, \<open>/api/user/profile/update\<close> and \<open>/api/user/delete\<close>. The texts they answer with
  are given as functions of the user record, and shown to fit into the response arrays.
\<close>

section \<open>The list of completed challenges\<close>

definition hash_items :: "u64 list \<Rightarrow> byte list" where
  "hash_items hs = concat (map (\<lambda>h. str '','' @ str ''\"'' @ dec (unat h) @ str ''\"'') hs)"

definition completed :: "cg_userdb_entry \<Rightarrow> u64 list" where
  "completed u = take (unat (completed_count u)) (completed_hashes u)"

lemma length_hash_items: "length (hash_items hs) \<le> 23 * length hs"
proof (induction hs)
  case (Cons h hs)
  then show ?case using length_dec_u64 [of h] by (simp add: hash_items_def)
qed (simp add: hash_items_def)

text \<open>One item, and the comma before every item but the first.\<close>

definition item_text :: "nat \<Rightarrow> u64 list \<Rightarrow> byte list" where
  "item_text i hs = (if i = 0 then drop 1 (hash_items hs) else hash_items hs)"

lemma item_text_Cons:
  "item_text i (h # hs) = (if i = 0 then [] else str '','') @ str ''\"'' @ dec (unat h) @ str ''\"'' @
     item_text (Suc i) hs"
  by (simp add: item_text_def hash_items_def str_def)

lemma append_hashes_ok:
  assumes "unat (completed_count u) \<le> length (completed_hashes u)"
    and "length p + length (item_text i (drop i (completed u))) \<le> cap"
    and "i \<le> unat (completed_count u)"
  shows "append_hashes cap p u i = Inr (p @ item_text i (drop i (completed u)))"
  using assms(2,3)
proof (induction "unat (completed_count u) - i" arbitrary: p i)
  case 0
  then show ?case
    by (subst append_hashes.simps) (simp add: completed_def item_text_def hash_items_def)
next
  case (Suc n)
  let ?h = "completed_hashes u ! i"
  have i: "i < unat (completed_count u)" using Suc.hyps(2) by simp
  then have il: "i < length (completed u)" using assms(1) by (simp add: completed_def)
  then have d: "drop i (completed u) = ?h # drop (Suc i) (completed u)"
    using i by (simp add: Cons_nth_drop_Suc [symmetric] completed_def)
  define q where "q = p @ (if i = 0 then [] else str '','')"
  have fit: "length q + 1 + length (dec (unat ?h)) + 1 +
      length (item_text (Suc i) (drop (Suc i) (completed u))) \<le> cap"
    using Suc.prems(1) unfolding d item_text_Cons q_def by (simp split: if_splits)
  have c: "(if 0 < i then append_str cap p (lit '','') else Inr p) = Inr q"
    using fit append_lit_ok [of "'',''" p cap] by (auto simp: q_def)
  have a1: "append_str cap q (lit ''\"'') = Inr (q @ str ''\"'')"
    using fit append_lit_ok [of "''\"''" q cap] by simp
  have a2: "append_uint cap (q @ str ''\"'') ?h = Inr (q @ str ''\"'' @ dec (unat ?h))"
    using fit append_uint_ok [of "q @ str ''\"''" ?h cap] by simp
  have a3: "append_str cap (q @ str ''\"'' @ dec (unat ?h)) (lit ''\"'') =
      Inr (q @ str ''\"'' @ dec (unat ?h) @ str ''\"'')"
    using fit append_lit_ok [of "''\"''" "q @ str ''\"'' @ dec (unat ?h)" cap] by simp
  have IH: "append_hashes cap (q @ str ''\"'' @ dec (unat ?h) @ str ''\"'') u (Suc i) =
      Inr ((q @ str ''\"'' @ dec (unat ?h) @ str ''\"'') @ item_text (Suc i) (drop (Suc i) (completed u)))"
    using Suc.hyps fit i by (intro Suc.hyps(1)) simp_all
  have "buf_read (completed_hashes u) i = Inr ?h" using i assms(1) by (simp add: buf_read_ok)
  then have "append_hashes cap p u i =
      append_hashes cap (q @ str ''\"'' @ dec (unat ?h) @ str ''\"'') u (Suc i)"
    using i by (subst append_hashes.simps) (simp add: c a1 a2 a3)
  then show ?case unfolding IH d item_text_Cons by (simp add: q_def)
qed

section \<open>Profiles\<close>

definition http_ok_text :: "byte list" where
  "http_ok_text = json_head ''200 OK''"

lemma length_http_ok_text: "length http_ok_text = 50"
  by (simp add: http_ok_text_def json_head_def)

lemma http_ok_written:
  assumes "50 \<le> cap"
  shows "append_str cap [] http_ok = Inr http_ok_text"
proof -
  have "0 \<notin> set http_ok_text"
    using json_text_no_nul [of "''200 OK''" "[]"] by (simp add: http_ok_text_def json_text_def)
  then show ?thesis
    using append_text_ok [of http_ok_text "[]" cap] assms length_http_ok_text
    by (simp add: http_ok_text_def)
qed

text \<open>The fields of a record as they are written, and how long they can be.\<close>

definition name_text :: "cg_userdb_entry \<Rightarrow> byte list" where
  "name_text u = json_text_of (cstr (username u))"

definition about_text :: "cg_userdb_entry \<Rightarrow> byte list" where
  "about_text u = json_text_of (cstr (description u))"

definition points_text :: "cg_userdb_entry \<Rightarrow> byte list" where
  "points_text u = dec (unat (total_points u))"

definition count_text :: "cg_userdb_entry \<Rightarrow> byte list" where
  "count_text u = dec (unat (completed_count u))"

lemma field_lengths:
  assumes "user_shape u"
  shows "length (name_text u) \<le> 62" "length (about_text u) \<le> 4094"
    "length (points_text u) \<le> 10" "length (count_text u) \<le> 10"
    "length (item_text 0 (completed u)) \<le> 736"
proof -
  have n: "length (cstr (username u)) < 32" "length (cstr (description u)) < 2048"
    using assms length_cstr_less [of "username u"] length_cstr_less [of "description u"]
    by (auto simp: user_shape_def)
  show "length (name_text u) \<le> 62"
    using n(1) length_json_text_of [of "cstr (username u)"] by (simp add: name_text_def)
  show "length (about_text u) \<le> 4094"
    using n(2) length_json_text_of [of "cstr (description u)"] by (simp add: about_text_def)
  show "length (points_text u) \<le> 10" "length (count_text u) \<le> 10"
    by (simp_all add: points_text_def count_text_def length_dec_u32)
  have "length (completed u) \<le> 32" using assms by (simp add: completed_def user_shape_def)
  then show "length (item_text 0 (completed u)) \<le> 736"
    using length_hash_items [of "completed u"] by (simp add: item_text_def)
qed

text \<open>The writers of these fields, for a record of the right shape.\<close>

lemma field_writes:
  assumes "user_shape u"
  shows "length p + length (name_text u) \<le> cap \<Longrightarrow>
      append_json_escaped cap p (username u) = Inr (p @ name_text u)"
    and "length p + length (about_text u) \<le> cap \<Longrightarrow>
      append_json_escaped cap p (description u) = Inr (p @ about_text u)"
    and "length p + length (points_text u) \<le> cap \<Longrightarrow>
      append_uint cap p (ucast (total_points u)) = Inr (p @ points_text u)"
    and "length p + length (count_text u) \<le> cap \<Longrightarrow>
      append_uint cap p (ucast (completed_count u)) = Inr (p @ count_text u)"
    and "length p + length (item_text 0 (completed u)) \<le> cap \<Longrightarrow>
      append_hashes cap p u 0 = Inr (p @ item_text 0 (completed u))"
  using assms append_hashes_ok [of u p 0 cap]
  by (simp_all add: user_shape_def name_text_def about_text_def points_text_def count_text_def
      append_json_escaped_ok append_uint_ok unat_ucast_up)

definition profile_body :: "cg_userdb_entry \<Rightarrow> byte list" where
  "profile_body u =
     http_ok_text @ str ''{\"status\":\"success\",\"username\":\"'' @ name_text u @
     str ''\",\"is_guest\":false,\"total_points\":'' @ points_text u @
     str '',\"completed_count\":'' @ count_text u @
     str '',\"description\":\"'' @ about_text u @
     str ''\",\"completed_hashes\":['' @ item_text 0 (completed u) @ str '']}''"

lemma profile_text_ok:
  assumes "user_shape u"
  shows "profile_text u = Inr (profile_body u)" and "length (profile_body u) \<le> 8192"
  using field_lengths [OF assms] length_http_ok_text
  by (simp_all add: profile_text_def profile_body_def http_ok_written append_lit_ok
      field_writes [OF assms])

definition public_body :: "cg_userdb_entry \<Rightarrow> byte list" where
  "public_body u =
     http_ok_text @ str ''{\"status\":\"success\",\"username\":\"'' @ name_text u @
     str ''\",\"total_points\":'' @ points_text u @
     str '',\"completed_count\":'' @ count_text u @
     str '',\"description\":\"'' @ about_text u @ str ''\"}''"

lemma public_profile_text_ok:
  assumes "user_shape u"
  shows "public_profile_text u = Inr (public_body u)" and "length (public_body u) \<le> 8192"
  using field_lengths [OF assms] length_http_ok_text
  by (simp_all add: public_profile_text_def public_body_def http_ok_written append_lit_ok
      field_writes [OF assms])

section \<open>Reading a profile\<close>

text \<open>
  What \<open>/api/user/profile\<close> answers to a request that carries a session cookie: the abstract
  session map and the user store decide.
\<close>

definition guest_profile :: "byte list" where
  "guest_profile = http_ok_text @ str ''{\"status\":\"success\",\"username\":\"Guest\",\"is_guest\":true,\"total_points\":0,\"description\":\"\",\"completed_count\":0,\"completed_hashes\":[]}''"

definition profile_answer :: "u32 option \<Rightarrow> cg_userdb \<Rightarrow> byte list" where
  "profile_answer user udb =
     (case user of
        None \<Rightarrow> json_text ''401 Unauthorized'' ''{\"error\":\"Invalid session\"}''
      | Some n \<Rightarrow>
          if n = 0 then guest_profile
          else (case cg_userdb_find_by_id udb n of
                  None \<Rightarrow> json_text ''401 Unauthorized'' ''{\"error\":\"User missing\"}''
                | Some i \<Rightarrow> profile_body (udb_pool udb ! i)))"

lemma found_shape:
  assumes "userdb_wf udb" and "cg_userdb_find_by_id udb n = Some i"
  shows "user_shape (udb_pool udb ! i)" and "i < length (udb_pool udb)"
proof -
  have "i < USERDB_POOL_SIZE" using find_by_id_Some [OF assms(1)] assms(2) by blast
  then show i: "i < length (udb_pool udb)" using userdb_wfD(1) [OF assms(1)] by simp
  show "user_shape (udb_pool udb ! i)" using userdb_wfD(2) [OF assms(1) nth_mem [OF i]] .
qed

lemma guest_profile_written:
  "append_str 8192 http_ok_text (lit ''{\"status\":\"success\",\"username\":\"Guest\",\"is_guest\":true,\"total_points\":0,\"description\":\"\",\"completed_count\":0,\"completed_hashes\":[]}'') = Inr guest_profile"
  unfolding guest_profile_def
  by (rule append_lit_ok) (simp_all add: length_http_ok_text)

lemma profile_handler:
  assumes ready: "srv_ready srv" and shape: "req_shape req" and get: "uses_method req ''GET''"
    and cookie: "req_session_id req ! 0 \<noteq> 0"
    and db: "srv_sessiondb srv = Some db" "sessiondb_wf db" and udb: "srv_userdb srv = Some udb" "userdb_wf udb"
    and room: "sess_abs db (request_session req) \<noteq> None \<or> 0 < sess_room db"
  shows "\<exists>srv'. cg_route_api_user_profile k req srv = Inr srv' \<and>
    replied req (profile_answer (sess_abs db (request_session req)) udb) srv srv'"
proof -
  obtain e where e: "\<forall>f. with_session req srv f = f e"
      and ab: "map_option user_id e = sess_abs db (request_session req)"
    using with_session_cases [OF shape db room] by blast
  have c: "buf_read (req_session_id req) 0 = Inr (req_session_id req ! 0)"
    using shape by (intro buf_read_ok) (simp add: req_shape_def)
  note md = method_differs_shape [OF shape]
  show ?thesis
  proof (cases e)
    case None
    then show ?thesis
      using json_reply_ok [OF ready, of "''401 Unauthorized''" "''{\"error\":\"Invalid session\"}''" req]
        md get cookie c e ab
      by (simp add: cg_route_api_user_profile_def profile_answer_def flip: ab)
  next
    case (Some s)
    then have ab': "sess_abs db (request_session req) = Some (user_id s)" using ab by simp
    show ?thesis
    proof (cases "user_id s = 0")
      case True
      have "length guest_profile \<le> 60000" by (simp add: guest_profile_def length_http_ok_text)
      then show ?thesis
        using True Some md get cookie c e reply_buf_ok [OF ready, of guest_profile req]
        by (simp add: cg_route_api_user_profile_def profile_answer_def ab' http_ok_written
            guest_profile_written)
    next
      case False
      show ?thesis
      proof (cases "cg_userdb_find_by_id udb (user_id s)")
        case None
        then show ?thesis
          using json_reply_ok [OF ready, of "''401 Unauthorized''" "''{\"error\":\"User missing\"}''" req]
            False Some md get cookie c e udb
          by (simp add: cg_route_api_user_profile_def profile_answer_def ab' deref_def)
      next
        case found: (Some i)
        note u = found_shape(1) [OF udb(2) found]
        have "length (profile_body (udb_pool udb ! i)) \<le> 60000"
          using profile_text_ok(2) [OF u] by simp
        from reply_buf_ok [OF ready this, of req] show ?thesis
          using False Some md get cookie c e udb found profile_text_ok(1) [OF u]
          by (simp add: cg_route_api_user_profile_def profile_answer_def ab' deref_def)
      qed
    qed
  qed
qed

section \<open>Points\<close>

definition user_points :: "u32 option \<Rightarrow> cg_userdb \<Rightarrow> u32" where
  "user_points user udb =
     (case user of
        None \<Rightarrow> 0
      | Some n \<Rightarrow> if n = 0 then 0 else
          (case cg_userdb_find_by_id udb n of None \<Rightarrow> 0 | Some i \<Rightarrow> total_points (udb_pool udb ! i)))"

definition stats_body :: "u32 \<Rightarrow> byte list" where
  "stats_body points = http_ok_text @ str ''{\"points\":'' @ dec (unat points) @ str ''}''"

lemma stats_body_0: "stats_body 0 = http_ok_text @ str ''{\"points\":0}''"
  by (simp add: stats_body_def str_def digit_def dec.simps)

lemma stats_written:
  "cbind (append_str 256 http_ok_text (lit ''{\"points\":'')) (\<lambda>p.
   cbind (append_uint 256 p (ucast (points :: u32))) (\<lambda>p. append_str 256 p (lit ''}''))) =
   Inr (stats_body points)"
  using length_dec_u32 [of points]
  by (simp add: append_lit_ok append_uint_ok length_http_ok_text stats_body_def unat_ucast_up)

lemma stats_handler:
  assumes ready: "srv_ready srv" and shape: "req_shape req"
    and db: "srv_sessiondb srv = Some db" "sessiondb_wf db" and udb: "srv_userdb srv = Some udb"
    and room: "sess_abs db (request_session req) \<noteq> None \<or> 0 < sess_room db"
  shows "\<exists>srv'. cg_route_api_user_stats k req srv = Inr srv' \<and>
    replied req (stats_body (user_points (sess_abs db (request_session req)) udb)) srv srv'"
proof -
  obtain e where e: "\<forall>f. with_session req srv f = f e"
      and ab: "map_option user_id e = sess_abs db (request_session req)"
    using with_session_cases [OF shape db room] by blast
  let ?t = "stats_body (user_points (sess_abs db (request_session req)) udb)"
  have "length ?t \<le> 60000"
    using length_dec_u32 [of "user_points (sess_abs db (request_session req)) udb"]
    by (simp add: stats_body_def length_http_ok_text)
  from reply_buf_ok [OF ready this, of req]
  obtain srv' where r: "reply_buf req ?t srv = Inr srv'" "replied req ?t srv srv'" by auto
  have z: "append_str 256 http_ok_text (lit ''{\"points\":0}'') = Inr (stats_body 0)"
    unfolding stats_body_0 by (rule append_lit_ok) (simp_all add: length_http_ok_text)
  have "cg_route_api_user_stats k req srv = reply_buf req ?t srv"
    using e udb by (auto simp: cg_route_api_user_stats_def http_ok_written user_points_def deref_def
        z stats_written Let_def simp flip: ab split: option.split)
  then show ?thesis using r by auto
qed

section \<open>Changing one record\<close>

text \<open>A change that leaves the identity of the account alone keeps the store well formed.\<close>

definition same_account :: "cg_userdb_entry \<Rightarrow> cg_userdb_entry \<Rightarrow> bool" where
  "same_account u u' \<longleftrightarrow> uid u' = uid u \<and> user_is_active u' = user_is_active u \<and>
     username u' = username u \<and> pass_hash u' = pass_hash u"

definition set_user :: "cg_userdb \<Rightarrow> nat \<Rightarrow> cg_userdb_entry \<Rightarrow> cg_userdb" where
  "set_user db i u = db\<lparr>udb_pool := (udb_pool db)[i := u]\<rparr>"

lemma first_index_update:
  assumes "P (xs ! i) \<longleftrightarrow> P y"
  shows "first_index P (xs[i := y]) = first_index P xs"
proof (rule first_index_cong_nth)
  fix j assume "j < length (xs[i := y])"
  then show "P (xs[i := y] ! j) \<longleftrightarrow> P (xs ! j)" using assms by (cases "j = i") simp_all
qed simp

lemma set_user_wf:
  assumes wf: "userdb_wf db" and i: "i < length (udb_pool db)"
    and u: "user_shape u" "same_account (udb_pool db ! i) u"
  shows "userdb_wf (set_user db i u)" and "user_slot (set_user db i u) = user_slot db"
    and "cg_userdb_find_by_id (set_user db i u) = cg_userdb_find_by_id db"
proof -
  note W = userdb_wfD [OF wf]
  have act: "user_is_active u = user_is_active (udb_pool db ! i)" "uid u = uid (udb_pool db ! i)"
      "username u = username (udb_pool db ! i)"
    using u(2) by (simp_all add: same_account_def)
  have "active_users (set_user db i u) = active_users db"
    using i act(1) length_filter_update [of i "udb_pool db" user_active u]
    by (simp add: active_users_def set_user_def)
  moreover have "\<forall>e \<in> set ((udb_pool db)[i := u]). user_shape e"
    using W(2) u(1) set_update_subset_insert [of "udb_pool db" i u] by blast
  moreover have "uid ((udb_pool db)[i := u] ! j) = word_of_nat j + 1"
    if "j < USERDB_POOL_SIZE" "user_active ((udb_pool db)[i := u] ! j)" for j
    using that W(1) W(3) [of j] act i by (cases "j = i") simp_all
  ultimately show "userdb_wf (set_user db i u)"
    using W(1,4) by (simp add: userdb_wf_def set_user_def active_users_def)
  show "user_slot (set_user db i u) = user_slot db"
    using act by (intro ext) (simp add: user_slot_def set_user_def first_index_update)
  show "cg_userdb_find_by_id (set_user db i u) = cg_userdb_find_by_id db"
    using act by (intro ext)
      (simp add: cg_userdb_find_by_id_def set_user_def first_index_update W(1))
qed

section \<open>Writing the description\<close>

lemma cstr_of_prefix: "take (length (cstr t)) t = cstr t" "cstr (cstr t) = cstr t"
  unfolding cstr_def by (simp_all flip: takeWhile_eq_take)

lemma set_description_ok:
  assumes shape: "user_shape u" and t: "length t < 2048"
  shows "\<exists>u'. set_description u t = Inr u' \<and> user_shape u' \<and> same_account u u' \<and>
    u' = u\<lparr>description := description u'\<rparr> \<and> cstr (description u') = cstr t"
proof -
  let ?n = "length (cstr t)"
  have n: "?n \<le> length t" "?n \<le> 2047"
    using t length_takeWhile_le [of "\<lambda>c. c \<noteq> 0" t] by (simp_all add: cstr_def)
  have e: "cstr (t @ [0]) = cstr t" by (simp add: cstr_def takeWhile_tail)
  obtain d where d: "copy_text (description u) t ?n = Inr d" "length d = length (description u)"
      "take ?n d = take ?n t" "d ! ?n = 0"
    using copy_text_ok [of ?n t "description u"] n shape by (auto simp: user_shape_def)
  have l: "?n < length d" using d(2) n(2) shape by (simp add: user_shape_def)
  have c: "cstr d = cstr t" using cstr_of_take [OF d(4) l] d(3) cstr_of_prefix by simp
  have "set_description u t = Inr (u\<lparr>description := d\<rparr>)"
    using d(1) n by (auto simp: set_description_def e copy_text_def buf_slice_ok Let_def cbind_eq_Inr)
  moreover have "user_shape (u\<lparr>description := d\<rparr>)"
    using shape d(2) has_nul_at [OF d(4) l] by (simp add: user_shape_def)
  ultimately show ?thesis
    using c by (intro exI [of _ "u\<lparr>description := d\<rparr>"]) (simp add: same_account_def)
qed

text \<open>The user that a session number stands for, guests and strangers left out.\<close>

definition named_user :: "cg_sessiondb \<Rightarrow> u64 \<Rightarrow> u32 option" where
  "named_user db sid = (case sess_abs db sid of None \<Rightarrow> None | Some n \<Rightarrow> if n = 0 then None else Some n)"

lemma named_session:
  assumes shape: "req_shape req" and db: "srv_sessiondb srv = Some db" "sessiondb_wf db"
    and room: "sess_abs db (request_session req) \<noteq> None \<or> 0 < sess_room db"
  shows "\<exists>e. (\<forall>f. with_session req srv f = f e) \<and>
    ((case e of None \<Rightarrow> True | Some s \<Rightarrow> user_id s = 0) \<longleftrightarrow> named_user db (request_session req) = None) \<and>
    (\<forall>n. named_user db (request_session req) = Some n \<longrightarrow> user_id (the e) = n)"
proof -
  obtain e where e: "\<forall>f. with_session req srv f = f e"
      and ab: "map_option user_id e = sess_abs db (request_session req)"
    using with_session_cases [OF shape db room] by blast
  show ?thesis
    by (intro exI [of _ e]) (use e in \<open>auto simp: named_user_def simp flip: ab split: option.split\<close>)
qed

lemma update_refused:
  assumes ready: "srv_ready srv" and shape: "req_shape req" and post: "uses_method req ''POST''"
    and db: "srv_sessiondb srv = Some db" "sessiondb_wf db"
    and room: "sess_abs db (request_session req) \<noteq> None \<or> 0 < sess_room db"
    and anon: "named_user db (request_session req) = None"
  shows "\<exists>srv'. cg_route_api_user_profile_update k req srv = Inr srv' \<and>
    replied req (json_text ''401 Unauthorized'' ''{\"error\":\"Unauthorized\"}'') srv srv'"
  using named_session [OF shape db room] anon method_differs_shape [OF shape] post
    json_reply_ok [OF ready, of "''401 Unauthorized''" "''{\"error\":\"Unauthorized\"}''" req]
  by (auto simp: cg_route_api_user_profile_update_def)

lemma update_writes:
  assumes ready: "srv_ready srv" and shape: "req_shape req" and post: "uses_method req ''POST''"
    and db: "srv_sessiondb srv = Some db" "sessiondb_wf db"
    and user: "named_user db (request_session req) = Some n"
    and udb: "srv_userdb srv = Some udb" and found: "cg_userdb_find_by_id udb n = Some i"
    and form: "form_field (stdin_buf req) ''description'' = Some t" and t: "length t < 2048"
    and u': "set_description (udb_pool udb ! i) t = Inr u'"
  shows "\<exists>srv'. cg_route_api_user_profile_update k req srv = Inr srv' \<and>
    replied req (json_text ''200 OK'' ''{\"status\":\"success\"}'')
      (srv\<lparr>srv_userdb := Some (set_user udb i u')\<rparr>) srv'"
proof -
  have room: "sess_abs db (request_session req) \<noteq> None \<or> 0 < sess_room db"
    using user by (auto simp: named_user_def split: option.splits)
  obtain e where e: "\<forall>f. with_session req srv f = f e"
      "\<not> (case e of None \<Rightarrow> True | Some s \<Rightarrow> user_id s = 0)" "user_id (the e) = n"
    using named_session [OF shape db room] user by auto
  have val: "cg_get_form_value (stdin_buf req) (lit ''description'') 2048 = Inr (True, t)"
    using form_value_cases [OF stdin_has_nul [OF shape], of "''description''" 2048] form t
    by (simp add: str_no_nul)
  let ?srv = "srv\<lparr>srv_userdb := Some (set_user udb i u')\<rparr>"
  have ready': "srv_ready ?srv" using ready by (simp add: srv_ready_def)
  obtain srv' where r: "reply req (json_text ''200 OK'' ''{\"status\":\"success\"}'') ?srv = Inr srv'"
      "replied req (json_text ''200 OK'' ''{\"status\":\"success\"}'') ?srv srv'"
    using json_reply_ok [OF ready', of "''200 OK''" "''{\"status\":\"success\"}''" req] by auto
  have "cg_route_api_user_profile_update k req srv =
      reply req (json_text ''200 OK'' ''{\"status\":\"success\"}'') ?srv"
    using method_differs_shape [OF shape] post e udb(1) found val u'(1)
    by (simp add: cg_route_api_user_profile_update_def deref_def set_user_def)
  then show ?thesis using r by auto
qed

lemma described_user:
  assumes udb: "userdb_wf udb" and found: "cg_userdb_find_by_id udb n = Some i" and t: "length t < 2048"
  shows "\<exists>u'. set_description (udb_pool udb ! i) t = Inr u' \<and> u' = (udb_pool udb ! i)\<lparr>description := description u'\<rparr> \<and>
    cstr (description u') = cstr t \<and> userdb_wf (set_user udb i u') \<and>
    cg_userdb_find_by_id (set_user udb i u') = cg_userdb_find_by_id udb"
proof -
  note u = found_shape [OF udb found]
  obtain u' where u': "set_description (udb_pool udb ! i) t = Inr u'" "user_shape u'"
      "same_account (udb_pool udb ! i) u'" "u' = (udb_pool udb ! i)\<lparr>description := description u'\<rparr>"
      "cstr (description u') = cstr t"
    using set_description_ok [OF u(1) t] by blast
  then show ?thesis using set_user_wf [OF udb u(2) u'(2,3)] by blast
qed

text \<open>
  The update stores the submitted text, cut at its first NUL, in the record of the user of the
  session, and leaves everything else in both databases alone.
\<close>

lemma update_ok:
  assumes "srv_ready srv" and "req_shape req" and "uses_method req ''POST''"
    and "srv_sessiondb srv = Some db" "sessiondb_wf db"
    and "named_user db (request_session req) = Some n"
    and "srv_userdb srv = Some udb" "userdb_wf udb" and "cg_userdb_find_by_id udb n = Some i"
    and "form_field (stdin_buf req) ''description'' = Some t" and "length t < 2048"
  shows "\<exists>srv' u'. cg_route_api_user_profile_update k req srv = Inr srv' \<and>
    replied req (json_text ''200 OK'' ''{\"status\":\"success\"}'')
      (srv\<lparr>srv_userdb := Some (set_user udb i u')\<rparr>) srv' \<and>
    u' = (udb_pool udb ! i)\<lparr>description := description u'\<rparr> \<and> cstr (description u') = cstr t \<and>
    userdb_wf (set_user udb i u')"
  using described_user [OF assms(8,9,11)] update_writes [OF assms(1-7,9-11)] by blast

lemma update_overflow:
  assumes shape: "req_shape req" and post: "uses_method req ''POST''"
    and db: "srv_sessiondb srv = Some db" "sessiondb_wf db"
    and user: "named_user db (request_session req) = Some n"
    and udb: "srv_userdb srv = Some udb" and found: "cg_userdb_find_by_id udb n = Some i"
    and form: "form_field (stdin_buf req) ''description'' = Some t" and t: "2048 \<le> length t"
  shows "cg_route_api_user_profile_update k req srv = Inl Out_Of_Bounds"
proof -
  have room: "sess_abs db (request_session req) \<noteq> None \<or> 0 < sess_room db"
    using user by (auto simp: named_user_def split: option.splits)
  obtain e where e: "\<forall>f. with_session req srv f = f e"
      "\<not> (case e of None \<Rightarrow> True | Some s \<Rightarrow> user_id s = 0)" "user_id (the e) = n"
    using named_session [OF shape db room] user by auto
  have "cg_get_form_value (stdin_buf req) (lit ''description'') 2048 = Inl Out_Of_Bounds"
    using form_value_cases [OF stdin_has_nul [OF shape], of "''description''" 2048] form t
    by (simp add: str_no_nul)
  then show ?thesis
    using method_differs_shape [OF shape] post e udb found
    by (simp add: cg_route_api_user_profile_update_def deref_def)
qed

section \<open>Deleting an account\<close>

definition delete_text :: "byte list" where
  "delete_text = str ''Status: 200 OK'' @ crlf @ str ''Content-Type: application/json'' @ crlf @
     str ''Set-Cookie: SESSION=; expires=Thu, 01 Jan 1970 00:00:00 UTC; path=/;'' @ crlf @ crlf @
     str ''{\"status\":\"success\"}''"

lemma delete_text_plain: "0 \<notin> set delete_text" "length delete_text \<le> 60000"
  using str_no_nul [of "''Status: 200 OK''"] str_no_nul [of "''Content-Type: application/json''"]
    str_no_nul [of "''Set-Cookie: SESSION=; expires=Thu, 01 Jan 1970 00:00:00 UTC; path=/;''"]
    str_no_nul [of "''{\"status\":\"success\"}''"]
  by (simp_all add: delete_text_def)

text \<open>
  Deletion acts on the user store only: the sessions of the user are the same map as before, and
  the answer is the same whether the record existed or not.
\<close>

lemma delete_handler:
  assumes ready: "srv_ready srv" and shape: "req_shape req" and post: "uses_method req ''POST''"
    and db: "srv_sessiondb srv = Some db" "sessiondb_wf db"
    and user: "named_user db (request_session req) = Some n" and udb: "srv_userdb srv = Some udb"
  shows "\<exists>srv'. cg_route_api_user_delete k req srv = Inr srv' \<and>
    replied req delete_text (srv\<lparr>srv_userdb := Some (fst (cg_userdb_delete udb n))\<rparr>) srv'"
proof -
  have room: "sess_abs db (request_session req) \<noteq> None \<or> 0 < sess_room db"
    using user by (auto simp: named_user_def split: option.splits)
  obtain e where e: "\<forall>f. with_session req srv f = f e"
      "\<not> (case e of None \<Rightarrow> True | Some s \<Rightarrow> user_id s = 0)" "user_id (the e) = n"
    using named_session [OF shape db room] user by auto
  let ?srv = "srv\<lparr>srv_userdb := Some (fst (cg_userdb_delete udb n))\<rparr>"
  have ready': "srv_ready ?srv" using ready by (simp add: srv_ready_def)
  have "cg_route_api_user_delete k req srv = reply req delete_text ?srv"
    using method_differs_shape [OF shape] post e udb
    by (simp add: cg_route_api_user_delete_def deref_def delete_text_def)
  then show ?thesis using reply_ok [OF ready' delete_text_plain, of req] by simp
qed

text \<open>
  The identifier of an account is its slot plus one, so the next account that is put into the
  slot of a deleted one gets the same identifier.
\<close>

lemma slot_taken_over:
  assumes wf: "userdb_wf db" and found: "cg_userdb_find_by_id db n = Some i"
    and below: "\<forall>j < i. user_active (udb_pool db ! j)"
    and del: "cg_userdb_delete db n = (db1, status)"
    and nul: "has_nul name" "has_nul password" and free: "user_slot db1 (cstr name) = None"
  shows "\<exists>db2 u. cg_userdb_create db1 name password = Inr (db2, 0, Some u) \<and> userdb_wf db2 \<and>
    cg_userdb_find_by_id db2 n = Some i \<and> udb_pool db2 ! i = u \<and> uid u = n \<and>
    cstr (username u) = stored_name name"
proof -
  obtain db1' where d: "cg_userdb_delete db n = (db1', 0)" "userdb_wf db1'"
      "udb_pool db1' = (udb_pool db)[i := (udb_pool db ! i)\<lparr>user_is_active := 0\<rparr>]"
    using userdb_delete_ok [OF wf found] by blast
  have e: "db1 = db1'" using d(1) del by simp
  have i: "i < USERDB_POOL_SIZE" "n = word_of_nat i + 1" using find_by_id_Some [OF wf] found by auto
  have len: "length (udb_pool db1) = USERDB_POOL_SIZE" "length (udb_pool db) = USERDB_POOL_SIZE"
    using userdb_wfD(1) d(2) wf e by simp_all
  have free_i: "\<not> user_active (udb_pool db1 ! i)" using d(3) i(1) len e by simp
  have act: "user_active (udb_pool db1 ! j)" if "j < i" for j
    using below that d(3) i(1) len e by simp
  have room: "active_users db1 < USERDB_POOL_SIZE"
    using length_filter_less [of "udb_pool db1 ! i" "udb_pool db1" user_active] free_i i(1) len(1)
    by (simp add: active_users_def)
  obtain db2 j u where c: "cg_userdb_create db1 name password = Inr (db2, 0, Some u)"
      "j < USERDB_POOL_SIZE" "user_is_active (udb_pool db1 ! j) = 0"
      "udb_pool db2 = (udb_pool db1)[j := u]" "userdb_wf db2" "user_active u" "uid u = word_of_nat j + 1"
      "cstr (username u) = stored_name name" "\<forall>l < j. user_active (udb_pool db1 ! l)"
    using userdb_create_new [OF _ nul free room] d(2) e by blast
  have "j = i" using c(3,9) act free_i by (metis linorder_neqE_nat)
  then show ?thesis
    using c i len find_by_id_Some [OF c(5), of n i] by (intro exI [of _ db2] exI [of _ u]) simp
qed

section \<open>Public profiles\<close>

definition public_answer :: "byte list \<Rightarrow> cg_userdb \<Rightarrow> byte list" where
  "public_answer nm udb =
     (case user_slot udb nm of
        None \<Rightarrow> json_text ''404 Not Found'' ''{\"error\":\"User not found\"}''
      | Some i \<Rightarrow> public_body (udb_pool udb ! i))"

lemma public_handler:
  assumes ready: "srv_ready srv" and shape: "req_shape req" and post: "uses_method req ''POST''"
    and udb: "srv_userdb srv = Some udb" "userdb_wf udb"
    and form: "form_field (stdin_buf req) ''username'' = Some t" and t: "length t < 64"
  shows "\<exists>srv'. cg_route_api_public_profile k req srv = Inr srv' \<and>
    replied req (public_answer (cstr t) udb) srv srv'"
proof -
  have val: "cg_get_form_value (stdin_buf req) (lit ''username'') 64 = Inr (True, t)"
    using form_value_cases [OF stdin_has_nul [OF shape], of "''username''" 64] form t
    by (simp add: str_no_nul)
  have "cstr (t @ [0]) = cstr t" by (simp add: cstr_def takeWhile_tail)
  then have find: "cg_userdb_find udb (t @ [0]) = Inr (user_slot udb (cstr t))"
    using userdb_find_eq [OF udb(2), of "t @ [0]"] by simp
  show ?thesis
  proof (cases "user_slot udb (cstr t)")
    case None
    then show ?thesis
      using json_reply_ok [OF ready, of "''404 Not Found''" "''{\"error\":\"User not found\"}''" req]
        method_differs_shape [OF shape] post val find udb(1)
      by (simp add: cg_route_api_public_profile_def public_answer_def deref_def)
  next
    case (Some i)
    then have "i < length (udb_pool udb)" by (simp add: user_slot_def first_index_less)
    then have u: "user_shape (udb_pool udb ! i)" using userdb_wfD(2) [OF udb(2)] by simp
    have "length (public_body (udb_pool udb ! i)) \<le> 60000"
      using public_profile_text_ok(2) [OF u] by simp
    from reply_buf_ok [OF ready this, of req] show ?thesis
      using method_differs_shape [OF shape] post val find udb(1) Some public_profile_text_ok(1) [OF u]
      by (simp add: cg_route_api_public_profile_def public_answer_def deref_def)
  qed
qed

end
