(* ===== verification/CG_Spec_Stores.thy ===== *)
theory CG_Spec_Stores
  imports CG_Examples CG_Profiles
begin

text \<open>
  The properties of the stores: the hash map, the sessions, the accounts and the pool of clients.
  Each follows from the lemmas of its component; the witness after it applies it to a new file.
\<close>

section \<open>The hash map\<close>

text \<open>
  C14: A sequence of insertions and deletions on the open-addressing hash map of
  \<open>cg_hashmap.c\<close>, however long, refines the same sequence on a finite map: as long as the
  insertions are fewer than the slots that were never used, every operation returns, the table
  stays well formed, and afterwards every lookup, of a present or an absent key, gives what the
  finite map gives.
\<close>

theorem hashmap_refines_map:
  assumes "hashmap_wf m" and "length (filter is_put ops) < hm_room m"
  shows "\<exists>m'. run_ops cg_hashmap_insert_key_uint cg_hashmap_delete_key_uint ops m = Inr m' \<and>
    hashmap_wf m' \<and> hm_lookup m' = fold apply_op ops (hm_lookup m) \<and>
    (\<forall>k. hashmap_value m' k = Inr (fold apply_op ops (hm_lookup m) k))"
  using assms by (rule hashmap_ops_refine)

theorem hashmap_refines_map_witness:
  "\<exists>m'. run_ops cg_hashmap_insert_key_uint cg_hashmap_delete_key_uint
      [Put 7 Route_AuthLogin, Put 8 Route_UserStats, Drop 7] (empty_route_map Route_AuthGuest) = Inr m' \<and>
    hashmap_value m' 7 = Inr None \<and> hashmap_value m' 8 = Inr (Some Route_UserStats)"
proof -
  have e: "hashmap_wf (empty_route_map Route_AuthGuest)" "hm_lookup (empty_route_map Route_AuthGuest) = Map.empty"
      "hm_room (empty_route_map Route_AuthGuest) = 32"
    using empty_route_map_ok by blast+
  show ?thesis
    using hashmap_refines_map [OF e(1), of "[Put 7 Route_AuthLogin, Put 8 Route_UserStats, Drop 7]"] e(2,3)
    by fastforce
qed

section \<open>Sessions\<close>

text \<open>The life of one session, with what is in its entry.\<close>

lemma session_lifecycle:
  assumes "sessiondb_wf db" and "hm_count (sdb_map db) < 4096" and "8 \<le> res"
    and "sid = (if bytes = 0 then 1 else bytes)" and "sess_abs db sid = None" and "1 < sess_room db"
  shows "\<exists>db1 db2 i. cg_sessiondb_entry_create db u (res, bytes) now = Inr (db1, Some (new_session sid u now)) \<and>
    sessiondb_wf db1 \<and> sess_abs db1 = (sess_abs db)(sid \<mapsto> u) \<and>
    cg_sessiondb_entry_get db1 sid = Inr (Some i) \<and> session_id (sdb_pool db1 ! i) = sid \<and>
    user_id (sdb_pool db1 ! i) = u \<and>
    cg_sessiondb_entry_delete db1 sid = Inr db2 \<and> sessiondb_wf db2 \<and> sess_abs db2 = sess_abs db \<and>
    cg_sessiondb_entry_get db2 sid = Inr None"
proof -
  have none: "sess_index db sid = None" using assms(5) by (simp add: sess_abs_None)
  obtain db1 where db1: "cg_sessiondb_entry_create db u (res, bytes) now = Inr (db1, Some (new_session sid u now))"
      "sessiondb_wf db1" "sess_abs db1 = (sess_abs db)(sid \<mapsto> u)" "sess_room db \<le> Suc (sess_room db1)"
    using sess_create_ok [OF assms(1-4) none] assms(6) by fastforce
  have "sess_abs db1 sid = Some u" using db1(3) by simp
  then obtain v where v: "sess_index db1 sid = Some v" "user_id (sdb_pool db1 ! unat v) = u"
    by (auto simp: sess_abs_def)
  have get: "cg_sessiondb_entry_get db1 sid = Inr (Some (unat v))" "session_id (sdb_pool db1 ! unat v) = sid"
    using sess_get_present [OF db1(2) v(1)] sessiondb_wfD(5) [OF db1(2) v(1)] by simp_all
  obtain db2 where db2: "cg_sessiondb_entry_delete db1 sid = Inr db2" "sessiondb_wf db2"
      "sess_abs db2 = (sess_abs db1)(sid := None)" "sess_room db2 = sess_room db1"
    using sess_delete_ok [OF db1(2) v(1)] by blast
  have "sess_abs db2 = sess_abs db" using db2(3) db1(3) assms(5) by auto
  moreover have "cg_sessiondb_entry_get db2 sid = Inr None"
    using db2 db1(4) assms(6) by (intro sess_get_absent) (simp_all add: sess_abs_None [symmetric])
  ultimately show ?thesis using db1 db2 get v(2) by blast
qed

text \<open>
  C25: A sequence of sign-ins, each with a number that is in use by no session, and of sign-outs,
  however long and in whatever order, refines the same sequence on a finite map from session
  numbers to users: as long as the sign-ins are fewer than the slots of the table that were never
  used, each operation returns, the pool and the table stay consistent, and afterwards the user
  that is found for a number, present or absent, is the one that the finite map gives. Each
  sign-in uses up at most one of these slots, and no sign-out gives one back.
\<close>

theorem sessions_refine_map:
  assumes "sessiondb_wf db" and "allowed new_number fst ops (sess_abs db)"
    and "length (filter is_put ops) < sess_room db"
  shows "\<exists>db'. run_ops session_open cg_sessiondb_entry_delete ops db = Inr db' \<and> sessiondb_wf db' \<and>
    sess_abs db' = fold apply_op (map (op_view fst) ops) (sess_abs db) \<and>
    sess_room db \<le> sess_room db' + length (filter is_put ops) \<and>
    (\<forall>sid. session_user db' sid = Inr (fold apply_op (map (op_view fst) ops) (sess_abs db) sid))"
  using assms by (rule ss.run_ops_refines)

theorem sessions_refine_map_witness:
  "\<exists>db'. run_ops session_open cg_sessiondb_entry_delete [Put 77 (5, 1000), Put 78 (6, 1001), Drop 77] new_sessiondb = Inr db' \<and>
    session_user db' 77 = Inr None \<and> session_user db' 78 = Inr (Some 6) \<and> 4094 \<le> sess_room db'"
proof -
  have "allowed new_number fst [Put 77 (5, 1000), Put 78 (6, 1001), Drop 77] (sess_abs new_sessiondb)"
    using new_sessiondb_ok by (simp add: new_number_def)
  then show ?thesis
    using sessions_refine_map [OF new_sessiondb_ok(1)] new_sessiondb_ok by fastforce
qed

text \<open>
  C33: When every slot of the session table has been used once, the lookup of an unknown
  identifier never returns: deleted slots are skipped and there is no free one to stop at. A
  request with such a cookie then stops the server. With at least one slot left, it answers
  that there is no such session.
\<close>

theorem session_lookup_of_unknown:
  assumes "sessiondb_wf db" and "sess_abs db sid = None"
  shows "cg_sessiondb_entry_get db sid = (if sess_room db = 0 then Inl Diverges else Inr None)"
  using assms sess_get_stuck [of db sid] sess_get_absent [of db sid] by (simp add: sess_abs_None)

theorem session_lookup_of_unknown_witness: "cg_sessiondb_entry_get new_sessiondb 99 = Inr None"
  using session_lookup_of_unknown [OF new_sessiondb_ok(1), of 99] new_sessiondb_ok by simp

section \<open>Accounts\<close>

text \<open>
  Creating an account with a new name of at most 31 bytes: it takes the first free slot, its
  number is the slot plus one, it starts without points, it holds the hash of the password and
  not the password, and afterwards the names that are found are the old ones and this one.
\<close>

lemma account_created:
  assumes wf: "userdb_wf db" and nul: "has_nul name" "has_nul password"
    and new: "user_slot db (cstr name) = None" and short: "length (cstr name) \<le> 31"
    and room: "active_users db < USERDB_POOL_SIZE"
  shows "\<exists>db' i e. cg_userdb_create db name password = Inr (db', 0, Some e) \<and> userdb_wf db' \<and>
    udb_pool db' = (udb_pool db)[i := e] \<and> user_is_active (udb_pool db ! i) = 0 \<and>
    (\<forall>j < i. user_active (udb_pool db ! j)) \<and> uid e = word_of_nat i + 1 \<and> cstr (username e) = cstr name \<and>
    pass_hash e = ucast (crc32c (cstr password)) \<and> total_points e = 0 \<and> completed_count e = 0 \<and>
    active_users db' = active_users db + 1 \<and> user_slot db' = (user_slot db)(cstr name \<mapsto> i)"
proof -
  obtain db' i e where c: "cg_userdb_create db name password = Inr (db', 0, Some e)"
      "i < USERDB_POOL_SIZE" "user_is_active (udb_pool db ! i) = 0" "udb_pool db' = (udb_pool db)[i := e]"
      "userdb_wf db'" "user_active e" "uid e = word_of_nat i + 1" "cstr (username e) = stored_name name"
      "pass_hash e = ucast (crc32c (cstr password))" "total_points e = 0" "completed_count e = 0"
      "active_users db' = active_users db + 1" "\<forall>j < i. user_active (udb_pool db ! j)"
    using userdb_create_new [OF wf nul new room] by blast
  have nm: "cstr (username e) = cstr name" using c(8) stored_name_short [OF short] by simp
  have "user_slot db' = (user_slot db)(cstr (username e) \<mapsto> i)"
    using user_slot_created [OF wf c(2,3,6) _ c(4)] new nm by simp
  then show ?thesis using c nm by metis
qed

lemma account_created_instance:
  "\<exists>db' e i. cg_userdb_create alice_userdb (lit ''bob'') (lit ''pw'') = Inr (db', 0, Some e) \<and>
    uid e = word_of_nat i + 1 \<and> user_slot db' = [str ''alice'' \<mapsto> 0, str ''bob'' \<mapsto> i]"
proof -
  have c: "cstr (lit ''bob'') = str ''bob''" by (rule cstr_literal) simp
  have "str ''bob'' \<noteq> str ''alice''" by (simp add: str_def)
  then show ?thesis
    using account_created [OF alice_userdb_ok(1), of "lit ''bob''" "lit ''pw''"] alice_userdb_ok(2,5) c
    by (auto simp: USERDB_POOL_SIZE_def)
qed

text \<open>
  C36: A name of more than 31 bytes is cut when it is stored, so the account cannot be found by
  the name it was registered with: right after it was created, the lookup of that name gives
  nothing, and the cut name takes the place. Whoever registers it again gets another account.
\<close>

theorem long_name_lost:
  assumes wf: "userdb_wf db" and nul: "has_nul name" "has_nul password"
    and long: "31 < length (cstr name)" and room: "active_users db < USERDB_POOL_SIZE"
  shows "\<exists>db' e. cg_userdb_create db name password = Inr (db', 0, Some e) \<and> userdb_wf db' \<and>
    cstr (username e) = take 31 (cstr name) \<and> cg_userdb_find db' name = Inr None"
proof -
  have new: "user_slot db (cstr name) = None" by (rule long_name_unknown [OF wf long])
  obtain db' e where c: "cg_userdb_create db name password = Inr (db', 0, Some e)" "userdb_wf db'"
      "cstr (username e) = stored_name name"
    using userdb_create_new [OF wf nul new room] by blast
  then have "cg_userdb_find db' name = Inr None"
    using userdb_find_eq [OF c(2) nul(1)] long_name_unknown [OF c(2) long] by simp
  then show ?thesis using c by (auto simp: stored_name_def)
qed

theorem long_name_lost_witness:
  "\<exists>db' e. cg_userdb_create new_userdb (replicate 40 97 @ [0]) (lit ''x'') = Inr (db', 0, Some e) \<and>
    cstr (username e) = replicate 31 97 \<and> cg_userdb_find db' (replicate 40 97 @ [0]) = Inr None"
proof -
  have c: "cstr (replicate 40 97 @ [0 :: byte]) = replicate 40 97" by (simp add: cstr_append_nul)
  have "has_nul (replicate 40 97 @ [0 :: byte])" by simp
  from long_name_lost [OF new_userdb_ok(1) this, of "lit ''x''"] show ?thesis
    using c new_userdb_ok by (simp add: USERDB_POOL_SIZE_def) blast
qed

text \<open>
  C35: When all slots below that of a deleted account are in use, the next account that is created
  takes over the slot with its number: a session that still carries this number then belongs to
  the new account.
\<close>

theorem number_reused:
  assumes "userdb_wf db" and "cg_userdb_find_by_id db n = Some i"
    and "\<forall>j < i. user_active (udb_pool db ! j)" and "cg_userdb_delete db n = (db1, status)"
    and "has_nul name" and "has_nul password" and "user_slot db1 (cstr name) = None"
  shows "\<exists>db2 u. cg_userdb_create db1 name password = Inr (db2, 0, Some u) \<and> userdb_wf db2 \<and>
    cg_userdb_find_by_id db2 n = Some i \<and> udb_pool db2 ! i = u \<and> uid u = n \<and>
    cstr (username u) = stored_name name"
  using assms by (rule slot_taken_over)

theorem number_reused_witness:
  "\<exists>db1 db2 u. cg_userdb_delete alice_userdb 1 = (db1, 0) \<and>
    cg_userdb_create db1 (lit ''mallory'') (lit ''x'') = Inr (db2, 0, Some u) \<and>
    uid u = uid alice \<and> cstr (username u) = stored_name (lit ''mallory'')"
proof -
  note a = alice_userdb_ok
  obtain db1 where d: "cg_userdb_delete alice_userdb 1 = (db1, 0)"
      "udb_pool db1 = (udb_pool alice_userdb)[0 := alice\<lparr>user_is_active := 0\<rparr>]"
    using userdb_delete_ok [OF a(1,3)] a(4) by auto
  have len: "length (udb_pool alice_userdb) = 1024"
    using a(1) by (simp add: userdb_wf_def USERDB_POOL_SIZE_def)
  have "\<not> user_active (udb_pool db1 ! i)" if "i < 1024" for i
    using that d(2) len a(6) [of i] by (cases "i = 0") simp_all
  then have "\<forall>e \<in> set (udb_pool db1). \<not> user_active e"
    using d(2) len by (auto simp: in_set_conv_nth)
  then have "user_slot db1 (cstr (lit ''mallory'')) = None"
    by (auto simp: user_slot_def first_index_None)
  from number_reused [OF a(1,3) _ d(1) _ _ this, of "lit ''x''"] show ?thesis
    using d(1) alice_ok(1) by auto
qed

section \<open>Clients\<close>

text \<open>
  The allocator of client contexts never hands out a context that is in use: it gives the
  first free one, marks exactly that one and leaves the others as they are, and it gives none
  only when all are in use. Giving a context back makes exactly that one free.
\<close>

lemma client_alloc_exclusive:
  assumes "n = length pool"
  shows "\<exists>pool' r. cg_client_alloc pool n = Inr (pool', r) \<and>
    (case r of
       Some i \<Rightarrow> i \<notin> used_clients pool \<and> used_clients pool' = insert i (used_clients pool) \<and>
         (\<forall>j < i. j \<in> used_clients pool) \<and> (\<forall>j. j \<noteq> i \<longrightarrow> pool' ! j = pool ! j) \<and>
         (\<exists>pool''. cg_client_free pool' (Some i) = Inr pool'' \<and> used_clients pool'' = used_clients pool)
     | None \<Rightarrow> pool' = pool \<and> used_clients pool = {0..<length pool})"
proof (cases "cg_client_alloc pool n")
  case (Inl e)
  then show ?thesis using client_alloc_cases [OF assms] by simp
next
  case (Inr x)
  obtain pool' r where x: "x = (pool', r)" by (cases x)
  show ?thesis
  proof (cases r)
    case None
    then show ?thesis using client_alloc_cases [OF assms] Inr x by simp
  next
    case (Some i)
    then have a: "i \<notin> used_clients pool" "used_clients pool' = insert i (used_clients pool)"
        "length pool' = length pool" "i < length pool" "\<forall>j < i. j \<in> used_clients pool"
        "\<forall>j. j \<noteq> i \<longrightarrow> pool' ! j = pool ! j"
      using client_alloc_cases [OF assms] Inr x by simp_all
    then obtain pool'' where "cg_client_free pool' (Some i) = Inr pool''"
        "used_clients pool'' = used_clients pool' - {i}"
      using client_free_used [of i pool'] by auto
    then show ?thesis using a Inr x Some by auto
  qed
qed

lemma client_alloc_exclusive_instance:
  "\<exists>pool'. cg_client_alloc [new_client\<lparr>cli_state := CG_CLIENT_STATE_IN_USE\<rparr>, new_client] 2 = Inr (pool', Some 1) \<and>
    used_clients pool' = {0, 1}"
proof -
  let ?pool = "[new_client\<lparr>cli_state := CG_CLIENT_STATE_IN_USE\<rparr>, new_client]"
  have u: "used_clients ?pool = {0}"
    by (auto simp: used_clients_def new_client_def less_Suc_eq)
  have "2 = length ?pool" by simp
  from client_alloc_exclusive [OF this] obtain pool' r
    where r: "cg_client_alloc ?pool 2 = Inr (pool', r)"
      and some: "\<And>i. r = Some i \<Longrightarrow> i \<noteq> 0 \<and> used_clients pool' = insert i {0} \<and> (\<forall>j < i. j = 0)"
      and none: "r = None \<Longrightarrow> {0} = {0..<length ?pool}"
    unfolding u by (elim exE conjE) (rule that; auto split: option.splits)
  have in1: "(1 :: nat) \<in> {0..<length ?pool}" by simp
  have "{0} \<noteq> {0..<length ?pool}"
  proof
    assume "{0} = {0..<length ?pool}"
    with in1 have "(1 :: nat) \<in> {0}" by (simp only:)
    then show False by simp
  qed
  then obtain i where i: "r = Some i" using none by (metis option.exhaust)
  have "i = 1" using some [OF i] by (metis One_nat_def less_one linorder_neqE_nat zero_neq_one)
  then show ?thesis using r i some [OF i] by auto
qed

end
