(* ===== verification/CG_Env.thy ===== *)
theory CG_Env
  imports CG_Mem CG_Text
begin

text \<open>
  The process environment of \<open>src/platform/cg_env.c\<close>: the socket path from the environment
  strings, the auxiliary vector behind them, and the search for a symbol in the vDSO image. The
  image is a memory that is read with the layout of 64-bit ELF objects.
\<close>

section \<open>Environment strings\<close>

text \<open>\<open>struct cg_env\<close>: the object that the path pointer refers to, and the length.\<close>

record cg_env =
  fastcgi_sock :: "byte list"
  fastcgi_sock_len :: nat

text \<open>The auxiliary vector is the list of its entries before the one of type 0.\<close>

type_synonym auxv = "(u64 \<times> u64) list"

abbreviation AT_PHDR :: u64 where "AT_PHDR \<equiv> 3"
abbreviation AT_SYSINFO_EHDR :: u64 where "AT_SYSINFO_EHDR \<equiv> 33"

definition cg_env_default :: cg_env where
  "cg_env_default = \<lparr>fastcgi_sock = lit ''/tmp/compuguessr.sock'', fastcgi_sock_len = 21\<rparr>"

text \<open>The position of the first equals sign, or of the terminator.\<close>

fun env_key_end :: "byte list \<Rightarrow> nat \<Rightarrow> nat cres" where
  "env_key_end [] n = Inl Out_Of_Bounds"
| "env_key_end (c # s) n = (if c \<noteq> 0 \<and> c \<noteq> 61 then env_key_end s (n + 1) else Inr n)"

definition env_entry :: "byte list \<Rightarrow> cg_env \<Rightarrow> cg_env cres" where
  "env_entry entry env =
     cbind (env_key_end entry 0) (\<lambda>key_len.
     cbind (buf_read entry key_len) (\<lambda>eq.
     if eq \<noteq> 61 then Inr env
     else
       cbind (if key_len = 12 then cg_memcmp_avx2 entry (lit ''FASTCGI_SOCK'') 12 else Inr 1) (\<lambda>c.
       if c = 0 then
         (let val = drop (key_len + 1) entry in
          cbind (cg_strlen val) (\<lambda>n. Inr \<lparr>fastcgi_sock = val, fastcgi_sock_len = n\<rparr>))
       else Inr env)))"

fun env_entries :: "byte list list \<Rightarrow> cg_env \<Rightarrow> cg_env cres" where
  "env_entries [] env = Inr env"
| "env_entries (e # es) env = cbind (env_entry e env) (env_entries es)"

text \<open>The load address of the program: the last entry of its kind counts.\<close>

fun auxv_base :: "auxv \<Rightarrow> u64 \<Rightarrow> u64" where
  "auxv_base [] base = base"
| "auxv_base ((ty, val) # av) base = auxv_base av (if ty = AT_PHDR then val - 64 else base)"

text \<open>The result: the configuration, and \<open>g_base_addr\<close>. A NULL argument is \<open>None\<close>.\<close>

definition cg_env_init :: "(byte list list \<times> auxv) option \<Rightarrow> cg_env option \<Rightarrow> u64 \<Rightarrow> (cg_env option \<times> u64) cres"
  where
  "cg_env_init envp env_out base =
     (case env_out of
        None \<Rightarrow> Inr (None, base)
      | Some _ \<Rightarrow>
          (case envp of
             None \<Rightarrow> Inr (Some cg_env_default, base)
           | Some (strs, av) \<Rightarrow>
               cbind (env_entries strs cg_env_default) (\<lambda>env. Inr (Some env, auxv_base av base))))"

text \<open>The bytes of the three vectors of one \<open>writev\<close> call.\<close>

definition cg_env_write_stdout :: "cg_env \<Rightarrow> byte list cres" where
  "cg_env_write_stdout env =
     cbind (cg_strlen (fastcgi_sock env)) (\<lambda>n.
     cbind (buf_slice (fastcgi_sock env) 0 n) (\<lambda>path.
       Inr (str ''FASTCGI_SOCK = '' @ path @ [10])))"

fun auxv_find :: "u64 \<Rightarrow> auxv \<Rightarrow> u64" where
  "auxv_find t [] = 0"
| "auxv_find t ((ty, val) # av) = (if ty = t then val else auxv_find t av)"

definition cg_vdso_base_addr :: "(byte list list \<times> auxv) option \<Rightarrow> u64" where
  "cg_vdso_base_addr envp = (case envp of None \<Rightarrow> 0 | Some (strs, av) \<Rightarrow> auxv_find AT_SYSINFO_EHDR av)"

section \<open>The vDSO image\<close>

text \<open>
  The memory as the process sees it: addresses of 64 bits that wrap, and nothing at the addresses
  that are not mapped. What can be read from an address on ends where the mapping ends; a member
  of a structure that is not all there cannot be loaded.
\<close>

type_synonym vmem = "u64 \<Rightarrow> byte option"

fun readable :: "vmem \<Rightarrow> u64 \<Rightarrow> nat \<Rightarrow> byte list" where
  "readable m a 0 = []"
| "readable m a (Suc n) = (case m a of None \<Rightarrow> [] | Some b \<Rightarrow> b # readable m (a + 1) n)"

definition load_le :: "vmem \<Rightarrow> u64 \<Rightarrow> nat \<Rightarrow> u64 cres" where
  "load_le m a n =
     (let bs = readable m a n
      in if length bs = n then Inr (foldr (\<lambda>b v. ucast b OR push_bit 8 v) bs 0) else Inl Out_Of_Bounds)"

text \<open>The members that are read of \<open>Elf64_Ehdr\<close>, \<open>Elf64_Phdr\<close>, \<open>Elf64_Dyn\<close> and \<open>Elf64_Sym\<close>.\<close>

definition e_phoff :: "vmem \<Rightarrow> u64 \<Rightarrow> u64 cres" where "e_phoff m a = load_le m (a + 32) 8"
definition e_phnum :: "vmem \<Rightarrow> u64 \<Rightarrow> u64 cres" where "e_phnum m a = load_le m (a + 56) 2"
definition p_type :: "vmem \<Rightarrow> u64 \<Rightarrow> nat \<Rightarrow> u64 cres" where "p_type m a i = load_le m (a + 56 * of_nat i) 4"
definition p_offset :: "vmem \<Rightarrow> u64 \<Rightarrow> nat \<Rightarrow> u64 cres" where "p_offset m a i = load_le m (a + 56 * of_nat i + 8) 8"
definition d_tag :: "vmem \<Rightarrow> u64 \<Rightarrow> nat \<Rightarrow> u64 cres" where "d_tag m a i = load_le m (a + 16 * of_nat i) 8"
definition d_ptr :: "vmem \<Rightarrow> u64 \<Rightarrow> nat \<Rightarrow> u64 cres" where "d_ptr m a i = load_le m (a + 16 * of_nat i + 8) 8"
definition st_name :: "vmem \<Rightarrow> u64 \<Rightarrow> nat \<Rightarrow> u64 cres" where "st_name m a i = load_le m (a + 24 * of_nat i) 4"
definition st_value :: "vmem \<Rightarrow> u64 \<Rightarrow> nat \<Rightarrow> u64 cres" where "st_value m a i = load_le m (a + 24 * of_nat i + 8) 8"

text \<open>The dynamic section is that of the first program header of type \<open>PT_DYNAMIC\<close>; 0 is the null pointer.\<close>

fun phdr_scan :: "vmem \<Rightarrow> u64 \<Rightarrow> u64 \<Rightarrow> nat list \<Rightarrow> u64 cres" where
  "phdr_scan m base phdr [] = Inr 0"
| "phdr_scan m base phdr (i # is) =
     cbind (p_type m phdr i) (\<lambda>ty.
     if ty = 2 then cbind (p_offset m phdr i) (\<lambda>off. Inr (base + off)) else phdr_scan m base phdr is)"

definition vdso_dynamic :: "vmem \<Rightarrow> u64 \<Rightarrow> u64 cres" where
  "vdso_dynamic m base =
     cbind (e_phoff m base) (\<lambda>off.
     cbind (e_phnum m base) (\<lambda>num. phdr_scan m base (base + off) [0..<unat num]))"

text \<open>The scan of the dynamic section ends at \<open>DT_NULL\<close>; the last entry of a kind counts.\<close>

partial_function (option) vdso_tables ::
  "vmem \<Rightarrow> u64 \<Rightarrow> u64 \<Rightarrow> nat \<Rightarrow> u64 \<Rightarrow> u64 \<Rightarrow> (u64 \<times> u64) cres option" where
  "vdso_tables m base dyn i strtab symtab =
     (case d_tag m dyn i of
        Inl e \<Rightarrow> Some (Inl e)
      | Inr tag \<Rightarrow>
          if tag = 0 then Some (Inr (strtab, symtab))
          else if tag = 5 then
            (case d_ptr m dyn i of
               Inl e \<Rightarrow> Some (Inl e)
             | Inr p \<Rightarrow> vdso_tables m base dyn (i + 1) (base + p) symtab)
          else if tag = 6 then
            (case d_ptr m dyn i of
               Inl e \<Rightarrow> Some (Inl e)
             | Inr p \<Rightarrow> vdso_tables m base dyn (i + 1) strtab (base + p))
          else vdso_tables m base dyn (i + 1) strtab symtab)"

text \<open>The comparison covers the terminator of the name.\<close>

definition sym_matches :: "vmem \<Rightarrow> u64 \<Rightarrow> u64 \<Rightarrow> byte list \<Rightarrow> nat \<Rightarrow> nat \<Rightarrow> bool cres" where
  "sym_matches m strtab symtab name name_len i =
     cbind (st_name m symtab i) (\<lambda>n.
     if n = 0 then Inr False
     else cbind (cg_memcmp_avx2 (readable m (strtab + n) (name_len + 1)) name (name_len + 1)) (\<lambda>c. Inr (c = 0)))"

fun vdso_symbols :: "vmem \<Rightarrow> u64 \<Rightarrow> u64 \<Rightarrow> byte list \<Rightarrow> nat \<Rightarrow> nat list \<Rightarrow> nat option cres" where
  "vdso_symbols m strtab symtab name name_len [] = Inr None"
| "vdso_symbols m strtab symtab name name_len (i # is) =
     cbind (sym_matches m strtab symtab name name_len i) (\<lambda>found.
       if found then Inr (Some i) else vdso_symbols m strtab symtab name name_len is)"

text \<open>
  The result 0 is the null function. The number of symbols is fixed, not read from the image: what
  lies behind a shorter table is read as symbols, if it can be read at all.
\<close>

definition cg_vdso_func :: "vmem \<Rightarrow> u64 \<Rightarrow> byte list option \<Rightarrow> u64 cres" where
  "cg_vdso_func m base name =
     (case name of
        None \<Rightarrow> Inr 0
      | Some name \<Rightarrow>
          if base = 0 then Inr 0
          else
            cbind (vdso_dynamic m base) (\<lambda>dyn.
            if dyn = 0 then Inr 0
            else
              cbind (returns_or_diverges (vdso_tables m base dyn 0 0 0)) (\<lambda>(strtab, symtab).
              if symtab = 0 \<or> strtab = 0 then Inr 0
              else
                cbind (cg_strlen name) (\<lambda>name_len.
                cbind (vdso_symbols m strtab symtab name name_len [0..<50]) (\<lambda>r.
                  case r of
                    None \<Rightarrow> Inr 0
                  | Some i \<Rightarrow> cbind (st_value m symtab i) (\<lambda>v. Inr (base + v)))))))"

section \<open>The socket path\<close>

lemma env_key_end_ok:
  "0 \<notin> set k \<Longrightarrow> 61 \<notin> set k \<Longrightarrow> c = 0 \<or> c = 61 \<Longrightarrow> env_key_end (k @ c # r) n = Inr (n + length k)"
  by (induction k arbitrary: n) auto

text \<open>What an environment string says: its key and its value, when it has an equals sign.\<close>

definition env_pair :: "byte list \<Rightarrow> (byte list \<times> byte list) option" where
  "env_pair e = (let s = cstr e; k = takeWhile (\<lambda>c. c \<noteq> 61) s in
     if length k < length s then Some (k, drop (length k + 1) s) else None)"

lemma env_entry_ok:
  assumes nul: "has_nul e"
  shows "\<exists>env'. env_entry e env = Inr env' \<and>
    (case env_pair e of
       Some (k, v) \<Rightarrow> if k = str ''FASTCGI_SOCK''
         then has_nul (fastcgi_sock env') \<and> cstr (fastcgi_sock env') = v \<and> fastcgi_sock_len env' = length v
         else env' = env
     | None \<Rightarrow> env' = env)"
proof -
  define s where "s = cstr e"
  define k where "k = takeWhile (\<lambda>c. c \<noteq> 61) s"
  obtain r where e: "e = s @ 0 # r" using has_nul_split [OF nul] s_def by auto
  have s0: "0 \<notin> set s" by (simp add: s_def)
  have k0: "0 \<notin> set k" "61 \<notin> set k"
    using s0 by (auto simp: k_def dest: set_takeWhileD)
  show ?thesis
  proof (cases "length k < length s")
    case False
    then have "k = s" by (metis k_def takeWhile_eq_take take_all linorder_not_less)
    then have "e = k @ 0 # r" using e by simp
    then have "env_entry e env = Inr env"
      using env_key_end_ok [OF k0, of 0 r 0] by (simp add: env_entry_def buf_read_ok)
    moreover have "env_pair e = None" using False by (simp add: env_pair_def Let_def flip: s_def k_def)
    ultimately show ?thesis by simp
  next
    case True
    define v where "v = drop (length k + 1) s"
    have "s ! length k = 61" using nth_length_takeWhile [of "\<lambda>c. c \<noteq> 61" s] True by (simp add: k_def)
    moreover have "take (length k) s = k" by (simp add: k_def flip: takeWhile_eq_take)
    ultimately have sv: "s = k @ 61 # v" using id_take_nth_drop [OF True] by (simp add: v_def)
    have ev: "e = k @ 61 # (v @ 0 # r)" using e sv by simp
    have v0: "0 \<notin> set v" using s0 sv by simp
    have pair: "env_pair e = Some (k, v)" using True by (simp add: env_pair_def Let_def v_def flip: s_def k_def)
    have ke: "env_key_end e 0 = Inr (length k)" using env_key_end_ok [OF k0, of 61 "v @ 0 # r" 0] ev by simp
    have rd: "buf_read e (length k) = Inr 61" by (simp add: ev buf_read_ok)
    have val: "drop (length k + 1) e = v @ 0 # r" by (simp add: ev)
    show ?thesis
    proof (cases "length k = 12")
      case True
      obtain c where c: "cg_memcmp_avx2 e (lit ''FASTCGI_SOCK'') 12 = Inr c"
          "c = 0 \<longleftrightarrow> take 12 e = take 12 (lit ''FASTCGI_SOCK'')"
        using memcmp_bytes_zero [of 12 e "lit ''FASTCGI_SOCK''"] True
        by (auto simp: cg_memcmp_avx2_bytes ev lit_def)
      have "take 12 (lit ''FASTCGI_SOCK'') = str ''FASTCGI_SOCK''" by (simp add: lit_def)
      moreover have "take 12 e = k" using True by (simp add: ev)
      ultimately have cz: "c = 0 \<longleftrightarrow> k = str ''FASTCGI_SOCK''" using c(2) by simp
      show ?thesis
        using ke rd True c(1) cz pair val v0 by (auto simp: env_entry_def)
    next
      case False
      then have "k \<noteq> str ''FASTCGI_SOCK''" by auto
      then show ?thesis using ke rd False pair by (simp add: env_entry_def)
    qed
  qed
qed

text \<open>The last setting of the variable counts; without one the default path is used.\<close>

definition socket_path :: "byte list list \<Rightarrow> byte list" where
  "socket_path strs = (case map_of (rev (List.map_filter env_pair strs)) (str ''FASTCGI_SOCK'') of
     None \<Rightarrow> str ''/tmp/compuguessr.sock'' | Some v \<Rightarrow> v)"

lemma env_entries_ok:
  assumes "\<forall>e \<in> set strs. has_nul e"
  shows "\<exists>env'. env_entries strs env = Inr env' \<and>
    (case map_of (rev (List.map_filter env_pair strs)) (str ''FASTCGI_SOCK'') of
       None \<Rightarrow> env' = env
     | Some v \<Rightarrow> has_nul (fastcgi_sock env') \<and> cstr (fastcgi_sock env') = v \<and>
         fastcgi_sock_len env' = length v)"
  using assms
proof (induction strs arbitrary: env)
  case (Cons e es)
  obtain env1 where e1: "env_entry e env = Inr env1" "case env_pair e of
       Some (k, v) \<Rightarrow> if k = str ''FASTCGI_SOCK''
         then has_nul (fastcgi_sock env1) \<and> cstr (fastcgi_sock env1) = v \<and> fastcgi_sock_len env1 = length v
         else env1 = env
     | None \<Rightarrow> env1 = env"
    using env_entry_ok [of e env] Cons.prems by auto
  have "\<forall>e \<in> set es. has_nul e" using Cons.prems by simp
  from Cons.IH [OF this, of env1] obtain env' where e2: "env_entries es env1 = Inr env'"
      "case map_of (rev (List.map_filter env_pair es)) (str ''FASTCGI_SOCK'') of
       None \<Rightarrow> env' = env1
     | Some v \<Rightarrow> has_nul (fastcgi_sock env') \<and> cstr (fastcgi_sock env') = v \<and>
         fastcgi_sock_len env' = length v" by blast
  have "env_entries (e # es) env = Inr env'" using e1(1) e2(1) by simp
  moreover have "map_of (rev (List.map_filter env_pair (e # es))) (str ''FASTCGI_SOCK'') =
      (case map_of (rev (List.map_filter env_pair es)) (str ''FASTCGI_SOCK'') of
         Some v \<Rightarrow> Some v
       | None \<Rightarrow> (case env_pair e of None \<Rightarrow> None
           | Some (k, v) \<Rightarrow> if k = str ''FASTCGI_SOCK'' then Some v else None))"
    by (cases "env_pair e") (auto simp: List.map_filter_simps map_add_def split: option.split)
  ultimately show ?case using e1(2) e2(2) by (auto split: option.splits if_splits)
qed (simp add: List.map_filter_simps)

lemma env_init_path:
  assumes "\<forall>e \<in> set strs. has_nul e"
  shows "\<exists>env b. cg_env_init (Some (strs, av)) (Some env0) base = Inr (Some env, b) \<and>
    has_nul (fastcgi_sock env) \<and> cstr (fastcgi_sock env) = socket_path strs \<and>
    fastcgi_sock_len env = length (socket_path strs)"
proof -
  obtain env' where e: "env_entries strs cg_env_default = Inr env'"
      "case map_of (rev (List.map_filter env_pair strs)) (str ''FASTCGI_SOCK'') of
       None \<Rightarrow> env' = cg_env_default
     | Some v \<Rightarrow> has_nul (fastcgi_sock env') \<and> cstr (fastcgi_sock env') = v \<and>
         fastcgi_sock_len env' = length v"
    using env_entries_ok [OF assms] by blast
  have "cstr (lit ''/tmp/compuguessr.sock'') = str ''/tmp/compuguessr.sock''" by code_simp
  then show ?thesis
    using e by (auto simp: cg_env_init_def socket_path_def cg_env_default_def split: option.splits)
qed

section \<open>The symbol that is found\<close>

text \<open>
  What an image is: a first program header of type \<open>PT_DYNAMIC\<close> among those that the header counts,
  and the entries of the dynamic section in front of its terminator.
\<close>

definition elf_image :: "vmem \<Rightarrow> u64 \<Rightarrow> (u64 \<times> u64) list \<Rightarrow> bool" where
  "elf_image m base ds \<longleftrightarrow> (\<exists>off num i o'.
     e_phoff m base = Inr off \<and> e_phnum m base = Inr num \<and> i < unat num \<and>
     (\<forall>j < i. \<exists>ty. p_type m (base + off) j = Inr ty \<and> ty \<noteq> 2) \<and> p_type m (base + off) i = Inr 2 \<and>
     p_offset m (base + off) i = Inr o' \<and> base + o' \<noteq> 0 \<and>
     (\<forall>k < length ds. d_tag m (base + o') k = Inr (fst (ds ! k)) \<and> fst (ds ! k) \<noteq> 0 \<and>
        d_ptr m (base + o') k = Inr (snd (ds ! k))) \<and>
     d_tag m (base + o') (length ds) = Inr 0)"

text \<open>The table of one kind: where the last entry of this kind points to.\<close>

definition table_of :: "u64 \<Rightarrow> u64 \<Rightarrow> (u64 \<times> u64) list \<Rightarrow> u64" where
  "table_of base kind ds = (case map_of (rev ds) kind of None \<Rightarrow> 0 | Some p \<Rightarrow> base + p)"

text \<open>Whether a symbol has the name, as far as it can be read; an unnamed one has none.\<close>

definition sym_named :: "vmem \<Rightarrow> u64 \<Rightarrow> u64 \<Rightarrow> byte list \<Rightarrow> nat \<Rightarrow> bool" where
  "sym_named m strtab symtab nm i \<longleftrightarrow>
     (\<exists>n. st_name m symtab i = Inr n \<and> n \<noteq> 0 \<and> readable m (strtab + n) (length nm + 1) = nm @ [0])"

definition sym_other :: "vmem \<Rightarrow> u64 \<Rightarrow> u64 \<Rightarrow> byte list \<Rightarrow> nat \<Rightarrow> bool" where
  "sym_other m strtab symtab nm i \<longleftrightarrow>
     (\<exists>n. st_name m symtab i = Inr n \<and> (n = 0 \<or> length (readable m (strtab + n) (length nm + 1)) = length nm + 1 \<and>
        readable m (strtab + n) (length nm + 1) \<noteq> nm @ [0]))"

lemma phdr_scan_first:
  assumes "\<forall>j < i. \<exists>ty. p_type m phdr j = Inr ty \<and> ty \<noteq> 2" and "p_type m phdr i = Inr 2"
    and "p_offset m phdr i = Inr o'" and "k \<le> i" and "i < n"
  shows "phdr_scan m base phdr [k..<n] = Inr (base + o')"
  using assms(4)
proof (induction rule: inc_induct)
  case base
  then show ?case using assms(2,3,5) by (simp add: upt_conv_Cons)
next
  case (step k)
  then obtain ty where "p_type m phdr k = Inr ty" "ty \<noteq> 2" using assms(1) by blast
  then show ?case using step assms(5) by (simp add: upt_conv_Cons)
qed

lemma vdso_tables_scan:
  assumes "\<forall>k < length ds. d_tag m dyn (i + k) = Inr (fst (ds ! k)) \<and> fst (ds ! k) \<noteq> 0 \<and>
      d_ptr m dyn (i + k) = Inr (snd (ds ! k))"
    and "d_tag m dyn (i + length ds) = Inr 0"
  shows "vdso_tables m base dyn i strtab symtab =
    Some (Inr (case map_of (rev ds) 5 of None \<Rightarrow> strtab | Some p \<Rightarrow> base + p,
               case map_of (rev ds) 6 of None \<Rightarrow> symtab | Some p \<Rightarrow> base + p))"
  using assms
proof (induction ds arbitrary: i strtab symtab)
  case Nil
  then show ?case by (subst vdso_tables.simps) simp
next
  case (Cons d ds)
  have d: "d_tag m dyn i = Inr (fst d)" "fst d \<noteq> 0" "d_ptr m dyn i = Inr (snd d)" using Cons.prems(1) by force+
  have "\<forall>k < length ds. d_tag m dyn (i + 1 + k) = Inr (fst (ds ! k)) \<and> fst (ds ! k) \<noteq> 0 \<and>
      d_ptr m dyn (i + 1 + k) = Inr (snd (ds ! k))"
  proof (intro allI impI)
    fix k assume "k < length ds"
    then show "d_tag m dyn (i + 1 + k) = Inr (fst (ds ! k)) \<and> fst (ds ! k) \<noteq> 0 \<and>
        d_ptr m dyn (i + 1 + k) = Inr (snd (ds ! k))" using Cons.prems(1) [rule_format, of "Suc k"] by simp
  qed
  moreover have "d_tag m dyn (i + 1 + length ds) = Inr 0" using Cons.prems(2) by simp
  ultimately show ?case
    using Cons.IH [of "i + 1"] d by (cases d) (subst vdso_tables.simps, auto simp: map_add_def split: option.splits)
qed

lemma image_tables:
  assumes "elf_image m base ds"
  shows "\<exists>dyn. vdso_dynamic m base = Inr dyn \<and> dyn \<noteq> 0 \<and>
    vdso_tables m base dyn 0 0 0 = Some (Inr (table_of base 5 ds, table_of base 6 ds))"
proof -
  obtain off num i o' where e: "e_phoff m base = Inr off" "e_phnum m base = Inr num" "i < unat num"
      "\<forall>j < i. \<exists>ty. p_type m (base + off) j = Inr ty \<and> ty \<noteq> 2" "p_type m (base + off) i = Inr 2"
      "p_offset m (base + off) i = Inr o'" "base + o' \<noteq> 0"
      "\<forall>k < length ds. d_tag m (base + o') k = Inr (fst (ds ! k)) \<and> fst (ds ! k) \<noteq> 0 \<and>
        d_ptr m (base + o') k = Inr (snd (ds ! k))"
      "d_tag m (base + o') (length ds) = Inr 0"
    using assms unfolding elf_image_def by blast
  have "vdso_dynamic m base = Inr (base + o')"
    using e(1,2) phdr_scan_first [OF e(4-6) _ e(3), of 0] by (simp add: vdso_dynamic_def)
  moreover have "vdso_tables m base (base + o') 0 0 0 = Some (Inr (table_of base 5 ds, table_of base 6 ds))"
    using vdso_tables_scan [of ds m "base + o'" 0 base 0 0] e(8,9) by (simp add: table_of_def)
  ultimately show ?thesis using e(7) by blast
qed

lemma sym_matches_cases:
  assumes "has_nul name"
  shows "sym_named m strtab symtab (cstr name) i \<Longrightarrow> sym_matches m strtab symtab name (length (cstr name)) i = Inr True"
    and "sym_other m strtab symtab (cstr name) i \<Longrightarrow> sym_matches m strtab symtab name (length (cstr name)) i = Inr False"
proof -
  let ?nm = "cstr name"
  obtain r where n: "name = ?nm @ 0 # r" using has_nul_split [OF assms] by auto
  have t: "take (length ?nm + 1) name = ?nm @ [0]" by (subst n) simp
  have l: "length ?nm + 1 \<le> length name" using length_cstr_less [OF assms] by simp
  have cmp: "\<exists>c. cg_memcmp_avx2 b name (length ?nm + 1) = Inr c \<and> (c = 0 \<longleftrightarrow> b = ?nm @ [0])"
    if "length b = length ?nm + 1" for b
    using memcmp_bytes_zero [of "length ?nm + 1" b name] l t that by (auto simp: cg_memcmp_avx2_bytes)
  show "sym_matches m strtab symtab name (length ?nm) i = Inr True" if named: "sym_named m strtab symtab ?nm i"
  proof -
    obtain o' where o': "st_name m symtab i = Inr o'" "o' \<noteq> 0" "readable m (strtab + o') (length ?nm + 1) = ?nm @ [0]"
      using named unfolding sym_named_def by blast
    then show ?thesis using cmp [of "?nm @ [0]"] by (auto simp: sym_matches_def simp del: readable.simps)
  qed
  show "sym_matches m strtab symtab name (length ?nm) i = Inr False" if other: "sym_other m strtab symtab ?nm i"
  proof -
    obtain o' where o': "st_name m symtab i = Inr o'" "o' = 0 \<or> length (readable m (strtab + o') (length ?nm + 1)) = length ?nm + 1 \<and>
        readable m (strtab + o') (length ?nm + 1) \<noteq> ?nm @ [0]" using other unfolding sym_other_def by blast
    then show ?thesis
      using cmp [of "readable m (strtab + o') (length ?nm + 1)"] by (auto simp: sym_matches_def simp del: readable.simps)
  qed
qed

lemma vdso_symbols_skip:
  assumes "has_nul name" and "\<forall>j \<in> set js. sym_other m strtab symtab (cstr name) j"
  shows "vdso_symbols m strtab symtab name (length (cstr name)) (js @ is) =
    vdso_symbols m strtab symtab name (length (cstr name)) is"
  using assms(2) sym_matches_cases(2) [OF assms(1)] by (induction js) simp_all

text \<open>What the lookup does with the first fifty symbols, in the order of the table.\<close>

lemma vdso_func_scans:
  assumes "base \<noteq> 0" and "elf_image m base ds" and "table_of base 5 ds \<noteq> 0" and "table_of base 6 ds \<noteq> 0"
    and "has_nul name"
  shows "cg_vdso_func m base (Some name) =
    cbind (vdso_symbols m (table_of base 5 ds) (table_of base 6 ds) name (length (cstr name)) [0..<50]) (\<lambda>r.
      case r of None \<Rightarrow> Inr 0 | Some i \<Rightarrow> cbind (st_value m (table_of base 6 ds) i) (\<lambda>v. Inr (base + v)))"
  using image_tables [OF assms(2)] assms(1,3-5) by (auto simp: cg_vdso_func_def simp del: upt_rec_numeral)

lemma vdso_symbols_reach:
  assumes "has_nul name" and "i < 50" and "\<forall>j < i. sym_other m strtab symtab (cstr name) j"
  shows "vdso_symbols m strtab symtab name (length (cstr name)) [0..<50] =
    cbind (sym_matches m strtab symtab name (length (cstr name)) i) (\<lambda>found.
      if found then Inr (Some i) else vdso_symbols m strtab symtab name (length (cstr name)) [Suc i..<50])"
proof -
  have "[0..<50] = [0..<i] @ i # [Suc i..<50]"
    using assms(2) upt_add_eq_append [of 0 i "50 - i"] by (simp add: upt_conv_Cons del: upt_rec_numeral)
  then show ?thesis using vdso_symbols_skip [OF assms(1), of "[0..<i]"] assms(3) by simp
qed

section \<open>The clock function\<close>

text \<open>\<open>cg_time_init\<close> leaves the address of the vDSO clock, or 0, in \<open>g_vdso_gettime\<close>.\<close>

definition cg_time_init :: "vmem \<Rightarrow> (byte list list \<times> auxv) option \<Rightarrow> u64 cres" where
  "cg_time_init m envp =
     (let vdso_base_addr = cg_vdso_base_addr envp
      in cg_vdso_func m vdso_base_addr (Some (lit ''__vdso_clock_gettime'')))"

end
