(* ===== verification/CG_Log.thy ===== *)
theory CG_Log
  imports CG_Mem CG_Text
begin

text \<open>
  The log lines of \<open>src/platform/cg_log.c\<close>. A vectored write puts the bytes of its vectors
  one after the other, so the model of a call is the bytes it hands to the kernel. The text of
  a timestamp is a buffer of at least 19 bytes without a terminator.
\<close>

section \<open>Vectors\<close>

text \<open>One \<open>struct iovec\<close>: the object that starts at the base, and the length.\<close>

type_synonym iovec = "byte list \<times> nat"

fun writev_bytes :: "iovec list \<Rightarrow> byte list cres" where
  "writev_bytes [] = Inr []"
| "writev_bytes ((base, len) # iov) =
     cbind (buf_slice base 0 len) (\<lambda>bs. cbind (writev_bytes iov) (\<lambda>rest. Inr (bs @ rest)))"

section \<open>Log lines\<close>

definition cg_log_write :: "byte list \<Rightarrow> byte list \<Rightarrow> byte list \<Rightarrow> byte list \<Rightarrow> byte list cres" where
  "cg_log_write level file line msg =
     cbind (cg_strlen file) (\<lambda>file_len.
     cbind (cg_strlen line) (\<lambda>line_len.
     cbind (cg_strlen level) (\<lambda>level_len.
     cbind (cg_strlen msg) (\<lambda>msg_len.
       writev_bytes
         [(lit ''('', 1), (file, file_len), (lit ''.'', 1), (line, line_len), (lit '') ['', 3),
          (level, level_len), (lit ''] '', 2), (msg, msg_len)]))))"

definition cg_log_write_ts ::
  "byte list \<Rightarrow> byte list \<Rightarrow> byte list \<Rightarrow> byte list \<Rightarrow> byte list \<Rightarrow> byte list cres" where
  "cg_log_write_ts datetime level file line msg =
     cbind (cg_strlen file) (\<lambda>file_len.
     cbind (cg_strlen line) (\<lambda>line_len.
     cbind (cg_strlen level) (\<lambda>level_len.
     cbind (cg_strlen msg) (\<lambda>msg_len.
       writev_bytes
         [(datetime, 19), (lit '': ('', 3), (file, file_len), (lit ''.'', 1), (line, line_len),
          (lit '') ['', 3), (level, level_len), (lit ''] '', 2), (msg, msg_len)]))))"

section \<open>What a line looks like\<close>

lemma writev_cstr:
  "has_nul s \<Longrightarrow> writev_bytes ((s, length (cstr s)) # iov) =
     cbind (writev_bytes iov) (\<lambda>rest. Inr (cstr s @ rest))"
  using length_cstr_less [of s] by (simp add: buf_slice_ok take_cstr)

lemma writev_lit:
  "n = length s \<Longrightarrow> writev_bytes ((lit s, n) # iov) = cbind (writev_bytes iov) (\<lambda>rest. Inr (str s @ rest))"
  by (simp add: buf_slice_ok lit_def)

definition log_text :: "byte list \<Rightarrow> byte list \<Rightarrow> byte list \<Rightarrow> byte list \<Rightarrow> byte list" where
  "log_text level file line msg =
     str ''('' @ file @ str ''.'' @ line @ str '') ['' @ level @ str ''] '' @ msg"

lemma log_write_text:
  assumes "has_nul level" and "has_nul file" and "has_nul line" and "has_nul msg"
  shows "cg_log_write level file line msg = Inr (log_text (cstr level) (cstr file) (cstr line) (cstr msg))"
  using assms
  by (simp add: cg_log_write_def log_text_def writev_cstr writev_lit del: writev_bytes.simps(2))

lemma log_write_ts_text:
  assumes "has_nul level" and "has_nul file" and "has_nul line" and "has_nul msg"
    and "19 \<le> length datetime"
  shows "cg_log_write_ts datetime level file line msg =
    Inr (take 19 datetime @ str '': '' @ log_text (cstr level) (cstr file) (cstr line) (cstr msg))"
proof -
  have "writev_bytes ((datetime, 19) # iov) = cbind (writev_bytes iov) (\<lambda>rest. Inr (take 19 datetime @ rest))"
    for iov using assms(5) by (simp add: buf_slice_ok)
  then show ?thesis
    using assms
    by (simp add: cg_log_write_ts_def log_text_def writev_cstr writev_lit str_def
        del: writev_bytes.simps(2))
qed

end
