(* ===== verification/CG_Spec_Wire.thy ===== *)
theory CG_Spec_Wire
  imports CG_Examples CG_Profiles CG_Time CG_Env CG_Log
begin

text \<open>
  The properties of what goes over the wire: the parameters and the body of a request, the
  records of the answer, forms and cookies, and the routines on bytes, numbers and dates that
  these rest on.
\<close>

section \<open>Parameters and cookies\<close>

text \<open>
  C15: Decoding the parameters of a request inverts their encoding, for lengths of one and of
  four bytes and any number of pairs: on a PARAMS record whose content is the encoding of a
  list of pairs, the request's path, method and session cookie become what the pairs say in
  their order, the path without its query and cut to the field's size, and every other pair
  is skipped.
\<close>

theorem params_roundtrip:
  assumes "req_shape req" and "take (unat cl) payload = enc_pairs ps"
    and "unat cl = length (enc_pairs ps)" and "unat cl \<le> length payload"
  shows "\<exists>req'. cg_fastcgi_handle_params req payload cl = Inr req' \<and> req_shape req' \<and>
    view_req req' = fold view_pair ps (view_req req)"
  using assms by (rule handle_params_enc)

definition sample_pairs :: "(byte list \<times> byte list) list" where
  "sample_pairs = [(str ''REQUEST_METHOD'', str ''POST''), (str ''QUERY'', str ''x''),
     (str ''REQUEST_URI'', str ''/api?x=1'')]"

theorem params_roundtrip_witness:
  "\<exists>req'. cg_fastcgi_handle_params new_request (enc_pairs sample_pairs)
      (word_of_nat (length (enc_pairs sample_pairs))) = Inr req' \<and>
    view_req req' = (str ''/api'', str ''POST'', [])"
proof -
  have len: "length (enc_pairs sample_pairs) = 49"
    by (simp add: sample_pairs_def enc_pairs_def enc_pair_def enc_len_def)
  have v: "view_req new_request = ([], [], [])"
    by (simp add: view_req_def new_request_def cstr_def)
  have "fold view_pair sample_pairs ([], [], []) = (str ''/api'', str ''POST'', [])"
    by (simp add: sample_pairs_def) (simp add: str_def cstr_def of_char_def)
  then show ?thesis
    using params_roundtrip [OF new_request_shape, of 49 "enc_pairs sample_pairs" sample_pairs] v
    by (simp add: len) blast
qed







section \<open>The parser\<close>



text \<open>
  C34: Parameters that end in a cut-off length make the server hang: in a PARAMS record that holds
  any number of complete pairs and behind them one, two or three more bytes, of which the first
  says that a name with a length of four bytes begins, the loop over the parameters stays at this
  byte forever.
\<close>

theorem truncated_length_hangs:
  assumes "req_shape req" and "take (unat cl) payload = enc_pairs ps @ t" and "unat cl = length (enc_pairs ps @ t)"
    and "unat cl \<le> length payload" and "t \<noteq> []" and "length t < 4" and "128 \<le> hd t"
  shows "cg_fastcgi_handle_params req payload cl = Inl Diverges"
  using assms by (rule handle_params_truncated)

theorem truncated_length_hangs_witness:
  "cg_fastcgi_handle_params new_request (enc_pairs sample_pairs @ [200, 1]) 51 = Inl Diverges"
proof -
  have "length (enc_pairs sample_pairs) = 49" by (simp add: sample_pairs_def enc_pairs_def enc_pair_def enc_len_def)
  then show ?thesis
    using truncated_length_hangs [OF new_request_shape, of 51 "enc_pairs sample_pairs @ [200, 1]" sample_pairs "[200, 1]"] by simp
qed

section \<open>Records of the answer\<close>

text \<open>
  A body that fits is appended to the answer as one STDOUT record, with its length and the
  request's identifier in the byte order of the protocol, and the end of the answer is the empty
  STDOUT record and the END_REQUEST record with status 0. What does not fit is dropped whole,
  without an error.
\<close>

lemma answer_records:
  assumes "tx_ok tx" and "unat resp_len = length body"
  shows "if unat (meta_valid tx) + 8 + length body \<le> 65790
    then \<exists>tx'. cg_fastcgi_stdout tx rid body resp_len = Inr tx' \<and> tx_ok tx' \<and>
      tx_text tx' = tx_text tx @ stdout_record rid body \<and>
      (unat (meta_valid tx') + 24 \<le> 65790 \<longrightarrow>
       (\<exists>tx''. cg_fastcgi_end tx' rid = Inr tx'' \<and> tx_ok tx'' \<and>
          tx_text tx'' = tx_text tx @ stdout_record rid body @ stdout_record rid [] @ end_record rid))
    else cg_fastcgi_stdout tx rid body resp_len = Inr tx"
proof (cases "unat (meta_valid tx) + 8 + length body \<le> 65790")
  case True
  then obtain tx' where tx': "cg_fastcgi_stdout tx rid body resp_len = Inr tx'" "tx_ok tx'"
      "tx_text tx' = tx_text tx @ stdout_record rid body"
    using fastcgi_stdout_ok [OF assms(1) True assms(2), of body rid] by auto
  have "\<exists>tx''. cg_fastcgi_end tx' rid = Inr tx'' \<and> tx_ok tx'' \<and>
      tx_text tx'' = tx_text tx @ stdout_record rid body @ stdout_record rid [] @ end_record rid"
    if "unat (meta_valid tx') + 24 \<le> 65790"
    using fastcgi_end_ok [OF tx'(2) that, of rid] tx'(3) by auto
  then show ?thesis using True tx' by auto
next
  case False
  then show ?thesis using fastcgi_stdout_dropped [OF _ assms(1), of resp_len rid body] assms(2) by simp
qed

lemma answer_records_instance:
  "\<exists>tx'. cg_fastcgi_stdout new_buffer 1 [72, 105] 2 = Inr tx' \<and>
    tx_text tx' = stdout_record 1 [72, 105]"
  using answer_records [OF new_buffer_ok(1), of 2 "[72, 105]" 1] new_buffer_ok(3)
  by (auto simp: new_buffer_def)

section \<open>Forms\<close>

text \<open>
  C30: Decoding a form inverts its encoding: in the body that a browser sends for a list of
  fields, percent signs and plus signs and all, the value found for a key is the first one that
  the list has for it, and a key that the list does not have is reported as missing.
\<close>

theorem form_roundtrip:
  assumes "plain_key key" and "\<forall>f \<in> set fs. plain_key (fst f)" and "1 \<le> cap"
  shows "cg_get_form_value (enc_form fs @ 0 # r) (key @ [0]) cap =
    (case map_of fs key of
       None \<Rightarrow> Inr (False, [])
     | Some t \<Rightarrow> if length t + 1 \<le> cap then Inr (True, t) else Inl Out_Of_Bounds)"
proof -
  have k: "0 \<notin> set key" using assms(1) by (simp add: plain_key_def)
  then have "cstr (key @ [0]) = key" by simp
  then show ?thesis
    using form_scan_form [OF assms(1,2), of r] assms(3)
    by (simp add: cg_get_form_value_def split: option.split)
qed

theorem form_roundtrip_witness:
  "cg_get_form_value (enc_form [([97], [32, 37, 0xC3]), ([98], [50])] @ [0]) [97, 0] 64 = Inr (True, [32, 37, 0xC3])"
  using form_roundtrip [of "[97]" "[([97], [32, 37, 0xC3]), ([98], [50])]" 64 "[]"]
  by (simp add: plain_key_def)

section \<open>Numbers, texts and dates\<close>

text \<open>
  The number formatting of the answers writes the shortest decimal text of any 64-bit
  number, without a division, into a buffer of 21 bytes or more, and reading the text back gives
  the number.
\<close>

lemma utoa_roundtrip:
  assumes "21 \<le> length buf"
  shows "\<exists>buf' p len. cg_utoa n buf = Inr (buf', p, len) \<and> length buf' = length buf \<and> len \<le> 20 \<and>
    take len (drop p buf') = dec (unat n) \<and> dec_value (take len (drop p buf')) = unat n \<and> buf' ! (p + len) = 0"
proof -
  let ?d = "dec (unat n)" and ?p = "20 - length (dec (unat n))"
  have l: "length ?d \<le> 20" by (rule length_dec_u64)
  then have b: "?p + length (?d @ [0]) \<le> length buf" using assms by simp
  have "take (length ?d) (drop ?p (buf_splice buf ?p (?d @ [0]))) = ?d"
    using buf_splice_slice [OF b, of "length ?d"] by simp
  moreover have "buf_splice buf ?p (?d @ [0]) ! (?p + length ?d) = 0"
    using nth_buf_splice [OF b, of "?p + length ?d"] l assms by simp
  ultimately show ?thesis using cg_utoa_eq [OF assms, of n] l b by simp
qed

lemma utoa_roundtrip_instance:
  "\<exists>buf' p len. cg_utoa 42 (replicate 32 0) = Inr (buf', p, len) \<and> take len (drop p buf') = dec 42"
  using utoa_roundtrip [of "replicate 32 0" 42] by auto

text \<open>
  C39: The text that a user wrote is escaped for a JSON answer so that it stays inside its
  string: whatever the bytes are, the result has no control character, no quote that is not
  escaped, and no backslash that does not begin one of the allowed escapes, and it is at most
  twice as long.
\<close>

theorem json_text_contained:
  assumes "has_nul s" and "length p + 2 * length (cstr s) \<le> cap"
  shows "\<exists>t. append_json_escaped cap p s = Inr (p @ t) \<and> json_string_body t \<and> length t \<le> 2 * length (cstr s)"
  using append_json_escaped_ok [OF assms(1), of p cap] length_json_text_of [of "cstr s"] assms(2)
    json_escaped_body [of "cstr s"] by auto

theorem json_text_contained_witness:
  "\<exists>t. append_json_escaped 64 [] [34, 60, 10, 0] = Inr t \<and> json_string_body t"
  using json_text_contained [of "[34, 60, 10, 0]" "[]" 64] by auto

text \<open>
  C32: The date of the log is the date of the calendar: for the 32-bit seconds of the clock the
  text is that of a valid date and time, the date is the one whose number of days since 1970 is
  the seconds' whole days, leap years and centuries included, and only the digits of the buffer
  are overwritten.
\<close>

theorem datetime_correct:
  assumes "19 \<le> length out"
  shows "\<exists>y m d. cg_datetime_str_get now out =
      Inr (datetime_text out y m d (unat (ucast now :: u32) mod 86400)) \<and>
    valid_date y m d \<and> y < 10000 \<and> day_number y m d = unat (ucast now :: u32) div 86400"
proof -
  obtain y m d where c: "civil_nat (unat (ucast now :: u32) div 86400) = (y, m, d)" by (metis prod_cases3)
  have "unat (ucast now :: u32) div 86400 \<le> 49710" using u32_le [of "ucast now"] by simp
  then have "y < 10000" using civil_nat_bounds(1) c by blast
  then show ?thesis using datetime_str_correct [OF assms c] civil_nat_correct [OF c] by blast
qed

theorem datetime_correct_witness:
  "\<exists>y m d. cg_datetime_str_get 951782400 (replicate 20 45) =
      Inr (datetime_text (replicate 20 45) y m d 0) \<and> day_number y m d = 11016"
  using datetime_correct [of "replicate 20 45" 951782400] by simp blast

section \<open>Bytes\<close>

text \<open>
  The hash of strings, eight bytes at a time with the processor's instruction, is the
  CRC-32C of the bytes one by one, for every length and remainder.
\<close>

lemma hash_str_is_crc:
  assumes "len \<le> length p"
  shows "cg_hash_str p len = Inr (ucast (crc32c (take len p)))"
  using assms by (rule cg_hash_str_crc)

lemma hash_str_is_crc_instance: "cg_hash_str (lit ''/api/auth/guest'') 15 = Inr 0x7f3863d"
proof -
  have "take 15 (lit ''/api/auth/guest'') = str ''/api/auth/guest''" by (simp add: lit_def)
  then show ?thesis
    using hash_str_is_crc [of 15 "lit ''/api/auth/guest''"] path_crcs(1) by (simp add: lit_def)
qed

section \<open>Platform\<close>

text \<open>
  The path of the socket comes from the last variable of the environment that is named
  FASTCGI_SOCK, whatever other strings there are, with or without an equals sign, and is the
  default when there is none.
\<close>

lemma socket_path_from_env:
  assumes "\<forall>e \<in> set strs. has_nul e"
  shows "\<exists>env b. cg_env_init (Some (strs, av)) (Some env0) base = Inr (Some env, b) \<and>
    has_nul (fastcgi_sock env) \<and> cstr (fastcgi_sock env) = socket_path strs \<and>
    fastcgi_sock_len env = length (socket_path strs)"
  using assms by (rule env_init_path)

lemma socket_path_from_env_instance:
  "\<exists>env b. cg_env_init (Some ([lit ''A'', lit ''FASTCGI_SOCK=/x''], [])) (Some cg_env_default) 0 = Inr (Some env, b) \<and>
    cstr (fastcgi_sock env) = str ''/x''"
proof -
  have "socket_path [lit ''A'', lit ''FASTCGI_SOCK=/x''] = str ''/x''"
    by (simp add: socket_path_def env_pair_def lit_def str_def Let_def List.map_filter_simps)
  then show ?thesis
    using socket_path_from_env [of "[lit ''A'', lit ''FASTCGI_SOCK=/x'']" "[]" cg_env_default 0] by auto
qed

text \<open>
  C40: A function of the vDSO is found by its name: in an image with a dynamic section that names a
  string table and a symbol table, the first fifty symbols are compared with the name, in their
  order and to the end of the name. The first that has exactly this name gives the address, its
  value on top of the base modulo two to the 64; when none of the fifty has it, the answer is 0.
  When the memory ends before the fifty are compared, the read behind it fails: how many symbols
  there are is never looked up.
\<close>

theorem vdso_lookup:
  assumes "base \<noteq> 0" and "elf_image m base ds" and "strtab = table_of base 5 ds" and "symtab = table_of base 6 ds"
    and "strtab \<noteq> 0" and "symtab \<noteq> 0" and "has_nul name"
  shows "(\<forall>i < 50. (\<forall>j < i. sym_other m strtab symtab (cstr name) j) \<longrightarrow> sym_named m strtab symtab (cstr name) i \<longrightarrow>
      cg_vdso_func m base (Some name) = cbind (st_value m symtab i) (\<lambda>v. Inr (base + v))) \<and>
    ((\<forall>j < 50. sym_other m strtab symtab (cstr name) j) \<longrightarrow> cg_vdso_func m base (Some name) = Inr 0) \<and>
    (\<forall>i < 50. \<forall>e. (\<forall>j < i. sym_other m strtab symtab (cstr name) j) \<longrightarrow> st_name m symtab i = Inl e \<longrightarrow>
      cg_vdso_func m base (Some name) = Inl e)"
proof -
  note scan = vdso_func_scans [OF assms(1,2) assms(5,6) [unfolded assms(3,4)] assms(7), folded assms(3,4)]
  have "cg_vdso_func m base (Some name) = Inr 0" if "\<forall>j < 50. sym_other m strtab symtab (cstr name) j"
    using scan vdso_symbols_skip [OF assms(7), of "[0..<50]" m strtab symtab "[]"] that by (simp del: upt_rec_numeral)
  moreover have "cg_vdso_func m base (Some name) = cbind (st_value m symtab i) (\<lambda>v. Inr (base + v))"
    if "i < 50" "\<forall>j < i. sym_other m strtab symtab (cstr name) j" "sym_named m strtab symtab (cstr name) i" for i
    using scan vdso_symbols_reach [OF assms(7) that(1,2)] sym_matches_cases(1) [OF assms(7) that(3)]
    by (simp del: upt_rec_numeral)
  moreover have "cg_vdso_func m base (Some name) = Inl e"
    if "i < 50" "\<forall>j < i. sym_other m strtab symtab (cstr name) j" "st_name m symtab i = Inl e" for i e
    using scan vdso_symbols_reach [OF assms(7) that(1,2)] that(3) by (simp add: sym_matches_def del: upt_rec_numeral)
  ultimately show ?thesis by blast
qed

text \<open>An image of 268 bytes with two symbols: the one named f is found, and the search for g runs out of the image.\<close>

definition small_vdso :: vmem where
  "small_vdso = (\<lambda>a. if 4096 \<le> a \<and> a < 4364 then Some 0 else None)(4128 \<mapsto> 64, 4152 \<mapsto> 1, 4160 \<mapsto> 2, 4168 \<mapsto> 120,
     4216 \<mapsto> 5, 4224 \<mapsto> 200, 4232 \<mapsto> 6, 4240 \<mapsto> 220, 4297 \<mapsto> 102, 4340 \<mapsto> 1, 4348 \<mapsto> 240)"

lemma small_vdso_fields:
  "e_phoff small_vdso 4096 = Inr 64" "e_phnum small_vdso 4096 = Inr 1" "p_type small_vdso 4160 0 = Inr 2"
  "p_offset small_vdso 4160 0 = Inr 120" "d_tag small_vdso 4216 0 = Inr 5" "d_ptr small_vdso 4216 0 = Inr 200"
  "d_tag small_vdso 4216 1 = Inr 6" "d_ptr small_vdso 4216 1 = Inr 220" "d_tag small_vdso 4216 2 = Inr 0"
  "st_name small_vdso 4316 0 = Inr 0" "st_name small_vdso 4316 1 = Inr 1" "st_name small_vdso 4316 2 = Inl Out_Of_Bounds"
  "st_value small_vdso 4316 1 = Inr 240" "readable small_vdso 4297 2 = [102, 0]"
  by code_simp+

lemma small_vdso_image: "elf_image small_vdso 4096 [(5, 200), (6, 220)]"
proof -
  let ?ds = "[(5, 200), (6, 220)] :: (u64 \<times> u64) list"
  have "\<forall>k < length ?ds. d_tag small_vdso (4096 + 120) k = Inr (fst (?ds ! k)) \<and> fst (?ds ! k) \<noteq> 0 \<and>
      d_ptr small_vdso (4096 + 120) k = Inr (snd (?ds ! k))"
    using small_vdso_fields(5-8) by (auto simp: less_Suc_eq)
  moreover have "d_tag small_vdso (4096 + 120) (length ?ds) = Inr 0"
    using small_vdso_fields(9) by (simp add: numeral_2_eq_2)
  ultimately show ?thesis
    unfolding elf_image_def using small_vdso_fields(1-4)
    by - (rule exI [of _ 64], rule exI [of _ 1], rule exI [of _ 0], rule exI [of _ 120], simp)
qed

theorem vdso_lookup_witness:
  "cg_vdso_func small_vdso 4096 (Some (lit ''f'')) = Inr 4336 \<and>
   cg_vdso_func small_vdso 4096 (Some (lit ''g'')) = Inl Out_Of_Bounds"
proof -
  have names: "cstr (lit ''f'') = [102]" "cstr (lit ''g'') = [103]" by (simp_all add: lit_def str_def)
  have tabs: "table_of 4096 5 [(5, 200), (6, 220)] = 4296" "table_of 4096 6 [(5, 200), (6, 220)] = 4316"
    by (simp_all add: table_of_def)
  note look = vdso_lookup [OF _ small_vdso_image tabs [symmetric]]
  have others: "sym_other small_vdso 4296 4316 nm 0" "sym_other small_vdso 4296 4316 [103] 1"
      "sym_named small_vdso 4296 4316 [102] 1" for nm
    using small_vdso_fields(10,11,14)
    by (simp_all add: sym_other_def sym_named_def one_add_one [symmetric] del: readable.simps One_nat_def one_add_one)
  have "cg_vdso_func small_vdso 4096 (Some (lit ''f'')) = cbind (st_value small_vdso 4316 1) (\<lambda>v. Inr (4096 + v))"
    using look [of "lit ''f''"] others by (auto simp: names)
  moreover have "cg_vdso_func small_vdso 4096 (Some (lit ''g'')) = Inl Out_Of_Bounds"
  proof -
    have "\<forall>j < 2. sym_other small_vdso 4296 4316 (cstr (lit ''g'')) j"
      using others by (auto simp: names less_2_cases_iff)
    moreover have "has_nul (lit ''g'')" by (simp add: lit_def)
    ultimately show ?thesis using look [THEN conjunct2, THEN conjunct2, rule_format, of "lit ''g''" 2] small_vdso_fields(12) by simp
  qed
  ultimately show ?thesis using small_vdso_fields(13) by simp
qed

end
