(* ===== verification/CG_Leaderboard.thy ===== *)
theory CG_Leaderboard
  imports CG_Profiles "HOL-Library.Multiset"
begin

text \<open>
  The leaderboard: the pass over the pool keeps ten slots, and they end as the first ten of the
  active users ranked by points, users with equal points in the order of the pool.
\<close>

section \<open>Ranking\<close>

text \<open>A stable ranking, highest first: a new element goes after all that are at least as high.\<close>

definition insert_ranked :: "('a \<Rightarrow> nat) \<Rightarrow> 'a \<Rightarrow> 'a list \<Rightarrow> 'a list" where
  "insert_ranked f x xs = takeWhile (\<lambda>y. f x \<le> f y) xs @ x # dropWhile (\<lambda>y. f x \<le> f y) xs"

definition ranked :: "('a \<Rightarrow> nat) \<Rightarrow> 'a list \<Rightarrow> 'a list" where
  "ranked f xs = fold (insert_ranked f) xs []"

lemma ranked_snoc: "ranked f (xs @ [x]) = insert_ranked f x (ranked f xs)"
  by (simp add: ranked_def)

lemma mset_insert_ranked: "mset (insert_ranked f x xs) = add_mset x (mset xs)"
proof -
  have "mset xs = mset (takeWhile (\<lambda>y. f x \<le> f y) xs) + mset (dropWhile (\<lambda>y. f x \<le> f y) xs)"
    by (metis mset_append takeWhile_dropWhile_id)
  then show ?thesis by (simp add: insert_ranked_def)
qed

lemma sorted_insert_ranked:
  assumes "sorted_wrt (\<lambda>a b. f b \<le> f a) xs"
  shows "sorted_wrt (\<lambda>a b. f b \<le> f a) (insert_ranked f x xs)"
  using assms
proof (induction xs)
  case (Cons y xs)
  then show ?case
    by (auto simp: insert_ranked_def dest: set_takeWhileD set_dropWhileD intro: order_trans)
qed (simp add: insert_ranked_def)

lemma filter_insert_ranked:
  assumes "sorted_wrt (\<lambda>a b. f b \<le> f a) xs"
  shows "filter (\<lambda>y. f y = c) (insert_ranked f x xs) = filter (\<lambda>y. f y = c) xs @ (if f x = c then [x] else [])"
  using assms
proof (induction xs)
  case (Cons y xs)
  show ?case
  proof (cases "f x \<le> f y")
    case True
    then show ?thesis using Cons by (simp add: insert_ranked_def)
  next
    case False
    then have "filter (\<lambda>y. f y = f x) (y # xs) = []"
      using Cons.prems by (auto simp: filter_empty_conv)
    then show ?thesis using False by (auto simp: insert_ranked_def)
  qed
qed (simp add: insert_ranked_def)

text \<open>The ranking is a permutation, sorted, and stable: these three determine it.\<close>

lemma ranked_props:
  "mset (ranked f xs) = mset xs" "sorted_wrt (\<lambda>a b. f b \<le> f a) (ranked f xs)"
  "filter (\<lambda>y. f y = c) (ranked f xs) = filter (\<lambda>y. f y = c) xs"
proof -
  have "mset (ranked f xs) = mset xs \<and> sorted_wrt (\<lambda>a b. f b \<le> f a) (ranked f xs) \<and>
      filter (\<lambda>y. f y = c) (ranked f xs) = filter (\<lambda>y. f y = c) xs"
  proof (induction xs rule: rev_induct)
    case Nil
    then show ?case by (simp add: ranked_def)
  next
    case (snoc x xs)
    then show ?case
      by (simp add: ranked_snoc mset_insert_ranked sorted_insert_ranked filter_insert_ranked)
  qed
  then show "mset (ranked f xs) = mset xs" "sorted_wrt (\<lambda>a b. f b \<le> f a) (ranked f xs)"
    "filter (\<lambda>y. f y = c) (ranked f xs) = filter (\<lambda>y. f y = c) xs" by simp_all
qed

section \<open>The ten slots\<close>

definition slots :: "nat list \<Rightarrow> nat option list" where
  "slots xs = take 10 (map Some xs @ replicate 10 None)"

lemma length_slots [simp]: "length (slots xs) = 10"
  by (simp add: slots_def)

abbreviation points_at :: "cg_userdb_entry list \<Rightarrow> nat \<Rightarrow> nat" where
  "points_at pool i \<equiv> unat (total_points (pool ! i))"

lemma first_index_skip:
  assumes "\<forall>x \<in> set xs. \<not> P x"
  shows "first_index P (xs @ ys) = map_option (\<lambda>j. length xs + j) (first_index P ys)"
  using assms by (cases "first_index P ys"; induction xs) simp_all

lemma leaderboard_insert_slots:
  "leaderboard_insert pool i (slots xs) = slots (insert_ranked (points_at pool) i xs)"
proof -
  let ?f = "points_at pool"
  let ?N = "replicate 10 (None :: nat option)"
  define T where "T = takeWhile (\<lambda>y. ?f i \<le> ?f y) xs"
  define D where "D = dropWhile (\<lambda>y. ?f i \<le> ?f y) xs"
  define P where "P = (\<lambda>t. case t of None \<Rightarrow> True | Some n \<Rightarrow> total_points (pool ! n) < total_points (pool ! i))"
  have xs: "xs = T @ D" by (simp add: T_def D_def)
  have ins: "insert_ranked ?f i xs = T @ i # D" by (simp add: insert_ranked_def T_def D_def)
  have below: "\<not> P (Some y)" if "y \<in> set T" for y
    using that by (auto simp: T_def P_def word_less_nat_alt dest: set_takeWhileD)
  have sl: "slots xs = take 10 (map Some T) @ take (10 - length T) (map Some D @ ?N)"
    by (simp add: slots_def xs)
  have idx: "leaderboard_insert pool i (slots xs) =
      (case first_index P (slots xs) of None \<Rightarrow> slots xs
       | Some j \<Rightarrow> take j (slots xs) @ Some i # butlast (drop j (slots xs)))"
    by (simp add: leaderboard_insert_def P_def)
  show ?thesis
  proof (cases "length T < 10")
    case True
    have "P (hd (map Some D @ ?N))"
    proof (cases D)
      case (Cons d D')
      then have "\<not> ?f i \<le> ?f d" using hd_dropWhile [of "\<lambda>y. ?f i \<le> ?f y" xs] by (simp add: D_def)
      then show ?thesis using Cons by (simp add: P_def word_less_nat_alt)
    qed (simp add: P_def)
    then obtain h r where hr: "map Some D @ ?N = h # r" "P h" by (cases "map Some D @ ?N") auto
    have e: "take (length T) (slots xs) = map Some T"
        "drop (length T) (slots xs) = take (10 - length T) (map Some D @ ?N)"
      using True by (simp_all add: sl)
    have "first_index P (slots xs) = Some (length T)"
      using True below hr unfolding sl
      by (subst first_index_skip) (auto simp: take_Cons' dest: in_set_takeD)
    then have "leaderboard_insert pool i (slots xs) =
        map Some T @ Some i # butlast (take (10 - length T) (map Some D @ ?N))"
      unfolding idx by (simp only: option.case e)
    also have "butlast (take (10 - length T) (map Some D @ ?N)) = take (9 - length T) (map Some D @ ?N)"
      by (subst butlast_take) (use True in simp_all)
    also have "map Some T @ Some i # take (9 - length T) (map Some D @ ?N) = slots (T @ i # D)"
      using True by (simp add: slots_def take_Cons')
    finally show ?thesis by (simp only: ins)
  next
    case False
    then have "set (slots xs) \<subseteq> Some ` set T" using set_take_subset [of 10 "map Some T"] by (simp add: sl)
    then have "\<forall>t \<in> set (slots xs). \<not> P t" using below by blast
    then have "first_index P (slots xs) = None" by (simp add: first_index_None)
    then show ?thesis using False unfolding idx ins by (simp add: slots_def xs)
  qed
qed

definition active_slots :: "cg_userdb_entry list \<Rightarrow> nat list" where
  "active_slots pool = filter (\<lambda>i. user_active (pool ! i)) [0..<USERDB_POOL_SIZE]"

lemma leaderboard_top_ranked:
  "leaderboard_top pool = slots (ranked (points_at pool) (active_slots pool))"
proof -
  have "fold (\<lambda>i tops. if user_is_active (pool ! i) \<noteq> 0 then leaderboard_insert pool i tops else tops)
      is (slots xs) =
      slots (fold (insert_ranked (points_at pool)) (filter (\<lambda>i. user_active (pool ! i)) is) xs)" for "is" xs
    by (induction "is" arbitrary: xs) (simp_all add: leaderboard_insert_slots)
  from this [of "[0..<USERDB_POOL_SIZE]" "[]"] show ?thesis
    by (simp add: leaderboard_top_def ranked_def active_slots_def slots_def)
qed

section \<open>The response\<close>

definition row_text :: "cg_userdb_entry \<Rightarrow> byte list" where
  "row_text u = str ''{\"username\":\"'' @ name_text u @ str ''\",\"points\":'' @ points_text u @ str ''}''"

lemma length_row_text:
  assumes "user_shape u"
  shows "length (row_text u) \<le> 97"
  using field_lengths [OF assms] by (simp add: row_text_def)

fun rows_text :: "cg_userdb_entry list \<Rightarrow> bool \<Rightarrow> byte list" where
  "rows_text [] is_first = []"
| "rows_text (u # us) is_first = (if is_first then [] else str '','') @ row_text u @ rows_text us False"

lemma length_rows_text:
  assumes "\<forall>u \<in> set us. user_shape u"
  shows "length (rows_text us b) \<le> 98 * length us"
  using assms
proof (induction us arbitrary: b)
  case (Cons u us)
  then have "length (rows_text us False) \<le> 98 * length us" and "length (row_text u) \<le> 97"
    using length_row_text [of u] by simp_all
  then show ?case by simp
qed simp

lemma leaderboard_rows_ok:
  assumes "\<forall>i \<in> set is. user_shape (pool ! i)" and "length p + 98 * length is \<le> 2048"
  shows "leaderboard_rows pool (map Some is @ replicate n None) b p =
    Inr (p @ rows_text (map (\<lambda>i. pool ! i) is) b)"
  using assms
proof (induction "is" arbitrary: p b)
  case Nil
  then show ?case by (cases n) simp_all
next
  case (Cons i "is")
  let ?u = "pool ! i"
  have u: "user_shape ?u" using Cons.prems(1) by simp
  note fl = field_lengths [OF u]
  define q where "q = p @ (if b then [] else str '','')"
  have q: "(if \<not> b then append_str 2048 p (lit '','') else Inr p) = Inr q" "length q \<le> length p + 1"
    using Cons.prems(2) append_lit_ok [of "'',''" p 2048] by (auto simp: q_def)
  have one: "cbind (append_str 2048 q (lit ''{\"username\":\"'')) (\<lambda>p.
     cbind (append_json_escaped 2048 p (username ?u)) (\<lambda>p.
     cbind (append_str 2048 p (lit ''\",\"points\":'')) (\<lambda>p.
     cbind (append_uint 2048 p (ucast (total_points ?u))) (\<lambda>p.
     cbind (append_str 2048 p (lit ''}'')) f)))) = f (q @ row_text ?u)" for f
    using fl q(2) Cons.prems(2) by (simp add: append_lit_ok field_writes [OF u] row_text_def)
  have "leaderboard_rows pool (map Some is @ replicate n None) False (q @ row_text ?u) =
      Inr ((q @ row_text ?u) @ rows_text (map (\<lambda>i. pool ! i) is) False)"
    using Cons.prems length_row_text [OF u] q(2) by (intro Cons.IH) simp_all
  then show ?case by (simp add: q(1) one) (simp add: q_def)
qed

text \<open>The ten leaders, and the whole response.\<close>

definition leaders :: "cg_userdb_entry list \<Rightarrow> nat list" where
  "leaders pool = take 10 (ranked (points_at pool) (active_slots pool))"

definition leaderboard_body :: "cg_userdb_entry list \<Rightarrow> byte list" where
  "leaderboard_body pool = http_ok_text @ str ''{\"status\":\"success\",\"leaderboard\":['' @
     rows_text (map (\<lambda>i. pool ! i) (leaders pool)) True @ str '']}''"

lemma leaders_active: "set (leaders pool) \<subseteq> set (active_slots pool)"
  using mset_eq_setD [OF ranked_props(1) [of "points_at pool" "active_slots pool"]]
  by (auto simp: leaders_def dest: in_set_takeD)

lemma leaderboard_handler:
  assumes ready: "srv_ready srv" and shape: "req_shape req" and get: "uses_method req ''GET''"
    and udb: "srv_userdb srv = Some udb" "userdb_wf udb"
  shows "\<exists>srv'. cg_route_api_leaderboard k req srv = Inr srv' \<and>
    replied req (leaderboard_body (udb_pool udb)) srv srv'"
proof -
  let ?pool = "udb_pool udb"
  let ?us = "map (\<lambda>i. ?pool ! i) (leaders ?pool)"
  have "\<forall>i \<in> set (leaders ?pool). i < length ?pool"
    using leaders_active [of ?pool] userdb_wfD(1) [OF udb(2)] by (auto simp: active_slots_def)
  then have shapes: "\<forall>i \<in> set (leaders ?pool). user_shape (?pool ! i)"
    using userdb_wfD(2) [OF udb(2)] by simp
  have n: "length (leaders ?pool) \<le> 10" by (simp add: leaders_def)
  have l: "length (rows_text ?us True) \<le> 980"
    using length_rows_text [of ?us True] shapes n by auto
  have top10: "leaderboard_top ?pool = map Some (leaders ?pool) @
      replicate (10 - length (ranked (points_at ?pool) (active_slots ?pool))) None"
    by (simp add: leaderboard_top_ranked slots_def leaders_def take_map)
  let ?p = "http_ok_text @ str ''{\"status\":\"success\",\"leaderboard\":[''"
  have rows: "leaderboard_rows ?pool (leaderboard_top ?pool) True ?p = Inr (?p @ rows_text ?us True)"
    unfolding top10 using shapes n by (intro leaderboard_rows_ok) (simp_all add: length_http_ok_text)
  have "length (leaderboard_body ?pool) \<le> 60000"
    using l by (simp add: leaderboard_body_def length_http_ok_text)
  from reply_buf_ok [OF ready this, of req] show ?thesis
    using method_differs_shape [OF shape] get udb(1) rows l
    by (simp add: cg_route_api_leaderboard_def deref_def http_ok_written append_lit_ok
        length_http_ok_text leaderboard_body_def)
qed

end
