(* ===== verification/CG_Verify.thy ===== *)
theory CG_Verify
  imports CG_Leaderboard
begin

text \<open>
  The endpoint \<open>/api/challenge/verify\<close>: what it earns, what it answers, and what it changes in
  the record of the user. The challenge table enters only through two facts about its entries,
  which are evaluated on the table itself.
\<close>

section \<open>Questions\<close>

text \<open>The value of a form key that is given by its bytes.\<close>

definition field_at :: "byte list \<Rightarrow> byte list \<Rightarrow> byte list option" where
  "field_at form k = (case form_scan form k of Inl e \<Rightarrow> None | Inr r \<Rightarrow> r)"

lemma form_value_at:
  assumes "has_nul form" and "0 \<notin> set k" and "1 \<le> cap"
  shows "cg_get_form_value form (k @ [0]) cap =
    (case field_at form k of
       None \<Rightarrow> Inr (False, [])
     | Some t \<Rightarrow> if length t < cap then Inr (True, t) else Inl Out_Of_Bounds)"
proof -
  obtain r where "form_scan form k = Inr r" using form_scan_total assms(1,2) by blast
  then show ?thesis
    using assms(2,3) by (auto simp: cg_get_form_value_def field_at_def split: option.split)
qed

definition answer_key :: "cg_question \<Rightarrow> byte list" where
  "answer_key q = str ''q'' @ dec (unat (q_id q))"

lemma answer_key_no_nul: "0 \<notin> set (answer_key q)"
  using str_no_nul [of "''q''"] dec_no_nul by (simp add: answer_key_def)

lemma question_key_ok: "question_key q = Inr (answer_key q @ [0])"
  using length_dec_u32 [of "q_id q"]
  by (simp add: question_key_def append_lit_ok append_uint_ok append_bytes_ok answer_key_def unat_ucast_up)

definition right :: "cg_question \<Rightarrow> byte list \<Rightarrow> bool" where
  "right q t = (case q_answer q of
     Text_Answer expected \<Rightarrow> cstr t = cstr expected
   | Numeric_Answer n \<Rightarrow> submitted_number 0 t = n)"

text \<open>A question whose union has the member that its type names, and terminated texts.\<close>

definition question_ok :: "cg_question \<Rightarrow> bool" where
  "question_ok q \<longleftrightarrow> has_nul (q_explanation q) \<and>
     (case q_answer q of Text_Answer e \<Rightarrow> q_type q = CG_ANS_TEXT \<and> has_nul e
      | Numeric_Answer n \<Rightarrow> q_type q \<noteq> CG_ANS_TEXT)"

lemma answer_correct_ok:
  assumes "question_ok q"
  shows "answer_correct q t = Inr (right q t)"
proof (cases "q_answer q")
  case (Text_Answer e)
  have c: "cstr (t @ [0]) = cstr t" by (simp add: cstr_def takeWhile_tail)
  have "has_nul e" using assms Text_Answer by (simp add: question_ok_def)
  then obtain v where "cg_strcmp (t @ [0]) e = Inr v" "v = 0 \<longleftrightarrow> cstr t = cstr e"
    using cg_strcmp_zero [of "t @ [0]" e] c by auto
  then show ?thesis
    using assms Text_Answer by (simp add: answer_correct_def question_ok_def right_def)
next
  case (Numeric_Answer n)
  then show ?thesis using assms by (simp add: answer_correct_def question_ok_def right_def)
qed

definition solved :: "byte list \<Rightarrow> cg_question \<Rightarrow> bool" where
  "solved form q = (case field_at form (answer_key q) of None \<Rightarrow> False | Some t \<Rightarrow> right q t)"

definition earned :: "byte list \<Rightarrow> cg_question \<Rightarrow> u32" where
  "earned form q = (if solved form q then q_points q else 0)"

definition question_text :: "byte list \<Rightarrow> cg_question \<Rightarrow> byte list" where
  "question_text form q =
     str ''{\"id\":'' @ dec (unat (q_id q)) @ str '',\"correct\":'' @
     (if solved form q then str ''true'' else str ''false'') @
     str '',\"earned\":'' @ dec (unat (earned form q)) @
     str '',\"explanation\":\"'' @ cstr (q_explanation q) @ str ''\"}''"

lemma length_question_text: "length (question_text form q) \<le> 70 + length (cstr (q_explanation q))"
  using length_dec_u32 [of "q_id q"] length_dec_u32 [of "earned form q"]
  by (simp add: question_text_def)

fun questions_text :: "byte list \<Rightarrow> cg_question list \<Rightarrow> bool \<Rightarrow> byte list" where
  "questions_text form [] is_first = []"
| "questions_text form (q # qs) is_first =
     (if is_first then [] else str '','') @ question_text form q @ questions_text form qs False"

text \<open>The values that are submitted for the questions have to fit into their array.\<close>

definition short_answers :: "byte list \<Rightarrow> cg_question list \<Rightarrow> bool" where
  "short_answers form qs \<longleftrightarrow>
     (\<forall>q \<in> set qs. \<forall>t. field_at form (answer_key q) = Some t \<longrightarrow> length t < 256)"

lemma verify_questions_ok:
  assumes nul: "has_nul form" and "\<forall>q \<in> set qs. question_ok q" and "short_answers form qs"
    and "length p + length (questions_text form qs b) \<le> 4096"
  shows "verify_questions form qs b n p =
    Inr (n + sum_list (map (earned form) qs), p @ questions_text form qs b)"
  using assms(2-4)
proof (induction qs arbitrary: b n p)
  case (Cons q qs)
  have ok: "question_ok q" and en: "has_nul (q_explanation q)"
    using Cons.prems(1) by (simp_all add: question_ok_def)
  have val: "cbind (cg_get_form_value form (answer_key q @ [0]) 256) (\<lambda>(found, submitted).
      cbind (if found then answer_correct q submitted else Inr False) f) = f (solved form q)"
    for f :: "bool \<Rightarrow> (u32 \<times> byte list) cres"
    using Cons.prems(2) form_value_at [OF nul answer_key_no_nul, of 256 q]
    by (auto simp: short_answers_def solved_def answer_correct_ok [OF ok] split: option.split)
  define r where "r = p @ (if b then [] else str '','')"
  have fit: "length r + length (question_text form q) + length (questions_text form qs False) \<le> 4096"
    using Cons.prems(3) by (simp add: r_def split: if_splits)
  have r: "(if b then Inr p else append_str 4096 p (lit '','')) = Inr r"
    using fit append_lit_ok [of "'',''" p 4096] by (auto simp: r_def)
  have tf: "append_str 4096 p' (if s then lit ''true'' else lit ''false'') =
      Inr (p' @ (if s then str ''true'' else str ''false''))" if "length p' + 5 \<le> 4096" for p' s
    using that append_lit_ok [of "''true''" p' 4096] append_lit_ok [of "''false''" p' 4096] by simp
  have pts: "append_uint 4096 p' (if solved form q then ucast (q_points q) else 0) =
      Inr (p' @ dec (unat (earned form q)))"
    if "length p' + length (dec (unat (earned form q))) \<le> 4096" for p'
    using that append_uint_ok [of p' "ucast (earned form q)" 4096]
    by (simp add: earned_def unat_ucast_up split: if_splits)
  have one: "cbind (append_str 4096 r (lit ''{\"id\":'')) (\<lambda>p.
     cbind (append_uint 4096 p (ucast (q_id q))) (\<lambda>p.
     cbind (append_str 4096 p (lit '',\"correct\":'')) (\<lambda>p.
     cbind (append_str 4096 p (if solved form q then lit ''true'' else lit ''false'')) (\<lambda>p.
     cbind (append_str 4096 p (lit '',\"earned\":'')) (\<lambda>p.
     cbind (append_uint 4096 p (if solved form q then ucast (q_points q) else 0)) (\<lambda>p.
     cbind (append_str 4096 p (lit '',\"explanation\":\"'')) (\<lambda>p.
     cbind (append_str 4096 p (q_explanation q)) (\<lambda>p.
     cbind (append_str 4096 p (lit ''\"}'')) f)))))))) = f (r @ question_text form q)"
    for f :: "byte list \<Rightarrow> (u32 \<times> byte list) cres"
    using fit en
    by (cases "solved form q")
      (simp_all add: append_lit_ok append_uint_ok append_str_ok question_text_def unat_ucast_up
        earned_def dec.simps [of 0])
  have IH: "verify_questions form qs False (n + earned form q) (r @ question_text form q) =
      Inr (n + earned form q + sum_list (map (earned form) qs),
        (r @ question_text form q) @ questions_text form qs False)"
    using Cons.prems fit by (intro Cons.IH) (simp_all add: short_answers_def)
  have "verify_questions form (q # qs) b n p =
      verify_questions form qs False (n + earned form q) (r @ question_text form q)"
    by (simp add: question_key_ok val r one Let_def earned_def)
  then show ?case unfolding IH by (simp add: r_def)
qed simp

section \<open>The table\<close>

definition challenge_ok :: "cg_challengedb \<Rightarrow> bool" where
  "challenge_ok c \<longleftrightarrow> unat (question_count c) = length (questions c) \<and>
     list_all question_ok (questions c) \<and>
     sum_list (map (\<lambda>q. length (cstr (q_explanation q)) + 71) (questions c)) \<le> 1000 \<and>
     sum_list (map q_points (questions c)) = chal_total_points c \<and> chal_total_points c \<noteq> 0"

lemma lit_text: "length (cstr (lit s)) \<le> length s"
  using length_takeWhile_le [of "\<lambda>c. c \<noteq> 0" "str s @ [0]"] length_cstr_less [of "lit s"]
  by (simp add: lit_def)

text \<open>One question, worth all the points of its challenge, with texts that are literals.\<close>

definition literal_question :: "cg_question list \<Rightarrow> u32 \<Rightarrow> bool" where
  "literal_question qs n \<longleftrightarrow> n \<noteq> 0 \<and>
     (\<exists>i ty a s. qs = [\<lparr>q_id = i, q_points = n, q_type = ty, q_answer = a, q_explanation = lit s\<rparr>] \<and>
       length s \<le> 900 \<and> (if ty = CG_ANS_TEXT then \<exists>t. a = Text_Answer (lit t) else \<exists>m. a = Numeric_Answer m))"

lemma literal_questionI:
  assumes "n \<noteq> 0" and "length s \<le> 900"
  shows "literal_question [\<lparr>q_id = i, q_points = n, q_type = CG_ANS_TEXT, q_answer = Text_Answer (lit t),
      q_explanation = lit s\<rparr>] n"
    and "ty \<noteq> CG_ANS_TEXT \<Longrightarrow> literal_question [\<lparr>q_id = i, q_points = n, q_type = ty,
      q_answer = Numeric_Answer m, q_explanation = lit s\<rparr>] n"
  using assms by (auto simp: literal_question_def)

lemma literal_question_ok:
  assumes "literal_question qs n"
  shows "challenge_ok \<lparr>id_string = nm, chal_total_points = n, question_count = 1, questions = qs\<rparr>"
proof -
  obtain i ty a s where q: "qs = [\<lparr>q_id = i, q_points = n, q_type = ty, q_answer = a, q_explanation = lit s\<rparr>]"
      "length s \<le> 900" "if ty = CG_ANS_TEXT then \<exists>t. a = Text_Answer (lit t) else \<exists>m. a = Numeric_Answer m"
      "n \<noteq> 0"
    using assms unfolding literal_question_def by blast
  then show ?thesis
    using lit_text [of s] by (auto simp: challenge_ok_def question_ok_def split: if_splits)
qed

lemma literal_questions:
  "literal_question q_fuzzer_001 50" "literal_question q_fuzzer_002 50" "literal_question q_fuzzer_003 50"
  "literal_question q_fuzzer_004 50" "literal_question q_fuzzer_005 50"
  "literal_question q_instruction_001 50" "literal_question q_instruction_002 50"
  "literal_question q_instruction_003 50" "literal_question q_instruction_004 50"
  "literal_question q_instruction_005 50"
  "literal_question q_protocol_001 50" "literal_question q_protocol_002 50" "literal_question q_protocol_003 50"
  "literal_question q_protocol_004 50" "literal_question q_protocol_005 50"
  unfolding q_fuzzer_001_def q_fuzzer_002_def q_fuzzer_003_def q_fuzzer_004_def q_fuzzer_005_def
    q_instruction_001_def q_instruction_002_def q_instruction_003_def q_instruction_004_def
    q_instruction_005_def q_protocol_001_def q_protocol_002_def q_protocol_003_def q_protocol_004_def
    q_protocol_005_def
  by (rule literal_questionI; code_simp)+

lemma challenges_ok: "list_all challenge_ok g_challengedb"
  unfolding g_challengedb_def using literal_questions by (simp add: literal_question_ok)

lemma length_questions_text:
  "length (questions_text form qs b) \<le> sum_list (map (\<lambda>q. length (cstr (q_explanation q)) + 71) qs)"
proof (induction qs arbitrary: b)
  case (Cons q qs)
  then have "length (questions_text form qs False) \<le>
      sum_list (map (\<lambda>q. length (cstr (q_explanation q)) + 71) qs)" .
  then show ?case using length_question_text [of form q] by simp
qed simp

section \<open>The record of the user\<close>

text \<open>
  The points are added on every full score; the challenge enters the list once, while the list
  has room.
\<close>

lemma award_points_ok:
  assumes shape: "user_shape u"
  shows "\<exists>u'. award_points u n h = Inr u' \<and> user_shape u' \<and> same_account u u' \<and>
    description u' = description u \<and> total_points u' = total_points u + n \<and>
    completed u' = (if h \<in> set (completed u) \<or> length (completed u) = 32 then completed u
      else completed u @ [h])"
proof -
  let ?n = "unat (completed_count u)"
  have l: "length (completed_hashes u) = 32" "?n \<le> 32" using shape by (simp_all add: user_shape_def)
  have len: "length (completed u) = ?n" using l by (simp add: completed_def)
  have rec: "first_index (\<lambda>h'. h' = h) (take (min ?n 32) (completed_hashes u)) \<noteq> None \<longleftrightarrow>
      h \<in> set (completed u)"
    using l(2) by (auto simp: first_index_None completed_def min_absorb1)
  show ?thesis
  proof (cases "h \<in> set (completed u) \<or> ?n = 32")
    case True
    have "award_points u n h = Inr (u\<lparr>total_points := total_points u + n\<rparr>)"
      using True rec by (auto simp: award_points_def Let_def)
    then show ?thesis
      using True shape len
      by (intro exI [of _ "u\<lparr>total_points := total_points u + n\<rparr>"])
        (auto simp: user_shape_def same_account_def completed_def)
  next
    case False
    then have n: "?n < 32" using l(2) by simp
    have w: "buf_write (completed_hashes u) ?n [h] = Inr ((completed_hashes u)[?n := h])"
      using n l(1) by (simp add: buf_write_ok buf_splice_def upd_conv_take_nth_drop)
    have c: "unat (completed_count u + 1) = ?n + 1"
      using n by (subst unat_add_small) simp_all
    let ?u = "u\<lparr>total_points := total_points u + n, completed_hashes := (completed_hashes u)[?n := h],
      completed_count := completed_count u + 1\<rparr>"
    have "award_points u n h = Inr ?u"
      using False rec n w by (auto simp: award_points_def Let_def)
    moreover have "completed ?u = completed u @ [h]"
      using n l(1) by (simp add: completed_def c take_Suc_conv_app_nth)
    ultimately show ?thesis
      using False shape len n c by (intro exI [of _ ?u]) (auto simp: user_shape_def same_account_def)
  qed
qed

section \<open>The endpoint\<close>

definition total_earned :: "byte list \<Rightarrow> cg_challengedb \<Rightarrow> u32" where
  "total_earned form c = sum_list (map (earned form) (questions c))"

definition verify_body :: "byte list \<Rightarrow> cg_challengedb \<Rightarrow> byte list" where
  "verify_body form c =
     http_ok_text @ str ''{\"status\":\"success\",\"message\":\"Payload evaluated.\",\"results\":['' @
     questions_text form (questions c) True @ str ''],\"total_earned\":'' @ dec (unat (total_earned form c)) @
     str '',\"max_points\":'' @ dec (unat (chal_total_points c)) @ str ''}''"

definition find_challenge :: "byte list \<Rightarrow> nat option" where
  "find_challenge name = first_index (\<lambda>c. cstr (id_string c) = name) g_challengedb"

lemma find_challenge_ok:
  assumes "find_challenge name = Some ci"
  shows "challenge_ok (g_challengedb ! ci)"
proof -
  have "ci < length g_challengedb" using assms by (simp add: find_challenge_def first_index_less)
  then show ?thesis using challenges_ok by (simp add: list_all_length)
qed


lemma verify_handler:
  assumes ready: "srv_ready srv" and shape: "req_shape req" and post: "uses_method req ''POST''"
    and cookie: "req_session_id req ! 0 \<noteq> 0"
    and db: "srv_sessiondb srv = Some db" "sessiondb_wf db"
    and user: "sess_abs db (request_session req) = Some n"
    and form: "form_field (stdin_buf req) ''id'' = Some t" "length t < 64"
    and chal: "find_challenge (cstr t) = Some ci" "c = g_challengedb ! ci"
    and short: "short_answers (stdin_buf req) (questions c)"
    and award: "(if total_earned (stdin_buf req) c = chal_total_points c \<and> n \<noteq> 0
      then award_user srv n (t @ [0]) (total_earned (stdin_buf req) c) else Inr srv) = Inr srv1"
    and ready1: "srv_ready srv1"
  shows "\<exists>srv'. cg_route_api_challenge_verify k req srv = Inr srv' \<and>
    replied req (verify_body (stdin_buf req) c) srv1 srv'"
proof -
  let ?form = "stdin_buf req"
  have nul: "has_nul ?form" using stdin_has_nul [OF shape] .
  obtain e where e: "\<forall>f. with_session req srv f = f (Some e)" "user_id e = n"
    using with_session_cases [OF shape db, of] user by fastforce
  have cb: "buf_read (req_session_id req) 0 = Inr (req_session_id req ! 0)"
    using shape by (intro buf_read_ok) (simp add: req_shape_def)
  have val: "cg_get_form_value ?form (lit ''id'') 64 = Inr (True, t)"
    using form_value_cases [OF nul, of "''id''" 64] form by (simp add: str_no_nul)
  have "cstr (t @ [0]) = cstr t" by (simp add: cstr_def takeWhile_tail)
  then have find: "cg_challengedb_find (t @ [0]) = Inr (Some ci)"
    using challengedb_find_correct [of "t @ [0]"] chal(1) by (simp add: find_challenge_def)
  have ok: "challenge_ok c" using find_challenge_ok [OF chal(1)] chal(2) by simp
  then have qs: "take (unat (question_count c)) (questions c) = questions c"
      "\<forall>q \<in> set (questions c). question_ok q"
    by (simp_all add: challenge_ok_def list_all_iff)
  have lq: "length (questions_text ?form (questions c) True) \<le> 1000"
    using length_questions_text [of ?form "questions c" True] ok by (simp add: challenge_ok_def)
  define p where "p = http_ok_text @
    str ''{\"status\":\"success\",\"message\":\"Payload evaluated.\",\"results\":[''"
  have lp: "length p = 112" by (simp add: p_def length_http_ok_text)
  have p: "append_str 4096 http_ok_text
      (lit ''{\"status\":\"success\",\"message\":\"Payload evaluated.\",\"results\":['') = Inr p"
    unfolding p_def by (rule append_lit_ok) (simp_all add: length_http_ok_text)
  have v: "verify_questions ?form (questions c) True 0 p =
      Inr (total_earned ?form c, p @ questions_text ?form (questions c) True)"
    using verify_questions_ok [OF nul qs(2) short, of p True 0] lp lq by (simp add: total_earned_def)
  define q where "q = p @ questions_text ?form (questions c) True"
  have q: "length q \<le> 1112" using lp lq by (simp add: q_def)
  have tail: "cbind (append_str 4096 q (lit ''],\"total_earned\":'')) (\<lambda>p.
      cbind (append_uint 4096 p (ucast (total_earned ?form c))) (\<lambda>p.
      cbind (append_str 4096 p (lit '',\"max_points\":'')) (\<lambda>p.
      cbind (append_uint 4096 p (ucast (chal_total_points c))) (\<lambda>p.
      cbind (append_str 4096 p (lit ''}'')) f)))) = f (verify_body ?form c)"
    for f :: "byte list \<Rightarrow> server cres"
    using q length_dec_u32 [of "total_earned ?form c"] length_dec_u32 [of "chal_total_points c"]
    by (simp add: append_lit_ok append_uint_ok unat_ucast_up verify_body_def q_def p_def)
  have "length (verify_body ?form c) \<le> 60000"
    using q length_dec_u32 [of "total_earned ?form c"] length_dec_u32 [of "chal_total_points c"]
    by (simp add: verify_body_def q_def p_def)
  from reply_buf_ok [OF ready1 this, of req]
  obtain srv' where r: "reply_buf req (verify_body ?form c) srv1 = Inr srv'"
      "replied req (verify_body ?form c) srv1 srv'" by blast
  have "cg_route_api_challenge_verify k req srv = reply_buf req (verify_body ?form c) srv1"
    using method_differs_shape [OF shape] post cb cookie e val find
    by (simp add: cg_route_api_challenge_verify_def http_ok_written p qs(1) v Let_def tail
        flip: chal(2) q_def) (use award in \<open>auto split: if_splits\<close>)
  then show ?thesis using r by auto
qed

lemma award_user_ok:
  assumes udb: "srv_userdb srv = Some udb" "userdb_wf udb" and found: "cg_userdb_find_by_id udb n = Some i"
  shows "\<exists>u'. award_user srv n (t @ [0]) pts = Inr (srv\<lparr>srv_userdb := Some (set_user udb i u')\<rparr>) \<and>
    userdb_wf (set_user udb i u') \<and> same_account (udb_pool udb ! i) u' \<and>
    description u' = description (udb_pool udb ! i) \<and>
    total_points u' = total_points (udb_pool udb ! i) + pts \<and>
    completed u' = (let hs = completed (udb_pool udb ! i); h = ucast (crc32c (cstr t)) in
      if h \<in> set hs \<or> length hs = 32 then hs else hs @ [h])"
proof -
  note u = found_shape [OF udb(2) found]
  have c: "cstr (t @ [0]) = cstr t" by (simp add: cstr_def takeWhile_tail)
  have h: "cg_hash_str (t @ [0]) (length (cstr t)) = Inr (ucast (crc32c (cstr t)))"
    using cg_hash_str_crc [of "length (cstr t)" "t @ [0]"] take_cstr [of "t @ [0]"]
      length_cstr_less [of "t @ [0]"] c by simp
  obtain u' where u': "award_points (udb_pool udb ! i) pts (ucast (crc32c (cstr t))) = Inr u'"
      "user_shape u'" "same_account (udb_pool udb ! i) u'"
      "description u' = description (udb_pool udb ! i)"
      "total_points u' = total_points (udb_pool udb ! i) + pts"
      "completed u' = (if ucast (crc32c (cstr t)) \<in> set (completed (udb_pool udb ! i)) \<or>
          length (completed (udb_pool udb ! i)) = 32 then completed (udb_pool udb ! i)
        else completed (udb_pool udb ! i) @ [ucast (crc32c (cstr t))])"
    using award_points_ok [OF u(1)] by blast
  have "award_user srv n (t @ [0]) pts = Inr (srv\<lparr>srv_userdb := Some (set_user udb i u')\<rparr>)"
    using udb(1) found h u'(1) by (simp add: award_user_def deref_def c set_user_def)
  then show ?thesis
    using u' set_user_wf(1) [OF udb(2) u(2) u'(2,3)]
    by (intro exI [of _ u']) (simp add: Let_def)
qed

end
