(* ===== verification/CG_Dispatch.thy ===== *)
theory CG_Dispatch
  imports CG_Verify
begin

text \<open>
  The way of a request through \<open>cg_route_map_reply\<close>: the path selects the handler, the handler
  writes its response record, and the two closing records follow it in the transmit buffer.
\<close>

section \<open>Selecting the handler\<close>

definition routes_ready :: "route cg_hashmap \<Rightarrow> bool" where
  "routes_ready m \<longleftrightarrow> (\<forall>key. hashmap_value m key = Inr (route_table key))"

definition request_path :: "cg_client_req \<Rightarrow> byte list" where
  "request_path req = cstr (take 127 (uri req))"

definition route_of :: "cg_client_req \<Rightarrow> route option" where
  "route_of req = route_table (ucast (crc32c (request_path req)))"

definition handle :: "route option \<Rightarrow> handler" where
  "handle r = (case r of None \<Rightarrow> cg_route_not_found | Some r \<Rightarrow> route_handler r)"

definition cleared :: "server \<Rightarrow> server" where
  "cleared srv = srv\<lparr>srv_tx := (srv_tx srv)\<lparr>meta_valid := 0, meta_pos := 0\<rparr>\<rparr>"

definition terminated :: "cg_client_req \<Rightarrow> cg_client_req" where
  "terminated req = req\<lparr>uri := (uri req)[127 := 0]\<rparr>"

lemma cleared_ready: "tx_ok (srv_tx srv) \<Longrightarrow> srv_ready (cleared srv)"
  by (simp add: cleared_def srv_ready_def tx_ok_def)

lemma terminated_shape: "req_shape req \<Longrightarrow> req_shape (terminated req)"
  by (auto simp: req_shape_def terminated_def set_update_memI)

lemma terminated_path:
  assumes "length (uri req) = 128"
  shows "cstr (uri (terminated req)) = request_path req"
proof -
  have "uri (terminated req) ! 127 = 0" "127 < length (uri (terminated req))"
    using assms by (simp_all add: terminated_def)
  from cstr_of_take [OF this] show ?thesis
    by (simp add: request_path_def terminated_def)
qed

lemma map_reply_handle:
  assumes routes: "routes_ready m" and shape: "req_shape req"
  shows "cg_route_map_reply m k req srv =
    cbind (handle (route_of req) k (terminated req) (cleared srv)) (\<lambda>srv.
    cbind (cg_fastcgi_end (srv_tx srv) (req_id req)) (\<lambda>tx.
      Inr (terminated req, srv\<lparr>srv_tx := tx\<rparr>)))"
proof -
  let ?req = "terminated req"
  have len: "length (uri req) = 128" using shape by (simp add: req_shape_def)
  have w: "buf_write (uri req) 127 [0] = Inr ((uri req)[127 := 0])"
    using len by (simp add: buf_write_ok buf_splice_def upd_conv_take_nth_drop)
  have nul: "has_nul (uri ?req)" using terminated_shape [OF shape] by (simp add: req_shape_def)
  have path: "cstr (uri ?req) = request_path req" by (rule terminated_path [OF len])
  have n: "cg_strlen (uri ?req) = Inr (length (request_path req))"
    using cg_strlen_nul [OF nul] path by simp
  have "take (length (request_path req)) (uri ?req) = request_path req"
    using take_cstr [of "uri ?req"] path by simp
  then have h: "cg_hash_str (uri ?req) (length (request_path req)) =
      Inr (ucast (crc32c (request_path req)))"
    using cg_hash_str_crc [of "length (request_path req)" "uri ?req"] length_cstr_less [OF nul] path
    by simp
  obtain r where r: "cg_hashmap_get_key_uint m (ucast (crc32c (request_path req))) = Inr r"
      "map_option (\<lambda>i. ent_val (hm_table m ! i)) r = route_of req"
    using routes unfolding routes_ready_def hashmap_value_def cbind_eq_Inr route_of_def
    by (metis sum.inject(2))
  have sel: "(case r of None \<Rightarrow> cg_route_not_found k ?req (cleared srv)
      | Some i \<Rightarrow> route_handler (ent_val (hm_table m ! i)) k ?req (cleared srv)) =
      handle (route_of req) k ?req (cleared srv)"
    by (cases r) (simp_all add: handle_def flip: r(2))
  have id: "req\<lparr>uri := uri ?req\<rparr> = ?req" "(uri req)[127 := 0] = uri ?req"
      "req_id ?req = req_id req"
    by (simp_all add: terminated_def)
  show ?thesis
    unfolding cg_route_map_reply_def w Let_def cbind_simps id(2) cg_hashmap_get_key_str_def
      cleared_def [symmetric]
    unfolding id(1) by (simp add: n h r(1) sel id(3))
qed

lemma route_map_ready: "\<exists>m. cg_route_map_init (empty_route_map r) = Inr m \<and> routes_ready m"
  using route_map_init_ok [of r] by (auto simp: routes_ready_def)

lemma route_of_path:
  assumes "p \<in> set route_paths" and "request_path req = str (fst p)"
  shows "route_of req = Some (snd p)"
  using route_table_path [OF assms(1)] assms(2) by (simp add: route_of_def path_key_def)

section \<open>The response in the transmit buffer\<close>

definition response_text :: "u16 \<Rightarrow> byte list \<Rightarrow> byte list" where
  "response_text rid body = stdout_record rid body @ stdout_record rid [] @ end_record rid"

lemma map_reply_response:
  assumes routes: "routes_ready m" and shape: "req_shape req"
    and run: "handle (route_of req) k (terminated req) (cleared srv) = Inr srv2"
    and body: "replied (terminated req) body srv1 srv2" "length body \<le> 60000"
  shows "\<exists>srv'. cg_route_map_reply m k req srv = Inr (terminated req, srv') \<and>
    tx_ok (srv_tx srv') \<and> tx_text (srv_tx srv') = response_text (req_id req) body \<and>
    srv_sessiondb srv' = srv_sessiondb srv1 \<and> srv_userdb srv' = srv_userdb srv1"
proof -
  have id: "req_id (terminated req) = req_id req" by (simp add: terminated_def)
  obtain tx where tx: "srv2 = srv1\<lparr>srv_tx := tx\<rparr>" "tx_ok tx" "unat (meta_valid tx) = 8 + length body"
      "tx_text tx = stdout_record (req_id req) body"
    using body(1) by (auto simp: replied_def id)
  obtain tx' where tx': "cg_fastcgi_end tx (req_id req) = Inr tx'" "tx_ok tx'"
      "tx_text tx' = tx_text tx @ stdout_record (req_id req) [] @ end_record (req_id req)"
    using fastcgi_end_ok [OF tx(2), of "req_id req"] tx(3) body(2) by auto
  show ?thesis
    using run tx tx' by (simp add: map_reply_handle [OF routes shape] response_text_def)
qed

lemma not_found_ok:
  assumes ready: "srv_ready srv"
  defines "body \<equiv> str ''Status: 404 Not Found'' @ crlf @ str ''Content-Type: text/plain'' @ crlf @ crlf @
    str ''404 - Endpoint not configured.''"
  shows "\<exists>srv'. cg_route_not_found k req srv = Inr srv' \<and> replied req body srv srv'"
proof -
  have "0 \<notin> set body" "length body \<le> 60000"
    using str_no_nul [of "''Status: 404 Not Found''"] str_no_nul [of "''Content-Type: text/plain''"]
      str_no_nul [of "''404 - Endpoint not configured.''"]
    by (simp_all add: body_def)
  from reply_ok [OF ready this] show ?thesis by (simp add: cg_route_not_found_def body_def)
qed

end
