(* ===== verification/CG_Spec_Services.thy ===== *)
theory CG_Spec_Services
  imports CG_Examples CG_Dispatch
begin

text \<open>
  The properties of the endpoints: what each answers and what it does to the stores, and how a
  request gets to its endpoint and back. The witnesses send sample requests to a server with one
  account or one session.
\<close>

section \<open>Dispatch\<close>

text \<open>
  C7: A request whose path, without the query, is one of the ten registered ones is answered by
  the handler of that path: the route table that the start-up builds finds it by the hash of the
  path, and the answer on the wire is exactly the handler's body framed in a STDOUT record, the
  empty STDOUT record and the END_REQUEST record, whatever the last answer left in the buffer.
\<close>

theorem request_dispatched:
  assumes "cg_route_map_init (empty_route_map r0) = Inr m" and "req_shape req"
    and "p \<in> set route_paths" and "request_path req = str (fst p)"
    and "route_handler (snd p) k (terminated req) (cleared srv) = Inr srv2"
    and "replied (terminated req) body srv1 srv2" and "length body \<le> 60000"
  shows "\<exists>srv'. cg_route_map_reply m k req srv = Inr (terminated req, srv') \<and>
    tx_ok (srv_tx srv') \<and> tx_text (srv_tx srv') = response_text (req_id req) body \<and>
    srv_sessiondb srv' = srv_sessiondb srv1 \<and> srv_userdb srv' = srv_userdb srv1"
proof -
  have ready: "routes_ready m" using route_map_ready [of r0] assms(1) by auto
  have "handle (route_of req) = route_handler (snd p)"
    using route_of_path [OF assms(3,4)] by (simp add: handle_def)
  then show ?thesis using map_reply_response [OF ready assms(2) _ assms(6,7)] assms(5) by simp
qed

text \<open>
  A request for any other path whose hash is not that of a registered one is answered with
  404 and changes nothing but the answer's buffer.
\<close>

lemma unknown_path_404:
  assumes "cg_route_map_init (empty_route_map r0) = Inr m" and "req_shape req"
    and "route_of req = None" and "tx_ok (srv_tx srv)"
  shows "\<exists>srv'. cg_route_map_reply m k req srv = Inr (terminated req, srv') \<and>
    tx_text (srv_tx srv') = response_text (req_id req)
      (str ''Status: 404 Not Found'' @ crlf @ str ''Content-Type: text/plain'' @ crlf @ crlf @
       str ''404 - Endpoint not configured.'') \<and>
    srv_sessiondb srv' = srv_sessiondb srv \<and> srv_userdb srv' = srv_userdb srv"
proof -
  let ?body = "str ''Status: 404 Not Found'' @ crlf @ str ''Content-Type: text/plain'' @ crlf @ crlf @
    str ''404 - Endpoint not configured.''"
  have ready: "routes_ready m" using route_map_ready [of r0] assms(1) by auto
  obtain srv2 where s: "cg_route_not_found k (terminated req) (cleared srv) = Inr srv2"
      "replied (terminated req) ?body (cleared srv) srv2"
    using not_found_ok [OF cleared_ready [OF assms(4)], of k "terminated req"] by blast
  have "handle (route_of req) k (terminated req) (cleared srv) = Inr srv2"
    using s(1) assms(3) by (simp add: handle_def)
  from map_reply_response [OF ready assms(2) this s(2)] show ?thesis
    by (simp add: cleared_def) blast
qed

lemma sample_path:
  assumes "length path < 127" and "CHR 0x00 \<notin> set path"
  shows "request_path (sample_request path meth cookie body) = str path"
proof -
  have "128 - length path = Suc (127 - length path)" "127 - length path = Suc (126 - length path)"
    using assms(1) by simp_all
  then show ?thesis
    using assms str_no_nul [of path] by (simp add: request_path_def sample_request_def)
qed

lemma terminated_method: "uses_method (terminated req) m = uses_method req m"
  by (simp add: uses_method_def terminated_def)

definition sample_kernel :: kernel where
  "sample_kernel = \<lparr>k_random = (8, 42), k_now = 1000\<rparr>"

section \<open>Signing in\<close>

text \<open>
  Signing in as a guest opens a session for nobody: the answer carries the new session's
  number in its cookie, and the store is the old one with this session for user 0.
\<close>

lemma guest_signed_in:
  assumes ready: "srv_ready srv" and shape: "req_shape req" and post: "uses_method req ''POST''"
    and db: "srv_sessiondb srv = Some db" "sessiondb_wf db" "hm_count (sdb_map db) < 4096"
    and rnd: "k_random k = (res, bytes)" "8 \<le> res" "sid = (if bytes = 0 then 1 else bytes)"
    and fresh: "sess_abs db sid = None" and room: "0 < sess_room db"
  shows "\<exists>srv' db'. cg_route_api_auth_guest k req srv = Inr srv' \<and>
    replied req (guest_text sid) (srv\<lparr>srv_sessiondb := Some db'\<rparr>) srv' \<and>
    sessiondb_wf db' \<and> sess_abs db' = (sess_abs db)(sid \<mapsto> 0)"
proof -
  obtain db' where db': "open_session k 0 srv = Inr (srv\<lparr>srv_sessiondb := Some db'\<rparr>, sid)"
      "sessiondb_wf db'" "sess_abs db' = (sess_abs db)(sid \<mapsto> 0)"
    using open_session_ok [OF db rnd fresh room] by blast
  then show ?thesis using guest_ok [OF ready shape post db'(1)] by blast
qed

lemma guest_signed_in_instance:
  "\<exists>srv' db'. cg_route_api_auth_guest sample_kernel (sample_request ''/api/auth/guest'' ''POST'' [] [])
      new_server = Inr srv' \<and> srv_sessiondb srv' = Some db' \<and> sess_abs db' = [42 \<mapsto> 0]"
proof -
  let ?req = "sample_request ''/api/auth/guest'' ''POST'' [] []"
  have "req_shape ?req" by (rule sample_request_shape) simp
  from guest_signed_in [OF new_server_ready this sample_request_method _ new_sessiondb_ok(1), of sample_kernel 8 42 42]
  show ?thesis using new_sessiondb_ok
    by (auto simp: new_sessiondb_count new_server_def sample_kernel_def replied_def)
qed

lemma unknown_path_404_instance:
  "\<exists>m srv'. cg_route_map_init (empty_route_map Route_AuthGuest) = Inr m \<and>
    cg_route_map_reply m sample_kernel (sample_request ''/x'' ''GET'' [] []) new_server =
      Inr (terminated (sample_request ''/x'' ''GET'' [] []), srv')"
proof -
  let ?req = "sample_request ''/x'' ''GET'' [] []"
  obtain m where m: "cg_route_map_init (empty_route_map Route_AuthGuest) = Inr m"
    using route_map_ready by blast
  have "crc32c [47, 120] = 0x6d2d6d10" by code_simp
  then have "(ucast (crc32c (str ''/x'')) :: u64) \<notin> set (map (\<lambda>p. path_key (fst p)) route_paths)"
    unfolding path_keys by (simp add: str_def)
  then have "route_table (ucast (crc32c (str ''/x''))) = None"
    by (force simp: route_table_map_of map_of_eq_None_iff)
  then have "route_of ?req = None"
    using sample_path [of "''/x''" "''GET''" "[]" "[]"] by (simp add: route_of_def)
  moreover have "req_shape ?req" by (rule sample_request_shape) simp
  moreover have "tx_ok (srv_tx new_server)" by (simp add: new_server_def new_buffer_ok)
  ultimately show ?thesis using unknown_path_404 [OF m, of ?req new_server sample_kernel] m by blast
qed

lemma sample_guest:
  fixes udb :: cg_userdb
  defines "req \<equiv> sample_request ''/api/auth/guest'' ''POST'' [] []" and "srv \<equiv> sample_server new_sessiondb udb"
  shows "\<exists>db' srv2. cg_route_api_auth_guest sample_kernel (terminated req) (cleared srv) = Inr srv2 \<and>
    replied (terminated req) (guest_text 42) ((cleared srv)\<lparr>srv_sessiondb := Some db'\<rparr>) srv2"
proof -
  have shape: "req_shape req" unfolding req_def by (rule sample_request_shape) simp
  have tx: "tx_ok (srv_tx srv)" by (simp add: srv_def sample_server_def new_buffer_ok)
  have post: "uses_method (terminated req) ''POST''" by (simp add: req_def terminated_method sample_request_method)
  obtain db' where db': "open_session sample_kernel 0 (cleared srv) = Inr ((cleared srv)\<lparr>srv_sessiondb := Some db'\<rparr>, 42)"
    using open_session_ok [of "cleared srv" new_sessiondb sample_kernel 8 42 42 0] new_sessiondb_ok
    by (auto simp: new_sessiondb_count srv_def sample_server_def sample_kernel_def cleared_def)
  show ?thesis using guest_ok [OF cleared_ready [OF tx] terminated_shape [OF shape] post db'] by blast
qed

theorem request_dispatched_witness:
  "\<exists>m srv' db'. cg_route_map_init (empty_route_map Route_AuthGuest) = Inr m \<and>
    cg_route_map_reply m sample_kernel (sample_request ''/api/auth/guest'' ''POST'' [] []) new_server =
      Inr (terminated (sample_request ''/api/auth/guest'' ''POST'' [] []), srv') \<and>
    tx_text (srv_tx srv') = response_text 0 (guest_text 42)"
proof -
  let ?req = "sample_request ''/api/auth/guest'' ''POST'' [] []"
  obtain m where m: "cg_route_map_init (empty_route_map Route_AuthGuest) = Inr m"
    using route_map_ready by blast
  have shape: "req_shape ?req" by (rule sample_request_shape) simp
  have "new_server = sample_server new_sessiondb new_userdb" by (simp add: new_server_def sample_server_def)
  with sample_guest [of new_userdb] obtain db' srv2
    where s: "cg_route_api_auth_guest sample_kernel (terminated ?req) (cleared new_server) = Inr srv2"
      "replied (terminated ?req) (guest_text 42) ((cleared new_server)\<lparr>srv_sessiondb := Some db'\<rparr>) srv2" by auto
  have "length (guest_text 42) \<le> 60000"
    using length_session_head [of 42] by (simp add: guest_text_def session_tail_def)
  then show ?thesis
    using request_dispatched [OF m shape, of "(''/api/auth/guest'', Route_AuthGuest)" sample_kernel new_server srv2]
      s sample_path [of "''/api/auth/guest''" "''POST''" "[]" "[]"] m
    by (auto simp: route_paths_def sample_request_def new_request_def)
qed

text \<open>
  C38: When the session store is full, or the kernel has no random bytes, no session can be
  opened, but the endpoints do not look at the failure: the guest endpoint answers with an entry
  that was never written.
\<close>

theorem guest_without_session:
  assumes "req_shape req" and "uses_method req ''POST''" and "srv_sessiondb srv = Some db"
    and "k_random k = (res, bytes)" and "4096 \<le> hm_count (sdb_map db) \<or> res < 8"
  shows "cg_route_api_auth_guest k req srv = Inl Uninit_Read"
  using open_session_refused [OF assms(3-5), of 0] method_differs_shape(1) [OF assms(1)] assms(2)
  by (simp add: cg_route_api_auth_guest_def)

theorem guest_without_session_witness:
  "cg_route_api_auth_guest (sample_kernel\<lparr>k_random := (- 1, 0)\<rparr>)
     (sample_request ''/api/auth/guest'' ''POST'' [] []) new_server = Inl Uninit_Read"
proof -
  have "req_shape (sample_request ''/api/auth/guest'' ''POST'' [] [])" by (rule sample_request_shape) simp
  from guest_without_session [OF this sample_request_method, of new_server new_sessiondb
      "sample_kernel\<lparr>k_random := (- 1, 0)\<rparr>" "- 1" 0]
  show ?thesis by (simp add: new_server_def)
qed

text \<open>
  C8: The login decides by the name and the hash of the password: with an account of that name
  whose stored hash is that of the password, the answer opens a session for the account and
  carries its cookie, name and points; otherwise, whether the name or the password is wrong, the
  same 401 is the answer and no session is opened.
\<close>

theorem login_decides:
  assumes ready: "srv_ready srv" and shape: "req_shape req" and post: "uses_method req ''POST''"
    and name: "form_field (stdin_buf req) ''username'' = Some n" "length n < 64"
    and pass: "form_field (stdin_buf req) ''password'' = Some w" "length w < 64"
    and udb: "srv_userdb srv = Some udb" "userdb_wf udb"
    and db: "srv_sessiondb srv = Some db" "sessiondb_wf db" "hm_count (sdb_map db) < 4096"
    and rnd: "k_random k = (res, bytes)" "8 \<le> res" "sid = (if bytes = 0 then 1 else bytes)"
    and fresh: "sess_abs db sid = None" "0 < sess_room db"
  shows "\<exists>srv'. cg_route_api_auth_login k req srv = Inr srv' \<and>
    (case user_slot udb (cstr (n @ [0])) of
       Some i \<Rightarrow> if pass_hash (udb_pool udb ! i) = ucast (crc32c (cstr (w @ [0])))
         then \<exists>db'. sess_abs db' = (sess_abs db)(sid \<mapsto> uid (udb_pool udb ! i)) \<and> sessiondb_wf db' \<and>
           replied req (login_text sid (cstr (username (udb_pool udb ! i))) (total_points (udb_pool udb ! i)))
             (srv\<lparr>srv_sessiondb := Some db'\<rparr>) srv'
         else replied req (json_text ''401 Unauthorized'' ''{\"error\":\"Invalid credentials\"}'') srv srv'
     | None \<Rightarrow> replied req (json_text ''401 Unauthorized'' ''{\"error\":\"Invalid credentials\"}'') srv srv')"
proof -
  have cred: "form_credentials req = Inr (Some (n @ [0], w @ [0]))"
    by (rule form_credentials_ok [OF stdin_has_nul [OF shape] name pass])
  note refused = login_refused [OF ready shape post cred udb, of k]
  show ?thesis
  proof (cases "user_slot udb (cstr (n @ [0]))")
    case None
    then show ?thesis using refused by simp
  next
    case (Some i)
    show ?thesis
    proof (cases "pass_hash (udb_pool udb ! i) = ucast (crc32c (cstr (w @ [0])))")
      case True
      obtain db' where db': "open_session k (uid (udb_pool udb ! i)) srv = Inr (srv\<lparr>srv_sessiondb := Some db'\<rparr>, sid)"
          "sessiondb_wf db'" "sess_abs db' = (sess_abs db)(sid \<mapsto> uid (udb_pool udb ! i))"
        using open_session_ok [OF db rnd fresh] by blast
      then show ?thesis
        using login_ok [OF ready shape post cred udb Some True db'(1)] Some True by auto
    next
      case False
      then show ?thesis using refused Some by simp
    qed
  qed
qed

definition sample_form :: "byte list \<Rightarrow> byte list \<Rightarrow> (byte list \<times> byte list) list" where
  "sample_form n w = [(str ''username'', n), (str ''password'', w)]"

lemma sample_keys:
  "plain_key (str ''username'')" "plain_key (str ''password'')" "plain_key (str ''description'')"
  "plain_key (str ''id'')" "plain_key (str ''q1'')"
  by (simp_all add: plain_key_def str_def)

lemma length_enc_form_field: "length (enc_text t) \<le> 3 * length t"
proof (induction t)
  case (Cons c t)
  have "length (enc_byte c) \<le> 3" by (simp add: enc_byte_def)
  then show ?case using Cons by (simp add: enc_text_def)
qed (simp add: enc_text_def)

lemma sample_form_ok:
  fixes path :: string
  assumes "length n \<le> 100" and "length w \<le> 100"
  defines "req \<equiv> sample_request path ''POST'' [] (enc_form (sample_form n w))"
  shows "length path < 127 \<Longrightarrow> req_shape req" and "uses_method req ''POST''"
    and "form_field (stdin_buf req) ''username'' = Some n"
    and "form_field (stdin_buf req) ''password'' = Some w"
proof -
  have "length (enc_text n) \<le> 300" "length (enc_text w) \<le> 300"
    using length_enc_form_field [of n] length_enc_form_field [of w] assms(1,2) by simp_all
  then have len: "length (enc_form (sample_form n w)) < 4096"
    by (simp add: sample_form_def enc_field_def)
  show "req_shape req" if "length path < 127"
    unfolding req_def using that len by (intro sample_request_shape) simp
  show "uses_method req ''POST''" unfolding req_def by (rule sample_request_method)
  have ks: "\<forall>f \<in> set (sample_form n w). plain_key (fst f)" using sample_keys by (simp add: sample_form_def)
  have ne: "str ''password'' \<noteq> str ''username''" by (simp add: str_def)
  show "form_field (stdin_buf req) ''username'' = Some n"
      "form_field (stdin_buf req) ''password'' = Some w"
    unfolding req_def using sample_request_field [OF refl len sample_keys(1) ks]
      sample_request_field [OF refl len sample_keys(2) ks] ne by (simp_all add: sample_form_def)
qed

theorem login_decides_witness:
  "\<exists>srv' db'. cg_route_api_auth_login sample_kernel
      (sample_request ''/api/auth/login'' ''POST'' [] (enc_form (sample_form (str ''alice'') (str ''secret''))))
      (sample_server new_sessiondb alice_userdb) = Inr srv' \<and>
    srv_sessiondb srv' = Some db' \<and> sess_abs db' = [42 \<mapsto> 1]"
proof -
  note f = sample_form_ok [of "str ''alice''" "str ''secret''" "''/api/auth/login''"]
  have c: "cstr (str ''alice'' @ [0]) = str ''alice''" "cstr (str ''secret'' @ [0]) = str ''secret''"
    by (simp_all add: str_no_nul)
  from login_decides [OF sample_server_ok(1) f(1,2,3) _ f(4) _ sample_server_ok(3) alice_userdb_ok(1)
      sample_server_ok(2) new_sessiondb_ok(1), of sample_kernel 8 42 42]
  show ?thesis
    using new_sessiondb_ok alice_userdb_ok(2,4) alice_ok
    by (auto simp: c new_sessiondb_count sample_kernel_def replied_def)
qed

text \<open>
  C37: A user name or password of 64 bytes or more in the form overruns the handler's buffer on
  the stack: the form parser copies without a bound.
\<close>

theorem long_form_value_overruns:
  assumes "req_shape req" and "uses_method req ''POST''"
    and "form_field (stdin_buf req) ''username'' = Some n" and "64 \<le> length n"
  shows "cg_route_api_auth_login k req srv = Inl Out_Of_Bounds \<and>
    cg_route_api_auth_register k req srv = Inl Out_Of_Bounds"
  using form_credentials_overflow [OF stdin_has_nul [OF assms(1)] assms(3,4)]
    method_differs_shape(1) [OF assms(1)] assms(2)
  by (simp add: cg_route_api_auth_login_def cg_route_api_auth_register_def)

theorem long_form_value_overruns_witness:
  "cg_route_api_auth_login sample_kernel
     (sample_request ''/api/auth/login'' ''POST'' [] (enc_form (sample_form (replicate 64 97) []))) new_server =
   Inl Out_Of_Bounds"
proof -
  note f = sample_form_ok [of "replicate 64 97" "[]" "''/api/auth/login''"]
  show ?thesis using long_form_value_overruns [OF f(1,2,3), of sample_kernel new_server] by simp
qed

text \<open>
  C27: Registering a name that is new, of at most 31 bytes: the account is stored with the hash
  of the password, a session is opened for its number, and the answer shows the name and carries
  the cookie.
\<close>

theorem registered:
  assumes ready: "srv_ready srv" and shape: "req_shape req" and post: "uses_method req ''POST''"
    and name: "form_field (stdin_buf req) ''username'' = Some n" "length (cstr (n @ [0])) \<le> 31" "length n < 64"
    and pass: "form_field (stdin_buf req) ''password'' = Some w" "length w < 64"
    and udb: "srv_userdb srv = Some udb" "userdb_wf udb"
    and new: "user_slot udb (cstr (n @ [0])) = None" "active_users udb < USERDB_POOL_SIZE"
    and db: "srv_sessiondb srv = Some db" "sessiondb_wf db" "hm_count (sdb_map db) < 4096"
    and rnd: "k_random k = (res, bytes)" "8 \<le> res" "sid = (if bytes = 0 then 1 else bytes)"
    and fresh: "sess_abs db sid = None" "0 < sess_room db"
  shows "\<exists>srv' udb' db' u. cg_route_api_auth_register k req srv = Inr srv' \<and>
    replied req (register_text sid (cstr (n @ [0]))) (srv\<lparr>srv_userdb := Some udb', srv_sessiondb := Some db'\<rparr>) srv' \<and>
    cg_userdb_create udb (n @ [0]) (w @ [0]) = Inr (udb', 0, Some u) \<and> userdb_wf udb' \<and>
    pass_hash u = ucast (crc32c (cstr (w @ [0]))) \<and> sess_abs db' = (sess_abs db)(sid \<mapsto> uid u)"
proof -
  have cred: "form_credentials req = Inr (Some (n @ [0], w @ [0]))"
    using name pass by (intro form_credentials_ok [OF stdin_has_nul [OF shape]])
  have nul: "has_nul (n @ [0])" "has_nul (w @ [0])" by simp_all
  obtain udb' u where u: "cg_userdb_create udb (n @ [0]) (w @ [0]) = Inr (udb', 0, Some u)" "userdb_wf udb'"
      "user_shape u" "cstr (username u) = stored_name (n @ [0])" "pass_hash u = ucast (crc32c (cstr (w @ [0])))"
    using userdb_create_new [OF udb(2) nul new] by blast
  have nm: "cstr (username u) = cstr (n @ [0])" using u(4) stored_name_short [OF name(2)] by simp
  obtain db' where db': "open_session k (uid u) (srv\<lparr>srv_userdb := Some udb'\<rparr>) =
        Inr (srv\<lparr>srv_userdb := Some udb', srv_sessiondb := Some db'\<rparr>, sid)"
      "sess_abs db' = (sess_abs db)(sid \<mapsto> uid u)"
    using open_session_ok [of "srv\<lparr>srv_userdb := Some udb'\<rparr>", OF _ db(2,3) rnd fresh] db(1) by auto
  show ?thesis
    using register_new [OF ready shape post cred udb(1) u(1)] u nm db' name(2) by blast
qed

theorem registered_witness:
  "\<exists>srv' udb' u. cg_route_api_auth_register sample_kernel
      (sample_request ''/api/auth/register'' ''POST'' [] (enc_form (sample_form (str ''bob'') (str ''pw''))))
      (sample_server new_sessiondb alice_userdb) = Inr srv' \<and>
    cg_userdb_create alice_userdb (str ''bob'' @ [0]) (str ''pw'' @ [0]) = Inr (udb', 0, Some u) \<and>
    srv_userdb srv' = Some udb'"
proof -
  note f = sample_form_ok [of "str ''bob''" "str ''pw''" "''/api/auth/register''"]
  have c: "cstr (str ''bob'' @ [0]) = str ''bob''" by (simp add: str_no_nul)
  have "str ''bob'' \<noteq> str ''alice''" by (simp add: str_def)
  then have new: "user_slot alice_userdb (cstr (str ''bob'' @ [0])) = None"
    using alice_userdb_ok(2) c by simp
  from registered [OF sample_server_ok(1) f(1,2,3) _ _ f(4) _ sample_server_ok(3) alice_userdb_ok(1) new _
      sample_server_ok(2) new_sessiondb_ok(1), of sample_kernel 8 42 42]
  show ?thesis
    using new_sessiondb_ok alice_userdb_ok(5)
    by (auto simp: c new_sessiondb_count sample_kernel_def replied_def USERDB_POOL_SIZE_def)
qed

section \<open>Profiles\<close>

text \<open>
  C28: The profile endpoint shows exactly the account of the request's session: the stored name,
  points, completed challenges and description of that account, escaped; the guest's profile for
  a session of nobody, and 401 when there is no such session or the account is gone. Nothing is
  changed, and the text always fits the buffer.
\<close>

theorem profile_shown:
  assumes "srv_ready srv" and "req_shape req" and "uses_method req ''GET''" and "req_session_id req ! 0 \<noteq> 0"
    and "srv_sessiondb srv = Some db" and "sessiondb_wf db" and "srv_userdb srv = Some udb" and "userdb_wf udb"
    and "sess_abs db (request_session req) \<noteq> None \<or> 0 < sess_room db"
  shows "\<exists>srv'. cg_route_api_user_profile k req srv = Inr srv' \<and>
    replied req (profile_answer (sess_abs db (request_session req)) udb) srv srv'"
  using assms by (rule profile_handler)

lemma sample_cookie:
  fixes meth :: string and body :: "byte list"
  defines "req \<equiv> sample_request ''/api'' meth (dec (unat (77 :: u64))) body"
  assumes "length meth < 16" and "length body < 4096"
  shows "req_shape req" "uses_method req meth" "request_session req = 77" "req_session_id req ! 0 \<noteq> 0"
proof -
  have "length (dec (unat (77 :: u64))) < 32" using length_dec_u64 [of 77] by simp
  then show "req_shape req" unfolding req_def using assms(2,3) by (intro sample_request_shape) simp
  show "uses_method req meth" unfolding req_def by (rule sample_request_method)
  show "request_session req = 77" "req_session_id req ! 0 \<noteq> 0"
    unfolding req_def by (rule sample_request_session [OF refl])+
qed

theorem profile_shown_witness:
  "\<exists>srv'. cg_route_api_user_profile sample_kernel (sample_request ''/api'' ''GET'' (dec (unat (77 :: u64))) [])
      (sample_server (session_of 1) alice_userdb) = Inr srv' \<and>
    tx_text (srv_tx srv') = stdout_record 0 (profile_body alice)"
proof -
  note c = sample_cookie [of "''GET''" "[]"]
  have "req_id (sample_request ''/api'' ''GET'' (dec (unat (77 :: u64))) []) = 0"
    by (simp add: sample_request_def new_request_def)
  moreover have "profile_answer (Some 1) alice_userdb = profile_body alice"
    using alice_userdb_ok(3,4) by (simp add: profile_answer_def)
  ultimately show ?thesis
    using profile_shown [OF sample_server_ok(1) c(1,2,4) sample_server_ok(2) session_of_ok(1) sample_server_ok(3)
        alice_userdb_ok(1), of 1 sample_kernel] c(3) session_of_ok(2) [of 1]
    by (auto simp: replied_def)
qed

text \<open>
  Changing the description changes nothing else: the account of the session gets the text
  of the form, up to its first zero byte, and keeps its number, name, password hash, points and
  completed challenges; all other accounts are the same.
\<close>

lemma update_changes_description_only:
  assumes "srv_ready srv" and "req_shape req" and "uses_method req ''POST''"
    and "srv_sessiondb srv = Some db" and "sessiondb_wf db"
    and "named_user db (request_session req) = Some n" and "srv_userdb srv = Some udb" and "userdb_wf udb"
    and "cg_userdb_find_by_id udb n = Some i" and "form_field (stdin_buf req) ''description'' = Some t"
    and "length t < 2048"
  shows "\<exists>srv' u'. cg_route_api_user_profile_update k req srv = Inr srv' \<and>
    replied req (json_text ''200 OK'' ''{\"status\":\"success\"}'')
      (srv\<lparr>srv_userdb := Some (set_user udb i u')\<rparr>) srv' \<and>
    u' = (udb_pool udb ! i)\<lparr>description := description u'\<rparr> \<and> cstr (description u') = cstr t \<and>
    userdb_wf (set_user udb i u')"
  using assms by (rule update_ok)

lemma update_changes_description_only_instance:
  "\<exists>srv' u'. cg_route_api_user_profile_update sample_kernel
      (sample_request ''/api'' ''POST'' (dec (unat (77 :: u64))) (enc_form [(str ''description'', [104, 105])]))
      (sample_server (session_of 1) alice_userdb) = Inr srv' \<and>
    srv_userdb srv' = Some (set_user alice_userdb 0 u') \<and> cstr (description u') = [104, 105] \<and>
    username u' = username alice"
proof -
  let ?body = "enc_form [(str ''description'', [104, 105])]"
  have len: "length ?body < 4096"
    using length_enc_form_field [of "[104, 105]"] by (simp add: enc_field_def)
  note c = sample_cookie [of "''POST''" ?body]
  have f: "form_field (stdin_buf (sample_request ''/api'' ''POST'' (dec (unat (77 :: u64))) ?body)) ''description'' =
      Some [104, 105]"
    using sample_request_field [OF refl len sample_keys(3)] sample_keys(3) by simp
  have u: "named_user (session_of 1) 77 = Some 1" using session_of_ok(2) by (simp add: named_user_def)
  obtain srv' u' where r: "cg_route_api_user_profile_update sample_kernel
        (sample_request ''/api'' ''POST'' (dec (unat (77 :: u64))) ?body)
        (sample_server (session_of 1) alice_userdb) = Inr srv'"
      "srv_userdb srv' = Some (set_user alice_userdb 0 u')" "cstr (description u') = [104, 105]"
      "u' = alice\<lparr>description := description u'\<rparr>"
    using update_changes_description_only [OF sample_server_ok(1) c(1,2) sample_server_ok(2) session_of_ok(1) _
        sample_server_ok(3) alice_userdb_ok(1,3) f, of 1 sample_kernel] c(3) u len alice_userdb_ok(4)
    by (auto simp: replied_def)
  have "username u' = username alice" by (subst r(4)) simp
  then show ?thesis using r by blast
qed

text \<open>
  C29: Deleting the account of a session deactivates exactly this account and clears the cookie
  of the browser, but the session itself stays in the store, with the number of the account.
\<close>

theorem delete_keeps_session:
  assumes ready: "srv_ready srv" and shape: "req_shape req" and post: "uses_method req ''POST''"
    and db: "srv_sessiondb srv = Some db" "sessiondb_wf db"
    and user: "named_user db (request_session req) = Some n" and udb: "srv_userdb srv = Some udb" "userdb_wf udb"
    and found: "cg_userdb_find_by_id udb n = Some i"
  shows "\<exists>srv' udb'. cg_route_api_user_delete k req srv = Inr srv' \<and>
    replied req delete_text (srv\<lparr>srv_userdb := Some udb'\<rparr>) srv' \<and>
    udb_pool udb' = (udb_pool udb)[i := (udb_pool udb ! i)\<lparr>user_is_active := 0\<rparr>] \<and> userdb_wf udb' \<and>
    cg_userdb_find_by_id udb' = (cg_userdb_find_by_id udb)(n := None) \<and>
    srv_sessiondb srv' = Some db \<and> sess_abs db (request_session req) = Some n"
proof -
  obtain udb' where d: "cg_userdb_delete udb n = (udb', 0)" "userdb_wf udb'"
      "udb_pool udb' = (udb_pool udb)[i := (udb_pool udb ! i)\<lparr>user_is_active := 0\<rparr>]"
      "cg_userdb_find_by_id udb' = (cg_userdb_find_by_id udb)(n := None)"
    using userdb_delete_ok [OF udb(2) found] by blast
  obtain srv' where s: "cg_route_api_user_delete k req srv = Inr srv'"
      "replied req delete_text (srv\<lparr>srv_userdb := Some udb'\<rparr>) srv'"
    using delete_handler [OF ready shape post db user udb(1)] d(1) by auto
  then have "srv_sessiondb srv' = Some db" using db(1) by (auto simp: replied_def)
  moreover have "sess_abs db (request_session req) = Some n"
    using user by (auto simp: named_user_def split: option.splits if_splits)
  ultimately show ?thesis using s d by blast
qed

theorem delete_keeps_session_witness:
  "\<exists>srv' udb'. cg_route_api_user_delete sample_kernel (sample_request ''/api'' ''POST'' (dec (unat (77 :: u64))) [])
      (sample_server (session_of 1) alice_userdb) = Inr srv' \<and>
    srv_userdb srv' = Some udb' \<and> cg_userdb_find_by_id udb' 1 = None \<and> srv_sessiondb srv' = Some (session_of 1)"
proof -
  note c = sample_cookie [of "''POST''" "[]"]
  have u: "named_user (session_of 1) 77 = Some 1" using session_of_ok(2) by (simp add: named_user_def)
  show ?thesis
    using delete_keeps_session [OF sample_server_ok(1) c(1,2) sample_server_ok(2) session_of_ok(1) [of 1] _
        sample_server_ok(3) alice_userdb_ok(1,3), where k = sample_kernel] c(3) u
    by (auto simp: replied_def)
qed

section \<open>Leaderboard\<close>

text \<open>
  C24: The leaderboard shows the ten best accounts: the rows are the first ten of the active
  accounts ranked by their points, equal ones in the order of their slots. The ranking is a
  permutation of the active accounts, sorted downwards and stable, and the code gets it with one
  pass of insertions into a table of ten.
\<close>

theorem leaderboard_ranks:
  assumes "srv_ready srv" and "req_shape req" and "uses_method req ''GET''"
    and "srv_userdb srv = Some udb" and "userdb_wf udb"
  defines "pool \<equiv> udb_pool udb"
  defines "ranking \<equiv> ranked (points_at pool) (active_slots pool)"
  shows "\<exists>srv'. cg_route_api_leaderboard k req srv = Inr srv' \<and>
    replied req (http_ok_text @ str ''{\"status\":\"success\",\"leaderboard\":['' @
      rows_text (map ((!) pool) (take 10 ranking)) True @ str '']}'') srv srv' \<and>
    mset ranking = mset (active_slots pool) \<and> sorted_wrt (\<lambda>a b. points_at pool b \<le> points_at pool a) ranking \<and>
    (\<forall>c. filter (\<lambda>i. points_at pool i = c) ranking = filter (\<lambda>i. points_at pool i = c) (active_slots pool))"
proof -
  have "leaderboard_body pool = http_ok_text @ str ''{\"status\":\"success\",\"leaderboard\":['' @
      rows_text (map ((!) pool) (take 10 ranking)) True @ str '']}''"
    by (simp add: leaderboard_body_def leaders_def ranking_def)
  then show ?thesis
    using leaderboard_handler [OF assms(1-5), of k] ranked_props [where f = "points_at pool" and xs = "active_slots pool"]
    unfolding ranking_def pool_def by metis
qed

theorem leaderboard_ranks_witness:
  "\<exists>srv'. cg_route_api_leaderboard sample_kernel (sample_request ''/api'' ''GET'' [] [])
      (sample_server new_sessiondb alice_userdb) = Inr srv'"
proof -
  have "req_shape (sample_request ''/api'' ''GET'' [] [])" by (rule sample_request_shape) simp
  from leaderboard_ranks [OF sample_server_ok(1) this sample_request_method sample_server_ok(3) alice_userdb_ok(1),
      of sample_kernel new_sessiondb]
  show ?thesis by blast
qed

section \<open>Challenges\<close>

text \<open>
  C31: The binary search finds a challenge exactly when the table has one of that name, and the
  one of that name: the table is sorted, and its fifteen names are looked up in at most four
  steps, none outside of the table.
\<close>

theorem challenge_found:
  assumes "has_nul key"
  shows "cg_challengedb_find key = Inr (find_challenge (cstr key)) \<and>
    (\<forall>i. find_challenge (cstr key) = Some i \<longrightarrow> i < 15 \<and> cstr (id_string (g_challengedb ! i)) = cstr key \<and>
       challenge_ok (g_challengedb ! i))"
proof -
  have "i < 15 \<and> cstr (id_string (g_challengedb ! i)) = cstr key \<and> challenge_ok (g_challengedb ! i)"
    if "find_challenge (cstr key) = Some i" for i
    using that find_challenge_ok [OF that] length_g_challengedb by (auto simp: find_challenge_def first_index_Some)
  then show ?thesis using challengedb_find_correct [OF assms] by (simp add: find_challenge_def)
qed

lemma find_fuzzer_001: "find_challenge (str ''fuzzer_001'') = Some 0"
proof -
  have "map id_string g_challengedb ! 0 = lit ''fuzzer_001''" unfolding challenge_ids by simp
  then have "cstr (id_string (g_challengedb ! 0)) = str ''fuzzer_001''"
    using length_g_challengedb by (simp add: cstr_literal)
  then show ?thesis
    using length_g_challengedb by (simp add: find_challenge_def first_index_Some)
qed

theorem challenge_found_witness: "cg_challengedb_find (lit ''fuzzer_001'') = Inr (Some 0)"
proof -
  have "cstr (lit ''fuzzer_001'') = str ''fuzzer_001''" by (rule cstr_literal) simp
  then show ?thesis using challenge_found [of "lit ''fuzzer_001''"] find_fuzzer_001 by simp
qed

text \<open>
  C16: The answers to a challenge are graded question by question: each is right when the field
  of its number has the expected text or number, the points of the right ones are added up and
  shown with the explanations, and only a session with all the points of a known account is
  credited. The text fits the buffer for every challenge of the table.
\<close>

theorem challenge_graded:
  assumes ready: "srv_ready srv" and shape: "req_shape req" and post: "uses_method req ''POST''"
    and cookie: "req_session_id req ! 0 \<noteq> 0"
    and db: "srv_sessiondb srv = Some db" "sessiondb_wf db"
    and user: "sess_abs db (request_session req) = Some n"
    and udb: "srv_userdb srv = Some udb" "userdb_wf udb"
    and form: "form_field (stdin_buf req) ''id'' = Some t" "length t < 64"
    and chal: "find_challenge (cstr t) = Some ci"
    and short: "short_answers (stdin_buf req) (questions (g_challengedb ! ci))"
    and known: "n \<noteq> 0 \<Longrightarrow> cg_userdb_find_by_id udb n = Some i"
  shows "\<exists>srv' udb'. cg_route_api_challenge_verify k req srv = Inr srv' \<and>
    replied req (verify_body (stdin_buf req) (g_challengedb ! ci)) (srv\<lparr>srv_userdb := Some udb'\<rparr>) srv' \<and>
    userdb_wf udb' \<and>
    (if total_earned (stdin_buf req) (g_challengedb ! ci) = chal_total_points (g_challengedb ! ci) \<and> n \<noteq> 0
     then \<exists>u'. udb' = set_user udb i u' \<and> same_account (udb_pool udb ! i) u' \<and>
       total_points u' = total_points (udb_pool udb ! i) + chal_total_points (g_challengedb ! ci)
     else udb' = udb)"
proof -
  let ?c = "g_challengedb ! ci" and ?form = "stdin_buf req"
  show ?thesis
  proof (cases "total_earned ?form ?c = chal_total_points ?c \<and> n \<noteq> 0")
    case True
    then obtain u' where u': "award_user srv n (t @ [0]) (total_earned ?form ?c) =
          Inr (srv\<lparr>srv_userdb := Some (set_user udb i u')\<rparr>)" "userdb_wf (set_user udb i u')"
        "same_account (udb_pool udb ! i) u'"
        "total_points u' = total_points (udb_pool udb ! i) + total_earned ?form ?c"
      using award_user_ok [OF udb known, of t "total_earned ?form ?c"] by blast
    have "srv_ready (srv\<lparr>srv_userdb := Some (set_user udb i u')\<rparr>)"
      using ready by (simp add: srv_ready_def)
    then show ?thesis
      using verify_handler [OF ready shape post cookie db user form chal refl short, of _ k] u' True by fastforce
  next
    case False
    have "srv\<lparr>srv_userdb := Some udb\<rparr> = srv" using udb(1) by (cases srv) simp
    then show ?thesis
      using verify_handler [OF ready shape post cookie db user form chal refl short, of srv k] ready False udb(2)
      by auto
  qed
qed

text \<open>
  A challenge that is solved again is credited again: the list of completed challenges
  does not get a second entry, but the points are added every time.
\<close>

lemma credited_again:
  assumes "srv_userdb srv = Some udb" and "userdb_wf udb" and "cg_userdb_find_by_id udb n = Some i"
    and "ucast (crc32c (cstr t)) \<in> set (completed (udb_pool udb ! i))"
  shows "\<exists>u'. award_user srv n (t @ [0]) pts = Inr (srv\<lparr>srv_userdb := Some (set_user udb i u')\<rparr>) \<and>
    total_points u' = total_points (udb_pool udb ! i) + pts \<and> completed u' = completed (udb_pool udb ! i)"
  using award_user_ok [OF assms(1-3), of t pts] assms(4) by (auto simp: Let_def)

lemma credited_again_instance:
  "\<exists>u1 u2. award_user (sample_server new_sessiondb alice_userdb) 1 (str ''fuzzer_001'' @ [0]) 50 =
      Inr (sample_server new_sessiondb (set_user alice_userdb 0 u1)) \<and>
    award_user (sample_server new_sessiondb (set_user alice_userdb 0 u1)) 1 (str ''fuzzer_001'' @ [0]) 50 =
      Inr (sample_server new_sessiondb (set_user alice_userdb 0 u2)) \<and>
    total_points u2 = 100 \<and> length (completed u2) = 1"
proof -
  let ?h = "ucast (crc32c (cstr (str ''fuzzer_001''))) :: u64"
  note a = alice_userdb_ok(1,3,4)
  have none: "completed alice = []" using alice_ok(6) by (simp add: completed_def)
  obtain u1 where u1: "award_user (sample_server new_sessiondb alice_userdb) 1 (str ''fuzzer_001'' @ [0]) 50 =
        Inr ((sample_server new_sessiondb alice_userdb)\<lparr>srv_userdb := Some (set_user alice_userdb 0 u1)\<rparr>)"
      "userdb_wf (set_user alice_userdb 0 u1)" "same_account alice u1" "total_points u1 = 50" "completed u1 = [?h]"
    using award_user_ok [OF sample_server_ok(3) a(1,2), of new_sessiondb "str ''fuzzer_001''" 50] a(3) none alice_ok(5)
    by (auto simp: Let_def)
  have len: "0 < length (udb_pool alice_userdb)" using a(1) by (simp add: userdb_wf_def USERDB_POOL_SIZE_def)
  then have at: "udb_pool (set_user alice_userdb 0 u1) ! 0 = u1" by (simp add: set_user_def)
  have "user_shape u1"
    using u1(2) len by (auto simp: userdb_wf_def set_user_def set_update_memI)
  then have "cg_userdb_find_by_id (set_user alice_userdb 0 u1) = cg_userdb_find_by_id alice_userdb"
    using set_user_wf(3) [OF a(1) len] u1(3) a(3) by simp
  then have f: "cg_userdb_find_by_id (set_user alice_userdb 0 u1) 1 = Some 0" using a(2) by simp
  obtain u2 where u2: "award_user (sample_server new_sessiondb (set_user alice_userdb 0 u1)) 1 (str ''fuzzer_001'' @ [0]) 50 =
        Inr ((sample_server new_sessiondb (set_user alice_userdb 0 u1))
          \<lparr>srv_userdb := Some (set_user (set_user alice_userdb 0 u1) 0 u2)\<rparr>)"
      "total_points u2 = 100" "completed u2 = [?h]"
    using credited_again [OF sample_server_ok(3) u1(2) f, of "str ''fuzzer_001''" new_sessiondb 50] at u1(4,5) by auto
  have "set_user (set_user alice_userdb 0 u1) 0 u2 = set_user alice_userdb 0 u2" by (simp add: set_user_def)
  then show ?thesis using u1(1) u2 by (intro exI [of _ u1] exI [of _ u2]) (simp add: sample_server_def)
qed

theorem challenge_graded_witness:
  "\<exists>srv' udb'. cg_route_api_challenge_verify sample_kernel
      (sample_request ''/api'' ''POST'' (dec (unat (77 :: u64))) (enc_form [(str ''id'', str ''fuzzer_001''), (str ''q1'', [49])]))
      (sample_server (session_of 1) alice_userdb) = Inr srv' \<and> srv_userdb srv' = Some udb' \<and>
    total_points (udb_pool udb' ! 0) = 50"
proof -
  let ?fs = "[(str ''id'', str ''fuzzer_001''), (str ''q1'', [49])]"
  let ?body = "enc_form ?fs" and ?c = "g_challengedb ! 0"
  let ?req = "sample_request ''/api'' ''POST'' (dec (unat (77 :: u64))) ?body"
  have len: "length ?body < 4096"
    using length_enc_form_field [of "str ''fuzzer_001''"] length_enc_form_field [of "[49]"]
    by (simp add: enc_field_def)
  note c = sample_cookie [of "''POST''" ?body]
  have ks: "\<forall>f \<in> set ?fs. plain_key (fst f)" using sample_keys by simp
  have ne: "str ''q1'' \<noteq> str ''id''" by (simp add: str_def)
  have f: "form_field (stdin_buf ?req) ''id'' = Some (str ''fuzzer_001'')"
    "form_field (stdin_buf ?req) ''q1'' = Some [49]"
    using sample_request_field [OF refl len sample_keys(4) ks] sample_request_field [OF refl len sample_keys(5) ks] ne
    by simp_all
  have q: "?c = \<lparr>id_string = lit ''fuzzer_001'', chal_total_points = 50, question_count = 1, questions = q_fuzzer_001\<rparr>"
    by (simp add: g_challengedb_def)
  define q1 where "q1 = hd q_fuzzer_001"
  have one: "questions ?c = [q1]" "q_points q1 = 50" "chal_total_points ?c = 50"
    by (simp_all add: q q1_def q_fuzzer_001_def)
  have "answer_key q1 = str ''q1''"
    by (simp add: answer_key_def q1_def q_fuzzer_001_def str_def dec.simps digit_def)
  then have at: "field_at (stdin_buf ?req) (answer_key q1) = Some [49]"
    using f(2) by (simp add: field_at_def form_field_def)
  have right: "right q1 [49]" by (simp add: right_def q1_def q_fuzzer_001_def)
  have short: "short_answers (stdin_buf ?req) (questions ?c)"
    using at by (simp add: short_answers_def one(1))
  have total: "total_earned (stdin_buf ?req) ?c = chal_total_points ?c"
    using at right one by (simp add: total_earned_def earned_def solved_def)
  have nm: "cstr (str ''fuzzer_001'') = str ''fuzzer_001''" by (simp add: str_def)
  have "0 < length (udb_pool alice_userdb)"
    using alice_userdb_ok(1) by (simp add: userdb_wf_def USERDB_POOL_SIZE_def)
  then have pool: "udb_pool (set_user alice_userdb 0 u) ! 0 = u" for u by (simp add: set_user_def)
  show ?thesis
    using challenge_graded [OF sample_server_ok(1) c(1,2,4) sample_server_ok(2) session_of_ok(1) [of 1] _
        sample_server_ok(3) alice_userdb_ok(1) f(1) _ _ short alice_userdb_ok(3), where k = sample_kernel]
      c(3) len session_of_ok(2) [of 1] find_fuzzer_001 nm total one(3) alice_userdb_ok(4) alice_ok(5)
    by (auto simp: replied_def pool)
qed

end
