(* ===== verification/CG_Uring.thy ===== *)
theory CG_Uring
  imports CG_Hashmap
begin

text \<open>
  The rings that are shared with the kernel, \<open>src/core/cg_uring.c\<close>. The model of a ring is its
  array and its two 32-bit counters, which wrap; what is pending in it is the list that
  \<open>ring\<close> reads off. The head of the submission queue belongs to the kernel and is never read
  by the code, so it is a parameter of the statements and not part of the context.
\<close>

section \<open>Data\<close>

text \<open>The members of \<open>struct io_uring_sqe\<close> and \<open>struct io_uring_cqe\<close> that the program uses.\<close>

record io_uring_sqe =
  sqe_opcode :: byte
  sqe_ioprio :: u16
  sqe_fd :: u32
  sqe_off :: u64
  sqe_addr :: u64
  sqe_len :: u32
  sqe_accept_flags :: u32
  sqe_user_data :: u64

record io_uring_cqe =
  cqe_user_data :: u64
  cqe_res :: u32
  cqe_flags :: u32

definition zero_sqe :: io_uring_sqe where
  "zero_sqe = \<lparr>sqe_opcode = 0, sqe_ioprio = 0, sqe_fd = 0, sqe_off = 0, sqe_addr = 0, sqe_len = 0,
     sqe_accept_flags = 0, sqe_user_data = 0\<rparr>"

record cg_uring_ctx =
  ring_fd :: u32
  sq_entries :: u32
  sq_tail :: u32
  sq_ring_mask :: u32
  sq_flags :: u32
  sq_array :: "u32 list"
  cq_head :: u32
  cq_tail :: u32
  cq_ring_mask :: u32
  cqes :: "io_uring_cqe list"
  sqes :: "io_uring_sqe list"
  sqe_tail :: u32

section \<open>Operations\<close>

text \<open>The entry is handed out as its index; nothing compares the tail with the head.\<close>

definition cg_uring_sqe_get :: "cg_uring_ctx \<Rightarrow> (cg_uring_ctx \<times> nat) cres" where
  "cg_uring_sqe_get ctx =
     (let index = unat (sqe_tail ctx AND (sq_entries ctx - 1)) in
      if index < length (sqes ctx) then
        Inr (ctx\<lparr>sqes := (sqes ctx)[index := zero_sqe], sqe_tail := sqe_tail ctx + 1\<rparr>, index)
      else Inl Out_Of_Bounds)"

text \<open>The caller fills the entry in place.\<close>

definition fill_sqe :: "cg_uring_ctx \<Rightarrow> nat \<Rightarrow> (io_uring_sqe \<Rightarrow> io_uring_sqe) \<Rightarrow> cg_uring_ctx" where
  "fill_sqe ctx i f = ctx\<lparr>sqes := (sqes ctx)[i := f (sqes ctx ! i)]\<rparr>"

abbreviation IORING_SQ_NEED_WAKEUP :: u32 where "IORING_SQ_NEED_WAKEUP \<equiv> 1"

text \<open>The second result tells whether the kernel thread is woken up by a system call.\<close>

definition cg_uring_sq_enqueue :: "cg_uring_ctx \<Rightarrow> nat \<Rightarrow> (cg_uring_ctx \<times> bool) cres" where
  "cg_uring_sq_enqueue ctx sqe =
     (let tail = sq_tail ctx; slot = unat (tail AND sq_ring_mask ctx) in
      if slot < length (sq_array ctx) then
        Inr (ctx\<lparr>sq_array := (sq_array ctx)[slot := word_of_nat sqe], sq_tail := tail + 1\<rparr>,
             sq_flags ctx AND IORING_SQ_NEED_WAKEUP \<noteq> 0)
      else Inl Out_Of_Bounds)"

definition cg_uring_cq_peek :: "cg_uring_ctx \<Rightarrow> nat option cres" where
  "cg_uring_cq_peek ctx =
     (if cq_head ctx = cq_tail ctx then Inr None
      else
        (let i = unat (cq_head ctx AND cq_ring_mask ctx) in
         if i < length (cqes ctx) then Inr (Some i) else Inl Out_Of_Bounds))"

text \<open>
  The system call that waits is the kernel's: its return value, and the context as the kernel
  left it. The result is the return value and the entry.
\<close>

definition cg_uring_cqe_wait ::
  "cg_uring_ctx \<Rightarrow> u32 \<times> cg_uring_ctx \<Rightarrow> (cg_uring_ctx \<times> u32 \<times> nat option) cres" where
  "cg_uring_cqe_wait ctx enter =
     cbind (cg_uring_cq_peek ctx) (\<lambda>cqe.
       if cqe \<noteq> None then Inr (ctx, 0, cqe)
       else
         (case enter of (ret, ctx') \<Rightarrow>
            if sint ret < 0 then Inr (ctx', ret, None)
            else cbind (cg_uring_cq_peek ctx') (\<lambda>cqe.
              if cqe = None then Inr (ctx', - 1, None) else Inr (ctx', 0, cqe))))"

definition cg_uring_cq_discard :: "cg_uring_ctx \<Rightarrow> u32 \<Rightarrow> cg_uring_ctx" where
  "cg_uring_cq_discard ctx count = ctx\<lparr>cq_head := cq_head ctx + count\<rparr>"

section \<open>Setting the rings up\<close>

text \<open>What the kernel reports, and the addresses derived from it.\<close>

record io_uring_params =
  p_sq_entries :: u32
  p_cq_entries :: u32
  p_single_mmap :: bool
  p_sq_off_tail :: u32
  p_sq_off_ring_mask :: u32
  p_sq_off_flags :: u32
  p_sq_off_array :: u32
  p_cq_off_head :: u32
  p_cq_off_tail :: u32
  p_cq_off_ring_mask :: u32
  p_cq_off_cqes :: u32

record uring_layout =
  lay_sq_ring :: u64
  lay_sq_tail :: u64
  lay_sq_ring_mask :: u64
  lay_sq_flags :: u64
  lay_sq_array :: u64
  lay_cq_ring :: u64
  lay_cq_head :: u64
  lay_cq_tail :: u64
  lay_cq_ring_mask :: u64
  lay_cq_cqes :: u64
  lay_sqe :: u64

datatype uring_call = Munmap u64 u64 | Close u32

abbreviation MAP_FAILED :: u64 where "MAP_FAILED \<equiv> - 1"

text \<open>
  The results of the set-up call and of the three mappings are the kernel's. The result is the
  return value, the layout when the rings are mapped, and the calls that undo what was done.
\<close>

definition cg_uring_init ::
  "u32 \<Rightarrow> io_uring_params \<Rightarrow> u64 \<Rightarrow> u64 \<Rightarrow> u64 \<Rightarrow> u32 \<times> uring_layout option \<times> uring_call list" where
  "cg_uring_init fd p sq_map cq_map sqe_map =
     (if sint fd < 0 then (fd, None, [])
      else
        let sq_sz = ucast (p_sq_off_array p) + ucast (p_sq_entries p) * 4 :: u64;
            cq_sz = ucast (p_cq_off_cqes p) + ucast (p_cq_entries p) * 16 :: u64
        in if sq_map = MAP_FAILED then (ucast sq_map, None, [Close fd])
        else if \<not> p_single_mmap p \<and> cq_map = MAP_FAILED then
          (ucast cq_map, None, [Munmap sq_map sq_sz, Close fd])
        else
          let cq_ring = (if p_single_mmap p then sq_map else cq_map)
          in if sqe_map = MAP_FAILED then
            (ucast sqe_map, None,
             (if cq_ring \<noteq> sq_map then [Munmap cq_ring cq_sz] else []) @ [Munmap sq_map sq_sz, Close fd])
          else
            (0, Some \<lparr>lay_sq_ring = sq_map,
                      lay_sq_tail = sq_map + ucast (p_sq_off_tail p),
                      lay_sq_ring_mask = sq_map + ucast (p_sq_off_ring_mask p),
                      lay_sq_flags = sq_map + ucast (p_sq_off_flags p),
                      lay_sq_array = sq_map + ucast (p_sq_off_array p),
                      lay_cq_ring = cq_ring,
                      lay_cq_head = cq_ring + ucast (p_cq_off_head p),
                      lay_cq_tail = cq_ring + ucast (p_cq_off_tail p),
                      lay_cq_ring_mask = cq_ring + ucast (p_cq_off_ring_mask p),
                      lay_cq_cqes = cq_ring + ucast (p_cq_off_cqes p),
                      lay_sqe = sqe_map\<rparr>, []))"

section \<open>A ring with wrapping counters\<close>

definition ring :: "'a list \<Rightarrow> u32 \<Rightarrow> u32 \<Rightarrow> 'a list" where
  "ring xs h t = map (\<lambda>i. xs ! (unat (h + word_of_nat i) mod length xs)) [0..<unat (t - h)]"

definition ring_size :: "'a list \<Rightarrow> u32 \<Rightarrow> bool" where
  "ring_size xs m \<longleftrightarrow> (\<exists>k < 32. length xs = 2 ^ k \<and> m = mask k)"

lemma length_ring [simp]: "length (ring xs h t) = unat (t - h)"
  by (simp add: ring_def)

lemma ring_Nil: "ring xs h h = []"
  by (simp add: ring_def)

lemma ring_slot:
  assumes "ring_size xs m"
  shows "unat (w AND m) = unat w mod length xs" and "unat w mod length xs < length xs"
  using assms by (auto simp: ring_size_def unat_and_mask)

lemma ring_index:
  assumes "ring_size xs m"
  shows "unat ((h :: u32) + word_of_nat i) mod length xs = (unat h + i) mod length xs"
proof -
  obtain k where k: "k < 32" "length xs = 2 ^ k" using assms by (auto simp: ring_size_def)
  have "unat (h + word_of_nat i :: u32) = (unat h + i) mod 2 ^ 32"
    by (simp add: unat_word_ariths unat_of_nat mod_simps)
  moreover have "(2 :: nat) ^ k dvd 2 ^ 32" using k(1) by (intro le_imp_power_dvd) simp
  ultimately show ?thesis by (simp add: k(2) mod_mod_cancel)
qed

lemma ring_tail:
  assumes "ring_size xs m"
  shows "unat (t :: u32) mod length xs = (unat h + unat (t - h)) mod length xs"
  using ring_index [OF assms, of h "unat (t - h)"] by simp

lemma ring_head:
  assumes "h \<noteq> t"
  shows "ring xs h t = xs ! (unat h mod length xs) # ring xs (h + 1) t"
proof -
  have "t - h \<noteq> 0" using assms by simp
  then obtain n where n: "unat (t - h) = Suc n" by (metis unat_eq_0 not0_implies_Suc)
  have "t - h = (t - (h + 1)) + 1" by simp
  have "unat (t - (h + 1)) = n"
  proof -
    have "t - (h + 1) = (t - h) - 1" by simp
    also have "unat \<dots> = unat (t - h) - 1"
      using \<open>t - h \<noteq> 0\<close> by (metis unat_minus_one)
    finally show ?thesis using n by simp
  qed
  then show ?thesis
    by (simp add: ring_def n upt_conv_Cons map_Suc_upt [symmetric] comp_def add.assoc del: upt_Suc)
qed

text \<open>Writing at the tail appends, as long as the ring is not full; in a full one the oldest goes.\<close>

lemma ring_push:
  assumes size: "ring_size xs m" and room: "unat (t - h) < length xs"
  shows "ring (xs[unat (t AND m) := x]) h (t + 1) = ring xs h t @ [x]"
proof -
  obtain k where k: "k < 32" "length xs = 2 ^ k" using size by (auto simp: ring_size_def)
  let ?n = "unat (t - h)" and ?L = "length xs"
  have "(2 :: nat) ^ k < 2 ^ 32" using k(1) by (intro power_strict_increasing) simp_all
  then have "?n + unat (1 :: u32) < 2 ^ 32" using room k(2) by simp
  then have "unat (t - h + 1) = ?n + 1" by (subst unat_add_small) simp_all
  then have n1: "unat (t + 1 - h) = ?n + 1" by (simp only: add_diff_eq diff_add_eq)
  have slot: "unat (t AND m) = (unat h + ?n) mod ?L"
    using ring_slot(1) [OF size] ring_tail [OF size] by simp
  have idx: "unat (h + word_of_nat i) mod ?L = (unat h + i) mod ?L" for i
    by (rule ring_index [OF size])
  have L: "0 < ?L" using k(2) by simp
  have ne: "(unat h + i) mod ?L \<noteq> (unat h + ?n) mod ?L" if "i < ?n" for i
  proof
    assume "(unat h + i) mod ?L = (unat h + ?n) mod ?L"
    then have "?L dvd (unat h + ?n) - (unat h + i)"
      using that by (subst mod_eq_dvd_iff_nat [symmetric]) simp_all
    then have "?L dvd ?n - i" by simp
    then show False using that room by (auto dest: dvd_imp_le)
  qed
  have "ring (xs[unat (t AND m) := x]) h (t + 1) =
      map (\<lambda>i. xs[unat (t AND m) := x] ! ((unat h + i) mod ?L)) [0..<?n + 1]"
    unfolding ring_def n1 by (simp only: length_list_update idx)
  also have "\<dots> = map (\<lambda>i. xs ! ((unat h + i) mod ?L)) [0..<?n] @ [x]"
    using ne [THEN not_sym] L by (simp add: slot)
  finally show ?thesis by (simp only: ring_def idx)
qed

text \<open>In a full ring the slot of the tail is that of the head: the oldest entry is replaced.\<close>

lemma ring_overwrite:
  assumes size: "ring_size xs m" and full: "unat (t - h) = length xs"
  shows "ring (xs[unat (t AND m) := x]) h t = x # tl (ring xs h t)"
proof -
  obtain k where k: "k < 32" "length xs = 2 ^ k" using size by (auto simp: ring_size_def)
  let ?L = "length xs"
  have L: "0 < ?L" using k(2) by simp
  have idx: "unat (h + word_of_nat i) mod ?L = (unat h + i) mod ?L" for i
    by (rule ring_index [OF size])
  have slot: "unat (t AND m) = unat h mod ?L"
    using ring_slot(1) [OF size] ring_tail [OF size, of t h] full by simp
  have ne: "unat h mod ?L \<noteq> (unat h + i) mod ?L" if "0 < i" "i < ?L" for i
  proof
    assume "unat h mod ?L = (unat h + i) mod ?L"
    then have "?L dvd (unat h + i) - unat h"
      by (subst mod_eq_dvd_iff_nat [symmetric]) simp_all
    then show False using that by (auto dest: dvd_imp_le)
  qed
  have "ring (xs[unat (t AND m) := x]) h t =
      map (\<lambda>i. xs[unat (t AND m) := x] ! ((unat h + i) mod ?L)) [0..<?L]"
    unfolding ring_def full by (simp only: length_list_update idx)
  also have "[0..<?L] = 0 # [1..<?L]" using L by (simp add: upt_conv_Cons)
  also have "map (\<lambda>i. xs[unat (t AND m) := x] ! ((unat h + i) mod ?L)) (0 # [1..<?L]) =
      x # map (\<lambda>i. xs ! ((unat h + i) mod ?L)) [1..<?L]"
    using ne L by (simp add: slot)
  also have "map (\<lambda>i. xs ! ((unat h + i) mod ?L)) [1..<?L] = tl (ring xs h t)"
    unfolding ring_def full idx using L by (simp add: upt_conv_Cons)
  finally show ?thesis .
qed

section \<open>The completion queue\<close>

definition completions :: "cg_uring_ctx \<Rightarrow> io_uring_cqe list" where
  "completions ctx = ring (cqes ctx) (cq_head ctx) (cq_tail ctx)"

definition cq_ok :: "cg_uring_ctx \<Rightarrow> bool" where
  "cq_ok ctx \<longleftrightarrow> ring_size (cqes ctx) (cq_ring_mask ctx)"

lemma cq_peek_ok:
  assumes "cq_ok ctx"
  shows "cg_uring_cq_peek ctx =
    Inr (if completions ctx = [] then None else Some (unat (cq_head ctx) mod length (cqes ctx)))"
    and "completions ctx \<noteq> [] \<Longrightarrow>
      cqes ctx ! (unat (cq_head ctx) mod length (cqes ctx)) = hd (completions ctx)"
proof -
  have size: "ring_size (cqes ctx) (cq_ring_mask ctx)" using assms by (simp add: cq_ok_def)
  note r = ring_slot [OF size, of "cq_head ctx"]
  have e: "completions ctx = [] \<longleftrightarrow> cq_head ctx = cq_tail ctx"
    using ring_head [of "cq_head ctx" "cq_tail ctx" "cqes ctx"]
    by (cases "cq_head ctx = cq_tail ctx") (simp_all add: completions_def ring_Nil)
  show "cg_uring_cq_peek ctx =
    Inr (if completions ctx = [] then None else Some (unat (cq_head ctx) mod length (cqes ctx)))"
    using r by (simp add: cg_uring_cq_peek_def e Let_def)
  show "cqes ctx ! (unat (cq_head ctx) mod length (cqes ctx)) = hd (completions ctx)"
    if "completions ctx \<noteq> []"
    using that ring_head [of "cq_head ctx" "cq_tail ctx" "cqes ctx"] e by (simp add: completions_def)
qed

lemma cq_discard_ok:
  assumes "completions ctx \<noteq> []"
  shows "completions (cg_uring_cq_discard ctx 1) = tl (completions ctx)"
    and "cq_ok (cg_uring_cq_discard ctx 1) = cq_ok ctx"
proof -
  have "cq_head ctx \<noteq> cq_tail ctx"
    using assms ring_Nil [of "cqes ctx" "cq_tail ctx"] by (auto simp: completions_def)
  then show "completions (cg_uring_cq_discard ctx 1) = tl (completions ctx)"
    using ring_head [of "cq_head ctx" "cq_tail ctx" "cqes ctx"]
    by (simp add: completions_def cg_uring_cq_discard_def)
  show "cq_ok (cg_uring_cq_discard ctx 1) = cq_ok ctx"
    by (simp add: cq_ok_def cg_uring_cq_discard_def)
qed

section \<open>The submission queue\<close>

text \<open>
  The entries that the kernel has not taken yet, for its head \<open>h\<close>. The counter of handed-out
  entries runs with the tail, because every entry that is taken is enqueued at once.
\<close>

definition sq_ok :: "cg_uring_ctx \<Rightarrow> bool" where
  "sq_ok ctx \<longleftrightarrow> ring_size (sqes ctx) (sq_ring_mask ctx) \<and> length (sq_array ctx) = length (sqes ctx) \<and>
     sq_entries ctx = sq_ring_mask ctx + 1 \<and> sqe_tail ctx = sq_tail ctx"

definition sq_slot :: "cg_uring_ctx \<Rightarrow> u32 \<Rightarrow> nat" where
  "sq_slot ctx w = unat w mod length (sqes ctx)"

text \<open>Slot \<open>i\<close> of the array holds index \<open>i\<close> for every entry that is pending.\<close>

definition sq_straight :: "cg_uring_ctx \<Rightarrow> u32 \<Rightarrow> bool" where
  "sq_straight ctx h \<longleftrightarrow> ring (sq_array ctx) h (sq_tail ctx) =
     map (\<lambda>i. word_of_nat (sq_slot ctx (h + word_of_nat i))) [0..<unat (sq_tail ctx - h)]"

definition submissions :: "cg_uring_ctx \<Rightarrow> u32 \<Rightarrow> io_uring_sqe list" where
  "submissions ctx h = map (\<lambda>i. sqes ctx ! unat i) (ring (sq_array ctx) h (sq_tail ctx))"

lemma straight_submissions:
  assumes "ring_size (sqes ctx) m" and "sq_straight ctx h"
  shows "submissions ctx h = ring (sqes ctx) h (sq_tail ctx)"
proof -
  obtain k where k: "k < 32" "length (sqes ctx) = 2 ^ k" using assms(1) by (auto simp: ring_size_def)
  have "(2 :: nat) ^ k < 2 ^ 32" using k(1) by (intro power_strict_increasing) simp_all
  then have "sq_slot ctx w < 2 ^ 32" for w
    using ring_slot(2) [OF assms(1), of w] unfolding sq_slot_def k(2) by (rule order.strict_trans [rotated])
  then have "unat (word_of_nat (sq_slot ctx w) :: u32) = sq_slot ctx w" for w
    by (simp add: unat_of_nat)
  then show ?thesis
    using assms(2) by (simp add: submissions_def sq_straight_def ring_def sq_slot_def comp_def)
qed

lemma sqe_get_ok:
  assumes "sq_ok ctx"
  shows "cg_uring_sqe_get ctx =
    Inr (ctx\<lparr>sqes := (sqes ctx)[sq_slot ctx (sq_tail ctx) := zero_sqe], sqe_tail := sq_tail ctx + 1\<rparr>,
      sq_slot ctx (sq_tail ctx))"
proof -
  have size: "ring_size (sqes ctx) (sq_ring_mask ctx)" using assms by (simp add: sq_ok_def)
  have "sq_entries ctx - 1 = sq_ring_mask ctx" using assms by (simp add: sq_ok_def)
  then show ?thesis
    using assms ring_slot [OF size, of "sq_tail ctx"]
    by (simp add: cg_uring_sqe_get_def Let_def sq_slot_def sq_ok_def)
qed

text \<open>How every caller submits: take an entry, fill it, enqueue it.\<close>

definition submit :: "cg_uring_ctx \<Rightarrow> (io_uring_sqe \<Rightarrow> io_uring_sqe) \<Rightarrow> (cg_uring_ctx \<times> bool) cres" where
  "submit ctx f = cbind (cg_uring_sqe_get ctx) (\<lambda>(ctx, i). cg_uring_sq_enqueue (fill_sqe ctx i f) i)"

lemma submit_ok:
  assumes ok: "sq_ok ctx" and straight: "sq_straight ctx h"
    and room: "unat (sq_tail ctx - h) < length (sqes ctx)"
  shows "\<exists>ctx' w. submit ctx f = Inr (ctx', w) \<and> sq_ok ctx' \<and> sq_straight ctx' h \<and>
    submissions ctx' h = submissions ctx h @ [f zero_sqe] \<and> sq_tail ctx' = sq_tail ctx + 1 \<and>
    length (sqes ctx') = length (sqes ctx) \<and> completions ctx' = completions ctx \<and> cq_ok ctx' = cq_ok ctx"
proof -
  have size: "ring_size (sqes ctx) (sq_ring_mask ctx)" and la: "length (sq_array ctx) = length (sqes ctx)"
    using ok by (simp_all add: sq_ok_def)
  then have sizea: "ring_size (sq_array ctx) (sq_ring_mask ctx)" by (simp add: ring_size_def)
  let ?t = "sq_tail ctx" and ?n = "unat (sq_tail ctx - h)"
  let ?i = "sq_slot ctx ?t"
  have i: "unat (?t AND sq_ring_mask ctx) = ?i" "?i < length (sqes ctx)"
    using ring_slot [OF size, of ?t] by (simp_all add: sq_slot_def)
  define ctx' where "ctx' = ctx\<lparr>sqes := (sqes ctx)[?i := f zero_sqe], sqe_tail := ?t + 1,
    sq_array := (sq_array ctx)[?i := word_of_nat ?i], sq_tail := ?t + 1\<rparr>"
  have run: "submit ctx f = Inr (ctx', sq_flags ctx AND IORING_SQ_NEED_WAKEUP \<noteq> 0)"
    using i la by (simp add: submit_def sqe_get_ok [OF ok] fill_sqe_def cg_uring_sq_enqueue_def
        ctx'_def Let_def)
  have ok': "sq_ok ctx'" using ok by (simp add: sq_ok_def ctx'_def ring_size_def)
  have push: "ring (sqes ctx') h (?t + 1) = ring (sqes ctx) h ?t @ [f zero_sqe]"
    using ring_push [OF size room] i(1) by (simp add: ctx'_def)
  have pusha: "ring (sq_array ctx') h (?t + 1) = ring (sq_array ctx) h ?t @ [word_of_nat ?i]"
    using ring_push [OF sizea, of ?t h "word_of_nat ?i"] room la i(1) by (simp add: ctx'_def)
  have "length (ring (sq_array ctx') h (?t + 1)) = Suc ?n" unfolding pusha by simp
  then have n': "unat (?t + 1 - h) = Suc ?n" by simp
  have slot': "sq_slot ctx' w = sq_slot ctx w" for w by (simp add: sq_slot_def ctx'_def)
  have straight': "sq_straight ctx' h"
    using straight pusha by (simp add: sq_straight_def n' slot') (simp add: ctx'_def n')
  have size': "ring_size (sqes ctx') (sq_ring_mask ctx')" using ok' by (simp add: sq_ok_def)
  have tail': "sq_tail ctx' = ?t + 1" by (simp add: ctx'_def)
  have "submissions ctx' h = submissions ctx h @ [f zero_sqe]"
    unfolding straight_submissions [OF size' straight'] straight_submissions [OF size straight] tail'
    by (rule push)
  then show ?thesis using run ok' straight'
    by (intro exI [of _ ctx'] exI [of _ "sq_flags ctx AND IORING_SQ_NEED_WAKEUP \<noteq> 0"])
      (simp add: ctx'_def completions_def cq_ok_def)
qed

text \<open>In a full queue the next entry is the oldest one that the kernel has not taken: it is lost.\<close>

lemma sqe_get_full:
  assumes ok: "sq_ok ctx" and straight: "sq_straight ctx h"
    and full: "unat (sq_tail ctx - h) = length (sqes ctx)"
  shows "\<exists>ctx' i. cg_uring_sqe_get ctx = Inr (ctx', i) \<and>
    submissions ctx' h = zero_sqe # tl (submissions ctx h)"
proof -
  have size: "ring_size (sqes ctx) (sq_ring_mask ctx)" using ok by (simp add: sq_ok_def)
  define ctx' where "ctx' = ctx\<lparr>sqes := (sqes ctx)[sq_slot ctx (sq_tail ctx) := zero_sqe],
    sqe_tail := sq_tail ctx + 1\<rparr>"
  have straight': "sq_straight ctx' h"
    using straight by (simp add: sq_straight_def ctx'_def sq_slot_def)
  have size': "ring_size (sqes ctx') (sq_ring_mask ctx)" using size by (simp add: ring_size_def ctx'_def)
  have "submissions ctx' h = ring (sqes ctx') h (sq_tail ctx)"
    using straight_submissions [OF size' straight'] by (simp add: ctx'_def)
  also have "\<dots> = zero_sqe # tl (ring (sqes ctx) h (sq_tail ctx))"
    using ring_overwrite [OF size full, of zero_sqe] ring_slot(1) [OF size, of "sq_tail ctx"]
    by (simp add: ctx'_def sq_slot_def)
  also have "\<dots> = zero_sqe # tl (submissions ctx h)"
    using straight_submissions [OF size straight] by simp
  finally show ?thesis using sqe_get_ok [OF ok] by (simp add: ctx'_def)
qed

text \<open>The kernel takes the oldest entry by moving its head.\<close>

lemma kernel_takes:
  assumes "sq_straight ctx h" and "h \<noteq> sq_tail ctx"
  shows "submissions ctx (h + 1) = tl (submissions ctx h)"
  using ring_head [OF assms(2), of "sq_array ctx"] by (simp add: submissions_def)

end
