(* ===== verification/CG_App.thy ===== *)
theory CG_App
  imports CG_Router CG_Uring CG_Env CG_Log
begin

text \<open>
  The application of \<open>src/app/cg_app.c\<close>: the globals, the handlers of the event loop and one
  turn of the loop itself. A client context is its index in the pool. Where the linker puts the
  contexts and buffers is a parameter, and so is what the kernel answers. The effects on the
  outside are collected in a trace.
\<close>

section \<open>Tagged pointers\<close>

definition CG_TAG_FASTCGI :: u64 where "CG_TAG_FASTCGI = 0x1000000000000000"
definition CG_TAG_CLIENT :: u64 where "CG_TAG_CLIENT = 0x2000000000000000"
definition CG_TAG_TIMESTAMP :: u64 where "CG_TAG_TIMESTAMP = 0x3000000000000000"
definition CG_PTR_MASK :: u64 where "CG_PTR_MASK = 0x0000FFFFFFFFFFFF"

definition CG_TAG_PTR :: "u64 \<Rightarrow> u64 \<Rightarrow> u64" where "CG_TAG_PTR ptr tag = ptr OR tag"
definition CG_UNTAG_PTR :: "u64 \<Rightarrow> u64" where "CG_UNTAG_PTR val = val AND CG_PTR_MASK"
definition CG_GET_TAG :: "u64 \<Rightarrow> u64" where "CG_GET_TAG val = val AND NOT CG_PTR_MASK"

section \<open>The state\<close>

definition CG_MAX_CLIENTS :: nat where "CG_MAX_CLIENTS = 1024"

text \<open>The addresses of the listener, of each client context and of its two buffers.\<close>

record layout =
  lay_fastcgi :: u64
  lay_timespec :: u64
  lay_client :: "nat \<Rightarrow> u64"
  lay_client_at :: "u64 \<Rightarrow> nat"
  lay_rx_buf :: "nat \<Rightarrow> u64"
  lay_tx_buf :: "nat \<Rightarrow> u64"

datatype effect =
    Stderr "byte list"
  | Stdout "byte list"
  | Close_Fd u32
  | Unlink "byte list"
  | Socket nat nat nat
  | Bind u64 "u16 \<times> byte list" nat
  | Listen u64 nat
  | Sq_Wakeup
  | Exit u32

record app =
  g_env :: cg_env
  g_base :: u64
  g_vdso_gettime :: u64
  g_ts_buf :: "byte list"
  g_uring_ctx :: cg_uring_ctx
  g_fastcgi_ctx :: cg_fastcgi_ctx
  g_cli_ctx_pool :: "cg_client_ctx list"
  g_ts_tick :: "u64 \<times> u64"
  g_route_map_entries :: "route cg_hashmap_entry list"
  g_route_map :: "route cg_hashmap"
  g_sessiondb :: "cg_sessiondb option"
  g_userdb :: "cg_userdb option"
  app_trace :: "effect list"

definition emit :: "effect \<Rightarrow> app \<Rightarrow> app" where
  "emit e app = app\<lparr>app_trace := app_trace app @ [e]\<rparr>"

text \<open>
  The two calls that every message makes: the timestamp is renewed, and the line is written. The
  name of the source file is what the compiler puts there.
\<close>

definition log_ts :: "string \<Rightarrow> string \<Rightarrow> string \<Rightarrow> kernel \<Rightarrow> app \<Rightarrow> app cres" where
  "log_ts level line msg k app =
     cbind (cg_datetime_str_get (k_now k) (g_ts_buf app)) (\<lambda>ts.
     cbind (cg_log_write_ts ts (lit level) (lit ''src/app/cg_app.c'') (lit line) (lit msg)) (\<lambda>bs.
       Inr (emit (Stderr bs) (app\<lparr>g_ts_buf := ts\<rparr>))))"

text \<open>An entry is taken, filled and enqueued.\<close>

definition enqueue :: "(io_uring_sqe \<Rightarrow> io_uring_sqe) \<Rightarrow> app \<Rightarrow> app cres" where
  "enqueue f app =
     cbind (cg_uring_sqe_get (g_uring_ctx app)) (\<lambda>(ctx, sqe).
     cbind (cg_uring_sq_enqueue (fill_sqe ctx sqe f) sqe) (\<lambda>(ctx, wakeup).
     let app = app\<lparr>g_uring_ctx := ctx\<rparr> in
     Inr (if wakeup then emit Sq_Wakeup app else app)))"

abbreviation IORING_OP_TIMEOUT :: byte where "IORING_OP_TIMEOUT \<equiv> 11"
abbreviation IORING_OP_ACCEPT :: byte where "IORING_OP_ACCEPT \<equiv> 13"
abbreviation IORING_OP_CLOSE :: byte where "IORING_OP_CLOSE \<equiv> 19"
abbreviation IORING_OP_READ :: byte where "IORING_OP_READ \<equiv> 22"
abbreviation IORING_OP_WRITE :: byte where "IORING_OP_WRITE \<equiv> 23"
abbreviation IORING_ACCEPT_MULTISHOT :: u16 where "IORING_ACCEPT_MULTISHOT \<equiv> 1"
abbreviation IORING_CQE_F_MORE :: u32 where "IORING_CQE_F_MORE \<equiv> 2"

section \<open>Start\<close>

text \<open>
  What the start finds in the memory of the process, the environment strings with the auxiliary
  vector behind them and the image of the vDSO, and the kernel's answers for the two files.
\<close>

type_synonym process = "(byte list list \<times> auxv) \<times> vmem"

definition cg_main_init ::
  "process \<Rightarrow> cg_sessiondb option cres \<Rightarrow> cg_userdb option cres \<Rightarrow> app \<Rightarrow> app cres" where
  "cg_main_init proc sdb udb app =
     cbind (cg_time_init (snd proc) (Some (fst proc))) (\<lambda>gettime.
     let app = app\<lparr>g_vdso_gettime := gettime\<rparr> in
     cbind (cg_env_init (Some (fst proc)) (Some (g_env app)) (g_base app)) (\<lambda>(env, base).
     let app = app\<lparr>g_env := the env, g_base := base\<rparr> in
     cbind (cg_env_write_stdout (g_env app)) (\<lambda>out.
     let app = emit (Stdout out) app in
     cbind (buf_write (g_ts_buf app) 0 (str ''0000-00-00 00:00:00'')) (\<lambda>ts.
     let app = app\<lparr>g_ts_buf := ts, g_ts_tick := (1, 0),
       g_route_map := \<lparr>hm_entries = Some (g_route_map_entries app), hm_capacity = 32, hm_count = 0\<rparr>\<rparr> in
     cbind sdb (\<lambda>sdb. cbind udb (\<lambda>udb. Inr (app\<lparr>g_sessiondb := sdb, g_userdb := udb\<rparr>)))))))"

definition cg_main_timestamp_tick :: "layout \<Rightarrow> kernel \<Rightarrow> app \<Rightarrow> app cres" where
  "cg_main_timestamp_tick lay k app =
     cbind (cg_datetime_str_get (k_now k) (g_ts_buf app)) (\<lambda>ts.
     enqueue (\<lambda>sqe. sqe\<lparr>sqe_opcode := IORING_OP_TIMEOUT, sqe_fd := - 1, sqe_addr := lay_timespec lay,
         sqe_len := 0, sqe_off := 0, sqe_user_data := CG_TAG_TIMESTAMP\<rparr>)
       (app\<lparr>g_ts_buf := ts\<rparr>))"

text \<open>
  The answers of \<open>socket\<close>, \<open>bind\<close> and \<open>listen\<close> are given, and the calls with their arguments go to
  the trace: family, type and protocol; the socket, the address and its length; the socket and the
  length of the queue. \<open>exit\<close> ends the program, which the model shows by the \<open>Exit\<close> at the end of
  the trace and the flag in the result.
\<close>

abbreviation AF_UNIX :: nat where "AF_UNIX \<equiv> 1"
abbreviation SOCK_STREAM :: nat where "SOCK_STREAM \<equiv> 1"

definition fatal :: "string \<Rightarrow> string \<Rightarrow> kernel \<Rightarrow> app \<Rightarrow> (app \<times> bool) cres" where
  "fatal line msg k app = cbind (log_ts ''FATAL'' line msg k app) (\<lambda>app. Inr (emit (Exit 1) app, False))"

definition cg_main_fastcgi_setup :: "u64 \<Rightarrow> u64 \<Rightarrow> u64 \<Rightarrow> kernel \<Rightarrow> app \<Rightarrow> (app \<times> bool) cres" where
  "cg_main_fastcgi_setup fd bind_res listen_res k app =
     (let app = emit (Unlink (cstr (fastcgi_sock (g_env app)))) app in
     cbind (log_ts ''note'' ''140'' ''Unlinked existing socket\<newline>'' k app) (\<lambda>app.
     let app = emit (Socket AF_UNIX SOCK_STREAM 0) app in
     if sint fd < 0 then fatal ''144'' ''Socket error\<newline>'' k app
     else
       let app = app\<lparr>g_fastcgi_ctx := (g_fastcgi_ctx app)\<lparr>fctx_sockfd := ucast fd\<rparr>\<rparr> in
       cbind (log_ts ''note'' ''149'' ''Created new socket\<newline>'' k app) (\<lambda>app.
       let app = emit (Bind fd (sun_family (g_fastcgi_ctx app), sun_path (g_fastcgi_ctx app))
         (2 + fastcgi_sock_len (g_env app) + 1)) app in
       if sint bind_res < 0 then
         cbind (log_ts ''FATAL'' ''154'' ''Bind error\<newline>'' k app) (\<lambda>app.
         cbind (cg_write_int bind_res 1) (\<lambda>(fd, out).
           Inr (emit (Exit 1) (emit (Stdout out) app), False)))
       else
         cbind (log_ts ''note'' ''159'' ''Bound to socket\<newline>'' k app) (\<lambda>app.
         let app = emit (Listen fd 128) app in
         if sint listen_res < 0 then fatal ''163'' ''Listen error\<newline>'' k app
         else
           cbind (log_ts ''note'' ''168'' ''Listening on the socket\<newline>'' k
             (app\<lparr>g_fastcgi_ctx := (g_fastcgi_ctx app)\<lparr>fctx_state := CG_FASTCGI_STATE_ACCEPT_SQE\<rparr>\<rparr>))
             (\<lambda>app. Inr (app, True))))))"

section \<open>The listener\<close>

definition cg_main_fastcgi_state_handle :: "layout \<Rightarrow> kernel \<Rightarrow> app \<Rightarrow> app cres" where
  "cg_main_fastcgi_state_handle lay k app =
     (if fctx_state (g_fastcgi_ctx app) \<noteq> CG_FASTCGI_STATE_ACCEPT_SQE then Inr app
      else
        cbind (enqueue (\<lambda>sqe. sqe\<lparr>sqe_opcode := IORING_OP_ACCEPT,
            sqe_fd := fctx_sockfd (g_fastcgi_ctx app), sqe_addr := 0, sqe_len := 0,
            sqe_ioprio := IORING_ACCEPT_MULTISHOT, sqe_accept_flags := 0x80800,
            sqe_user_data := CG_TAG_PTR (lay_fastcgi lay) CG_TAG_FASTCGI\<rparr>) app) (\<lambda>app.
        log_ts ''note'' ''202'' ''Enqueued accept operation SQE\<newline>'' k
          (app\<lparr>g_fastcgi_ctx := (g_fastcgi_ctx app)\<lparr>fctx_state := CG_FASTCGI_STATE_ACCEPT_CQE\<rparr>\<rparr>)))"

definition cg_main_fastcgi_cqe_handle :: "kernel \<Rightarrow> io_uring_cqe \<Rightarrow> app \<Rightarrow> app cres" where
  "cg_main_fastcgi_cqe_handle k cqe app =
     (case fctx_state (g_fastcgi_ctx app) of
        CG_FASTCGI_STATE_ACCEPT_CQE \<Rightarrow>
          if sint (cqe_res cqe) < 0 then
            cbind (log_ts ''error'' ''226'' ''Accept error\<newline>'' k app) (\<lambda>app.
              Inr (app\<lparr>g_fastcgi_ctx := (g_fastcgi_ctx app)\<lparr>fctx_state := CG_FASTCGI_STATE_ACCEPT_SQE\<rparr>\<rparr>))
          else
            cbind (log_ts ''note'' ''232'' ''Accepted incoming connection\<newline>'' k app) (\<lambda>app.
            cbind (cg_client_alloc (g_cli_ctx_pool app) CG_MAX_CLIENTS) (\<lambda>(pool, r).
            let app = app\<lparr>g_cli_ctx_pool := pool\<rparr> in
            case r of
              None \<Rightarrow> Inr (emit (Close_Fd (cqe_res cqe)) app)
            | Some i \<Rightarrow>
                let cli = pool ! i;
                    fcgi = (cg_fastcgi_client_init (fcgi_cli_ctx cli))
                      \<lparr>fcli_sockfd := cqe_res cqe, fcli_state := CG_FASTCGI_CLIENT_STATE_READ_SQE\<rparr>;
                    app = app\<lparr>g_cli_ctx_pool := pool[i := cli\<lparr>fcgi_cli_ctx := fcgi\<rparr>]\<rparr>
                in Inr (if cqe_flags cqe AND IORING_CQE_F_MORE = 0 then
                     app\<lparr>g_fastcgi_ctx := (g_fastcgi_ctx app)\<lparr>fctx_state := CG_FASTCGI_STATE_ACCEPT_SQE\<rparr>\<rparr>
                   else app)))
      | _ \<Rightarrow> Inr app)"

section \<open>Clients\<close>

definition set_fcgi :: "nat \<Rightarrow> cg_fastcgi_client_ctx \<Rightarrow> app \<Rightarrow> app" where
  "set_fcgi i fcgi app = app\<lparr>g_cli_ctx_pool :=
     (g_cli_ctx_pool app)[i := (g_cli_ctx_pool app ! i)\<lparr>fcgi_cli_ctx := fcgi\<rparr>]\<rparr>"

definition release :: "nat \<Rightarrow> cg_fastcgi_client_ctx \<Rightarrow> app \<Rightarrow> app" where
  "release i fcgi app = app\<lparr>g_cli_ctx_pool :=
     (g_cli_ctx_pool app)[i := (g_cli_ctx_pool app ! i)\<lparr>cli_state := CG_CLIENT_STATE_FREE,
       fcgi_cli_ctx := fcgi\<lparr>fcli_state := CG_FASTCGI_CLIENT_STATE_FREE\<rparr>\<rparr>]\<rparr>"

definition cg_main_client_state_handle :: "layout \<Rightarrow> nat \<Rightarrow> app \<Rightarrow> app cres" where
  "cg_main_client_state_handle lay i app =
     (let fcgi = fcgi_cli_ctx (g_cli_ctx_pool app ! i); rx_meta = rx_buf_meta fcgi;
          tx_meta = tx_buf_meta fcgi; me = CG_TAG_PTR (lay_client lay i) CG_TAG_CLIENT in
      case fcli_state fcgi of
        CG_FASTCGI_CLIENT_STATE_READ_SQE \<Rightarrow>
          enqueue (\<lambda>sqe. sqe\<lparr>sqe_opcode := IORING_OP_READ, sqe_fd := fcli_sockfd fcgi,
              sqe_addr := lay_rx_buf lay i + ucast (meta_valid rx_meta),
              sqe_len := meta_len rx_meta - meta_valid rx_meta, sqe_user_data := me\<rparr>)
            (set_fcgi i (fcgi\<lparr>fcli_state := CG_FASTCGI_CLIENT_STATE_READ_CQE\<rparr>) app)
      | CG_FASTCGI_CLIENT_STATE_WRITE_SQE \<Rightarrow>
          enqueue (\<lambda>sqe. sqe\<lparr>sqe_opcode := IORING_OP_WRITE, sqe_fd := fcli_sockfd fcgi,
              sqe_addr := lay_tx_buf lay i + ucast (meta_pos tx_meta),
              sqe_len := meta_valid tx_meta - meta_pos tx_meta, sqe_user_data := me\<rparr>)
            (set_fcgi i (fcgi\<lparr>fcli_state := CG_FASTCGI_CLIENT_STATE_WRITE_CQE\<rparr>) app)
      | CG_FASTCGI_CLIENT_STATE_CLOSE_SQE \<Rightarrow>
          if sint (fcli_sockfd fcgi) < 0 then Inr (release i fcgi app)
          else
            enqueue (\<lambda>sqe. sqe\<lparr>sqe_opcode := IORING_OP_CLOSE, sqe_fd := fcli_sockfd fcgi,
                sqe_user_data := me\<rparr>)
              (set_fcgi i (fcgi\<lparr>fcli_state := CG_FASTCGI_CLIENT_STATE_CLOSE_CQE\<rparr>) app)
      | _ \<Rightarrow> Inr app)"

text \<open>
  Moving the rest of the buffer to its start with \<open>cg_memcpy_avx2\<close>, for a buffer at the address
  \<open>base\<close>: the routine depends on the alignment of the address.
\<close>

definition buf_mem :: "nat \<Rightarrow> byte list \<Rightarrow> mem" where
  "buf_mem base buf = (\<lambda>a. if base \<le> a \<and> a < base + length buf then buf ! (a - base) else 0)"

definition slide_buf :: "nat \<Rightarrow> byte list \<Rightarrow> nat \<Rightarrow> nat \<Rightarrow> byte list cres" where
  "slide_buf base buf pos n =
     (if pos + n \<le> length buf then
        Inr (map (\<lambda>j. cg_memcpy_avx2 (buf_mem base buf) base (base + pos) n (base + j)) [0..<length buf])
      else Inl Out_Of_Bounds)"

definition client_server :: "app \<Rightarrow> cg_fastcgi_client_ctx \<Rightarrow> server" where
  "client_server app fcgi =
     \<lparr>srv_sessiondb = g_sessiondb app, srv_userdb = g_userdb app, srv_tx = tx_buf_meta fcgi\<rparr>"

text \<open>A completed read, with the bytes already in the buffer.\<close>

definition client_read_done :: "layout \<Rightarrow> kernel \<Rightarrow> nat \<Rightarrow> u32 \<Rightarrow> app \<Rightarrow> app cres" where
  "client_read_done lay k i res app =
     (let cli = g_cli_ctx_pool app ! i; fcgi = fcgi_cli_ctx cli; rx = rx_buf_meta fcgi;
          rx = rx\<lparr>meta_valid := meta_valid rx + res, meta_pos := 0\<rparr> in
      cbind (cg_fastcgi_parse rx (cli_req cli) (saved_hdr fcgi)) (\<lambda>(rx, req, hdr, status).
      let leftover = meta_valid rx - meta_pos rx in
      cbind (if 0 < leftover \<and> 0 < meta_pos rx then
               slide_buf (unat (lay_rx_buf lay i)) (meta_buf rx) (unat (meta_pos rx)) (unat leftover)
             else Inr (meta_buf rx)) (\<lambda>buf.
      let rx = rx\<lparr>meta_buf := buf, meta_valid := leftover, meta_pos := 0\<rparr>;
          fcgi = fcgi\<lparr>rx_buf_meta := rx, saved_hdr := hdr\<rparr> in
      if status = 0 then
        cbind (cg_route_map_reply (g_route_map app) k req (client_server app fcgi)) (\<lambda>(req, srv).
          Inr (app\<lparr>g_sessiondb := srv_sessiondb srv, g_userdb := srv_userdb srv,
            g_cli_ctx_pool := (g_cli_ctx_pool app)[i := cli\<lparr>cli_req := req,
              fcgi_cli_ctx := fcgi\<lparr>tx_buf_meta := srv_tx srv,
                fcli_state := CG_FASTCGI_CLIENT_STATE_WRITE_SQE\<rparr>\<rparr>]\<rparr>))
      else
        Inr (app\<lparr>g_cli_ctx_pool := (g_cli_ctx_pool app)[i := cli\<lparr>cli_req := req,
          fcgi_cli_ctx := fcgi\<lparr>fcli_state :=
            (if status < 0 then CG_FASTCGI_CLIENT_STATE_CLOSE_SQE
             else CG_FASTCGI_CLIENT_STATE_READ_SQE)\<rparr>\<rparr>]\<rparr>))))"

definition client_write_done :: "nat \<Rightarrow> u32 \<Rightarrow> app \<Rightarrow> app" where
  "client_write_done i res app =
     (let cli = g_cli_ctx_pool app ! i; fcgi = fcgi_cli_ctx cli; rx = rx_buf_meta fcgi;
          tx = (tx_buf_meta fcgi)\<lparr>meta_pos := meta_pos (tx_buf_meta fcgi) + res\<rparr>;
          fcgi = fcgi\<lparr>tx_buf_meta := tx\<rparr> in
      if meta_pos tx < meta_valid tx then
        set_fcgi i (fcgi\<lparr>fcli_state := CG_FASTCGI_CLIENT_STATE_WRITE_SQE\<rparr>) app
      else if keep_alive (cli_req cli) \<noteq> 0 then
        set_fcgi i (fcgi\<lparr>rx_buf_meta := rx\<lparr>meta_valid := 0, meta_pos := 0\<rparr>,
          tx_buf_meta := tx\<lparr>meta_valid := 0, meta_pos := 0\<rparr>,
          saved_hdr := (saved_hdr fcgi)\<lparr>hdr_type := 0\<rparr>,
          fcli_state := CG_FASTCGI_CLIENT_STATE_READ_SQE\<rparr>) app
      else set_fcgi i (fcgi\<lparr>fcli_state := CG_FASTCGI_CLIENT_STATE_CLOSE_SQE\<rparr>) app)"

definition cg_main_client_cqe_handle :: "layout \<Rightarrow> kernel \<Rightarrow> nat \<Rightarrow> io_uring_cqe \<Rightarrow> app \<Rightarrow> app cres" where
  "cg_main_client_cqe_handle lay k i cqe app =
     (let fcgi = fcgi_cli_ctx (g_cli_ctx_pool app ! i) in
      case fcli_state fcgi of
        CG_FASTCGI_CLIENT_STATE_READ_CQE \<Rightarrow>
          if sint (cqe_res cqe) \<le> 0 then
            Inr (set_fcgi i (fcgi\<lparr>fcli_state := CG_FASTCGI_CLIENT_STATE_CLOSE_SQE\<rparr>) app)
          else client_read_done lay k i (cqe_res cqe) app
      | CG_FASTCGI_CLIENT_STATE_WRITE_CQE \<Rightarrow>
          if sint (cqe_res cqe) < 0 then
            Inr (set_fcgi i (fcgi\<lparr>fcli_state := CG_FASTCGI_CLIENT_STATE_CLOSE_SQE\<rparr>) app)
          else Inr (client_write_done i (cqe_res cqe) app)
      | CG_FASTCGI_CLIENT_STATE_CLOSE_CQE \<Rightarrow>
          Inr (release i (fcgi\<lparr>fcli_sockfd := - 1\<rparr>) app)
      | _ \<Rightarrow> Inr app)"

section \<open>The loop\<close>

fun client_states :: "layout \<Rightarrow> nat list \<Rightarrow> app \<Rightarrow> app cres" where
  "client_states lay [] app = Inr app"
| "client_states lay (i # is) app = cbind (cg_main_client_state_handle lay i app) (client_states lay is)"

text \<open>A completion goes to the handler that its tag names; the pointer selects the client.\<close>

definition dispatch_cqe :: "layout \<Rightarrow> kernel \<Rightarrow> io_uring_cqe \<Rightarrow> app \<Rightarrow> app cres" where
  "dispatch_cqe lay k cqe app =
     (let tag = CG_GET_TAG (cqe_user_data cqe); ctx_ptr = CG_UNTAG_PTR (cqe_user_data cqe) in
      if tag = CG_TAG_FASTCGI then cg_main_fastcgi_cqe_handle k cqe app
      else if tag = CG_TAG_CLIENT then
        (let i = lay_client_at lay ctx_ptr in
         if i < length (g_cli_ctx_pool app) then cg_main_client_cqe_handle lay k i cqe app
         else Inl Bad_Pointer)
      else if tag = CG_TAG_TIMESTAMP then cg_main_timestamp_tick lay k app
      else Inr app)"

text \<open>
  The inner loop, which ends when there is no completion left. \<open>ks\<close> are the kernel's answers, one
  for each iteration.
\<close>

partial_function (option) drain_loop :: "layout \<Rightarrow> (nat \<Rightarrow> kernel) \<Rightarrow> nat option \<Rightarrow> app \<Rightarrow> app cres option" where
  "drain_loop lay ks cqe app =
     (case cqe of
        None \<Rightarrow> Some (Inr app)
      | Some c \<Rightarrow>
          (case dispatch_cqe lay (ks 0) (cqes (g_uring_ctx app) ! c) app of
             Inl e \<Rightarrow> Some (Inl e)
           | Inr app \<Rightarrow>
               let app = app\<lparr>g_uring_ctx := cg_uring_cq_discard (g_uring_ctx app) 1\<rparr> in
               (case cg_uring_cq_peek (g_uring_ctx app) of
                  Inl e \<Rightarrow> Some (Inl e)
                | Inr cqe \<Rightarrow> drain_loop lay (\<lambda>n. ks (Suc n)) cqe app)))"

definition drain :: "layout \<Rightarrow> (nat \<Rightarrow> kernel) \<Rightarrow> nat option \<Rightarrow> app \<Rightarrow> app cres" where
  "drain lay ks cqe app = returns_or_diverges (drain_loop lay ks cqe app)"

text \<open>
  One turn of the endless loop; \<open>enter\<close> is the kernel's part of the wait: what the call returns,
  and the memory as the kernel left it.
\<close>

definition main_turn ::
  "layout \<Rightarrow> kernel \<Rightarrow> (app \<Rightarrow> u32 \<times> app) \<Rightarrow> (nat \<Rightarrow> kernel) \<Rightarrow> app \<Rightarrow> app cres"
  where
  "main_turn lay k enter ks app =
     cbind (cg_main_fastcgi_state_handle lay k app) (\<lambda>app.
     cbind (client_states lay [0..<CG_MAX_CLIENTS] app) (\<lambda>app.
     cbind (cg_uring_cq_peek (g_uring_ctx app)) (\<lambda>cqe.
     cbind (if cqe = None then
              (case enter app of (ret, app') \<Rightarrow>
                 cbind (cg_uring_cqe_wait (g_uring_ctx app) (ret, g_uring_ctx app')) (\<lambda>(ctx, ret, cqe).
                   Inr (app'\<lparr>g_uring_ctx := ctx\<rparr>, cqe)))
            else Inr (app, cqe)) (\<lambda>(app, cqe). drain lay ks cqe app))))"

text \<open>Everything before the loop, after the rings are set up.\<close>

definition main_start ::
  "layout \<Rightarrow> kernel \<Rightarrow> process \<Rightarrow> cg_sessiondb option cres \<Rightarrow> cg_userdb option cres \<Rightarrow>
   u64 \<times> u64 \<times> u64 \<Rightarrow> app \<Rightarrow> (app \<times> bool) cres" where
  "main_start lay k proc sdb udb net app =
     cbind (cg_main_init proc sdb udb app) (\<lambda>app.
     cbind (cg_main_timestamp_tick lay k app) (\<lambda>app.
     cbind (cg_fastcgi_init (fastcgi_sock (g_env app)) (fastcgi_sock_len (g_env app)) (g_fastcgi_ctx app)) (\<lambda>fctx.
     let app = app\<lparr>g_fastcgi_ctx := fctx\<rparr> in
     cbind (cg_client_pool_init (g_cli_ctx_pool app) CG_MAX_CLIENTS) (\<lambda>pool.
     let app = app\<lparr>g_cli_ctx_pool := pool\<rparr> in
     cbind (case net of (fd, bind_res, listen_res) \<Rightarrow> cg_main_fastcgi_setup fd bind_res listen_res k app)
       (\<lambda>(app, running).
       if \<not> running then Inr (app, False)
       else cbind (cg_route_map_init (g_route_map app)) (\<lambda>m. Inr (app\<lparr>g_route_map := m\<rparr>, True)))))))"

end
