(* ===== verification/CG_Keeps.thy ===== *)
theory CG_Keeps
  imports CG_Dispatch
begin

text \<open>
  What every handler keeps, whatever the request is and whichever branch it takes: if it returns,
  the buffer of the answer is as it should be and nothing of it has been sent yet. The event loop
  relies on this alone.
\<close>

named_theorems keeps \<open>what a computation keeps\<close>

definition tx_fresh :: "cg_buffer_metadata \<Rightarrow> bool" where
  "tx_fresh tx \<longleftrightarrow> tx_ok tx \<and> meta_pos tx = 0"

lemma stdout_fresh:
  assumes "tx_fresh tx" and "cg_fastcgi_stdout tx rid resp n = Inr tx'"
  shows "tx_fresh tx'" and "unat (meta_valid tx') \<le> unat (meta_valid tx) + 8 + unat n"
proof -
  have "tx_fresh tx' \<and> unat (meta_valid tx') \<le> unat (meta_valid tx) + 8 + unat n"
  proof (cases "unat (meta_len tx) < unat (meta_valid tx) + 8 + unat n")
    case True
    then show ?thesis using assms by (simp add: cg_fastcgi_stdout_def)
  next
    case False
    then have le: "unat (meta_valid tx) + 8 + unat n \<le> 65790"
      using assms(1) by (simp add: tx_fresh_def tx_ok_def)
    have u8: "unat (meta_valid tx + 8) = unat (meta_valid tx) + 8"
      using le by (subst unat_add_small) simp_all
    have un: "unat (meta_valid tx + 8 + n) = unat (meta_valid tx) + 8 + unat n"
      using le u8 by (subst unat_add_small) simp_all
    show ?thesis
      using assms False le u8 un
      by (auto simp: cg_fastcgi_stdout_def Let_def cbind_eq_Inr buf_write_Inr tx_fresh_def tx_ok_def
          split: if_splits)
  qed
  then show "tx_fresh tx'" and "unat (meta_valid tx') \<le> unat (meta_valid tx) + 8 + unat n" by simp_all
qed

lemma end_fresh:
  assumes "tx_fresh tx" and "cg_fastcgi_end tx rid = Inr tx'"
  shows "tx_fresh tx'"
proof (cases "unat (meta_len tx) < unat (meta_valid tx) + 8 + 8")
  case True
  then show ?thesis using assms by (simp add: cg_fastcgi_end_def)
next
  case False
  then obtain t where t: "cg_fastcgi_stdout tx rid [] 0 = Inr t"
    and b: "length (meta_buf tx') = length (meta_buf t)" "unat (meta_valid t + 8) + 8 \<le> length (meta_buf t)"
    and tx': "meta_valid tx' = 16 + meta_valid t" "meta_pos tx' = meta_pos t" "meta_len tx' = meta_len t"
    using assms(2) by (auto simp: cg_fastcgi_end_def Let_def cbind_eq_Inr buf_write_Inr)
  have f: "tx_fresh t" using stdout_fresh(1) [OF assms(1) t] .
  then have "unat (meta_valid t + 8) = unat (meta_valid t) + 8"
    by (subst unat_add_small) (simp_all add: tx_fresh_def tx_ok_def)
  then have "unat (16 + meta_valid t) = 16 + unat (meta_valid t)"
    using f b by (subst unat_add_small) (simp_all add: tx_fresh_def tx_ok_def)
  then show ?thesis
    using f b tx' \<open>unat (meta_valid t + 8) = _\<close> by (simp add: tx_fresh_def tx_ok_def)
qed

section \<open>If it returns\<close>

text \<open>What holds of the result of a computation whenever it has one, by the way it is put together.\<close>

definition ensures :: "('a \<Rightarrow> bool) \<Rightarrow> 'a cres \<Rightarrow> bool" where
  "ensures P r \<longleftrightarrow> (\<forall>x. r = Inr x \<longrightarrow> P x)"

lemma ensuresD: "ensures P r \<Longrightarrow> r = Inr x \<Longrightarrow> P x"
  by (simp add: ensures_def)

lemma ensures_bind [keeps]: "(\<And>x. m = Inr x \<Longrightarrow> ensures P (f x)) \<Longrightarrow> ensures P (cbind m f)"
  by (auto simp: ensures_def cbind_eq_Inr)

lemma ensures_Inl [keeps]: "ensures P (Inl e)"
  by (simp add: ensures_def)

lemma ensures_Inr [keeps]: "P x \<Longrightarrow> ensures P (Inr x)"
  by (simp add: ensures_def)

lemma ensures_if [keeps]: "(b \<Longrightarrow> ensures P x) \<Longrightarrow> (\<not> b \<Longrightarrow> ensures P y) \<Longrightarrow> ensures P (if b then x else y)"
  by simp

lemma ensures_option [keeps]:
  "(x = None \<Longrightarrow> ensures P n) \<Longrightarrow> (\<And>y. x = Some y \<Longrightarrow> ensures P (s y)) \<Longrightarrow>
   ensures P (case x of None \<Rightarrow> n | Some y \<Rightarrow> s y)"
  by (cases x) simp_all

lemma ensures_prod [keeps]: "(\<And>a b. x = (a, b) \<Longrightarrow> ensures P (f a b)) \<Longrightarrow> ensures P (case x of (a, b) \<Rightarrow> f a b)"
  by (cases x) simp

lemma ensures_let [keeps]: "(\<And>y. y = x \<Longrightarrow> ensures P (f y)) \<Longrightarrow> ensures P (let y = x in f y)"
  by simp

section \<open>The handlers\<close>

abbreviation keeps_tx :: "server cres \<Rightarrow> bool" where
  "keeps_tx \<equiv> ensures (\<lambda>srv. tx_fresh (srv_tx srv))"

lemma keeps_reply [keeps]: "tx_fresh (srv_tx srv) \<Longrightarrow> keeps_tx (reply req body srv)"
  unfolding reply_def by (intro keeps) (auto dest: stdout_fresh(1))

lemma keeps_reply_buf [keeps]: "tx_fresh (srv_tx srv) \<Longrightarrow> keeps_tx (reply_buf req p srv)"
  unfolding reply_buf_def by (intro keeps) (auto dest: stdout_fresh(1))

lemma ensures_with_session [keeps]: "(\<And>e. ensures P (f e)) \<Longrightarrow> ensures P (with_session req srv f)"
  unfolding with_session_def by (intro keeps)

lemma open_session_tx: "open_session k u srv = Inr (srv', sid) \<Longrightarrow> srv_tx srv' = srv_tx srv"
  by (auto simp: open_session_def cbind_eq_Inr split: option.splits prod.splits)

lemma award_user_tx: "award_user srv u h n = Inr srv' \<Longrightarrow> srv_tx srv' = srv_tx srv"
  by (auto simp: award_user_def cbind_eq_Inr split: option.splits)

lemma handlers_keep:
  assumes "tx_fresh (srv_tx srv)"
  shows "keeps_tx (cg_route_not_found k req srv)"
    "keeps_tx (cg_route_api_auth_guest k req srv)"
    "keeps_tx (cg_route_api_auth_register k req srv)"
    "keeps_tx (cg_route_api_auth_login k req srv)"
    "keeps_tx (cg_route_api_user_profile k req srv)"
    "keeps_tx (cg_route_api_user_profile_update k req srv)"
    "keeps_tx (cg_route_api_public_profile k req srv)"
    "keeps_tx (cg_route_api_user_stats k req srv)"
    "keeps_tx (cg_route_api_user_delete k req srv)"
    "keeps_tx (cg_route_api_leaderboard k req srv)"
    "keeps_tx (cg_route_api_challenge_verify k req srv)"
proof -
  show "keeps_tx (cg_route_not_found k req srv)"
    unfolding cg_route_not_found_def by (intro keeps assms)
  show "keeps_tx (cg_route_api_auth_guest k req srv)"
    unfolding cg_route_api_auth_guest_def by (intro keeps; simp add: assms open_session_tx)
  show "keeps_tx (cg_route_api_auth_register k req srv)"
    unfolding cg_route_api_auth_register_def by (intro keeps; simp add: assms open_session_tx)
  show "keeps_tx (cg_route_api_auth_login k req srv)"
    unfolding cg_route_api_auth_login_def by (intro keeps; simp add: assms open_session_tx)
  show "keeps_tx (cg_route_api_user_profile k req srv)"
    unfolding cg_route_api_user_profile_def by (intro keeps assms)
  show "keeps_tx (cg_route_api_user_profile_update k req srv)"
    unfolding cg_route_api_user_profile_update_def by (intro keeps; simp add: assms open_session_tx)
  show "keeps_tx (cg_route_api_public_profile k req srv)"
    unfolding cg_route_api_public_profile_def by (intro keeps assms)
  show "keeps_tx (cg_route_api_user_stats k req srv)"
    unfolding cg_route_api_user_stats_def by (intro keeps assms)
  show "keeps_tx (cg_route_api_user_delete k req srv)"
    unfolding cg_route_api_user_delete_def by (intro keeps; simp add: assms open_session_tx)
  show "keeps_tx (cg_route_api_leaderboard k req srv)"
    unfolding cg_route_api_leaderboard_def by (intro keeps assms)
  show "keeps_tx (cg_route_api_challenge_verify k req srv)"
    unfolding cg_route_api_challenge_verify_def by (intro keeps; auto simp: assms award_user_tx split: if_splits)
qed

lemma handler_keeps: "tx_fresh (srv_tx srv) \<Longrightarrow> keeps_tx (route_handler r k req srv)"
  by (cases r) (simp_all add: handlers_keep)

section \<open>What the dispatch relies on\<close>

text \<open>
  The contract of a handler towards the dispatch: it may write to the buffer of the answer, and
  leaves it fresh. The records that end the answer then leave it fresh as well.
\<close>

locale responder =
  fixes respond :: handler
  assumes responds: "tx_fresh (srv_tx srv) \<Longrightarrow> keeps_tx (respond k req srv)"
begin

lemma answered_fresh:
  assumes "tx_ok (srv_tx srv)" and "respond k req (cleared srv) = Inr srv2" and "cg_fastcgi_end (srv_tx srv2) rid = Inr tx"
  shows "tx_fresh tx"
proof -
  have "tx_fresh (srv_tx (cleared srv))" using assms(1) by (simp add: cleared_def tx_fresh_def tx_ok_def)
  from ensuresD [OF responds [OF this] assms(2)] show ?thesis using assms(3) by (rule end_fresh)
qed

end

interpretation missing: responder cg_route_not_found
  by unfold_locales (rule handlers_keep)

interpretation routed: responder "route_handler r" for r
  by unfold_locales (rule handler_keeps)

text \<open>Whatever table the loop uses and whatever is in it, an answered request is in order.\<close>

lemma map_reply_runs:
  assumes "req_shape req" and "cg_route_map_reply m k req srv = Inr (req', srv')"
  shows "\<exists>entry srv2 tx. (case entry of None \<Rightarrow> cg_route_not_found k (terminated req) (cleared srv)
      | Some r \<Rightarrow> route_handler r k (terminated req) (cleared srv)) = Inr srv2 \<and>
    cg_fastcgi_end (srv_tx srv2) (req_id req) = Inr tx \<and> srv' = srv2\<lparr>srv_tx := tx\<rparr> \<and> req' = terminated req"
proof -
  have u: "buf_write (uri req) 127 [0] = Inr ((uri req)[127 := 0])"
    using assms(1) by (simp add: buf_write_def req_shape_def buf_splice_def upd_conv_take_nth_drop)
  let ?req = "req\<lparr>uri := (uri req)[127 := 0]\<rparr>" and ?srv = "srv\<lparr>srv_tx := (srv_tx srv)\<lparr>meta_valid := 0, meta_pos := 0\<rparr>\<rparr>"
  obtain entry srv2 tx where s: "(case entry of None \<Rightarrow> cg_route_not_found k ?req ?srv
      | Some i \<Rightarrow> route_handler (ent_val (hm_table m ! i)) k ?req ?srv) = Inr srv2"
    and e: "cg_fastcgi_end (srv_tx srv2) (req_id req) = Inr tx" "srv' = srv2\<lparr>srv_tx := tx\<rparr>" "req' = ?req"
    using assms(2) by (auto simp: cg_route_map_reply_def Let_def u cbind_eq_Inr)
  have id: "?req = terminated req" "?srv = cleared srv" by (simp_all add: terminated_def cleared_def)
  have "(case map_option (\<lambda>i. ent_val (hm_table m ! i)) entry of None \<Rightarrow> cg_route_not_found k (terminated req) (cleared srv)
      | Some r \<Rightarrow> route_handler r k (terminated req) (cleared srv)) = Inr srv2"
    using s unfolding id by (cases entry) simp_all
  then show ?thesis using e unfolding id by blast
qed

lemma map_reply_keeps:
  assumes "tx_ok (srv_tx srv)" and "req_shape req" and "cg_route_map_reply m k req srv = Inr (req', srv')"
  shows "tx_fresh (srv_tx srv')" and "req_shape req'"
proof -
  obtain entry srv2 tx where s: "(case entry of None \<Rightarrow> cg_route_not_found k (terminated req) (cleared srv)
      | Some r \<Rightarrow> route_handler r k (terminated req) (cleared srv)) = Inr srv2"
    and e: "cg_fastcgi_end (srv_tx srv2) (req_id req) = Inr tx" "srv' = srv2\<lparr>srv_tx := tx\<rparr>" and r: "req' = terminated req"
    using map_reply_runs [OF assms(2,3)] by blast
  show "tx_fresh (srv_tx srv')"
    using s e missing.answered_fresh [OF assms(1) _ e(1)] routed.answered_fresh [OF assms(1) _ e(1)]
    by (simp split: option.splits)
  show "req_shape req'" using terminated_shape [OF assms(2)] r by simp
qed

end
