(* ===== verification/CG_Queue.thy ===== *)
theory CG_Queue
  imports CG_Uring
begin

text \<open>
  The contract of the two rings: entries come out in the order in which they went in, as long as
  nobody puts more into a ring than it has room for. The program puts into the submission queue
  and removes from the completion queue, the kernel does the opposite.
\<close>

section \<open>The contract\<close>

locale fifo =
  fixes ok :: "'q \<Rightarrow> bool"
    and items :: "'q \<Rightarrow> 'a list"
    and space :: "'q \<Rightarrow> nat"
    and put :: "'a \<Rightarrow> 'q \<Rightarrow> 'q"
    and rem :: "'q \<Rightarrow> 'q"
  assumes put: "ok q \<Longrightarrow> 0 < space q \<Longrightarrow> ok (put x q) \<and> items (put x q) = items q @ [x] \<and> Suc (space (put x q)) = space q"
    and rem: "ok q \<Longrightarrow> items q \<noteq> [] \<Longrightarrow> ok (rem q) \<and> items (rem q) = tl (items q) \<and> space q \<le> space (rem q)"
begin

lemma put_all:
  assumes "ok q" and "length xs \<le> space q"
  shows "ok (fold put xs q) \<and> items (fold put xs q) = items q @ xs \<and> space (fold put xs q) + length xs = space q"
  using assms
proof (induction xs arbitrary: q)
  case (Cons x xs)
  have "ok (put x q)" "items (put x q) = items q @ [x]" "Suc (space (put x q)) = space q"
    using put [of q x] Cons.prems by simp_all
  then show ?case using Cons.IH [of "put x q"] Cons.prems by simp
qed simp

lemma rem_some:
  assumes "ok q" and "n \<le> length (items q)"
  shows "ok ((rem ^^ n) q) \<and> items ((rem ^^ n) q) = drop n (items q) \<and> space q \<le> space ((rem ^^ n) q)"
  using assms
proof (induction n)
  case (Suc n)
  then have IH: "ok ((rem ^^ n) q)" "items ((rem ^^ n) q) = drop n (items q)" "space q \<le> space ((rem ^^ n) q)" by simp_all
  then have "items ((rem ^^ n) q) \<noteq> []" using Suc.prems by simp
  from rem [OF IH(1) this] show ?case using IH(2,3) by (simp add: drop_Suc tl_drop)
qed simp

text \<open>What was put in later comes out after what was there, and nothing else does.\<close>

lemma in_order:
  assumes "ok q" and "length xs \<le> space q" and "n \<le> length (items q) + length xs"
  shows "items ((rem ^^ n) (fold put xs q)) = drop n (items q @ xs)"
  using put_all [OF assms(1,2)] rem_some [of "fold put xs q" n] assms(3) by simp

end

section \<open>The completion queue\<close>

definition cq_put :: "io_uring_cqe \<Rightarrow> cg_uring_ctx \<Rightarrow> cg_uring_ctx" where
  "cq_put c ctx = ctx\<lparr>cqes := (cqes ctx)[unat (cq_tail ctx AND cq_ring_mask ctx) := c], cq_tail := cq_tail ctx + 1\<rparr>"

definition ring_space :: "'a list \<Rightarrow> u32 \<Rightarrow> u32 \<Rightarrow> nat" where
  "ring_space xs h t = length xs - unat (t - h)"

lemma ring_space_put:
  assumes "ring_size xs m" and "0 < ring_space xs h t"
  shows "Suc (ring_space xs h (t + 1)) = ring_space xs h t"
proof -
  have "length (ring (xs[unat (t AND m) := undefined]) h (t + 1)) = Suc (unat (t - h))"
    using ring_push [OF assms(1), of t h undefined] assms(2) by (simp add: ring_space_def)
  then show ?thesis using assms(2) by (simp add: ring_space_def)
qed

lemma ring_space_rem: "h \<noteq> t \<Longrightarrow> ring_space xs h t \<le> ring_space xs (h + 1) t"
proof -
  assume "h \<noteq> t"
  from ring_head [OF this, of xs] have "length (ring xs h t) = Suc (length (ring xs (h + 1) t))" by (metis length_Cons)
  then show ?thesis by (simp add: ring_space_def)
qed

interpretation cq: fifo cq_ok completions "\<lambda>ctx. ring_space (cqes ctx) (cq_head ctx) (cq_tail ctx)" cq_put
  "\<lambda>ctx. cg_uring_cq_discard ctx 1"
proof
  fix q :: cg_uring_ctx and x
  assume ok: "cq_ok q" and room: "0 < ring_space (cqes q) (cq_head q) (cq_tail q)"
  then have size: "ring_size (cqes q) (cq_ring_mask q)" by (simp add: cq_ok_def)
  have "completions (cq_put x q) = completions q @ [x]"
    using ring_push [OF size, of "cq_tail q" "cq_head q" x] room
    by (simp add: completions_def cq_put_def ring_space_def)
  moreover have "Suc (ring_space (cqes (cq_put x q)) (cq_head (cq_put x q)) (cq_tail (cq_put x q))) =
      ring_space (cqes q) (cq_head q) (cq_tail q)"
    using ring_space_put [OF size room] by (simp add: cq_put_def ring_space_def)
  ultimately show "cq_ok (cq_put x q) \<and> completions (cq_put x q) = completions q @ [x] \<and>
      Suc (ring_space (cqes (cq_put x q)) (cq_head (cq_put x q)) (cq_tail (cq_put x q))) =
      ring_space (cqes q) (cq_head q) (cq_tail q)"
    using ok by (simp add: cq_ok_def cq_put_def ring_size_def)
next
  fix q :: cg_uring_ctx
  assume "cq_ok q" and ne: "completions q \<noteq> []"
  moreover have "cq_head q \<noteq> cq_tail q"
    using ne ring_Nil [of "cqes q" "cq_tail q"] by (auto simp: completions_def)
  ultimately show "cq_ok (cg_uring_cq_discard q 1) \<and> completions (cg_uring_cq_discard q 1) = tl (completions q) \<and>
      ring_space (cqes q) (cq_head q) (cq_tail q) \<le> ring_space (cqes (cg_uring_cq_discard q 1))
        (cq_head (cg_uring_cq_discard q 1)) (cq_tail (cg_uring_cq_discard q 1))"
    using cq_discard_ok ring_space_rem by (simp add: cg_uring_cq_discard_def)
qed

section \<open>The submission queue\<close>

text \<open>With the kernel's head beside it; the entry is one that the program submits.\<close>

definition sq_put :: "io_uring_sqe \<Rightarrow> cg_uring_ctx \<times> u32 \<Rightarrow> cg_uring_ctx \<times> u32" where
  "sq_put e q = (case submit (fst q) (\<lambda>_. e) of Inr (ctx, _) \<Rightarrow> (ctx, snd q) | Inl _ \<Rightarrow> q)"

abbreviation sq_fine :: "cg_uring_ctx \<times> u32 \<Rightarrow> bool" where
  "sq_fine q \<equiv> sq_ok (fst q) \<and> sq_straight (fst q) (snd q)"

lemma straight_next:
  assumes "sq_straight ctx h" and "h \<noteq> sq_tail ctx"
  shows "sq_straight ctx (h + 1)"
proof -
  let ?f = "\<lambda>w. word_of_nat (sq_slot ctx w) :: u32" and ?t = "sq_tail ctx"
  note head = ring_head [OF assms(2), of "sq_array ctx"]
  have "length (ring (sq_array ctx) h ?t) = Suc (length (ring (sq_array ctx) (h + 1) ?t))" by (simp only: head list.size)
  then have n: "unat (?t - h) = Suc (unat (?t - (h + 1)))" by simp
  have "map (\<lambda>i. ?f (h + word_of_nat i)) [0..<Suc (unat (?t - (h + 1)))] =
      ?f h # map (\<lambda>i. ?f (h + 1 + word_of_nat i)) [0..<unat (?t - (h + 1))]"
    by (simp add: upt_conv_Cons map_Suc_upt [symmetric] comp_def add.assoc del: upt_Suc)
  then show ?thesis using assms(1) head by (simp add: sq_straight_def n del: upt_Suc)
qed

interpretation sq: fifo sq_fine "\<lambda>q. submissions (fst q) (snd q)"
  "\<lambda>q. ring_space (sqes (fst q)) (snd q) (sq_tail (fst q))" sq_put "\<lambda>q. (fst q, snd q + 1)"
proof
  fix q :: "cg_uring_ctx \<times> u32" and x
  assume ok: "sq_fine q" and room: "0 < ring_space (sqes (fst q)) (snd q) (sq_tail (fst q))"
  obtain ctx w where s: "submit (fst q) (\<lambda>_. x) = Inr (ctx, w)" "sq_ok ctx" "sq_straight ctx (snd q)"
      "submissions ctx (snd q) = submissions (fst q) (snd q) @ [x]" "sq_tail ctx = sq_tail (fst q) + 1"
      "length (sqes ctx) = length (sqes (fst q))"
    using submit_ok [of "fst q" "snd q" "\<lambda>_. x"] ok room by (auto simp: ring_space_def)
  have "Suc (ring_space (sqes (fst q)) (snd q) (sq_tail (fst q) + 1)) = ring_space (sqes (fst q)) (snd q) (sq_tail (fst q))"
    using ok by (intro ring_space_put [OF _ room, of "sq_ring_mask (fst q)"]) (simp add: sq_ok_def)
  then show "sq_fine (sq_put x q) \<and> submissions (fst (sq_put x q)) (snd (sq_put x q)) = submissions (fst q) (snd q) @ [x] \<and>
      Suc (ring_space (sqes (fst (sq_put x q))) (snd (sq_put x q)) (sq_tail (fst (sq_put x q)))) =
      ring_space (sqes (fst q)) (snd q) (sq_tail (fst q))"
    using s by (simp add: sq_put_def ring_space_def)
next
  fix q :: "cg_uring_ctx \<times> u32"
  assume ok: "sq_fine q" and "submissions (fst q) (snd q) \<noteq> []"
  then have "snd q \<noteq> sq_tail (fst q)" by (auto simp: submissions_def ring_Nil)
  then show "sq_fine (fst q, snd q + 1) \<and>
      submissions (fst (fst q, snd q + 1)) (snd (fst q, snd q + 1)) = tl (submissions (fst q) (snd q)) \<and>
      ring_space (sqes (fst q)) (snd q) (sq_tail (fst q)) \<le>
      ring_space (sqes (fst (fst q, snd q + 1))) (snd (fst q, snd q + 1)) (sq_tail (fst (fst q, snd q + 1)))"
    using ok straight_next kernel_takes ring_space_rem by simp
qed

end
