(* ===== verification/CG_Loop.thy ===== *)
theory CG_Loop
  imports CG_App CG_Keeps CG_Queue
begin

text \<open>
  The event loop as a system: the program and the kernel take turns in any order, and what holds
  in every state that they reach. The kernel's part is what the interface of \<open>io_uring\<close>
  documents: it takes the submitted entries in their order, completes what it has taken in any
  order, with the entry's \<open>user_data\<close>, and never reports more bytes than were asked for.
\<close>

section \<open>Tags\<close>

text \<open>Where the contexts lie: below the tag, and each address determines its context.\<close>

definition layout_ok :: "layout \<Rightarrow> bool" where
  "layout_ok lay \<longleftrightarrow>
     (\<forall>i < CG_MAX_CLIENTS. lay_client lay i AND CG_PTR_MASK = lay_client lay i \<and>
        lay_client_at lay (lay_client lay i) = i) \<and>
     (\<forall>p. lay_client_at lay p < CG_MAX_CLIENTS \<longrightarrow> lay_client lay (lay_client_at lay p) = p) \<and>
     lay_fastcgi lay AND CG_PTR_MASK = lay_fastcgi lay"

definition client_tag :: "layout \<Rightarrow> nat \<Rightarrow> u64" where
  "client_tag lay i = CG_TAG_PTR (lay_client lay i) CG_TAG_CLIENT"

lemma tags_above:
  "CG_TAG_FASTCGI AND CG_PTR_MASK = 0" "CG_TAG_CLIENT AND CG_PTR_MASK = 0" "CG_TAG_TIMESTAMP AND CG_PTR_MASK = 0"
  "CG_TAG_FASTCGI \<noteq> CG_TAG_CLIENT" "CG_TAG_TIMESTAMP \<noteq> CG_TAG_CLIENT" "CG_TAG_FASTCGI \<noteq> CG_TAG_TIMESTAMP"
  by (simp_all add: CG_TAG_FASTCGI_def CG_TAG_CLIENT_def CG_TAG_TIMESTAMP_def CG_PTR_MASK_def)

text \<open>The two parts of a tagged pointer are got back, and the two parts make up the whole.\<close>

lemma tag_roundtrip:
  assumes "p AND CG_PTR_MASK = p" and "t AND CG_PTR_MASK = 0"
  shows "CG_GET_TAG (CG_TAG_PTR p t) = t" and "CG_UNTAG_PTR (CG_TAG_PTR p t) = p"
proof -
  have p: "bit p i \<Longrightarrow> bit CG_PTR_MASK i" for i using assms(1) by (metis bit_and_iff)
  have t: "\<not> (bit t i \<and> bit CG_PTR_MASK i)" for i using assms(2) by (metis bit_and_iff bit_0_eq bot_apply bot_bool_def)
  show "CG_GET_TAG (CG_TAG_PTR p t) = t"
    unfolding CG_GET_TAG_def CG_TAG_PTR_def using p t
    by (intro bit_word_eqI) (auto simp: bit_and_iff bit_or_iff bit_not_iff)
  show "CG_UNTAG_PTR (CG_TAG_PTR p t) = p"
    unfolding CG_UNTAG_PTR_def CG_TAG_PTR_def using p t
    by (intro bit_word_eqI) (auto simp: bit_and_iff bit_or_iff)
qed

lemma tag_parts: "CG_TAG_PTR (CG_UNTAG_PTR x) (CG_GET_TAG x) = x"
  unfolding CG_GET_TAG_def CG_TAG_PTR_def CG_UNTAG_PTR_def
  by (intro bit_word_eqI) (auto simp: bit_and_iff bit_or_iff bit_not_iff)

lemma client_tag_parts:
  assumes "layout_ok lay" and "i < CG_MAX_CLIENTS"
  shows "CG_GET_TAG (client_tag lay i) = CG_TAG_CLIENT" "CG_UNTAG_PTR (client_tag lay i) = lay_client lay i"
    "lay_client_at lay (CG_UNTAG_PTR (client_tag lay i)) = i"
  using assms tag_roundtrip [of "lay_client lay i" CG_TAG_CLIENT] tags_above
  by (simp_all add: client_tag_def layout_ok_def)

lemma client_tag_inj:
  assumes "layout_ok lay" and "i < CG_MAX_CLIENTS" and "j < CG_MAX_CLIENTS"
  shows "client_tag lay i = client_tag lay j \<longleftrightarrow> i = j"
  using assms client_tag_parts(3) by metis

lemma client_tag_of:
  assumes "layout_ok lay" and "CG_GET_TAG x = CG_TAG_CLIENT"
    and "lay_client_at lay (CG_UNTAG_PTR x) < CG_MAX_CLIENTS"
  shows "x = client_tag lay (lay_client_at lay (CG_UNTAG_PTR x))"
  using assms tag_parts [of x] by (simp add: client_tag_def layout_ok_def)

lemma other_tags:
  assumes "layout_ok lay" and "i < CG_MAX_CLIENTS"
  shows "CG_TAG_PTR (lay_fastcgi lay) CG_TAG_FASTCGI \<noteq> client_tag lay i" "CG_TAG_TIMESTAMP \<noteq> client_tag lay i"
proof -
  have "CG_GET_TAG (CG_TAG_PTR (lay_fastcgi lay) CG_TAG_FASTCGI) = CG_TAG_FASTCGI"
    using assms(1) tag_roundtrip tags_above by (simp add: layout_ok_def)
  then show "CG_TAG_PTR (lay_fastcgi lay) CG_TAG_FASTCGI \<noteq> client_tag lay i"
    using client_tag_parts(1) [OF assms] tags_above by metis
  have "CG_GET_TAG CG_TAG_TIMESTAMP = CG_TAG_TIMESTAMP"
    by (simp add: CG_GET_TAG_def CG_TAG_TIMESTAMP_def CG_PTR_MASK_def)
  then show "CG_TAG_TIMESTAMP \<noteq> client_tag lay i"
    using client_tag_parts(1) [OF assms] tags_above by metis
qed

section \<open>Submitting\<close>

text \<open>
  What a submission does to the program's state, for the kernel's head \<open>h\<close>: the entry is behind
  the others, and nothing but the ring and the trace has changed.
\<close>

definition rings_ok :: "app \<Rightarrow> u32 \<Rightarrow> bool" where
  "rings_ok app h \<longleftrightarrow> sq_ok (g_uring_ctx app) \<and> sq_straight (g_uring_ctx app) h \<and> cq_ok (g_uring_ctx app)"

abbreviation sq_room :: "app \<Rightarrow> u32 \<Rightarrow> bool" where
  "sq_room app h \<equiv> unat (sq_tail (g_uring_ctx app) - h) < length (sqes (g_uring_ctx app))"

text \<open>
  A step of the program that submits something moves the tail. It finds room when there was a place
  in front of the kernel's head; the code never looks.
\<close>

abbreviation found_room :: "u32 \<Rightarrow> app \<Rightarrow> app \<Rightarrow> bool" where
  "found_room h app app' \<equiv> sq_tail (g_uring_ctx app') \<noteq> sq_tail (g_uring_ctx app) \<longrightarrow> sq_room app h"

definition submitted :: "u32 \<Rightarrow> io_uring_sqe list \<Rightarrow> app \<Rightarrow> app \<Rightarrow> bool" where
  "submitted h es app app' \<longleftrightarrow>
     rings_ok app' h \<and> submissions (g_uring_ctx app') h = submissions (g_uring_ctx app) h @ es \<and>
     completions (g_uring_ctx app') = completions (g_uring_ctx app) \<and>
     g_cli_ctx_pool app' = g_cli_ctx_pool app"

lemma enqueue_submit:
  "enqueue f app = cbind (submit (g_uring_ctx app) f) (\<lambda>(ctx, wakeup).
     Inr (if wakeup then emit Sq_Wakeup (app\<lparr>g_uring_ctx := ctx\<rparr>) else app\<lparr>g_uring_ctx := ctx\<rparr>))"
  by (simp add: enqueue_def submit_def Let_def cbind_assoc case_prod_unfold)

lemma enqueue_ok:
  assumes "rings_ok app h" and "sq_room app h" and "enqueue f app = Inr app'"
  shows "submitted h [f zero_sqe] app app'" and "g_fastcgi_ctx app' = g_fastcgi_ctx app"
proof -
  obtain ctx w where s: "submit (g_uring_ctx app) f = Inr (ctx, w)" "sq_ok ctx" "sq_straight ctx h"
      "submissions ctx h = submissions (g_uring_ctx app) h @ [f zero_sqe]"
      "completions ctx = completions (g_uring_ctx app)" "cq_ok ctx = cq_ok (g_uring_ctx app)"
    using submit_ok [of "g_uring_ctx app" h f] assms(1,2) by (auto simp: rings_ok_def)
  then have "app' = (if w then emit Sq_Wakeup (app\<lparr>g_uring_ctx := ctx\<rparr>) else app\<lparr>g_uring_ctx := ctx\<rparr>)"
    using assms(3) by (simp add: enqueue_submit)
  then show "submitted h [f zero_sqe] app app'" and "g_fastcgi_ctx app' = g_fastcgi_ctx app"
    using s assms(1) by (simp_all add: submitted_def rings_ok_def emit_def)
qed

lemma enqueue_tail: "enqueue f app = Inr app' \<Longrightarrow> sq_tail (g_uring_ctx app') = sq_tail (g_uring_ctx app) + 1"
  by (auto simp: enqueue_def cg_uring_sqe_get_def cg_uring_sq_enqueue_def fill_sqe_def Let_def cbind_eq_Inr emit_def
      split: if_splits)

lemma enqueue_room:
  assumes "enqueue f app1 = Inr app2" and "found_room h app app'"
    and "g_uring_ctx app1 = g_uring_ctx app" and "g_uring_ctx app' = g_uring_ctx app2"
  shows "sq_room app1 h"
  using assms(2) enqueue_tail [OF assms(1)] assms(3,4) by simp

lemma submitted_trans:
  "submitted h es app app1 \<Longrightarrow> submitted h es' app1 app2 \<Longrightarrow> submitted h (es @ es') app app2"
  by (simp add: submitted_def)

lemma log_ts_frame:
  assumes "log_ts level line msg k app = Inr app'"
  shows "g_uring_ctx app' = g_uring_ctx app" "g_cli_ctx_pool app' = g_cli_ctx_pool app"
    "g_fastcgi_ctx app' = g_fastcgi_ctx app"
  using assms by (auto simp: log_ts_def cbind_eq_Inr emit_def)

lemma sint_positive: "0 \<le> sint (w :: u32) \<Longrightarrow> sint w = int (unat w)"
  using take_bit_Suc_from_most [of 31 "uint w"] take_bit_int_eq_self [of "uint w" 32]
    unsigned_less [of w, where ?'a = int]
  by (simp add: sint_uint signed_take_bit_eq_if_positive)

section \<open>Program and kernel\<close>

text \<open>The program's state, the kernel's head of the submission queue, and what it works on.\<close>

record system =
  sys_app :: app
  sq_head :: u32
  in_flight :: "io_uring_sqe list"

abbreviation sys_ctx :: "system \<Rightarrow> cg_uring_ctx" where
  "sys_ctx s \<equiv> g_uring_ctx (sys_app s)"

abbreviation sys_pool :: "system \<Rightarrow> cg_client_ctx list" where
  "sys_pool s \<equiv> g_cli_ctx_pool (sys_app s)"

text \<open>An answer to an entry, and the bytes that a read leaves in the buffer of its client.\<close>

definition answer :: "io_uring_sqe \<Rightarrow> io_uring_cqe \<Rightarrow> bool" where
  "answer e c \<longleftrightarrow> cqe_user_data c = sqe_user_data e \<and>
     (sqe_opcode e = IORING_OP_READ \<or> sqe_opcode e = IORING_OP_WRITE \<longrightarrow>
        sint (cqe_res c) \<le> int (unat (sqe_len e)))"

definition read_into :: "layout \<Rightarrow> io_uring_sqe \<Rightarrow> byte list \<Rightarrow> app \<Rightarrow> app" where
  "read_into lay e bs app =
     (let i = lay_client_at lay (CG_UNTAG_PTR (sqe_user_data e));
          fcgi = fcgi_cli_ctx (g_cli_ctx_pool app ! i); rx = rx_buf_meta fcgi
      in if CG_GET_TAG (sqe_user_data e) = CG_TAG_CLIENT \<and> i < length (g_cli_ctx_pool app) then
           set_fcgi i (fcgi\<lparr>rx_buf_meta := rx\<lparr>meta_buf :=
             buf_splice (meta_buf rx) (unat (sqe_addr e - lay_rx_buf lay i)) bs\<rparr>\<rparr>) app
         else app)"

definition completes :: "io_uring_cqe \<Rightarrow> app \<Rightarrow> app" where
  "completes c app = app\<lparr>g_uring_ctx := cq_put c (g_uring_ctx app)\<rparr>"

abbreviation cq_room :: "app \<Rightarrow> bool" where
  "cq_room app \<equiv> unat (cq_tail (g_uring_ctx app) - cq_head (g_uring_ctx app)) < length (cqes (g_uring_ctx app))"

text \<open>
  What the kernel does, at any time: it takes an entry, completes one, or accepts once more. A
  completion carries the flag \<open>IORING_CQE_F_MORE\<close> when its entry stays and others will follow.
\<close>

inductive kernel_step :: "layout \<Rightarrow> system \<Rightarrow> system \<Rightarrow> bool" for lay where
  kernel_take:
    "sq_head s \<noteq> sq_tail (sys_ctx s) \<Longrightarrow>
     kernel_step lay s (s\<lparr>sq_head := sq_head s + 1,
       in_flight := in_flight s @ [hd (submissions (sys_ctx s) (sq_head s))]\<rparr>)"
| kernel_complete:
    "in_flight s = es @ e # es' \<Longrightarrow> answer e c \<Longrightarrow> cq_room (sys_app s) \<Longrightarrow>
     cqe_flags c AND IORING_CQE_F_MORE = 0 \<Longrightarrow>
     length bs = (if sqe_opcode e = IORING_OP_READ \<and> 0 < sint (cqe_res c) then unat (cqe_res c) else 0) \<Longrightarrow>
     kernel_step lay s (s\<lparr>sys_app := completes c (read_into lay e bs (sys_app s)), in_flight := es @ es'\<rparr>)"
| kernel_accept:
    "e \<in> set (in_flight s) \<Longrightarrow> sqe_opcode e = IORING_OP_ACCEPT \<Longrightarrow> answer e c \<Longrightarrow> cq_room (sys_app s) \<Longrightarrow>
     cqe_flags c AND IORING_CQE_F_MORE \<noteq> 0 \<Longrightarrow>
     kernel_step lay s (s\<lparr>sys_app := completes c (sys_app s)\<rparr>)"

inductive_cases kernel_stepE: "kernel_step lay s s'"

text \<open>
  The steps. The program's are the handlers of the loop; each may come at any time, so the order
  of the loop is one of those covered.
\<close>

inductive program_step :: "layout \<Rightarrow> system \<Rightarrow> system \<Rightarrow> bool" for lay where
  program_client:
    "i < CG_MAX_CLIENTS \<Longrightarrow> cg_main_client_state_handle lay i (sys_app s) = Inr app \<Longrightarrow>
     program_step lay s (s\<lparr>sys_app := app\<rparr>)"
| program_listen:
    "cg_main_fastcgi_state_handle lay k (sys_app s) = Inr app \<Longrightarrow> program_step lay s (s\<lparr>sys_app := app\<rparr>)"
| program_handle:
    "completions (sys_ctx s) \<noteq> [] \<Longrightarrow>
     dispatch_cqe lay k (hd (completions (sys_ctx s))) (sys_app s) = Inr app \<Longrightarrow>
     program_step lay s (s\<lparr>sys_app := app\<lparr>g_uring_ctx := cg_uring_cq_discard (g_uring_ctx app) 1\<rparr>\<rparr>)"

inductive_cases program_stepE: "program_step lay s s'"

text \<open>
  The runs in which every submission finds room in the queue. Nothing in the code makes sure of
  that: what happens otherwise is shown apart, for a full queue.
\<close>

definition sys_step :: "layout \<Rightarrow> system \<Rightarrow> system \<Rightarrow> bool" where
  "sys_step lay s s' \<longleftrightarrow> kernel_step lay s s' \<or>
     program_step lay s s' \<and> found_room (sq_head s) (sys_app s) (sys_app s')"

lemma sys_step_kernel: "kernel_step lay s s' \<Longrightarrow> sys_step lay s s'"
  by (simp add: sys_step_def)

lemma sys_step_client:
  "i < CG_MAX_CLIENTS \<Longrightarrow> found_room (sq_head s) (sys_app s) app \<Longrightarrow>
   cg_main_client_state_handle lay i (sys_app s) = Inr app \<Longrightarrow> sys_step lay s (s\<lparr>sys_app := app\<rparr>)"
  by (simp add: sys_step_def program_client)

lemma sys_step_listen:
  "found_room (sq_head s) (sys_app s) app \<Longrightarrow> cg_main_fastcgi_state_handle lay k (sys_app s) = Inr app \<Longrightarrow>
   sys_step lay s (s\<lparr>sys_app := app\<rparr>)"
  using program_listen by (simp add: sys_step_def)

lemma sys_step_handle:
  assumes "completions (sys_ctx s) \<noteq> []" and "found_room (sq_head s) (sys_app s) app"
    and "dispatch_cqe lay k (hd (completions (sys_ctx s))) (sys_app s) = Inr app"
  shows "sys_step lay s (s\<lparr>sys_app := app\<lparr>g_uring_ctx := cg_uring_cq_discard (g_uring_ctx app) 1\<rparr>\<rparr>)"
  using assms(2) program_handle [OF assms(1,3)] by (simp add: sys_step_def cg_uring_cq_discard_def)

text \<open>The steps one by one, the kernel's among them.\<close>

lemma sys_step_cases [consumes 1, case_names kernel_take kernel_complete kernel_accept program_client
    program_listen program_handle]:
  assumes "sys_step lay s s'"
  obtains "s' = s\<lparr>sq_head := sq_head s + 1, in_flight := in_flight s @ [hd (submissions (sys_ctx s) (sq_head s))]\<rparr>"
      "sq_head s \<noteq> sq_tail (sys_ctx s)"
  | es e es' c bs where
      "s' = s\<lparr>sys_app := completes c (read_into lay e bs (sys_app s)), in_flight := es @ es'\<rparr>"
      "in_flight s = es @ e # es'" "answer e c" "cq_room (sys_app s)"
      "length bs = (if sqe_opcode e = IORING_OP_READ \<and> 0 < sint (cqe_res c) then unat (cqe_res c) else 0)"
      "cqe_flags c AND IORING_CQE_F_MORE = 0"
  | e c where "s' = s\<lparr>sys_app := completes c (sys_app s)\<rparr>"
      "e \<in> set (in_flight s)" "sqe_opcode e = IORING_OP_ACCEPT" "answer e c" "cq_room (sys_app s)"
      "cqe_flags c AND IORING_CQE_F_MORE \<noteq> 0"
  | i app where "s' = s\<lparr>sys_app := app\<rparr>" "i < CG_MAX_CLIENTS" "found_room (sq_head s) (sys_app s) app"
      "cg_main_client_state_handle lay i (sys_app s) = Inr app"
  | k app where "s' = s\<lparr>sys_app := app\<rparr>" "found_room (sq_head s) (sys_app s) app"
      "cg_main_fastcgi_state_handle lay k (sys_app s) = Inr app"
  | k app where "s' = s\<lparr>sys_app := app\<lparr>g_uring_ctx := cg_uring_cq_discard (g_uring_ctx app) 1\<rparr>\<rparr>"
      "completions (sys_ctx s) \<noteq> []" "found_room (sq_head s) (sys_app s) app"
      "dispatch_cqe lay k (hd (completions (sys_ctx s))) (sys_app s) = Inr app"
proof -
  consider "kernel_step lay s s'" | "program_step lay s s'" "found_room (sq_head s) (sys_app s) (sys_app s')"
    using assms unfolding sys_step_def by blast
  then show thesis
  proof cases
    case 1
    then show ?thesis
      by (elim kernel_stepE) (rule that(1-3); assumption)+
  next
    case 2
    from 2(1) show ?thesis
    proof (cases rule: program_step.cases)
      case (program_client i app)
      then show ?thesis using that(4) [of app i] 2(2) by simp
    next
      case (program_listen k app)
      then show ?thesis using that(5) [of app k] 2(2) by simp
    next
      case (program_handle k app)
      then show ?thesis using that(6) [of app k] 2(2) by (simp add: cg_uring_cq_discard_def)
    qed
  qed
qed

section \<open>What each client waits for\<close>

definition op_of :: "layout \<Rightarrow> nat \<Rightarrow> cg_client_ctx \<Rightarrow> io_uring_sqe option" where
  "op_of lay i c =
     (let fcgi = fcgi_cli_ctx c; rx = rx_buf_meta fcgi; tx = tx_buf_meta fcgi;
          sqe = zero_sqe\<lparr>sqe_fd := fcli_sockfd fcgi, sqe_user_data := client_tag lay i\<rparr> in
      case fcli_state fcgi of
        CG_FASTCGI_CLIENT_STATE_READ_CQE \<Rightarrow>
          Some (sqe\<lparr>sqe_opcode := IORING_OP_READ, sqe_addr := lay_rx_buf lay i + ucast (meta_valid rx),
            sqe_len := meta_len rx - meta_valid rx\<rparr>)
      | CG_FASTCGI_CLIENT_STATE_WRITE_CQE \<Rightarrow>
          Some (sqe\<lparr>sqe_opcode := IORING_OP_WRITE, sqe_addr := lay_tx_buf lay i + ucast (meta_pos tx),
            sqe_len := meta_valid tx - meta_pos tx\<rparr>)
      | CG_FASTCGI_CLIENT_STATE_CLOSE_CQE \<Rightarrow> Some (sqe\<lparr>sqe_opcode := IORING_OP_CLOSE\<rparr>)
      | _ \<Rightarrow> None)"

text \<open>A context is in order: its buffers have their size, and a read has room for a byte.\<close>

definition client_ok :: "cg_client_ctx \<Rightarrow> bool" where
  "client_ok c \<longleftrightarrow>
     (let fcgi = fcgi_cli_ctx c; rx = rx_buf_meta fcgi; tx = tx_buf_meta fcgi in
      req_shape (cli_req c) \<and>
      length (meta_buf rx) = 65790 \<and> meta_len rx = 65790 \<and> meta_pos rx = 0 \<and> unat (meta_valid rx) \<le> 65790 \<and>
      tx_ok tx \<and> meta_pos tx \<le> meta_valid tx \<and>
      (fcli_state fcgi = CG_FASTCGI_CLIENT_STATE_FREE \<longleftrightarrow> cli_state c = CG_CLIENT_STATE_FREE) \<and>
      (fcli_state fcgi \<in> {CG_FASTCGI_CLIENT_STATE_READ_SQE, CG_FASTCGI_CLIENT_STATE_READ_CQE} \<longrightarrow>
         unat (meta_valid rx) < 65790))"

definition pending :: "layout \<Rightarrow> system \<Rightarrow> nat \<Rightarrow> io_uring_sqe list" where
  "pending lay s i = filter (\<lambda>e. sqe_user_data e = client_tag lay i)
     (in_flight s @ submissions (sys_ctx s) (sq_head s))"

definition finished :: "layout \<Rightarrow> system \<Rightarrow> nat \<Rightarrow> io_uring_cqe list" where
  "finished lay s i = filter (\<lambda>c. cqe_user_data c = client_tag lay i) (completions (sys_ctx s))"

text \<open>Nothing is under way, or exactly the one operation, or exactly its one answer.\<close>

definition awaited :: "io_uring_sqe option \<Rightarrow> io_uring_sqe list \<Rightarrow> io_uring_cqe list \<Rightarrow> bool" where
  "awaited op es cs \<longleftrightarrow> (case op of None \<Rightarrow> es = [] \<and> cs = []
     | Some e \<Rightarrow> es = [e] \<and> cs = [] \<or> es = [] \<and> (\<exists>c. cs = [c] \<and> answer e c))"

definition sys_inv :: "layout \<Rightarrow> system \<Rightarrow> bool" where
  "sys_inv lay s \<longleftrightarrow> rings_ok (sys_app s) (sq_head s) \<and> length (sys_pool s) = CG_MAX_CLIENTS \<and>
     (\<forall>i < CG_MAX_CLIENTS. client_ok (sys_pool s ! i) \<and>
        awaited (op_of lay i (sys_pool s ! i)) (pending lay s i) (finished lay s i))"

lemma sys_invD:
  assumes "sys_inv lay s"
  shows "rings_ok (sys_app s) (sq_head s)" "length (sys_pool s) = CG_MAX_CLIENTS"
    "i < CG_MAX_CLIENTS \<Longrightarrow> client_ok (sys_pool s ! i)"
    "i < CG_MAX_CLIENTS \<Longrightarrow> awaited (op_of lay i (sys_pool s ! i)) (pending lay s i) (finished lay s i)"
  using assms by (simp_all add: sys_inv_def)

text \<open>A step that concerns one client, or none.\<close>

lemma sys_inv_frame:
  assumes inv: "sys_inv lay s" and rings: "rings_ok (sys_app s') (sq_head s')"
    and len: "length (sys_pool s') = length (sys_pool s)"
    and others: "\<And>j. j < CG_MAX_CLIENTS \<Longrightarrow> j \<noteq> i \<Longrightarrow> sys_pool s' ! j = sys_pool s ! j \<and>
      pending lay s' j = pending lay s j \<and> finished lay s' j = finished lay s j"
    and own: "i < CG_MAX_CLIENTS \<Longrightarrow> client_ok (sys_pool s' ! i) \<and>
      awaited (op_of lay i (sys_pool s' ! i)) (pending lay s' i) (finished lay s' i)"
  shows "sys_inv lay s'"
  unfolding sys_inv_def
proof (intro conjI allI impI)
  show "rings_ok (sys_app s') (sq_head s')" by (rule rings)
  show "length (sys_pool s') = CG_MAX_CLIENTS" using len sys_invD(2) [OF inv] by simp
  fix j assume j: "j < CG_MAX_CLIENTS"
  show "client_ok (sys_pool s' ! j)"
    using j own others [of j] sys_invD(3) [OF inv, of j] by (cases "j = i") auto
  show "awaited (op_of lay j (sys_pool s' ! j)) (pending lay s' j) (finished lay s' j)"
    using j own others [of j] sys_invD(4) [OF inv, of j] by (cases "j = i") auto
qed

lemma op_of_tag:
  assumes "op_of lay i c = Some e"
  shows "sqe_user_data e = client_tag lay i"
    "sqe_opcode e = IORING_OP_READ \<or> sqe_opcode e = IORING_OP_WRITE \<or> sqe_opcode e = IORING_OP_CLOSE"
  using assms by (auto simp: op_of_def Let_def split: cg_fastcgi_client_state.splits)

lemma pending_more:
  assumes "submissions (sys_ctx s') (sq_head s') = submissions (sys_ctx s) (sq_head s) @ es"
    and "in_flight s' = in_flight s"
  shows "pending lay s' i = pending lay s i @ filter (\<lambda>e. sqe_user_data e = client_tag lay i) es"
  using assms by (simp add: pending_def)

lemma finished_same:
  "completions (sys_ctx s') = completions (sys_ctx s) \<Longrightarrow> finished lay s' i = finished lay s i"
  by (simp add: finished_def)

section \<open>The program's steps that submit\<close>

text \<open>A client that waits for nothing gives its next operation to the ring.\<close>

lemma client_submits:
  assumes lay: "layout_ok lay" and inv: "sys_inv lay s" and i: "i < CG_MAX_CLIENTS"
    and room: "found_room (sq_head s) (sys_app s) app" and idle: "op_of lay i (sys_pool s ! i) = None"
    and c: "client_ok c" and op: "op_of lay i c = Some (f zero_sqe)"
    and run: "enqueue f ((sys_app s)\<lparr>g_cli_ctx_pool := (sys_pool s)[i := c]\<rparr>) = Inr app"
  shows "sys_inv lay (s\<lparr>sys_app := app\<rparr>)"
proof -
  let ?s' = "s\<lparr>sys_app := app\<rparr>" and ?app = "(sys_app s)\<lparr>g_cli_ctx_pool := (sys_pool s)[i := c]\<rparr>"
  have "rings_ok ?app (sq_head s)" "sq_room ?app (sq_head s)"
    using sys_invD(1) [OF inv] enqueue_room [OF run room] by (simp_all add: rings_ok_def)
  from enqueue_ok(1) [OF this run] have sub: "submitted (sq_head s) [f zero_sqe] ?app app" .
  note D = sub [unfolded submitted_def, simplified]
  have pend: "pending lay ?s' j = pending lay s j @ filter (\<lambda>e. sqe_user_data e = client_tag lay j) [f zero_sqe]" for j
    by (rule pending_more) (use D in simp_all)
  have fin: "finished lay ?s' j = finished lay s j" for j
    by (rule finished_same) (use D in simp)
  note tag = op_of_tag(1) [OF op]
  have pool: "sys_pool ?s' = (sys_pool s)[i := c]" using D by simp
  have none: "pending lay s i = []" "finished lay s i = []"
    using sys_invD(4) [OF inv i] idle by (simp_all add: awaited_def)
  show ?thesis
  proof (rule sys_inv_frame [OF inv, of _ i])
    show "rings_ok (sys_app ?s') (sq_head ?s')" using D by simp
    show "length (sys_pool ?s') = length (sys_pool s)" using pool by simp
    show "sys_pool ?s' ! j = sys_pool s ! j \<and> pending lay ?s' j = pending lay s j \<and>
        finished lay ?s' j = finished lay s j" if "j < CG_MAX_CLIENTS" "j \<noteq> i" for j
      using that pool pend fin tag client_tag_inj [OF lay i, of j] by simp
    show "client_ok (sys_pool ?s' ! i) \<and> awaited (op_of lay i (sys_pool ?s' ! i)) (pending lay ?s' i) (finished lay ?s' i)"
      using c i op pend fin pool none tag sys_invD(2) [OF inv] by (simp add: awaited_def)
  qed
qed

text \<open>An entry of the listener or the clock is none of the clients' business.\<close>

lemma other_submits:
  assumes lay: "layout_ok lay" and inv: "sys_inv lay s"
    and tag: "\<And>i. i < CG_MAX_CLIENTS \<Longrightarrow> sqe_user_data e \<noteq> client_tag lay i"
    and sub: "submitted (sq_head s) [e] (sys_app s) app"
  shows "sys_inv lay (s\<lparr>sys_app := app\<rparr>)"
proof -
  let ?s' = "s\<lparr>sys_app := app\<rparr>"
  note D = sub [unfolded submitted_def]
  have "pending lay ?s' j = pending lay s j @ filter (\<lambda>e. sqe_user_data e = client_tag lay j) [e]" for j
    by (rule pending_more) (use D in simp_all)
  moreover have "finished lay ?s' j = finished lay s j" for j by (rule finished_same) (use D in simp)
  ultimately show ?thesis
    by (intro sys_inv_frame [OF inv, of _ CG_MAX_CLIENTS]) (use D tag in simp_all)
qed

lemma client_step_inv:
  assumes lay: "layout_ok lay" and inv: "sys_inv lay s" and i: "i < CG_MAX_CLIENTS"
    and room: "found_room (sq_head s) (sys_app s) app"
    and run: "cg_main_client_state_handle lay i (sys_app s) = Inr app"
  shows "sys_inv lay (s\<lparr>sys_app := app\<rparr>)"
proof -
  note ok = sys_invD(3) [OF inv i]
  let ?c = "sys_pool s ! i"
  have il: "i < length (sys_pool s)" using i sys_invD(2) [OF inv] by simp
  note submits = client_submits [OF lay inv i]
  consider "fcli_state (fcgi_cli_ctx ?c) = CG_FASTCGI_CLIENT_STATE_READ_SQE"
    | "fcli_state (fcgi_cli_ctx ?c) = CG_FASTCGI_CLIENT_STATE_WRITE_SQE"
    | "fcli_state (fcgi_cli_ctx ?c) = CG_FASTCGI_CLIENT_STATE_CLOSE_SQE" "sint (fcli_sockfd (fcgi_cli_ctx ?c)) < 0"
    | "fcli_state (fcgi_cli_ctx ?c) = CG_FASTCGI_CLIENT_STATE_CLOSE_SQE" "\<not> sint (fcli_sockfd (fcgi_cli_ctx ?c)) < 0"
    | "app = sys_app s"
    using run by (auto simp: cg_main_client_state_handle_def Let_def split: cg_fastcgi_client_state.splits if_splits)
  then show ?thesis
  proof cases
    case 1
    show ?thesis
      by (rule submits [OF room _ _ _ run [unfolded cg_main_client_state_handle_def Let_def set_fcgi_def, simplified 1, simplified]])
        (use 1 ok in \<open>simp_all add: op_of_def client_ok_def Let_def client_tag_def\<close>)
  next
    case 2
    show ?thesis
      by (rule submits [OF room _ _ _ run [unfolded cg_main_client_state_handle_def Let_def set_fcgi_def, simplified 2, simplified]])
        (use 2 ok in \<open>simp_all add: op_of_def client_ok_def Let_def client_tag_def\<close>)
  next
    case 3
    let ?c' = "?c\<lparr>cli_state := CG_CLIENT_STATE_FREE,
      fcgi_cli_ctx := (fcgi_cli_ctx ?c)\<lparr>fcli_state := CG_FASTCGI_CLIENT_STATE_FREE\<rparr>\<rparr>"
    have app: "app = (sys_app s)\<lparr>g_cli_ctx_pool := (sys_pool s)[i := ?c']\<rparr>"
      using run 3 by (simp add: cg_main_client_state_handle_def Let_def release_def)
    have "pending lay (s\<lparr>sys_app := app\<rparr>) j = pending lay s j" "finished lay (s\<lparr>sys_app := app\<rparr>) j = finished lay s j"
      for j by (simp_all add: pending_def finished_def app)
    moreover have "client_ok ?c'" "op_of lay i ?c' = None" using ok 3 by (simp_all add: client_ok_def Let_def op_of_def)
    moreover have "op_of lay i ?c = None" using 3 by (simp add: op_of_def Let_def)
    ultimately show ?thesis
      using sys_invD(1) [OF inv] sys_invD(4) [OF inv i] il
      by (intro sys_inv_frame [OF inv, of _ i]) (simp_all add: app rings_ok_def)
  next
    case 4
    show ?thesis
      by (rule submits [OF room _ _ _ run [unfolded cg_main_client_state_handle_def Let_def set_fcgi_def, simplified 4, simplified]])
        (use 4 ok in \<open>simp_all add: op_of_def client_ok_def Let_def client_tag_def\<close>)
  next
    case 5
    then show ?thesis using inv by simp
  qed
qed

lemma listen_step_inv:
  assumes lay: "layout_ok lay" and inv: "sys_inv lay s" and room: "found_room (sq_head s) (sys_app s) app"
    and run: "cg_main_fastcgi_state_handle lay k (sys_app s) = Inr app"
  shows "sys_inv lay (s\<lparr>sys_app := app\<rparr>)"
proof (cases "fctx_state (g_fastcgi_ctx (sys_app s)) = CG_FASTCGI_STATE_ACCEPT_SQE")
  case False
  then have "app = sys_app s" using run by (simp add: cg_main_fastcgi_state_handle_def)
  then show ?thesis using inv by simp
next
  case True
  let ?f = "\<lambda>sqe. sqe\<lparr>sqe_opcode := IORING_OP_ACCEPT,
    sqe_fd := fctx_sockfd (g_fastcgi_ctx (sys_app s)), sqe_addr := 0, sqe_len := 0,
    sqe_ioprio := IORING_ACCEPT_MULTISHOT, sqe_accept_flags := 0x80800,
    sqe_user_data := CG_TAG_PTR (lay_fastcgi lay) CG_TAG_FASTCGI\<rparr>"
  obtain app1 where 1: "enqueue ?f (sys_app s) = Inr app1"
    and 2: "log_ts ''note'' ''202'' ''Enqueued accept operation SQE\<newline>'' k
      (app1\<lparr>g_fastcgi_ctx := (g_fastcgi_ctx app1)\<lparr>fctx_state := CG_FASTCGI_STATE_ACCEPT_CQE\<rparr>\<rparr>) = Inr app"
    using run True by (auto simp: cg_main_fastcgi_state_handle_def cbind_eq_Inr)
  have "submitted (sq_head s) [?f zero_sqe] (sys_app s) app"
    using enqueue_ok(1) [OF sys_invD(1) [OF inv] enqueue_room [OF 1 room] 1] log_ts_frame [OF 2]
    by (simp add: submitted_def rings_ok_def)
  from other_submits [OF lay inv _ this] show ?thesis using other_tags(1) [OF lay] by simp
qed

lemma tick_submits:
  assumes inv: "sys_inv lay s" and room: "found_room (sq_head s) (sys_app s) app"
    and run: "cg_main_timestamp_tick lay k (sys_app s) = Inr app"
  shows "\<exists>e. submitted (sq_head s) [e] (sys_app s) app \<and> sqe_user_data e = CG_TAG_TIMESTAMP \<and>
    sqe_opcode e = IORING_OP_TIMEOUT \<and> g_fastcgi_ctx app = g_fastcgi_ctx (sys_app s)"
proof -
  let ?f = "\<lambda>sqe. sqe\<lparr>sqe_opcode := IORING_OP_TIMEOUT, sqe_fd := - 1, sqe_addr := lay_timespec lay,
    sqe_len := 0, sqe_off := 0, sqe_user_data := CG_TAG_TIMESTAMP\<rparr>"
  obtain ts where e: "enqueue ?f ((sys_app s)\<lparr>g_ts_buf := ts\<rparr>) = Inr app"
    using run by (auto simp: cg_main_timestamp_tick_def cbind_eq_Inr)
  from enqueue_ok [OF _ _ e, of "sq_head s"]
  show ?thesis
    using sys_invD(1) [OF inv] enqueue_room [OF e room] by (intro exI [of _ "?f zero_sqe"]) (simp add: submitted_def rings_ok_def)
qed

lemma tick_inv:
  assumes lay: "layout_ok lay" and inv: "sys_inv lay s" and room: "found_room (sq_head s) (sys_app s) app"
    and run: "cg_main_timestamp_tick lay k (sys_app s) = Inr app"
  shows "sys_inv lay (s\<lparr>sys_app := app\<rparr>)" and "completions (g_uring_ctx app) = completions (sys_ctx s)"
proof -
  obtain e where sub: "submitted (sq_head s) [e] (sys_app s) app" and e: "sqe_user_data e = CG_TAG_TIMESTAMP"
    using tick_submits [OF inv room run] by blast
  from other_submits [OF lay inv _ sub] show "sys_inv lay (s\<lparr>sys_app := app\<rparr>)"
    using other_tags(2) [OF lay] e by simp
  show "completions (g_uring_ctx app) = completions (sys_ctx s)" using sub by (simp add: submitted_def)
qed

section \<open>The kernel's steps\<close>

lemma take_inv:
  assumes inv: "sys_inv lay s" and ne: "sq_head s \<noteq> sq_tail (sys_ctx s)"
  shows "sys_inv lay (s\<lparr>sq_head := sq_head s + 1,
    in_flight := in_flight s @ [hd (submissions (sys_ctx s) (sq_head s))]\<rparr>)" (is "sys_inv lay ?s'")
proof -
  have st: "sq_straight (sys_ctx s) (sq_head s)" using sys_invD(1) [OF inv] by (simp add: rings_ok_def)
  have "submissions (sys_ctx s) (sq_head s) \<noteq> []"
    using ring_head [OF ne, of "sq_array (sys_ctx s)"] by (simp add: submissions_def)
  then have "pending lay ?s' j = pending lay s j" for j
    by (simp add: pending_def kernel_takes [OF st ne] flip: filter_append)
  moreover have "finished lay ?s' j = finished lay s j" for j by (simp add: finished_def)
  ultimately show ?thesis
    using sys_invD(1) [OF inv] straight_next [OF st ne]
    by (intro sys_inv_frame [OF inv, of _ CG_MAX_CLIENTS]) (simp_all add: rings_ok_def)
qed

lemma completes_ok:
  assumes "rings_ok app h" and "cq_room app"
  shows "rings_ok (completes c app) h" "completions (g_uring_ctx (completes c app)) = completions (g_uring_ctx app) @ [c]"
    "submissions (g_uring_ctx (completes c app)) h' = submissions (g_uring_ctx app) h'"
    "g_cli_ctx_pool (completes c app) = g_cli_ctx_pool app"
proof -
  have "cq_ok (cq_put c (g_uring_ctx app)) \<and> completions (cq_put c (g_uring_ctx app)) = completions (g_uring_ctx app) @ [c]"
    using cq.put [of "g_uring_ctx app" c] assms by (simp add: rings_ok_def ring_space_def)
  then show "rings_ok (completes c app) h"
    "completions (g_uring_ctx (completes c app)) = completions (g_uring_ctx app) @ [c]"
    using assms(1) by (simp_all add: rings_ok_def completes_def) (simp_all add: cq_put_def sq_ok_def sq_straight_def sq_slot_def)
  show "submissions (g_uring_ctx (completes c app)) h' = submissions (g_uring_ctx app) h'"
    "g_cli_ctx_pool (completes c app) = g_cli_ctx_pool app" by (simp_all add: completes_def cq_put_def submissions_def)
qed

lemma pending_of:
  assumes "sys_inv lay s" and "i < CG_MAX_CLIENTS" and "pending lay s i \<noteq> []"
  shows "\<exists>e. op_of lay i (sys_pool s ! i) = Some e \<and> pending lay s i = [e] \<and> finished lay s i = []"
  using sys_invD(4) [OF assms(1,2)] assms(3) by (auto simp: awaited_def split: option.splits)

lemma accept_inv:
  assumes lay: "layout_ok lay" and inv: "sys_inv lay s" and e: "e \<in> set (in_flight s)"
    and acc: "sqe_opcode e = IORING_OP_ACCEPT" and c: "answer e c" and room: "cq_room (sys_app s)"
  shows "sys_inv lay (s\<lparr>sys_app := completes c (sys_app s)\<rparr>)" (is "sys_inv lay ?s'")
proof -
  note C = completes_ok [OF sys_invD(1) [OF inv] room, of c]
  have "sqe_user_data e \<noteq> client_tag lay i" if i: "i < CG_MAX_CLIENTS" for i
  proof
    assume "sqe_user_data e = client_tag lay i"
    then have m: "e \<in> set (pending lay s i)" using e by (simp add: pending_def)
    then obtain e' where "op_of lay i (sys_pool s ! i) = Some e'" "pending lay s i = [e']"
      using pending_of [OF inv i] by (metis empty_iff list.set(1))
    then show False using op_of_tag(2) [of lay i _ e'] m acc by auto
  qed
  then have "finished lay ?s' i = finished lay s i" if "i < CG_MAX_CLIENTS" for i
    using that C c by (simp add: finished_def answer_def)
  moreover have "pending lay ?s' i = pending lay s i" for i using C by (simp add: pending_def)
  ultimately show ?thesis by (intro sys_inv_frame [OF inv, of _ CG_MAX_CLIENTS]) (use C in simp_all)
qed

text \<open>The read that a client asks for lies behind what its buffer holds, and ends with the buffer.\<close>

lemma op_read:
  assumes ok: "client_ok c" and op: "op_of lay i c = Some e" and read: "sqe_opcode e = IORING_OP_READ"
  shows "unat (sqe_addr e - lay_rx_buf lay i) = unat (meta_valid (rx_buf_meta (fcgi_cli_ctx c)))"
    "unat (sqe_len e) = 65790 - unat (meta_valid (rx_buf_meta (fcgi_cli_ctx c)))"
    "0 < unat (sqe_len e)" "fcli_state (fcgi_cli_ctx c) = CG_FASTCGI_CLIENT_STATE_READ_CQE"
proof -
  have s: "fcli_state (fcgi_cli_ctx c) = CG_FASTCGI_CLIENT_STATE_READ_CQE"
    using op read by (auto simp: op_of_def Let_def split: cg_fastcgi_client_state.splits)
  have v: "unat (meta_valid (rx_buf_meta (fcgi_cli_ctx c))) < 65790" and l: "meta_len (rx_buf_meta (fcgi_cli_ctx c)) = 65790"
    using ok s by (simp_all add: client_ok_def Let_def)
  show len: "unat (sqe_len e) = 65790 - unat (meta_valid (rx_buf_meta (fcgi_cli_ctx c)))"
    using op s l v by (auto simp: op_of_def Let_def unat_sub word_le_nat_alt)
  show "0 < unat (sqe_len e)" using len v by simp
  show "unat (sqe_addr e - lay_rx_buf lay i) = unat (meta_valid (rx_buf_meta (fcgi_cli_ctx c)))"
    using op s by (auto simp: op_of_def Let_def unat_ucast_up)
  show "fcli_state (fcgi_cli_ctx c) = CG_FASTCGI_CLIENT_STATE_READ_CQE" by (rule s)
qed

definition set_rx :: "byte list \<Rightarrow> cg_client_ctx \<Rightarrow> cg_client_ctx" where
  "set_rx buf c = c\<lparr>fcgi_cli_ctx := (fcgi_cli_ctx c)\<lparr>rx_buf_meta := (rx_buf_meta (fcgi_cli_ctx c))\<lparr>meta_buf := buf\<rparr>\<rparr>\<rparr>"

lemma set_rx_ok:
  "client_ok c \<Longrightarrow> length buf = length (meta_buf (rx_buf_meta (fcgi_cli_ctx c))) \<Longrightarrow> client_ok (set_rx buf c)"
  "op_of lay i (set_rx buf c) = op_of lay i c"
  by (simp_all add: client_ok_def op_of_def set_rx_def Let_def cong: cg_fastcgi_client_state.case_cong)

lemma complete_inv:
  assumes lay: "layout_ok lay" and inv: "sys_inv lay s" and fl: "in_flight s = es @ e # es'"
    and c: "answer e c" and room: "cq_room (sys_app s)"
    and bs: "length bs = (if sqe_opcode e = IORING_OP_READ \<and> 0 < sint (cqe_res c) then unat (cqe_res c) else 0)"
  shows "sys_inv lay (s\<lparr>sys_app := completes c (read_into lay e bs (sys_app s)), in_flight := es @ es'\<rparr>)"
    (is "sys_inv lay ?s'")
proof (cases "\<exists>i < CG_MAX_CLIENTS. sqe_user_data e = client_tag lay i")
  case False
  then have "read_into lay e bs (sys_app s) = sys_app s"
    using client_tag_of [OF lay, of "sqe_user_data e"] sys_invD(2) [OF inv] by (auto simp: read_into_def Let_def)
  note C = completes_ok [OF sys_invD(1) [OF inv] room, of c] and r = this
  have "finished lay ?s' i = finished lay s i \<and> pending lay ?s' i = pending lay s i" if "i < CG_MAX_CLIENTS" for i
    using that False C c fl r by (auto simp: finished_def pending_def answer_def)
  then show ?thesis by (intro sys_inv_frame [OF inv, of _ CG_MAX_CLIENTS]) (use C r in simp_all)
next
  case True
  then obtain i where i: "i < CG_MAX_CLIENTS" and tag: "sqe_user_data e = client_tag lay i" by blast
  let ?c = "sys_pool s ! i"
  have il: "i < length (sys_pool s)" using i sys_invD(2) [OF inv] by simp
  have m: "e \<in> set (pending lay s i)" using fl tag by (simp add: pending_def)
  then obtain e' where e': "op_of lay i ?c = Some e'" "pending lay s i = [e']" "finished lay s i = []"
    using pending_of [OF inv i] by (metis empty_iff list.set(1))
  then have p: "op_of lay i ?c = Some e" "pending lay s i = [e]" "finished lay s i = []" using m by simp_all
  define buf where "buf = buf_splice (meta_buf (rx_buf_meta (fcgi_cli_ctx ?c))) (unat (sqe_addr e - lay_rx_buf lay i)) bs"
  let ?app = "(sys_app s)\<lparr>g_cli_ctx_pool := (sys_pool s)[i := set_rx buf ?c]\<rparr>"
  have r: "read_into lay e bs (sys_app s) = ?app"
    using client_tag_parts [OF lay i] il by (simp add: read_into_def Let_def tag set_fcgi_def set_rx_def buf_def)
  have len: "length buf = length (meta_buf (rx_buf_meta (fcgi_cli_ctx ?c)))"
  proof (cases "sqe_opcode e = IORING_OP_READ \<and> 0 < sint (cqe_res c)")
    case True
    then have "unat (cqe_res c) \<le> unat (sqe_len e)"
      using c sint_positive [of "cqe_res c"] True by (simp add: answer_def flip: of_nat_le_iff [where ?'a = int])
    then have "unat (sqe_addr e - lay_rx_buf lay i) + length bs \<le> length (meta_buf (rx_buf_meta (fcgi_cli_ctx ?c)))"
      using True bs op_read(1,2) [OF sys_invD(3) [OF inv i] p(1)] sys_invD(3) [OF inv i]
      by (auto simp: client_ok_def Let_def)
    then show ?thesis unfolding buf_def by (rule length_buf_splice)
  next
    case False
    then have "bs = []" using bs by (simp split: if_splits)
    then show ?thesis by (simp add: buf_def)
  qed
  have "rings_ok ?app (sq_head s)" "cq_room ?app" using sys_invD(1) [OF inv] room by (simp_all add: rings_ok_def)
  note C = completes_ok [OF this, of c]
  have one: "filter (\<lambda>e. sqe_user_data e = client_tag lay i) (es @ es' @ submissions (sys_ctx s) (sq_head s)) = []"
    using p(2) tag fl by (auto simp: pending_def append_eq_Cons_conv)
  show ?thesis
  proof (rule sys_inv_frame [OF inv, of _ i])
    show "rings_ok (sys_app ?s') (sq_head ?s')" using C r by simp
    show "length (sys_pool ?s') = length (sys_pool s)" using C r by simp
    show "sys_pool ?s' ! j = sys_pool s ! j \<and> pending lay ?s' j = pending lay s j \<and>
        finished lay ?s' j = finished lay s j" if "j < CG_MAX_CLIENTS" "j \<noteq> i" for j
      using that C r fl tag c client_tag_inj [OF lay i, of j] by (simp add: pending_def finished_def answer_def)
    show "client_ok (sys_pool ?s' ! i) \<and> awaited (op_of lay i (sys_pool ?s' ! i)) (pending lay ?s' i) (finished lay ?s' i)"
      using C r p c tag one il set_rx_ok(1) [of ?c buf] set_rx_ok(2) sys_invD(3) [OF inv i] len
      by (simp add: pending_def finished_def answer_def awaited_def)
  qed
qed

section \<open>The program's steps that handle a completion\<close>

lemma op_of_None:
  "op_of lay i c = None \<longleftrightarrow> fcli_state (fcgi_cli_ctx c) \<notin>
     {CG_FASTCGI_CLIENT_STATE_READ_CQE, CG_FASTCGI_CLIENT_STATE_WRITE_CQE, CG_FASTCGI_CLIENT_STATE_CLOSE_CQE}"
  by (auto simp: op_of_def Let_def split: cg_fastcgi_client_state.splits)

text \<open>A handler that leaves the rings alone and a client in order that waits for nothing.\<close>

definition settles :: "nat \<Rightarrow> app \<Rightarrow> app \<Rightarrow> bool" where
  "settles i app app' \<longleftrightarrow> g_uring_ctx app' = g_uring_ctx app \<and>
     (\<exists>c. g_cli_ctx_pool app' = (g_cli_ctx_pool app)[i := c] \<and> client_ok c \<and> (\<forall>lay. op_of lay i c = None))"

lemma slide_length: "slide_buf base buf pos n = Inr buf' \<Longrightarrow> length buf' = length buf"
  by (auto simp: slide_buf_def split: if_splits)

lemma read_done_settles:
  assumes ok: "client_ok (g_cli_ctx_pool app ! i)"
    and s: "fcli_state (fcgi_cli_ctx (g_cli_ctx_pool app ! i)) = CG_FASTCGI_CLIENT_STATE_READ_CQE"
    and res: "unat (meta_valid (rx_buf_meta (fcgi_cli_ctx (g_cli_ctx_pool app ! i)))) + unat res \<le> 65790"
    and run: "client_read_done lay k i res app = Inr app'"
  shows "settles i app app'"
proof -
  let ?c = "g_cli_ctx_pool app ! i" 
  let ?fcgi = "fcgi_cli_ctx ?c" and ?rx = "rx_buf_meta (fcgi_cli_ctx ?c)"
  let ?in = "?rx\<lparr>meta_valid := meta_valid ?rx + res, meta_pos := 0\<rparr>"
  note ok' = ok [unfolded client_ok_def Let_def]
  have "unat (meta_valid ?rx + res) = unat (meta_valid ?rx) + unat res" by (rule unat_add_small) (use res in simp)
  then have slack: "rx_slack 0 ?in" using ok' res by (simp add: rx_slack_def)
  obtain rx req hdr status buf where p: "cg_fastcgi_parse ?in (cli_req ?c) (saved_hdr ?fcgi) = Inr (rx, req, hdr, status)"
    and b: "(if 0 < meta_valid rx - meta_pos rx \<and> 0 < meta_pos rx then
        slide_buf (unat (lay_rx_buf lay i)) (meta_buf rx) (unat (meta_pos rx)) (unat (meta_valid rx - meta_pos rx))
      else Inr (meta_buf rx)) = Inr buf"
    using run by (fastforce simp: client_read_done_def Let_def cbind_eq_Inr)
  note R = parse_returns [OF slack _ p]
  have shape: "req_shape (cli_req ?c)" using ok' by simp
  note R = R [OF shape]
  let ?rx' = "rx\<lparr>meta_buf := buf, meta_valid := meta_valid rx - meta_pos rx, meta_pos := 0\<rparr>"
  let ?fcgi' = "?fcgi\<lparr>rx_buf_meta := ?rx', saved_hdr := hdr\<rparr>"
  have buf: "length buf = 65790" "meta_len rx = 65790"
    using b R(2) ok' slide_length by (auto simp: same_buffer_def split: if_splits)
  have left: "unat (meta_valid rx - meta_pos rx) = leftover rx" "leftover rx \<le> 65790"
    using R(1,2) ok' res by (auto simp: rx_slack_def leftover_def unat_sub same_buffer_def)
  have fin: "client_ok (?c\<lparr>cli_req := req', fcgi_cli_ctx := ?fcgi'\<lparr>tx_buf_meta := tx, fcli_state := st\<rparr>\<rparr>)"
    if "req_shape req'" "tx_ok tx" "meta_pos tx \<le> meta_valid tx"
      "st = CG_FASTCGI_CLIENT_STATE_WRITE_SQE \<or> st = CG_FASTCGI_CLIENT_STATE_READ_SQE \<and> leftover rx < 65790"
    for req' tx st
    using that ok' s buf left by (auto simp: client_ok_def Let_def)
  consider "status = 0" | "status = 1" "leftover rx < 65790" using R(4) by auto
  then show ?thesis
  proof cases
    case 1
    obtain req' srv where m: "cg_route_map_reply (g_route_map app) k req (client_server app ?fcgi') = Inr (req', srv)"
      and app': "app' = app\<lparr>g_sessiondb := srv_sessiondb srv, g_userdb := srv_userdb srv,
        g_cli_ctx_pool := (g_cli_ctx_pool app)[i := ?c\<lparr>cli_req := req',
          fcgi_cli_ctx := ?fcgi'\<lparr>tx_buf_meta := srv_tx srv, fcli_state := CG_FASTCGI_CLIENT_STATE_WRITE_SQE\<rparr>\<rparr>]\<rparr>"
      using run p b 1 by (auto simp: client_read_done_def Let_def cbind_eq_Inr)
    have "tx_fresh (srv_tx srv)" "req_shape req'"
      using map_reply_keeps [OF _ R(3) m] ok' by (simp_all add: client_server_def)
    then show ?thesis
      using app' fin [of req' "srv_tx srv" CG_FASTCGI_CLIENT_STATE_WRITE_SQE]
      by (auto simp: settles_def tx_fresh_def op_of_None)
  next
    case 2
    then have "app' = app\<lparr>g_cli_ctx_pool := (g_cli_ctx_pool app)[i := ?c\<lparr>cli_req := req,
        fcgi_cli_ctx := ?fcgi'\<lparr>tx_buf_meta := tx_buf_meta ?fcgi, fcli_state := CG_FASTCGI_CLIENT_STATE_READ_SQE\<rparr>\<rparr>]\<rparr>"
      using run p b by (auto simp: client_read_done_def Let_def cbind_eq_Inr)
    then show ?thesis
      using fin [of req "tx_buf_meta ?fcgi" CG_FASTCGI_CLIENT_STATE_READ_SQE] R(3) ok' 2
      by (auto simp: settles_def op_of_None)
  qed
qed

lemma write_done_settles:
  assumes ok: "client_ok (g_cli_ctx_pool app ! i)"
    and s: "fcli_state (fcgi_cli_ctx (g_cli_ctx_pool app ! i)) = CG_FASTCGI_CLIENT_STATE_WRITE_CQE"
    and res: "unat (meta_pos (tx_buf_meta (fcgi_cli_ctx (g_cli_ctx_pool app ! i)))) + unat res \<le>
      unat (meta_valid (tx_buf_meta (fcgi_cli_ctx (g_cli_ctx_pool app ! i))))"
  shows "settles i app (client_write_done i res app)"
proof -
  let ?tx = "tx_buf_meta (fcgi_cli_ctx (g_cli_ctx_pool app ! i))"
  have "unat (meta_pos ?tx + res) = unat (meta_pos ?tx) + unat res"
    using res unsigned_less [of "meta_valid ?tx", where ?'a = nat] by (intro unat_add_small) simp
  then have "meta_pos ?tx + res \<le> meta_valid ?tx" using res by (simp add: word_le_nat_alt)
  then show ?thesis
    using ok s by (auto simp: client_write_done_def settles_def client_ok_def Let_def set_fcgi_def tx_ok_def op_of_None)
qed

text \<open>Every handler of a client settles the client, when the completion answers its operation.\<close>

lemma client_handle_settles:
  assumes ok: "client_ok (g_cli_ctx_pool app ! i)" and op: "op_of lay i (g_cli_ctx_pool app ! i) = Some e"
    and c: "answer e c" and run: "cg_main_client_cqe_handle lay k i c app = Inr app'"
  shows "settles i app app'"
proof -
  let ?c = "g_cli_ctx_pool app ! i"
  let ?rx = "rx_buf_meta (fcgi_cli_ctx ?c)" and ?tx = "tx_buf_meta (fcgi_cli_ctx ?c)"
  note ok' = ok [unfolded client_ok_def Let_def]
  consider (reads) "fcli_state (fcgi_cli_ctx ?c) = CG_FASTCGI_CLIENT_STATE_READ_CQE"
    | (writes) "fcli_state (fcgi_cli_ctx ?c) = CG_FASTCGI_CLIENT_STATE_WRITE_CQE"
    | (closes) "fcli_state (fcgi_cli_ctx ?c) = CG_FASTCGI_CLIENT_STATE_CLOSE_CQE"
    using op_of_None [of lay i ?c] op by auto
  then show ?thesis
  proof cases
    case reads
    then have "sqe_opcode e = IORING_OP_READ" using op by (auto simp: op_of_def Let_def)
    note len = op_read(2) [OF ok op this]
    show ?thesis
    proof (cases "sint (cqe_res c) \<le> 0")
      case True
      then show ?thesis using run reads ok'
        by (auto simp: cg_main_client_cqe_handle_def Let_def settles_def set_fcgi_def client_ok_def op_of_None)
    next
      case False
      then have "unat (cqe_res c) \<le> unat (sqe_len e)"
        using c \<open>sqe_opcode e = IORING_OP_READ\<close> sint_positive [of "cqe_res c"]
        by (simp add: answer_def flip: of_nat_le_iff [where ?'a = int])
      then show ?thesis
        using read_done_settles [OF ok reads, of "cqe_res c" lay k app'] len run reads False ok'
        by (auto simp: cg_main_client_cqe_handle_def Let_def)
    qed
  next
    case writes
    then have e: "sqe_opcode e = IORING_OP_WRITE" "sqe_len e = meta_valid ?tx - meta_pos ?tx"
      using op by (auto simp: op_of_def Let_def)
    show ?thesis
    proof (cases "sint (cqe_res c) < 0")
      case True
      then show ?thesis using run writes ok'
        by (auto simp: cg_main_client_cqe_handle_def Let_def settles_def set_fcgi_def client_ok_def op_of_None)
    next
      case False
      then have "unat (cqe_res c) \<le> unat (meta_valid ?tx - meta_pos ?tx)"
        using c e sint_positive [of "cqe_res c"] by (simp add: answer_def flip: of_nat_le_iff [where ?'a = int])
      then have "unat (meta_pos ?tx) + unat (cqe_res c) \<le> unat (meta_valid ?tx)"
        using ok' by (auto simp: unat_sub word_le_nat_alt)
      then show ?thesis
        using write_done_settles [OF ok writes, of "cqe_res c"] run writes False
        by (auto simp: cg_main_client_cqe_handle_def Let_def)
    qed
  next
    case closes
    then show ?thesis using run ok'
      by (auto simp: cg_main_client_cqe_handle_def Let_def settles_def release_def client_ok_def op_of_None)
  qed
qed

abbreviation discarded :: "app \<Rightarrow> app" where
  "discarded app \<equiv> app\<lparr>g_uring_ctx := cg_uring_cq_discard (g_uring_ctx app) 1\<rparr>"

lemma discard_submissions: "submissions (cg_uring_cq_discard ctx n) h = submissions ctx h"
  by (simp add: submissions_def cg_uring_cq_discard_def)

lemma discard_rings:
  "completions (g_uring_ctx app) \<noteq> [] \<Longrightarrow> rings_ok (discarded app) h \<longleftrightarrow> rings_ok app h"
  by (simp add: rings_ok_def cq_discard_ok(2)) (simp add: cg_uring_cq_discard_def sq_ok_def sq_straight_def sq_slot_def)

lemma finished_discard:
  assumes "completions (sys_ctx s) \<noteq> []"
  shows "finished lay (s\<lparr>sys_app := discarded (sys_app s)\<rparr>) i =
    (if cqe_user_data (hd (completions (sys_ctx s))) = client_tag lay i then tl (finished lay s i) else finished lay s i)"
  using cq_discard_ok(1) [OF assms] assms by (cases "completions (sys_ctx s)") (simp_all add: finished_def)

text \<open>A completion that was for no client is dropped.\<close>

lemma discard_inv:
  assumes inv: "sys_inv lay s" and ne: "completions (sys_ctx s) \<noteq> []"
    and tag: "\<And>i. i < CG_MAX_CLIENTS \<Longrightarrow> cqe_user_data (hd (completions (sys_ctx s))) \<noteq> client_tag lay i"
  shows "sys_inv lay (s\<lparr>sys_app := discarded (sys_app s)\<rparr>)"
  using sys_invD(1) [OF inv] discard_rings [OF ne] finished_discard [OF ne] tag
  by (intro sys_inv_frame [OF inv, of _ CG_MAX_CLIENTS]) (simp_all add: pending_def discard_submissions)

lemma client_completion:
  assumes inv: "sys_inv lay s" and i: "i < CG_MAX_CLIENTS" and ne: "completions (sys_ctx s) \<noteq> []"
    and tag: "cqe_user_data (hd (completions (sys_ctx s))) = client_tag lay i"
  shows "\<exists>e. op_of lay i (sys_pool s ! i) = Some e \<and> answer e (hd (completions (sys_ctx s))) \<and>
    pending lay s i = [] \<and> finished lay s i = [hd (completions (sys_ctx s))]"
proof -
  have "hd (completions (sys_ctx s)) \<in> set (finished lay s i)" using ne tag by (simp add: finished_def)
  then show ?thesis
    using sys_invD(4) [OF inv i] by (auto simp: awaited_def split: option.splits)
qed

lemma client_handle_inv:
  assumes lay: "layout_ok lay" and inv: "sys_inv lay s" and i: "i < CG_MAX_CLIENTS"
    and ne: "completions (sys_ctx s) \<noteq> []"
    and tag: "cqe_user_data (hd (completions (sys_ctx s))) = client_tag lay i"
    and run: "cg_main_client_cqe_handle lay k i (hd (completions (sys_ctx s))) (sys_app s) = Inr app"
  shows "sys_inv lay (s\<lparr>sys_app := discarded app\<rparr>)"
proof -
  let ?s' = "s\<lparr>sys_app := discarded app\<rparr>" and ?s1 = "s\<lparr>sys_app := app\<rparr>"
  obtain e where e: "op_of lay i (sys_pool s ! i) = Some e" "answer e (hd (completions (sys_ctx s)))"
      "pending lay s i = []" "finished lay s i = [hd (completions (sys_ctx s))]"
    using client_completion [OF inv i ne tag] by blast
  from client_handle_settles [OF sys_invD(3) [OF inv i] e(1,2) run]
  obtain c where g: "g_uring_ctx app = sys_ctx s" and pool: "g_cli_ctx_pool app = (sys_pool s)[i := c]"
    and c: "client_ok c" "op_of lay i c = None" by (auto simp: settles_def)
  have ne1: "completions (sys_ctx ?s1) \<noteq> []" using ne g by simp
  have fin: "finished lay ?s' j = (if j = i then [] else finished lay s j)" if "j < CG_MAX_CLIENTS" for j
    using finished_discard [OF ne1, of lay j] g tag e(4) client_tag_inj [OF lay i that]
    by (auto simp: finished_def)
  have pend: "pending lay ?s' j = pending lay s j" for j by (simp add: pending_def g discard_submissions)
  show ?thesis
  proof (rule sys_inv_frame [OF inv, of _ i])
    show "rings_ok (sys_app ?s') (sq_head ?s')"
      using discard_rings [OF ne1 [simplified]] sys_invD(1) [OF inv] g by (simp add: rings_ok_def)
    show "length (sys_pool ?s') = length (sys_pool s)" using pool by simp
    show "sys_pool ?s' ! j = sys_pool s ! j \<and> pending lay ?s' j = pending lay s j \<and>
        finished lay ?s' j = finished lay s j" if "j < CG_MAX_CLIENTS" "j \<noteq> i" for j
      using that pool fin pend by simp
    show "client_ok (sys_pool ?s' ! i) \<and> awaited (op_of lay i (sys_pool ?s' ! i)) (pending lay ?s' i) (finished lay ?s' i)"
      using pool fin [OF i] pend c e(3) i sys_invD(2) [OF inv] by (simp add: awaited_def)
  qed
qed

lemma first_free_client:
  assumes "cg_client_alloc pool n = Inr (pool', r)" and "n = length pool"
  shows "case r of None \<Rightarrow> pool' = pool
    | Some i \<Rightarrow> i < n \<and> cli_state (pool ! i) = CG_CLIENT_STATE_FREE \<and>
        pool' = pool[i := (pool ! i)\<lparr>cli_state := CG_CLIENT_STATE_IN_USE\<rparr>]"
  using assms by (auto simp: cg_client_alloc_def first_index_Some split: option.splits if_splits)

lemma accept_done_inv:
  assumes inv: "sys_inv lay s" and run: "cg_main_fastcgi_cqe_handle k c (sys_app s) = Inr app"
  shows "sys_inv lay (s\<lparr>sys_app := app\<rparr>)" and "g_uring_ctx app = sys_ctx s"
proof -
  let ?pool = "sys_pool s" and ?s' = "s\<lparr>sys_app := app\<rparr>"
  let ?new = "\<lambda>i. (?pool ! i)\<lparr>cli_state := CG_CLIENT_STATE_IN_USE, fcgi_cli_ctx :=
    (cg_fastcgi_client_init (fcgi_cli_ctx (?pool ! i)))\<lparr>fcli_sockfd := cqe_res c, fcli_state := CG_FASTCGI_CLIENT_STATE_READ_SQE\<rparr>\<rparr>"
  have len: "length ?pool = CG_MAX_CLIENTS" using sys_invD(2) [OF inv] .
  have "g_uring_ctx app = sys_ctx s \<and> (g_cli_ctx_pool app = ?pool \<or>
      (\<exists>i < CG_MAX_CLIENTS. cli_state (?pool ! i) = CG_CLIENT_STATE_FREE \<and> g_cli_ctx_pool app = ?pool[i := ?new i]))"
  proof (cases "fctx_state (g_fastcgi_ctx (sys_app s)) = CG_FASTCGI_STATE_ACCEPT_CQE \<and> 0 \<le> sint (cqe_res c)")
    case False
    then show ?thesis
      using run by (auto simp: cg_main_fastcgi_cqe_handle_def cbind_eq_Inr log_ts_frame split: cg_fastcgi_state.splits)
  next
    case True
    then obtain app1 pool' r where l: "log_ts ''note'' ''232'' ''Accepted incoming connection\<newline>'' k (sys_app s) = Inr app1"
      and al: "cg_client_alloc (g_cli_ctx_pool app1) CG_MAX_CLIENTS = Inr (pool', r)"
      using run by (auto simp: cg_main_fastcgi_cqe_handle_def cbind_eq_Inr)
    note L = log_ts_frame [OF l]
    show ?thesis
      using run True l al L first_free_client [OF al] len
      by (auto simp: cg_main_fastcgi_cqe_handle_def emit_def Let_def split: option.splits)
  qed
  then have u: "g_uring_ctx app = sys_ctx s" and pool: "g_cli_ctx_pool app = ?pool \<or>
      (\<exists>i < CG_MAX_CLIENTS. cli_state (?pool ! i) = CG_CLIENT_STATE_FREE \<and> g_cli_ctx_pool app = ?pool[i := ?new i])"
    by simp_all
  show "g_uring_ctx app = sys_ctx s" by (rule u)
  have same: "pending lay ?s' j = pending lay s j" "finished lay ?s' j = finished lay s j" for j
    by (simp_all add: pending_def finished_def u)
  have rings: "rings_ok app (sq_head s)" using sys_invD(1) [OF inv] u by (simp add: rings_ok_def)
  from pool show "sys_inv lay ?s'"
  proof (elim disjE exE conjE)
    assume "g_cli_ctx_pool app = ?pool"
    then show ?thesis
      using same rings by (intro sys_inv_frame [OF inv, of _ CG_MAX_CLIENTS]) simp_all
  next
    fix i assume i: "i < CG_MAX_CLIENTS" "cli_state (?pool ! i) = CG_CLIENT_STATE_FREE"
      and p: "g_cli_ctx_pool app = ?pool[i := ?new i]"
    have ok: "client_ok (?pool ! i)" by (rule sys_invD(3) [OF inv i(1)])
    then have "op_of lay i (?pool ! i) = None" using i(2) by (auto simp: client_ok_def Let_def op_of_None)
    moreover have "op_of lay i (?new i) = None" by (simp add: op_of_None)
    moreover have "client_ok (?new i)"
      using ok by (simp add: client_ok_def Let_def cg_fastcgi_client_init_def tx_ok_def)
    ultimately show ?thesis
      using same rings p sys_invD(4) [OF inv i(1)] i(1) len
      by (intro sys_inv_frame [OF inv, of _ i]) simp_all
  qed
qed

text \<open>What the loop does with the oldest completion, whatever it belongs to.\<close>

lemma handle_inv:
  assumes lay: "layout_ok lay" and inv: "sys_inv lay s" and ne: "completions (sys_ctx s) \<noteq> []"
    and room: "found_room (sq_head s) (sys_app s) app"
    and run: "dispatch_cqe lay k (hd (completions (sys_ctx s))) (sys_app s) = Inr app"
  shows "sys_inv lay (s\<lparr>sys_app := discarded app\<rparr>)"
proof -
  let ?c = "hd (completions (sys_ctx s))"
  let ?tag = "CG_GET_TAG (cqe_user_data ?c)" and ?i = "lay_client_at lay (CG_UNTAG_PTR (cqe_user_data ?c))"
  have dropped: ?thesis if i: "sys_inv lay (s\<lparr>sys_app := app\<rparr>)"
    and c: "completions (g_uring_ctx app) = completions (sys_ctx s)" and t: "?tag \<noteq> CG_TAG_CLIENT"
    using discard_inv [OF i] c ne t client_tag_parts(1) [OF lay] by simp metis
  consider (listener) "?tag = CG_TAG_FASTCGI" | (client) "?tag = CG_TAG_CLIENT"
    | (clock) "?tag = CG_TAG_TIMESTAMP" | (none) "?tag \<noteq> CG_TAG_FASTCGI" "?tag \<noteq> CG_TAG_CLIENT" "?tag \<noteq> CG_TAG_TIMESTAMP"
    by blast
  then show ?thesis
  proof cases
    case listener
    then have "cg_main_fastcgi_cqe_handle k ?c (sys_app s) = Inr app" using run by (simp add: dispatch_cqe_def Let_def)
    from accept_done_inv [OF inv this] show ?thesis using dropped listener tags_above by simp
  next
    case client
    then have i: "?i < CG_MAX_CLIENTS" and h: "cg_main_client_cqe_handle lay k ?i ?c (sys_app s) = Inr app"
      using run tags_above sys_invD(2) [OF inv] by (auto simp: dispatch_cqe_def Let_def split: if_splits)
    show ?thesis by (rule client_handle_inv [OF lay inv i ne client_tag_of [OF lay client i] h])
  next
    case clock
    then have t: "cg_main_timestamp_tick lay k (sys_app s) = Inr app"
      using run tags_above by (auto simp: dispatch_cqe_def Let_def split: if_splits)
    show ?thesis
      using dropped [OF tick_inv [OF lay inv room t]] clock tags_above by simp
  next
    case none
    then have "app = sys_app s" using run by (simp add: dispatch_cqe_def Let_def)
    then show ?thesis using dropped none inv by simp
  qed
qed

section \<open>Every reachable state\<close>

theorem sys_inv_step:
  assumes "layout_ok lay" and "sys_inv lay s" and "sys_step lay s s'"
  shows "sys_inv lay s'"
  using assms(3,1,2)
  by (cases rule: sys_step_cases) (auto intro: take_inv complete_inv accept_inv client_step_inv listen_step_inv handle_inv)

lemma sys_inv_reachable:
  assumes "layout_ok lay" and "(sys_step lay)\<^sup>*\<^sup>* s s'" and "sys_inv lay s"
  shows "sys_inv lay s'"
  using assms(2,3) by induction (auto intro: sys_inv_step [OF assms(1)])

end
