(* ===== verification/CG_Turn.thy ===== *)
theory CG_Turn
  imports CG_Loop
begin

text \<open>
  The inner loop, which empties the completion queue, and the listener. What the handlers leave
  alone is what makes the loop end and what decides whether another connection is accepted.
\<close>

section \<open>What the handlers leave alone\<close>

definition cq_same :: "cg_uring_ctx \<Rightarrow> cg_uring_ctx \<Rightarrow> bool" where
  "cq_same ctx ctx' \<longleftrightarrow> cqes ctx' = cqes ctx \<and> cq_head ctx' = cq_head ctx \<and> cq_tail ctx' = cq_tail ctx \<and>
     cq_ring_mask ctx' = cq_ring_mask ctx"

lemma cq_same_refl [simp]: "cq_same ctx ctx"
  by (simp add: cq_same_def)

lemma cq_sameD:
  assumes "cq_same ctx ctx'"
  shows "completions ctx' = completions ctx" "cq_ok ctx' = cq_ok ctx"
  using assms by (simp_all add: cq_same_def completions_def cq_ok_def)

lemma enqueue_cq: "enqueue f app = Inr app' \<Longrightarrow> cq_same (g_uring_ctx app) (g_uring_ctx app')"
  by (auto simp: enqueue_def cg_uring_sqe_get_def cg_uring_sq_enqueue_def fill_sqe_def Let_def cq_same_def
      cbind_eq_Inr emit_def split: if_splits)

lemma tick_cq: "cg_main_timestamp_tick lay k app = Inr app' \<Longrightarrow> cq_same (g_uring_ctx app) (g_uring_ctx app')"
  by (auto simp: cg_main_timestamp_tick_def cbind_eq_Inr dest!: enqueue_cq)

abbreviation ring_kept :: "app \<Rightarrow> app cres \<Rightarrow> bool" where
  "ring_kept app \<equiv> ensures (\<lambda>app'. g_uring_ctx app' = g_uring_ctx app)"

abbreviation listener_kept :: "app \<Rightarrow> app cres \<Rightarrow> bool" where
  "listener_kept app \<equiv> ensures (\<lambda>app'. g_fastcgi_ctx app' = g_fastcgi_ctx app)"

lemma listener_ring: "ring_kept app (cg_main_fastcgi_cqe_handle k c app)"
  unfolding cg_main_fastcgi_cqe_handle_def
  by (cases "fctx_state (g_fastcgi_ctx app)"; simp only: cg_fastcgi_state.case; intro keeps)
    (auto simp: emit_def log_ts_frame Let_def)

lemma read_done_frame:
  "ring_kept app (client_read_done lay k i res app)" "listener_kept app (client_read_done lay k i res app)"
  unfolding client_read_done_def by (intro keeps; simp)+

lemma write_done_frame:
  "g_uring_ctx (client_write_done i res app) = g_uring_ctx app"
  "g_fastcgi_ctx (client_write_done i res app) = g_fastcgi_ctx app"
  by (simp_all add: client_write_done_def set_fcgi_def Let_def)

lemma set_fcgi_frame:
  "g_uring_ctx (set_fcgi i fcgi app) = g_uring_ctx app" "g_fastcgi_ctx (set_fcgi i fcgi app) = g_fastcgi_ctx app"
  "g_uring_ctx (release i fcgi app) = g_uring_ctx app" "g_fastcgi_ctx (release i fcgi app) = g_fastcgi_ctx app"
  by (simp_all add: set_fcgi_def release_def)

lemma client_ring:
  assumes "cg_main_client_cqe_handle lay k i c app = Inr app'"
  shows "g_uring_ctx app' = g_uring_ctx app \<and> g_fastcgi_ctx app' = g_fastcgi_ctx app"
proof (cases "fcli_state (fcgi_cli_ctx (g_cli_ctx_pool app ! i)) = CG_FASTCGI_CLIENT_STATE_READ_CQE \<and> 0 < sint (cqe_res c)")
  case True
  then have "client_read_done lay k i (cqe_res c) app = Inr app'"
    using assms by (simp add: cg_main_client_cqe_handle_def Let_def)
  then show ?thesis using read_done_frame ensuresD by fast
next
  case False
  then show ?thesis
    using assms write_done_frame [of i "cqe_res c" app] set_fcgi_frame [of i _ app]
    unfolding cg_main_client_cqe_handle_def Let_def
    by (cases "fcli_state (fcgi_cli_ctx (g_cli_ctx_pool app ! i))") (auto split: if_splits)
qed

lemma dispatch_cq:
  assumes "dispatch_cqe lay k c app = Inr app'"
  shows "cq_same (g_uring_ctx app) (g_uring_ctx app')"
  using assms client_ring tick_cq ensuresD [OF listener_ring]
  by (fastforce simp: dispatch_cqe_def Let_def split: if_splits)

section \<open>Emptying the completion queue\<close>

text \<open>The completions one after the other, in the order in which the kernel put them there.\<close>

fun handle_all :: "layout \<Rightarrow> (nat \<Rightarrow> kernel) \<Rightarrow> io_uring_cqe list \<Rightarrow> app \<Rightarrow> app cres" where
  "handle_all lay ks [] app = Inr app"
| "handle_all lay ks (c # cs) app =
     cbind (dispatch_cqe lay (ks 0) c app) (\<lambda>app. handle_all lay (\<lambda>n. ks (Suc n)) cs (discarded app))"

lemma drain_handles:
  assumes "cq_ok (g_uring_ctx app)" and "completions (g_uring_ctx app) = cs"
  shows "\<exists>cqe. cg_uring_cq_peek (g_uring_ctx app) = Inr cqe \<and> (cqe = None \<longleftrightarrow> cs = []) \<and>
    drain_loop lay ks cqe app = Some (handle_all lay ks cs app)"
  using assms
proof (induction cs arbitrary: app ks)
  case Nil
  then show ?case by (intro exI [of _ None]) (simp add: cq_peek_ok(1) drain_loop.simps)
next
  case (Cons c cs)
  let ?i = "unat (cq_head (g_uring_ctx app)) mod length (cqes (g_uring_ctx app))"
  have hd: "cqes (g_uring_ctx app) ! ?i = c" using cq_peek_ok(2) [OF Cons.prems(1)] Cons.prems(2) by simp
  have peek: "cg_uring_cq_peek (g_uring_ctx app) = Inr (Some ?i)" using cq_peek_ok(1) [OF Cons.prems(1)] Cons.prems(2) by simp
  have "drain_loop lay ks (Some ?i) app = Some (handle_all lay ks (c # cs) app)"
  proof (cases "dispatch_cqe lay (ks 0) c app")
    case (Inl e)
    then show ?thesis using hd by (simp add: drain_loop.simps)
  next
    case (Inr app1)
    note same = cq_sameD [OF dispatch_cq [OF Inr]]
    have "completions (g_uring_ctx app1) \<noteq> []" using same Cons.prems(2) by simp
    note D = cq_discard_ok [OF this]
    have "cq_ok (g_uring_ctx (discarded app1))" "completions (g_uring_ctx (discarded app1)) = cs"
      using D same Cons.prems by simp_all
    from Cons.IH [OF this, of "\<lambda>n. ks (Suc n)"] obtain cqe where
      "cg_uring_cq_peek (g_uring_ctx (discarded app1)) = Inr cqe"
      "drain_loop lay (\<lambda>n. ks (Suc n)) cqe (discarded app1) = Some (handle_all lay (\<lambda>n. ks (Suc n)) cs (discarded app1))"
      by blast
    then show ?thesis using hd Inr by (subst drain_loop.simps) (simp add: Let_def)
  qed
  then show ?case using peek by blast
qed

lemma handle_all_empties:
  assumes "completions (g_uring_ctx app) = cs" and "handle_all lay ks cs app = Inr app'"
  shows "completions (g_uring_ctx app') = []"
  using assms
proof (induction cs arbitrary: app ks)
  case (Cons c cs)
  then obtain app1 where a: "dispatch_cqe lay (ks 0) c app = Inr app1"
    "handle_all lay (\<lambda>n. ks (Suc n)) cs (discarded app1) = Inr app'" by (auto simp: cbind_eq_Inr)
  note same = cq_sameD(1) [OF dispatch_cq [OF a(1)]]
  then have "completions (g_uring_ctx (discarded app1)) = cs"
    using cq_discard_ok(1) [of "g_uring_ctx app1"] Cons.prems(1) by simp
  then show ?case using Cons.IH a(2) by blast
qed simp

section \<open>The listener\<close>

text \<open>No accept is under way, and the listener believes that one is.\<close>

definition deaf :: "layout \<Rightarrow> system \<Rightarrow> bool" where
  "deaf lay s \<longleftrightarrow> fctx_state (g_fastcgi_ctx (sys_app s)) = CG_FASTCGI_STATE_ACCEPT_CQE \<and>
     (\<forall>e \<in> set (in_flight s @ submissions (sys_ctx s) (sq_head s)). CG_GET_TAG (sqe_user_data e) \<noteq> CG_TAG_FASTCGI) \<and>
     (\<forall>c \<in> set (completions (sys_ctx s)). CG_GET_TAG (cqe_user_data c) \<noteq> CG_TAG_FASTCGI)"

lemma client_state_frame:
  assumes "rings_ok app h" and "found_room h app app'" and "cg_main_client_state_handle lay i app = Inr app'"
  shows "\<exists>es. submissions (g_uring_ctx app') h = submissions (g_uring_ctx app) h @ es \<and>
    (\<forall>e \<in> set es. sqe_user_data e = client_tag lay i) \<and>
    completions (g_uring_ctx app') = completions (g_uring_ctx app) \<and> g_fastcgi_ctx app' = g_fastcgi_ctx app"
proof -
  have sub: ?thesis if r: "enqueue f (set_fcgi i fcgi app) = Inr app'"
    and t: "sqe_user_data (f zero_sqe) = client_tag lay i" for f fcgi
  proof -
    have "rings_ok (set_fcgi i fcgi app) h" "sq_room (set_fcgi i fcgi app) h"
      using assms(1) enqueue_room [OF r assms(2)] by (simp_all add: rings_ok_def set_fcgi_def)
    from enqueue_ok [OF this r] show ?thesis using t by (auto simp: submitted_def set_fcgi_def)
  qed
  have same: ?thesis if "g_uring_ctx app' = g_uring_ctx app \<and> g_fastcgi_ctx app' = g_fastcgi_ctx app"
    using that by (intro exI [of _ "[]"]) simp
  show ?thesis
    using assms(3) unfolding cg_main_client_state_handle_def Let_def
    by (auto split: cg_fastcgi_client_state.splits if_splits simp: release_def client_tag_def intro: same [unfolded client_tag_def] elim!: sub [unfolded client_tag_def])
qed

lemma read_into_frame:
  "g_uring_ctx (read_into lay e bs app) = g_uring_ctx app"
  "g_fastcgi_ctx (read_into lay e bs app) = g_fastcgi_ctx app"
  by (simp_all add: read_into_def set_fcgi_def Let_def)

lemma deaf_take:
  assumes "sys_inv lay s" and "deaf lay s" and ne: "sq_head s \<noteq> sq_tail (sys_ctx s)"
  shows "deaf lay (s\<lparr>sq_head := sq_head s + 1, in_flight := in_flight s @ [hd (submissions (sys_ctx s) (sq_head s))]\<rparr>)"
proof -
  have st: "sq_straight (sys_ctx s) (sq_head s)" using sys_invD(1) [OF assms(1)] by (simp add: rings_ok_def)
  have "submissions (sys_ctx s) (sq_head s) \<noteq> []"
    using ring_head [OF ne, of "sq_array (sys_ctx s)"] by (simp add: submissions_def)
  then have "set (submissions (sys_ctx s) (sq_head s)) = 
      insert (hd (submissions (sys_ctx s) (sq_head s))) (set (submissions (sys_ctx s) (sq_head s + 1)))"
    unfolding kernel_takes [OF st ne] by (metis list.collapse list.simps(15))
  then show ?thesis using assms(2) by (simp add: deaf_def)
qed

lemma deaf_handle:
  assumes lay: "layout_ok lay" and inv: "sys_inv lay s" and deaf: "deaf lay s" and ne: "completions (sys_ctx s) \<noteq> []"
    and room: "found_room (sq_head s) (sys_app s) app"
    and run: "dispatch_cqe lay k (hd (completions (sys_ctx s))) (sys_app s) = Inr app"
  shows "deaf lay (s\<lparr>sys_app := discarded app\<rparr>)"
proof -
  have c: "completions (g_uring_ctx app) = completions (sys_ctx s)" by (rule cq_sameD(1) [OF dispatch_cq [OF run]])
  then have d: "completions (g_uring_ctx (discarded app)) = tl (completions (sys_ctx s))"
    using cq_discard_ok(1) [of "g_uring_ctx app"] ne by simp
  have tag: "CG_GET_TAG (cqe_user_data (hd (completions (sys_ctx s)))) \<noteq> CG_TAG_FASTCGI"
    using deaf ne by (simp add: deaf_def)
  have "\<exists>es. submissions (g_uring_ctx app) (sq_head s) = submissions (sys_ctx s) (sq_head s) @ es \<and>
      (\<forall>e \<in> set es. sqe_user_data e = CG_TAG_TIMESTAMP) \<and> g_fastcgi_ctx app = g_fastcgi_ctx (sys_app s)"
  proof (cases "CG_GET_TAG (cqe_user_data (hd (completions (sys_ctx s)))) = CG_TAG_TIMESTAMP")
    case True
    then have "cg_main_timestamp_tick lay k (sys_app s) = Inr app"
      using run tags_above by (auto simp: dispatch_cqe_def Let_def split: if_splits)
    from tick_submits [OF inv room this] show ?thesis by (auto simp: submitted_def)
  next
    case False
    then have "g_uring_ctx app = sys_ctx s \<and> g_fastcgi_ctx app = g_fastcgi_ctx (sys_app s)"
      using run tag client_ring by (fastforce simp: dispatch_cqe_def Let_def split: if_splits)
    then show ?thesis by (intro exI [of _ "[]"]) simp
  qed
  moreover have "CG_GET_TAG CG_TAG_TIMESTAMP \<noteq> CG_TAG_FASTCGI"
    by (simp add: CG_GET_TAG_def CG_TAG_TIMESTAMP_def CG_PTR_MASK_def CG_TAG_FASTCGI_def)
  ultimately show ?thesis
    using deaf d ne by (auto simp: deaf_def discard_submissions dest: list.set_sel(2))
qed

lemma deaf_step:
  assumes lay: "layout_ok lay" and inv: "sys_inv lay s" and deaf: "deaf lay s" and step: "sys_step lay s s'"
  shows "deaf lay s'"
  using step
proof (cases rule: sys_step_cases)
  case kernel_take
  then show ?thesis using deaf_take [OF inv deaf] by simp
next
  case (kernel_complete es e es' c bs)
  have "rings_ok (read_into lay e bs (sys_app s)) (sq_head s)"
    using sys_invD(1) [OF inv] by (simp add: rings_ok_def read_into_frame)
  note C = completes_ok [OF this, of c]
  show ?thesis
    using kernel_complete C(2,3) deaf
    by (auto simp: deaf_def read_into_frame answer_def completes_def [of _ "read_into _ _ _ _"])
next
  case (kernel_accept e c)
  note C = completes_ok [OF sys_invD(1) [OF inv] kernel_accept(5), of c]
  show ?thesis using kernel_accept C deaf by (auto simp: deaf_def answer_def completes_def)
next
  case (program_client i app)
  from client_state_frame [OF sys_invD(1) [OF inv] program_client(3,4)] client_tag_parts(1) [OF lay program_client(2)]
  show ?thesis using deaf program_client(1) tags_above by (auto simp: deaf_def client_tag_def)
next
  case (program_listen k app)
  then show ?thesis using deaf by (simp add: deaf_def cg_main_fastcgi_state_handle_def)
next
  case (program_handle k app)
  then show ?thesis using deaf_handle [OF lay inv deaf] by simp
qed

lemma deaf_reachable:
  assumes "layout_ok lay" and "(sys_step lay)\<^sup>*\<^sup>* s s'" and "sys_inv lay s" and "deaf lay s"
  shows "deaf lay s'"
  using assms(2-4)
proof (induction rule: converse_rtranclp_induct)
  case (step s s1)
  then show ?case using sys_inv_step [OF assms(1)] deaf_step [OF assms(1)] by blast
qed

text \<open>A connection that comes while all contexts are in use, with the last completion of its accept.\<close>

lemma full_pool_listener:
  assumes inv: "sys_inv lay s" and full: "\<forall>i < CG_MAX_CLIENTS. cli_state (sys_pool s ! i) \<noteq> CG_CLIENT_STATE_FREE"
    and listening: "fctx_state (g_fastcgi_ctx (sys_app s)) = CG_FASTCGI_STATE_ACCEPT_CQE"
    and res: "0 \<le> sint (cqe_res c)" and run: "cg_main_fastcgi_cqe_handle k c (sys_app s) = Inr app"
  shows "g_fastcgi_ctx app = g_fastcgi_ctx (sys_app s)" "g_uring_ctx app = sys_ctx s"
    "\<exists>tr. app_trace app = tr @ [Close_Fd (cqe_res c)]"
proof -
  obtain app1 pool' r where l: "log_ts ''note'' ''232'' ''Accepted incoming connection\<newline>'' k (sys_app s) = Inr app1"
    and al: "cg_client_alloc (g_cli_ctx_pool app1) CG_MAX_CLIENTS = Inr (pool', r)"
    using run res listening by (auto simp: cg_main_fastcgi_cqe_handle_def cbind_eq_Inr)
  note L = log_ts_frame [OF l]
  have "r = None" using first_free_client [OF al] L(2) full sys_invD(2) [OF inv] by (auto split: option.splits)
  then show "g_fastcgi_ctx app = g_fastcgi_ctx (sys_app s)" "g_uring_ctx app = sys_ctx s"
    "\<exists>tr. app_trace app = tr @ [Close_Fd (cqe_res c)]"
    using run res listening l al L by (auto simp: cg_main_fastcgi_cqe_handle_def emit_def)
qed

end
