(* ===== verification/CG_Start.thy ===== *)
theory CG_Start
  imports CG_Turn
begin

text \<open>The start of the program leads to a state from which the loop can run.\<close>

section \<open>The globals before the start\<close>

text \<open>Zeroed contexts with buffers of their size, and rings that the kernel has just set up.\<close>

definition fresh_globals :: "app \<Rightarrow> bool" where
  "fresh_globals app \<longleftrightarrow> length (g_cli_ctx_pool app) = CG_MAX_CLIENTS \<and>
     (\<forall>c \<in> set (g_cli_ctx_pool app). req_shape (cli_req c) \<and>
        length (meta_buf (rx_buf_meta (fcgi_cli_ctx c))) = 65790 \<and>
        length (meta_buf (tx_buf_meta (fcgi_cli_ctx c))) = 65790) \<and>
     sq_ok (g_uring_ctx app) \<and> cq_ok (g_uring_ctx app) \<and> cq_head (g_uring_ctx app) = cq_tail (g_uring_ctx app)"

abbreviation boot :: "app \<Rightarrow> app \<Rightarrow> system" where
  "boot before app \<equiv> \<lparr>sys_app = app, sq_head = sq_tail (g_uring_ctx before), in_flight = []\<rparr>"

text \<open>What the parts of the start leave alone.\<close>

abbreviation globals_kept :: "app \<Rightarrow> app \<Rightarrow> bool" where
  "globals_kept app app' \<equiv> g_uring_ctx app' = g_uring_ctx app \<and> g_cli_ctx_pool app' = g_cli_ctx_pool app"

lemma init_kept: "ensures (globals_kept app) (cg_main_init proc sdb udb app)"
  unfolding cg_main_init_def by (intro keeps) (simp add: emit_def)

lemma log_kept: "log_ts level line msg k app = Inr app' \<Longrightarrow> globals_kept app app'"
  using log_ts_frame by blast

lemma fatal_kept: "ensures (\<lambda>(app', run). globals_kept app app') (fatal line msg k app)"
  unfolding fatal_def by (intro keeps) (simp add: emit_def log_kept)

lemma fatal_from: "globals_kept app app1 \<Longrightarrow> ensures (\<lambda>(app', run). globals_kept app app') (fatal line msg k app1)"
  using fatal_kept [of app1] by simp

lemma setup_kept: "ensures (\<lambda>(app', run). globals_kept app app') (cg_main_fastcgi_setup fd bind_res listen_res k app)"
  unfolding cg_main_fastcgi_setup_def
  by (intro keeps fatal_from; simp add: emit_def log_ts_frame)

section \<open>The first state\<close>

lemma idle_inv:
  assumes "rings_ok app h" and "completions (g_uring_ctx app) = []" and "length (g_cli_ctx_pool app) = CG_MAX_CLIENTS"
    and "\<forall>c \<in> set (g_cli_ctx_pool app). client_ok c \<and> (\<forall>lay i. op_of lay i c = None)"
    and "\<forall>e \<in> set (submissions (g_uring_ctx app) h). \<forall>i < CG_MAX_CLIENTS. sqe_user_data e \<noteq> client_tag lay i"
  shows "sys_inv lay \<lparr>sys_app = app, sq_head = h, in_flight = []\<rparr>"
  using assms by (simp add: sys_inv_def awaited_def pending_def finished_def filter_empty_conv)

lemma init_pool_ok:
  assumes "fresh_globals app" and "cg_client_pool_init (g_cli_ctx_pool app) CG_MAX_CLIENTS = Inr pool"
  shows "length pool = CG_MAX_CLIENTS" "\<forall>c \<in> set pool. client_ok c \<and> (\<forall>lay i. op_of lay i c = None)"
  using assms
  by (auto simp: fresh_globals_def cg_client_pool_init_def client_ok_def op_of_None Let_def
      cg_fastcgi_client_init_def tx_ok_def split: if_splits)

text \<open>After the start the clock's first entry waits in the ring, and nothing else.\<close>

lemma started_rings:
  assumes fresh: "fresh_globals app" and run: "main_start lay k proc sdb udb net app = Inr (app', True)"
  shows "rings_ok app' (sq_tail (g_uring_ctx app))" "completions (g_uring_ctx app') = []"
    "\<exists>e. submissions (g_uring_ctx app') (sq_tail (g_uring_ctx app)) = [e] \<and>
       sqe_user_data e = CG_TAG_TIMESTAMP \<and> sqe_opcode e = IORING_OP_TIMEOUT"
    "length (g_cli_ctx_pool app') = CG_MAX_CLIENTS"
    "\<forall>c \<in> set (g_cli_ctx_pool app'). client_ok c \<and> (\<forall>lay i. op_of lay i c = None)"
proof -
  let ?h = "sq_tail (g_uring_ctx app)"
  obtain fd bind_res listen_res where net: "net = (fd, bind_res, listen_res)" by (cases net)
  obtain app1 app2 fctx pool app3 m where
      1: "cg_main_init proc sdb udb app = Inr app1" and 2: "cg_main_timestamp_tick lay k app1 = Inr app2"
    and p: "cg_client_pool_init (g_cli_ctx_pool app2) CG_MAX_CLIENTS = Inr pool"
    and 3: "cg_main_fastcgi_setup fd bind_res listen_res k (app2\<lparr>g_fastcgi_ctx := fctx, g_cli_ctx_pool := pool\<rparr>) = Inr (app3, True)"
    and 4: "app' = app3\<lparr>g_route_map := m\<rparr>"
    using run by (auto simp: main_start_def net cbind_eq_Inr Let_def split: if_splits)
  have k1: "globals_kept app app1" by (rule ensuresD [OF init_kept 1])
  have k3: "g_uring_ctx app' = g_uring_ctx app2" "g_cli_ctx_pool app' = pool"
    using ensuresD [OF setup_kept 3] 4 by simp_all
  have size: "ring_size (sqes (g_uring_ctx app)) (sq_ring_mask (g_uring_ctx app))"
    using fresh by (simp add: fresh_globals_def sq_ok_def)
  have r: "rings_ok app1 ?h" "sq_room app1 ?h"
    using fresh k1 size by (auto simp: fresh_globals_def rings_ok_def sq_straight_def ring_Nil ring_size_def)
  let ?f = "\<lambda>sqe. sqe\<lparr>sqe_opcode := IORING_OP_TIMEOUT, sqe_fd := - 1, sqe_addr := lay_timespec lay,
    sqe_len := 0, sqe_off := 0, sqe_user_data := CG_TAG_TIMESTAMP\<rparr>"
  obtain ts where "enqueue ?f (app1\<lparr>g_ts_buf := ts\<rparr>) = Inr app2"
    using 2 by (auto simp: cg_main_timestamp_tick_def cbind_eq_Inr)
  from enqueue_ok(1) [OF _ _ this, of ?h] have sub: "submitted ?h [?f zero_sqe] (app1\<lparr>g_ts_buf := ts\<rparr>) app2"
    using r by (simp add: rings_ok_def)
  have none: "submissions (g_uring_ctx app) ?h = []" by (simp add: submissions_def ring_Nil)
  have "g_cli_ctx_pool app2 = g_cli_ctx_pool app" using sub k1 by (simp add: submitted_def)
  with p have pool: "length pool = CG_MAX_CLIENTS" "\<forall>c \<in> set pool. client_ok c \<and> (\<forall>lay i. op_of lay i c = None)"
    using init_pool_ok [OF fresh] by simp_all
  have "completions (g_uring_ctx app) = []" using fresh by (simp add: fresh_globals_def completions_def ring_Nil)
  then show "rings_ok app' ?h" "completions (g_uring_ctx app') = []"
    "\<exists>e. submissions (g_uring_ctx app') ?h = [e] \<and> sqe_user_data e = CG_TAG_TIMESTAMP \<and> sqe_opcode e = IORING_OP_TIMEOUT"
    "length (g_cli_ctx_pool app') = CG_MAX_CLIENTS"
    "\<forall>c \<in> set (g_cli_ctx_pool app'). client_ok c \<and> (\<forall>lay i. op_of lay i c = None)"
    using sub k1 k3 pool none by (simp_all add: submitted_def rings_ok_def)
qed

theorem started_inv:
  assumes lay: "layout_ok lay" and fresh: "fresh_globals app"
    and run: "main_start lay k proc sdb udb net app = Inr (app', True)"
  shows "sys_inv lay (boot app app')"
  using started_rings [OF fresh run] other_tags(2) [OF lay] by (intro idle_inv) auto

section \<open>The start goes through\<close>

lemma datetime_returns:
  assumes "length ts = 20"
  shows "\<exists>ts'. cg_datetime_str_get now ts = Inr ts' \<and> length ts' = 20"
proof -
  obtain y m d where c: "civil_nat (unat (ucast now :: u32) div 86400) = (y, m, d)" by (metis prod_cases3)
  have "19 \<le> length ts" using assms by simp
  from datetime_str_correct [OF this c] show ?thesis
    using assms by (simp add: datetime_text_def digits4_def digits2_def)
qed

text \<open>The calls in the trace other than output and wake-ups.\<close>

definition net_calls :: "effect list \<Rightarrow> effect list" where
  "net_calls tr = filter (\<lambda>e. case e of Stderr _ \<Rightarrow> False | Stdout _ \<Rightarrow> False | Sq_Wakeup \<Rightarrow> False | _ \<Rightarrow> True) tr"

lemma net_calls_simps [simp]:
  "net_calls [] = []" "net_calls (tr @ tr') = net_calls tr @ net_calls tr'"
  "net_calls [Stderr bs] = []" "net_calls [Stdout bs] = []" "net_calls [Sq_Wakeup] = []"
  "net_calls [Unlink bs] = [Unlink bs]" "net_calls [Socket a b c] = [Socket a b c]"
  "net_calls [Stdout bs, Sq_Wakeup] = []" "net_calls [Bind fd addr n] = [Bind fd addr n]" "net_calls [Listen fd m] = [Listen fd m]"
  by (simp_all add: net_calls_def)

lemma log_returns_calls:
  assumes "length (g_ts_buf app) = 20"
  shows "\<exists>ts tr. log_ts level line msg k app = Inr (app\<lparr>g_ts_buf := ts, app_trace := tr\<rparr>) \<and> length ts = 20 \<and>
    net_calls tr = net_calls (app_trace app)"
proof -
  obtain ts where "cg_datetime_str_get (k_now k) (g_ts_buf app) = Inr ts" "length ts = 20"
    using datetime_returns [OF assms] by blast
  then show ?thesis by (intro exI [of _ ts] exI) (auto simp: log_ts_def log_write_ts_text emit_def)
qed

lemma log_returns:
  assumes "length (g_ts_buf app) = 20"
  shows "\<exists>ts tr. log_ts level line msg k app = Inr (app\<lparr>g_ts_buf := ts, app_trace := tr\<rparr>) \<and> length ts = 20"
  using log_returns_calls [OF assms] by blast

lemma setup_returns:
  assumes "length (g_ts_buf app) = 20" and "0 \<le> sint fd" and "0 \<le> sint bind_res" and "0 \<le> sint listen_res"
  shows "\<exists>ts tr. cg_main_fastcgi_setup fd bind_res listen_res k app =
    Inr (app\<lparr>g_ts_buf := ts, app_trace := tr,
      g_fastcgi_ctx := (g_fastcgi_ctx app)\<lparr>fctx_sockfd := ucast fd, fctx_state := CG_FASTCGI_STATE_ACCEPT_SQE\<rparr>\<rparr>, True) \<and>
    net_calls tr = net_calls (app_trace app) @ [Unlink (cstr (fastcgi_sock (g_env app))), Socket AF_UNIX SOCK_STREAM 0,
      Bind fd (sun_family (g_fastcgi_ctx app), sun_path (g_fastcgi_ctx app)) (2 + fastcgi_sock_len (g_env app) + 1), Listen fd 128]"
proof -
  let ?f = "(g_fastcgi_ctx app)\<lparr>fctx_sockfd := ucast fd\<rparr>"
  define app0 where "app0 = emit (Unlink (cstr (fastcgi_sock (g_env app)))) app"
  have len_app0: "length (g_ts_buf app0) = 20" using assms(1) by (simp add: app0_def emit_def)
  obtain t1 r1 where 1: "log_ts ''note'' ''140'' ''Unlinked existing socket\<newline>'' k app0 = Inr (app0\<lparr>g_ts_buf := t1, app_trace := r1\<rparr>)"
      "length t1 = 20" "net_calls r1 = net_calls (app_trace app0)"
    using log_returns_calls [OF len_app0] by blast
  define app1 where "app1 = app0\<lparr>g_ts_buf := t1, app_trace := r1 @ [Socket AF_UNIX SOCK_STREAM 0], g_fastcgi_ctx := ?f\<rparr>"
  have len_app1: "length (g_ts_buf app1) = 20" using 1(2) by (simp add: app1_def)
  obtain t2 r2 where 2: "log_ts ''note'' ''149'' ''Created new socket\<newline>'' k app1 = Inr (app1\<lparr>g_ts_buf := t2, app_trace := r2\<rparr>)"
      "length t2 = 20" "net_calls r2 = net_calls (app_trace app1)"
    using log_returns_calls [OF len_app1] by blast
  define app2 where "app2 = app1\<lparr>g_ts_buf := t2, app_trace := r2 @ [Bind fd (sun_family (g_fastcgi_ctx app),
    sun_path (g_fastcgi_ctx app)) (2 + fastcgi_sock_len (g_env app) + 1)]\<rparr>"
  have len_app2: "length (g_ts_buf app2) = 20" using 2(2) by (simp add: app2_def)
  obtain t3 r3 where 3: "log_ts ''note'' ''159'' ''Bound to socket\<newline>'' k app2 = Inr (app2\<lparr>g_ts_buf := t3, app_trace := r3\<rparr>)"
      "length t3 = 20" "net_calls r3 = net_calls (app_trace app2)"
    using log_returns_calls [OF len_app2] by blast
  define app3 where "app3 = app2\<lparr>g_ts_buf := t3, app_trace := r3 @ [Listen fd 128],
    g_fastcgi_ctx := ?f\<lparr>fctx_state := CG_FASTCGI_STATE_ACCEPT_SQE\<rparr>\<rparr>"
  have len_app3: "length (g_ts_buf app3) = 20" using 3(2) by (simp add: app3_def)
  obtain t4 r4 where 4: "log_ts ''note'' ''168'' ''Listening on the socket\<newline>'' k app3 = Inr (app3\<lparr>g_ts_buf := t4, app_trace := r4\<rparr>)"
      "net_calls r4 = net_calls (app_trace app3)"
    using log_returns_calls [OF len_app3] by blast
  have "cg_main_fastcgi_setup fd bind_res listen_res k app = Inr (app3\<lparr>g_ts_buf := t4, app_trace := r4\<rparr>, True)"
    using 1(1) 2(1) 3(1) 4(1) assms(2-4)
    by (simp add: cg_main_fastcgi_setup_def app0_def app1_def app2_def app3_def emit_def)
  moreover have "net_calls r4 = net_calls (app_trace app) @ [Unlink (cstr (fastcgi_sock (g_env app))), Socket AF_UNIX SOCK_STREAM 0,
      Bind fd (sun_family (g_fastcgi_ctx app), sun_path (g_fastcgi_ctx app)) (2 + fastcgi_sock_len (g_env app) + 1), Listen fd 128]"
    using 1(3) 2(3) 3(3) 4(2) by (simp add: app0_def app1_def app2_def app3_def emit_def)
  ultimately show ?thesis
    by (intro exI [of _ t4] exI [of _ r4]) (simp add: app0_def app1_def app2_def app3_def emit_def)
qed

text \<open>The path goes into the address with its terminator, which the length of the address covers.\<close>

lemma socket_path_stored:
  assumes "has_nul sock" and "length (cstr sock) \<le> 107"
  shows "\<exists>sp. cg_fastcgi_init sock (length (cstr sock)) ctx = Inr (ctx\<lparr>sun_family := 1, sun_path := sp\<rparr>) \<and>
    length sp = 108 \<and> take (length (cstr sock) + 1) sp = cstr sock @ [0]"
proof -
  obtain k where k: "108 - length (cstr sock) = Suc k" using assms(2) by (cases "108 - length (cstr sock)") simp_all
  have "take (length (cstr sock)) sock = cstr sock" using assms(1) by (simp add: take_cstr)
  moreover have "length (cstr sock) \<le> length sock" using length_cstr_less [OF assms(1)] by simp
  ultimately show ?thesis
    using assms k by (intro exI [of _ "cstr sock @ 0 # replicate k 0"])
      (simp add: cg_fastcgi_init_def buf_slice_ok buf_write_ok buf_splice_def)
qed

text \<open>Nothing of the start depends on the client contexts, and nothing of it can fail here.\<close>

lemma start_returns:
  assumes lay: "layout_ok lay" and fresh: "fresh_globals app" and ts: "length (g_ts_buf app) = 20"
    and map: "g_route_map_entries app = replicate 32 \<lparr>ent_key = 0, ent_val = r, ent_occupied = 0\<rparr>"
    and env: "\<forall>e \<in> set strs. has_nul e" "length (socket_path strs) \<le> 107"
    and clock: "cg_time_init vdso (Some (strs, av)) = Inr gettime"
    and net: "0 \<le> sint fd" "0 \<le> sint bind_res" "0 \<le> sint listen_res"
  shows "\<exists>app' sp. main_start lay k ((strs, av), vdso) (Inr sdb) (Inr udb) (fd, bind_res, listen_res) app = Inr (app', True) \<and>
    routes_ready (g_route_map app') \<and> fctx_state (g_fastcgi_ctx app') = CG_FASTCGI_STATE_ACCEPT_SQE \<and>
    fctx_sockfd (g_fastcgi_ctx app') = ucast fd \<and> g_vdso_gettime app' = gettime \<and>
    take (length (socket_path strs) + 1) sp = socket_path strs @ [0] \<and>
    net_calls (app_trace app') = net_calls (app_trace app) @ [Unlink (socket_path strs), Socket AF_UNIX SOCK_STREAM 0,
      Bind fd (1, sp) (length (socket_path strs) + 3), Listen fd 128] \<and>
    g_sessiondb app' = sdb \<and> g_userdb app' = udb"
proof -
  obtain e b where e: "cg_env_init (Some (strs, av)) (Some (g_env app)) (g_base app) = Inr (Some e, b)"
      "has_nul (fastcgi_sock e)" "cstr (fastcgi_sock e) = socket_path strs" "fastcgi_sock_len e = length (socket_path strs)"
    using env_init_path [OF env(1), of av "g_env app" "g_base app"] by blast
  obtain out where out: "cg_env_write_stdout e = Inr out"
    using e(2) length_cstr_less [OF e(2)] by (simp add: cg_env_write_stdout_def buf_slice_ok)
  define app1 where "app1 = app\<lparr>g_vdso_gettime := gettime, g_env := e, g_base := b, app_trace := app_trace app @ [Stdout out],
    g_ts_buf := buf_splice (g_ts_buf app) 0 (str ''0000-00-00 00:00:00''), g_ts_tick := (1, 0),
    g_route_map := empty_route_map r, g_sessiondb := sdb, g_userdb := udb\<rparr>"
  have z: "length (str ''0000-00-00 00:00:00'') = 19" by simp
  have 1: "cg_main_init ((strs, av), vdso) (Inr sdb) (Inr udb) app = Inr app1"
    using clock e(1) out ts z by (simp add: cg_main_init_def app1_def emit_def buf_write_ok map empty_route_map_def Let_def)
  obtain t2 where t2: "cg_datetime_str_get (k_now k) (g_ts_buf app1) = Inr t2" "length t2 = 20"
    using datetime_returns [of "g_ts_buf app1"] ts z by (auto simp: app1_def)
  have size: "ring_size (sqes (g_uring_ctx app)) (sq_ring_mask (g_uring_ctx app))"
    using fresh by (simp add: fresh_globals_def sq_ok_def)
  have st: "sq_ok (g_uring_ctx app)" "sq_straight (g_uring_ctx app) (sq_tail (g_uring_ctx app))"
      "unat (sq_tail (g_uring_ctx app) - sq_tail (g_uring_ctx app)) < length (sqes (g_uring_ctx app))"
    using fresh size by (auto simp: fresh_globals_def sq_straight_def ring_Nil ring_size_def)
  let ?f = "\<lambda>sqe. sqe\<lparr>sqe_opcode := IORING_OP_TIMEOUT, sqe_fd := - 1, sqe_addr := lay_timespec lay,
    sqe_len := 0, sqe_off := 0, sqe_user_data := CG_TAG_TIMESTAMP\<rparr>"
  obtain ctx w where sub: "submit (g_uring_ctx app) ?f = Inr (ctx, w)" using submit_ok [OF st, of ?f] by blast
  define app2 where "app2 = (if w then emit Sq_Wakeup (app1\<lparr>g_ts_buf := t2, g_uring_ctx := ctx\<rparr>) else app1\<lparr>g_ts_buf := t2, g_uring_ctx := ctx\<rparr>)"
  have 2: "cg_main_timestamp_tick lay k app1 = Inr app2"
    using t2(1) sub by (simp add: cg_main_timestamp_tick_def enqueue_submit app2_def app1_def)
  have a2: "g_env app2 = e" "g_cli_ctx_pool app2 = g_cli_ctx_pool app" "g_ts_buf app2 = t2"
      "g_sessiondb app2 = sdb" "g_userdb app2 = udb" "g_route_map app2 = empty_route_map r" "g_vdso_gettime app2 = gettime"
      "net_calls (app_trace app2) = net_calls (app_trace app)"
    by (simp_all add: app2_def app1_def emit_def)
  obtain sp where sp: "cg_fastcgi_init (fastcgi_sock e) (fastcgi_sock_len e) (g_fastcgi_ctx app2) =
      Inr ((g_fastcgi_ctx app2)\<lparr>sun_family := 1, sun_path := sp\<rparr>)"
      "take (length (socket_path strs) + 1) sp = socket_path strs @ [0]"
    using socket_path_stored [OF e(2), of "g_fastcgi_ctx app2"] e(3,4) env(2) by auto
  obtain pool where p: "cg_client_pool_init (g_cli_ctx_pool app) CG_MAX_CLIENTS = Inr pool"
    using fresh by (simp add: fresh_globals_def cg_client_pool_init_def)
  define app3 where "app3 = app2\<lparr>g_fastcgi_ctx := (g_fastcgi_ctx app2)\<lparr>sun_family := 1, sun_path := sp\<rparr>, g_cli_ctx_pool := pool\<rparr>"
  have len3: "length (g_ts_buf app3) = 20" using t2(2) a2 by (simp add: app3_def)
  obtain t4 tr where 4: "cg_main_fastcgi_setup fd bind_res listen_res k app3 =
      Inr (app3\<lparr>g_ts_buf := t4, app_trace := tr, g_fastcgi_ctx := (g_fastcgi_ctx app3)\<lparr>fctx_sockfd := ucast fd,
        fctx_state := CG_FASTCGI_STATE_ACCEPT_SQE\<rparr>\<rparr>, True)"
      and tr: "net_calls tr = net_calls (app_trace app3) @ [Unlink (cstr (fastcgi_sock (g_env app3))), Socket AF_UNIX SOCK_STREAM 0,
        Bind fd (sun_family (g_fastcgi_ctx app3), sun_path (g_fastcgi_ctx app3)) (2 + fastcgi_sock_len (g_env app3) + 1), Listen fd 128]"
    using setup_returns [OF len3 net] by blast
  have calls: "net_calls tr = net_calls (app_trace app) @ [Unlink (socket_path strs), Socket AF_UNIX SOCK_STREAM 0,
      Bind fd (1, sp) (length (socket_path strs) + 3), Listen fd 128]"
    using tr a2 e(3,4) by (simp add: app3_def numeral_3_eq_3)
  obtain m where m: "cg_route_map_init (empty_route_map r) = Inr m" "routes_ready m" using route_map_ready by blast
  have r: "g_route_map (app3\<lparr>g_ts_buf := t4, app_trace := tr, g_fastcgi_ctx := fctx\<rparr>) = empty_route_map r" for fctx
    using a2 by (simp add: app3_def)
  let ?up = "app3\<lparr>g_ts_buf := t4, app_trace := tr, g_fastcgi_ctx := (g_fastcgi_ctx app3)\<lparr>fctx_sockfd := ucast fd,
    fctx_state := CG_FASTCGI_STATE_ACCEPT_SQE\<rparr>, g_route_map := m\<rparr>"
  have "main_start lay k ((strs, av), vdso) (Inr sdb) (Inr udb) (fd, bind_res, listen_res) app = Inr (?up, True)"
    using 1 2 sp(1) p 4 m(1) a2 r by (simp add: main_start_def app3_def [symmetric] Let_def)
  then show ?thesis
    using m(2) a2 calls sp(2) by (intro exI [of _ ?up] exI [of _ sp]) (simp add: app3_def)
qed

lemma full_pool_returns:
  assumes "length (g_ts_buf app) = 20" and "length (g_cli_ctx_pool app) = CG_MAX_CLIENTS"
    and "fctx_state (g_fastcgi_ctx app) = CG_FASTCGI_STATE_ACCEPT_CQE" and "0 \<le> sint (cqe_res c)"
    and "\<forall>i < CG_MAX_CLIENTS. cli_state (g_cli_ctx_pool app ! i) \<noteq> CG_CLIENT_STATE_FREE"
  shows "\<exists>app'. cg_main_fastcgi_cqe_handle k c app = Inr app'"
proof -
  obtain ts tr where l: "log_ts ''note'' ''232'' ''Accepted incoming connection\<newline>'' k app = Inr (app\<lparr>g_ts_buf := ts, app_trace := tr\<rparr>)"
    using log_returns [OF assms(1)] by blast
  have "cg_client_alloc (g_cli_ctx_pool app) CG_MAX_CLIENTS = Inr (g_cli_ctx_pool app, None)"
    using assms(2,5) by (auto simp: cg_client_alloc_def first_index_None first_index_Some split: option.splits)
  then show ?thesis using l assms(3,4) by (simp add: cg_main_fastcgi_cqe_handle_def)
qed

lemma lost_listener:
  assumes lay: "layout_ok lay" and inv: "sys_inv lay s" and ts: "length (g_ts_buf (sys_app s)) = 20"
    and full: "\<forall>i < CG_MAX_CLIENTS. cli_state (sys_pool s ! i) \<noteq> CG_CLIENT_STATE_FREE"
    and listening: "fctx_state (g_fastcgi_ctx (sys_app s)) = CG_FASTCGI_STATE_ACCEPT_CQE"
    and cs: "completions (sys_ctx s) = c # cs" "CG_GET_TAG (cqe_user_data c) = CG_TAG_FASTCGI" "0 \<le> sint (cqe_res c)"
    and last: "\<forall>e \<in> set (in_flight s @ submissions (sys_ctx s) (sq_head s)). CG_GET_TAG (sqe_user_data e) \<noteq> CG_TAG_FASTCGI"
      "\<forall>c \<in> set cs. CG_GET_TAG (cqe_user_data c) \<noteq> CG_TAG_FASTCGI"
  shows "\<exists>app. dispatch_cqe lay k c (sys_app s) = Inr app \<and> (\<exists>tr. app_trace app = tr @ [Close_Fd (cqe_res c)]) \<and>
    (\<forall>s'. (sys_step lay)\<^sup>*\<^sup>* (s\<lparr>sys_app := discarded app\<rparr>) s' \<longrightarrow> deaf lay s')"
proof -
  obtain app where run: "cg_main_fastcgi_cqe_handle k c (sys_app s) = Inr app"
    using full_pool_returns [OF ts sys_invD(2) [OF inv] listening cs(3) full] by blast
  note f = full_pool_listener [OF inv full listening cs(3) run]
  let ?s = "s\<lparr>sys_app := discarded app\<rparr>" and ?s1 = "s\<lparr>sys_app := app\<rparr>"
  have d: "dispatch_cqe lay k c (sys_app s) = Inr app" using run cs(2) by (simp add: dispatch_cqe_def Let_def)
  have ne: "completions (sys_ctx ?s1) \<noteq> []" using cs(1) f(2) by simp
  have "sys_inv lay (?s1\<lparr>sys_app := discarded (sys_app ?s1)\<rparr>)"
    using accept_done_inv(1) [OF inv run] cs f(2) client_tag_parts(1) [OF lay] tags_above
    by (intro discard_inv [OF _ ne]) auto
  then have inv': "sys_inv lay ?s" by simp
  have "completions (g_uring_ctx (discarded app)) = cs"
    using cq_discard_ok(1) [of "g_uring_ctx app"] f(2) cs(1) by simp
  then have deaf: "deaf lay ?s"
    using listening f(1,2) last by (simp add: deaf_def discard_submissions)
  show ?thesis using d f(3) deaf_reachable [OF lay _ inv' deaf] by blast
qed

end
