(* ===== verification/CG_Slide.thy ===== *)
theory CG_Slide
  imports CG_App
begin

text \<open>
  Moving the rest of a receive buffer to its start, as the event loop does it after every read.
  The vector copy goes through the buffer in blocks of 32 bytes, and reads the last block again
  from the end of the source; what it reads there must not have been written before.
\<close>

section \<open>The vector copy on overlapping regions\<close>

text \<open>Any move down is right as far as it goes in whole blocks.\<close>

lemma vector_loop_blocks:
  assumes "d \<le> s" and "k + 32 * q + r = n" and "r < 32" and "0 < k + q"
  shows "memcpy_vector_loop (mem_move m d s k) (d + k) (s + k) (n - k) =
    (if r = 0 then mem_move m d s n
     else vec32_copy (mem_move m d s (n - r)) (d + n - 32) (s + n - 32))"
  using assms(2,4)
proof (induction q arbitrary: k)
  case 0
  then show ?case using assms(3) by (subst memcpy_vector_loop.simps) (auto simp: algebra_simps)
next
  case (Suc q)
  have "vec32_copy (mem_move m d s k) (d + k) (s + k) = mem_move m d s (k + 32)"
    using assms(1) Suc.prems by (intro vec32_copy_extends [where n = n]) auto
  moreover have "\<not> n - k < 32" "n - k - 32 = n - (k + 32)" using Suc.prems by auto
  ultimately show ?case
    using Suc.IH [of "k + 32"] Suc.prems by (subst memcpy_vector_loop.simps) (simp add: add.assoc)
qed

text \<open>The bytes of the tail: what is left after the bytes before the first aligned block and all blocks.\<close>

definition copy_tail :: "nat \<Rightarrow> nat \<Rightarrow> nat" where
  "copy_tail d n = (n - (32 - d mod 32) mod 32) mod 32"

lemma memcpy_down:
  assumes "d \<le> s" and "32 \<le> n"
  shows "cg_memcpy_avx2 m d s n =
    (if copy_tail d n = 0 then mem_move m d s n
     else vec32_copy (mem_move m d s (n - copy_tail d n)) (d + n - 32) (s + n - 32))"
proof (cases "d mod 32 = 0")
  case True
  then show ?thesis
    using vector_loop_blocks [OF assms(1), of 0 "n div 32" "n mod 32" n m] assms(2)
    by (simp add: cg_memcpy_avx2_def copy_tail_def)
next
  case False
  define h where "h = 32 - d mod 32"
  have h: "h < 32" "0 < h" "copy_tail d n = (n - h) mod 32" using False by (simp_all add: h_def copy_tail_def)
  have "cg_memcpy m d s h = mem_move m d s h" using assms(1) by (simp add: cg_memcpy_move)
  moreover have "h + 32 * ((n - h) div 32) + (n - h) mod 32 = n" using h assms(2) by simp
  ultimately show ?thesis
    using vector_loop_blocks [OF assms(1), of h "(n - h) div 32" "(n - h) mod 32" n m] h assms(2) False
    by (simp add: cg_memcpy_avx2_def h_def)
qed

section \<open>The buffer\<close>

lemma buf_mem_nth: "j < length buf \<Longrightarrow> buf_mem base buf (base + j) = buf ! j"
  by (simp add: buf_mem_def)

lemma slid_buffer:
  assumes "pos + n \<le> length buf" and "m = buf_mem base buf"
  shows "map (\<lambda>j. mem_move m base (base + pos) n (base + j)) [0..<length buf] = take n (drop pos buf) @ drop n buf"
  using assms by (intro nth_equalityI) (auto simp: mem_move_def buf_mem_def nth_append)

lemma slide_ok:
  assumes "pos + n \<le> length buf" and "n < 32 \<or> copy_tail base n = 0 \<or> 32 \<le> pos + copy_tail base n"
  shows "slide_buf base buf pos n = Inr (take n (drop pos buf) @ drop n buf)"
proof -
  let ?m = "buf_mem base buf" and ?r = "copy_tail base n"
  have "cg_memcpy_avx2 ?m base (base + pos) n = mem_move ?m base (base + pos) n"
  proof (cases "n < 32 \<or> ?r = 0")
    case True
    then show ?thesis using memcpy_down [of base "base + pos" n ?m] cg_memcpy_avx2_move [of "base + pos" n base ?m]
      by (cases "n < 32") auto
  next
    case False
    then have "32 \<le> pos + ?r" "32 \<le> n" "?r < 32" using assms(2) by (auto simp: copy_tail_def)
    then have "vec32_copy (mem_move ?m base (base + pos) (n - ?r)) (base + n - 32) (base + pos + n - 32) =
        mem_move ?m base (base + pos) n"
      by (intro ext) (auto simp: vec32_copy_def mem_move_def)
    then show ?thesis using memcpy_down [of base "base + pos" n ?m] False by simp
  qed
  then show ?thesis using assms(1) slid_buffer [OF assms(1) refl] by (simp add: slide_buf_def)
qed

text \<open>A short move of a long rest: a byte of the last block is taken from too far behind.\<close>

lemma slide_wrong:
  assumes "pos + n \<le> length buf" and "32 \<le> n" and "0 < copy_tail base n" and "pos + copy_tail base n < 32"
  shows "\<exists>buf'. slide_buf base buf pos n = Inr buf' \<and> buf' ! (n - 32) = buf ! (n - 32 + 2 * pos)"
proof -
  let ?m = "buf_mem base buf" and ?r = "copy_tail base n"
  have "vec32_copy (mem_move ?m base (base + pos) (n - ?r)) (base + n - 32) (base + pos + n - 32) (base + (n - 32)) =
      ?m (base + (n - 32 + 2 * pos))"
    using assms by (auto simp: vec32_copy_def mem_move_def algebra_simps intro!: arg_cong [of _ _ ?m])
  also have "\<dots> = buf ! (n - 32 + 2 * pos)" using assms by (intro buf_mem_nth) simp
  finally show ?thesis
    using assms memcpy_down [of base "base + pos" n ?m] by (auto simp: slide_buf_def)
qed

end
