(* ===== verification/CG_Spec_Loop.thy ===== *)
theory CG_Spec_Loop
  imports CG_Start CG_Slide CG_Examples
begin

text \<open>
  The properties of the event loop: the start, the clients and the operations they wait for, the
  completion queue, the receive buffers and the listener.
\<close>

section \<open>A small installation\<close>

definition sample_layout :: layout where
  "sample_layout = \<lparr>lay_fastcgi = 0x403000, lay_timespec = 0x402000, lay_client = (\<lambda>i. 0x404000 + word_of_nat i),
     lay_client_at = (\<lambda>p. unat (p - 0x404000)), lay_rx_buf = (\<lambda>i. 0x500000 + 0x20000 * word_of_nat i),
     lay_tx_buf = (\<lambda>i. 0x510100 + 0x20000 * word_of_nat i)\<rparr>"

definition sample_ring :: cg_uring_ctx where
  "sample_ring = \<lparr>ring_fd = 4, sq_entries = 64, sq_tail = 0, sq_ring_mask = 63, sq_flags = 0,
     sq_array = replicate 64 0, cq_head = 0, cq_tail = 0, cq_ring_mask = 127,
     cqes = replicate 128 \<lparr>cqe_user_data = 0, cqe_res = 0, cqe_flags = 0\<rparr>,
     sqes = replicate 64 zero_sqe, sqe_tail = 0\<rparr>"

definition sample_listener :: cg_fastcgi_ctx where
  "sample_listener = \<lparr>fctx_state = CG_FASTCGI_STATE_ACCEPT_CQE, sun_family = 1,
     sun_path = replicate 108 0, fctx_sockfd = 3\<rparr>"

definition sample_app :: "cg_uring_ctx \<Rightarrow> cg_client_ctx list \<Rightarrow> app" where
  "sample_app ctx pool = \<lparr>g_env = cg_env_default, g_base = 0, g_vdso_gettime = 0, g_ts_buf = replicate 20 0, g_uring_ctx = ctx,
     g_fastcgi_ctx = sample_listener, g_cli_ctx_pool = pool, g_ts_tick = (1, 0),
     g_route_map_entries = replicate 32 \<lparr>ent_key = 0, ent_val = Route_AuthGuest, ent_occupied = 0\<rparr>,
     g_route_map = empty_route_map Route_AuthGuest, g_sessiondb = None, g_userdb = None, app_trace = []\<rparr>"

definition connected :: "cg_fastcgi_client_state \<Rightarrow> cg_client_ctx" where
  "connected st = new_client\<lparr>cli_state := CG_CLIENT_STATE_IN_USE,
     fcgi_cli_ctx := (fcgi_cli_ctx new_client)\<lparr>fcli_state := st, fcli_sockfd := 7\<rparr>\<rparr>"

lemma low_address: "unat (p :: u64) < 2 ^ 48 \<Longrightarrow> p AND CG_PTR_MASK = p"
proof -
  assume "unat p < 2 ^ 48"
  then have "take_bit 48 p = p" by (metis take_bit_nat_eq_self unsigned_take_bit_eq word_unat_eq_iff)
  moreover have "CG_PTR_MASK = mask 48" by (simp add: CG_PTR_MASK_def mask_eq_exp_minus_1)
  ultimately show "p AND CG_PTR_MASK = p" by (metis take_bit_eq_mask)
qed

lemma sample_layout_ok: "layout_ok sample_layout"
proof -
  have u: "unat (0x404000 + word_of_nat i :: u64) = 0x404000 + i" if "i < 1024" for i
    using that by (subst unat_add_small) (simp_all add: unat_of_nat)
  have "(0x404000 + word_of_nat i :: u64) AND CG_PTR_MASK = 0x404000 + word_of_nat i" if "i < 1024" for i
    using u [OF that] that by (intro low_address) simp
  moreover have "(0x403000 :: u64) AND CG_PTR_MASK = 0x403000" by (rule low_address) simp
  ultimately show ?thesis
    by (simp add: layout_ok_def sample_layout_def CG_MAX_CLIENTS_def unat_of_nat)
qed

lemma sample_rings:
  "rings_ok (sample_app sample_ring pool) 0" "completions sample_ring = []" "submissions sample_ring 0 = []"
  "sq_ok sample_ring" "cq_ok sample_ring"
proof -
  have "ring_size (replicate 64 zero_sqe) 63"
    unfolding ring_size_def by (intro exI [of _ 6]) (simp add: mask_eq_exp_minus_1)
  moreover have "ring_size (replicate 128 \<lparr>cqe_user_data = 0, cqe_res = 0, cqe_flags = 0\<rparr>) 127"
    unfolding ring_size_def by (intro exI [of _ 7]) (simp add: mask_eq_exp_minus_1)
  ultimately show "sq_ok sample_ring" "cq_ok sample_ring" "rings_ok (sample_app sample_ring pool) 0"
    by (simp_all add: rings_ok_def sample_app_def sample_ring_def sq_ok_def cq_ok_def sq_straight_def ring_Nil)
  show "completions sample_ring = []" "submissions sample_ring 0 = []"
    by (simp_all add: completions_def submissions_def sample_ring_def ring_Nil)
qed

lemma new_client_ok: "client_ok new_client"
  "st \<noteq> CG_FASTCGI_CLIENT_STATE_FREE \<Longrightarrow> client_ok (connected st)"
  using new_request_shape
  by (simp_all add: client_ok_def connected_def new_client_def new_buffer_def tx_ok_def Let_def)

lemma sample_fresh: "fresh_globals (sample_app sample_ring (replicate 1024 new_client))"
  using sample_rings(4,5) new_request_shape
  by (simp add: fresh_globals_def sample_app_def CG_MAX_CLIENTS_def new_client_def new_buffer_def) (simp add: sample_ring_def)

section \<open>The start\<close>

text \<open>
  C19: From zeroed globals, an environment with a socket path that fits, an image of the vDSO that
  can be searched, and a kernel that grants the socket, the program comes up. What it asks of the
  kernel besides output and the clock's timer is, in this order: to remove the path that the
  environment names, a stream socket of the Unix domain, that this socket be bound to an address
  of this family which holds exactly the path and its terminator, and that it listen with a queue
  of 128. Then the accept is due, the clock function is the one that was found, the routes are
  registered, the two stores are the ones that were opened, and the state is one from which the
  event loop can run.
\<close>

theorem start_listens:
  assumes "layout_ok lay" and "fresh_globals app" and "length (g_ts_buf app) = 20"
    and "g_route_map_entries app = replicate 32 \<lparr>ent_key = 0, ent_val = r, ent_occupied = 0\<rparr>"
    and "\<forall>e \<in> set strs. has_nul e" and "length (socket_path strs) \<le> 107"
    and "cg_time_init vdso (Some (strs, av)) = Inr gettime"
    and "0 \<le> sint fd" and "0 \<le> sint bind_res" and "0 \<le> sint listen_res"
  shows "\<exists>app' sp. main_start lay k ((strs, av), vdso) (Inr sdb) (Inr udb) (fd, bind_res, listen_res) app = Inr (app', True) \<and>
    take (length (socket_path strs) + 1) sp = socket_path strs @ [0] \<and>
    net_calls (app_trace app') = net_calls (app_trace app) @ [Unlink (socket_path strs), Socket AF_UNIX SOCK_STREAM 0,
      Bind fd (1, sp) (2 + (length (socket_path strs) + 1)), Listen fd 128] \<and>
    fctx_state (g_fastcgi_ctx app') = CG_FASTCGI_STATE_ACCEPT_SQE \<and> fctx_sockfd (g_fastcgi_ctx app') = ucast fd \<and>
    g_vdso_gettime app' = gettime \<and> routes_ready (g_route_map app') \<and>
    g_sessiondb app' = sdb \<and> g_userdb app' = udb \<and> sys_inv lay (boot app app')"
proof -
  obtain app' sp where s: "main_start lay k ((strs, av), vdso) (Inr sdb) (Inr udb) (fd, bind_res, listen_res) app = Inr (app', True)"
      "take (length (socket_path strs) + 1) sp = socket_path strs @ [0]"
      "net_calls (app_trace app') = net_calls (app_trace app) @ [Unlink (socket_path strs), Socket AF_UNIX SOCK_STREAM 0,
        Bind fd (1, sp) (length (socket_path strs) + 3), Listen fd 128]"
      "fctx_state (g_fastcgi_ctx app') = CG_FASTCGI_STATE_ACCEPT_SQE" "fctx_sockfd (g_fastcgi_ctx app') = ucast fd"
      "g_vdso_gettime app' = gettime" "routes_ready (g_route_map app')" "g_sessiondb app' = sdb" "g_userdb app' = udb"
    using start_returns [OF assms, of k sdb udb] by blast
  moreover have "length (socket_path strs) + 3 = 2 + (length (socket_path strs) + 1)" by simp
  ultimately show ?thesis using started_inv [OF assms(1,2) s(1)] by metis
qed

text \<open>A process whose auxiliary vector names no vDSO.\<close>

abbreviation sample_process :: process where
  "sample_process \<equiv> (([lit ''A'', lit ''FASTCGI_SOCK=/x''], []), Map.empty)"

lemma sample_clock: "cg_time_init vdso (Some (strs, [])) = Inr 0"
  by (simp add: cg_time_init_def cg_vdso_base_addr_def cg_vdso_func_def)

lemma sample_socket_path: "socket_path [lit ''A'', lit ''FASTCGI_SOCK=/x''] = str ''/x''"
  by (simp add: socket_path_def env_pair_def lit_def str_def Let_def List.map_filter_simps)

theorem start_listens_witness:
  "\<exists>app' sp. main_start sample_layout \<lparr>k_random = (8, 5), k_now = 0\<rparr> sample_process
      (Inr None) (Inr None) (3, 0, 0) (sample_app sample_ring (replicate 1024 new_client)) = Inr (app', True) \<and>
    take 3 sp = str ''/x'' @ [0] \<and>
    net_calls (app_trace app') = [Unlink (str ''/x''), Socket 1 1 0, Bind 3 (1, sp) 5, Listen 3 128]"
proof -
  have g: "length (g_ts_buf (sample_app sample_ring (replicate 1024 new_client))) = 20"
      "g_route_map_entries (sample_app sample_ring (replicate 1024 new_client)) =
        replicate 32 \<lparr>ent_key = 0, ent_val = Route_AuthGuest, ent_occupied = 0\<rparr>"
      "app_trace (sample_app sample_ring (replicate 1024 new_client)) = []"
    by (simp_all add: sample_app_def)
  have e: "\<forall>e \<in> set [lit ''A'', lit ''FASTCGI_SOCK=/x'']. has_nul e" by (simp add: lit_def)
  have l: "length (socket_path [lit ''A'', lit ''FASTCGI_SOCK=/x'']) \<le> 107" by (simp add: sample_socket_path)
  have n: "0 \<le> sint (3 :: u64)" "0 \<le> sint (0 :: u64)" by simp_all
  from start_listens [OF sample_layout_ok sample_fresh g(1,2) e l sample_clock n n(2), of "\<lparr>k_random = (8, 5), k_now = 0\<rparr>" Map.empty None None]
  show ?thesis unfolding sample_socket_path by (auto simp: g(3) numeral_3_eq_3)
qed

section \<open>Clients and their operations\<close>

text \<open>
  C11: As long as every submission finds room in the queue, in every state that program and kernel
  reach together, in whatever order they take their turns, a completion for a client finds that
  client in the state that waits for exactly this operation: it answers the one entry that the
  client's state stands for, nothing else of the client is under way or finished, and its buffers
  are in order. So no completion is lost, taken for another operation or handled for a context that
  was given to somebody else.
\<close>

theorem completion_awaited:
  assumes "layout_ok lay" and "sys_inv lay s0" and "(sys_step lay)\<^sup>*\<^sup>* s0 s"
    and "i < CG_MAX_CLIENTS" and "c \<in> set (completions (sys_ctx s))" and "cqe_user_data c = client_tag lay i"
  shows "client_ok (sys_pool s ! i) \<and> pending lay s i = [] \<and> finished lay s i = [c] \<and>
    (\<exists>e. op_of lay i (sys_pool s ! i) = Some e \<and> answer e c)"
proof -
  have inv: "sys_inv lay s" using sys_inv_reachable [OF assms(1,3,2)] .
  moreover have "c \<in> set (finished lay s i)" using assms(5,6) by (simp add: finished_def)
  ultimately show ?thesis
    using sys_invD(3,4) [OF inv assms(4)] by (auto simp: awaited_def split: option.splits)
qed

definition reading_pool :: "cg_client_ctx list" where
  "reading_pool = (replicate 1024 new_client)[0 := connected CG_FASTCGI_CLIENT_STATE_READ_CQE]"

definition the_read :: io_uring_sqe where
  "the_read = zero_sqe\<lparr>sqe_opcode := IORING_OP_READ, sqe_fd := 7, sqe_addr := 0x500000, sqe_len := 65790,
     sqe_user_data := client_tag sample_layout 0\<rparr>"

definition reading :: system where
  "reading = \<lparr>sys_app = sample_app sample_ring reading_pool, sq_head = 0, in_flight = [the_read]\<rparr>"

lemma reading_op: "op_of sample_layout 0 (reading_pool ! 0) = Some the_read"
  by (simp add: op_of_def reading_pool_def connected_def new_client_def new_buffer_def the_read_def sample_layout_def Let_def)

lemma reading_inv: "sys_inv sample_layout reading"
proof -
  let ?idle = "\<lparr>sys_app = sample_app sample_ring (replicate 1024 new_client), sq_head = 0, in_flight = []\<rparr>"
  have "op_of lay i new_client = None" for lay i by (simp add: op_of_None new_client_def)
  then have idle: "sys_inv sample_layout ?idle"
    using sample_rings new_client_ok(1) by (intro idle_inv) (simp_all add: CG_MAX_CLIENTS_def sample_app_def)
  show ?thesis
  proof (rule sys_inv_frame [OF idle, of _ 0])
    show "sys_pool reading ! j = sys_pool ?idle ! j \<and> pending sample_layout reading j = pending sample_layout ?idle j \<and>
        finished sample_layout reading j = finished sample_layout ?idle j" if "j < CG_MAX_CLIENTS" "j \<noteq> 0" for j
      using that client_tag_inj [OF sample_layout_ok, of 0 j] sample_rings(2,3)
      by (simp add: reading_def sample_app_def reading_pool_def pending_def finished_def the_read_def CG_MAX_CLIENTS_def)
    show "client_ok (sys_pool reading ! 0) \<and>
        awaited (op_of sample_layout 0 (sys_pool reading ! 0)) (pending sample_layout reading 0) (finished sample_layout reading 0)"
      using reading_op new_client_ok(2) [of CG_FASTCGI_CLIENT_STATE_READ_CQE] sample_rings(2,3)
      by (simp add: reading_def sample_app_def awaited_def pending_def finished_def) (simp add: reading_pool_def the_read_def)
  qed (use sample_rings(1) in \<open>simp_all add: reading_def sample_app_def reading_pool_def\<close>)
qed

theorem completion_awaited_witness:
  "\<exists>s c. (sys_step sample_layout)\<^sup>*\<^sup>* reading s \<and> completions (sys_ctx s) = [c] \<and> cqe_res c = 4 \<and>
    pending sample_layout s 0 = [] \<and> op_of sample_layout 0 (sys_pool s ! 0) = Some the_read"
proof -
  define c where "c = \<lparr>cqe_user_data = client_tag sample_layout 0, cqe_res = 4, cqe_flags = 0\<rparr>"
  let ?app = "read_into sample_layout the_read [1, 1, 0, 1] (sys_app reading)"
  let ?s = "reading\<lparr>sys_app := completes c ?app, in_flight := []\<rparr>"
  have a: "answer the_read c" by (simp add: answer_def the_read_def c_def)
  have g: "g_uring_ctx ?app = sample_ring" by (simp add: read_into_frame reading_def sample_app_def)
  then have r: "rings_ok ?app 0" "cq_room ?app"
    using sample_rings(1) [of reading_pool] by (simp_all add: rings_ok_def sample_app_def) (simp add: sample_ring_def)
  have room: "cq_room (sys_app reading)" by (simp add: reading_def sample_app_def sample_ring_def)
  have len: "length [1, 1, 0, 1 :: byte] = (if sqe_opcode the_read = IORING_OP_READ \<and> 0 < sint (cqe_res c) then unat (cqe_res c) else 0)"
    by (simp add: the_read_def c_def)
  have "in_flight reading = [] @ the_read # []" by (simp add: reading_def)
  from sys_step_kernel [OF kernel_complete [OF this a room _ len, of sample_layout]]
  have "sys_step sample_layout reading ?s" by (simp add: c_def)
  then have step: "(sys_step sample_layout)\<^sup>*\<^sup>* reading ?s" by blast
  have comp: "completions (sys_ctx ?s) = [c]" using completes_ok(2) [OF r, of c] g sample_rings(2) by simp
  have "0 < CG_MAX_CLIENTS" by (simp add: CG_MAX_CLIENTS_def)
  from completion_awaited [OF sample_layout_ok reading_inv step this, of c] comp
  have w: "pending sample_layout ?s 0 = []" "\<exists>e. op_of sample_layout 0 (sys_pool ?s ! 0) = Some e \<and> answer e c"
    by (simp_all add: c_def)
  have "\<exists>buf. sys_pool ?s ! 0 = set_rx buf (reading_pool ! 0)"
    using client_tag_parts [OF sample_layout_ok, of 0]
    by (auto simp: completes_def read_into_def Let_def the_read_def reading_def sample_app_def set_fcgi_def set_rx_def
        reading_pool_def CG_MAX_CLIENTS_def)
  then have "op_of sample_layout 0 (sys_pool ?s ! 0) = Some the_read" using reading_op set_rx_ok(2) by metis
  with step comp w(1) show ?thesis by (intro exI [of _ ?s] exI [of _ c]) (simp add: c_def)
qed

section \<open>The completion queue\<close>

text \<open>
  C23: The inner loop ends: it hands the completions to their handlers one by one, in the order in
  which the kernel put them into the ring and across the wrap of the counters, and it leaves the
  ring empty; an error of a handler is the only thing that stops it earlier.
\<close>

theorem loop_drains:
  assumes "cq_ok (g_uring_ctx app)" and "completions (g_uring_ctx app) = cs"
  shows "\<exists>cqe. cg_uring_cq_peek (g_uring_ctx app) = Inr cqe \<and>
    drain_loop lay ks cqe app = Some (handle_all lay ks cs app) \<and> drain lay ks cqe app = handle_all lay ks cs app \<and>
    (\<forall>app'. drain lay ks cqe app = Inr app' \<longrightarrow> completions (g_uring_ctx app') = [])"
proof -
  obtain cqe where c: "cg_uring_cq_peek (g_uring_ctx app) = Inr cqe"
      "drain_loop lay ks cqe app = Some (handle_all lay ks cs app)"
    using drain_handles [OF assms] by blast
  then have "drain lay ks cqe app = handle_all lay ks cs app" by (simp add: drain_def)
  then show ?thesis using c handle_all_empties [OF assms(2)] by auto
qed

definition stray :: io_uring_cqe where
  "stray = \<lparr>cqe_user_data = 0, cqe_res = 0, cqe_flags = 0\<rparr>"

definition wrapped_ring :: cg_uring_ctx where
  "wrapped_ring = sample_ring\<lparr>cqes := replicate 128 stray, cq_head := - 1, cq_tail := 1\<rparr>"

theorem loop_drains_witness:
  "\<exists>cqe app'. cg_uring_cq_peek wrapped_ring = Inr cqe \<and>
    drain sample_layout (\<lambda>i. \<lparr>k_random = (8, 5), k_now = 0\<rparr>) cqe (sample_app wrapped_ring []) = Inr app' \<and>
    completions (g_uring_ctx app') = []"
proof -
  have "ring_size (replicate 128 stray) 127"
    unfolding ring_size_def by (intro exI [of _ 7]) (simp add: mask_eq_exp_minus_1)
  then have ok: "cq_ok wrapped_ring" by (simp add: cq_ok_def wrapped_ring_def sample_ring_def)
  have "unat (2 :: u32) = 2" by simp
  then have cs: "completions wrapped_ring = [stray, stray]"
    by (simp add: completions_def wrapped_ring_def ring_def numeral_2_eq_2)
  have d: "dispatch_cqe sample_layout k stray app = Inr app" for k app
    by (simp add: dispatch_cqe_def stray_def CG_GET_TAG_def CG_TAG_FASTCGI_def CG_TAG_CLIENT_def CG_TAG_TIMESTAMP_def)
  let ?ks = "\<lambda>i :: nat. \<lparr>k_random = (8, 5), k_now = 0\<rparr>" and ?app = "sample_app wrapped_ring []"
  have "\<exists>app'. handle_all sample_layout ?ks [stray, stray] ?app = Inr app'" by (simp add: d)
  then obtain app' where h: "handle_all sample_layout ?ks [stray, stray] ?app = Inr app'" ..
  have g: "g_uring_ctx ?app = wrapped_ring" by (simp add: sample_app_def)
  from loop_drains [of ?app "[stray, stray]" sample_layout ?ks] ok cs obtain cqe where
    "cg_uring_cq_peek wrapped_ring = Inr cqe" "drain sample_layout ?ks cqe ?app = Inr app'"
    "completions (g_uring_ctx app') = []" unfolding g h by blast
  then show ?thesis by blast
qed

section \<open>What is left in the receive buffer\<close>

text \<open>
  C18: After a read, the bytes that the parser has left are moved to the start of the buffer: the
  move is right when they are fewer than 32, when the tail behind the last whole block is empty,
  or when the distance and this tail make up a block. Otherwise the last block of the copy reads
  bytes that the copy has already overwritten, and the buffer then holds at 32 before the end of
  the rest a byte from twice the distance behind: the rest of the request is damaged.
\<close>

theorem leftover_moved:
  assumes "pos + n \<le> length buf"
  shows "(n < 32 \<or> copy_tail base n = 0 \<or> 32 \<le> pos + copy_tail base n \<longrightarrow>
      slide_buf base buf pos n = Inr (take n (drop pos buf) @ drop n buf)) \<and>
    (32 \<le> n \<and> 0 < copy_tail base n \<and> pos + copy_tail base n < 32 \<longrightarrow>
      (\<exists>buf'. slide_buf base buf pos n = Inr buf' \<and> buf' ! (n - 32) = buf ! (n - 32 + 2 * pos)))"
  using slide_ok [OF assms] slide_wrong [OF assms] by blast

theorem leftover_moved_witness:
  "\<exists>buf'. slide_buf 4096 (map word_of_nat [0..<64]) 24 36 = Inr buf' \<and> buf' ! 4 = (52 :: byte) \<and>
    slide_buf 4096 (map word_of_nat [0..<64]) 40 20 = Inr (map word_of_nat [40..<60] @ map word_of_nat [20..<64])"
proof -
  let ?b = "map word_of_nat [0..<64] :: byte list"
  have "24 + 36 \<le> length ?b" "40 + 20 \<le> length ?b" by simp_all
  then have "\<exists>buf'. slide_buf 4096 ?b 24 36 = Inr buf' \<and> buf' ! (36 - 32) = ?b ! (36 - 32 + 2 * 24)"
    and "slide_buf 4096 ?b 40 20 = Inr (take 20 (drop 40 ?b) @ drop 20 ?b)"
    using leftover_moved [of 24 36 ?b 4096] leftover_moved [of 40 20 ?b 4096] by (simp_all add: copy_tail_def)
  then show ?thesis by (auto simp: drop_map take_map)
qed

section \<open>The listener\<close>

text \<open>
  C22: A connection that arrives while all contexts are in use is closed, and when its completion
  is also the last one of the accept, the server never accepts again: the listener stays in the
  state that waits for a completion, and in no later state is an accept submitted or under way,
  however many clients leave.
\<close>

theorem listener_lost:
  assumes lay: "layout_ok lay" and inv: "sys_inv lay s" and "length (g_ts_buf (sys_app s)) = 20"
    and full: "\<forall>i < CG_MAX_CLIENTS. cli_state (sys_pool s ! i) \<noteq> CG_CLIENT_STATE_FREE"
    and listening: "fctx_state (g_fastcgi_ctx (sys_app s)) = CG_FASTCGI_STATE_ACCEPT_CQE"
    and cs: "completions (sys_ctx s) = c # cs" "CG_GET_TAG (cqe_user_data c) = CG_TAG_FASTCGI" "0 \<le> sint (cqe_res c)"
    and last: "\<forall>e \<in> set (in_flight s @ submissions (sys_ctx s) (sq_head s)). CG_GET_TAG (sqe_user_data e) \<noteq> CG_TAG_FASTCGI"
      "\<forall>c \<in> set cs. CG_GET_TAG (cqe_user_data c) \<noteq> CG_TAG_FASTCGI"
  shows "\<exists>app. dispatch_cqe lay k c (sys_app s) = Inr app \<and>
    (\<exists>tr. app_trace app = tr @ [Close_Fd (cqe_res c)]) \<and>
    (\<forall>s'. (sys_step lay)\<^sup>*\<^sup>* (s\<lparr>sys_app := discarded app\<rparr>) s' \<longrightarrow>
       fctx_state (g_fastcgi_ctx (sys_app s')) = CG_FASTCGI_STATE_ACCEPT_CQE \<and>
       (\<forall>e \<in> set (in_flight s' @ submissions (sys_ctx s') (sq_head s')). CG_GET_TAG (sqe_user_data e) \<noteq> CG_TAG_FASTCGI))"
  using lost_listener [OF assms, of k] unfolding deaf_def by blast

definition last_accept :: io_uring_cqe where
  "last_accept = \<lparr>cqe_user_data = CG_TAG_PTR (lay_fastcgi sample_layout) CG_TAG_FASTCGI, cqe_res = 9, cqe_flags = 0\<rparr>"

definition crowded :: system where
  "crowded = \<lparr>sys_app = completes last_accept (sample_app sample_ring
     (replicate 1024 (connected CG_FASTCGI_CLIENT_STATE_READ_SQE))), sq_head = 0, in_flight = []\<rparr>"

lemma crowded_inv: "sys_inv sample_layout crowded" and crowded_ring: "completions (sys_ctx crowded) = [last_accept]"
  "submissions (sys_ctx crowded) 0 = []"
proof -
  let ?app = "sample_app sample_ring (replicate 1024 (connected CG_FASTCGI_CLIENT_STATE_READ_SQE))"
  let ?idle = "\<lparr>sys_app = ?app, sq_head = 0, in_flight = []\<rparr>"
  have "op_of lay i (connected CG_FASTCGI_CLIENT_STATE_READ_SQE) = None" for lay i
    by (simp add: op_of_None connected_def)
  then have idle: "sys_inv sample_layout ?idle"
    using sample_rings new_client_ok(2) by (intro idle_inv) (simp_all add: CG_MAX_CLIENTS_def sample_app_def)
  have "cq_room ?app" by (simp add: sample_app_def sample_ring_def)
  note C = completes_ok [OF sample_rings(1) this, of last_accept]
  show "completions (sys_ctx crowded) = [last_accept]" "submissions (sys_ctx crowded) 0 = []"
    using C sample_rings(2,3) by (simp_all add: crowded_def) (simp_all add: sample_app_def)
  have "finished sample_layout crowded i = finished sample_layout ?idle i \<and>
      pending sample_layout crowded i = pending sample_layout ?idle i" if "i < CG_MAX_CLIENTS" for i
    using C other_tags(1) [OF sample_layout_ok that]
    by (simp add: crowded_def finished_def pending_def) (simp add: last_accept_def)
  then show "sys_inv sample_layout crowded"
    using C by (intro sys_inv_frame [OF idle, of _ CG_MAX_CLIENTS]) (simp_all add: crowded_def)
qed

theorem listener_lost_witness:
  "\<exists>app. dispatch_cqe sample_layout \<lparr>k_random = (8, 5), k_now = 0\<rparr> last_accept (sys_app crowded) = Inr app \<and>
    (\<forall>s'. (sys_step sample_layout)\<^sup>*\<^sup>* (crowded\<lparr>sys_app := discarded app\<rparr>) s' \<longrightarrow>
       fctx_state (g_fastcgi_ctx (sys_app s')) = CG_FASTCGI_STATE_ACCEPT_CQE)"
proof -
  have p: "length (g_ts_buf (sys_app crowded)) = 20"
      "\<forall>i < CG_MAX_CLIENTS. cli_state (sys_pool crowded ! i) \<noteq> CG_CLIENT_STATE_FREE"
      "fctx_state (g_fastcgi_ctx (sys_app crowded)) = CG_FASTCGI_STATE_ACCEPT_CQE"
    by (simp_all add: crowded_def completes_def sample_app_def sample_listener_def CG_MAX_CLIENTS_def connected_def)
  have "CG_GET_TAG (cqe_user_data last_accept) = CG_TAG_FASTCGI"
    by (simp add: last_accept_def sample_layout_def CG_TAG_PTR_def CG_GET_TAG_def CG_TAG_FASTCGI_def CG_PTR_MASK_def)
  moreover have "0 \<le> sint (cqe_res last_accept)" by (simp add: last_accept_def)
  moreover have "\<forall>e \<in> set (in_flight crowded @ submissions (sys_ctx crowded) (sq_head crowded)).
      CG_GET_TAG (sqe_user_data e) \<noteq> CG_TAG_FASTCGI"
    using crowded_ring(2) by (simp add: crowded_def)
  ultimately show ?thesis
    using listener_lost [OF sample_layout_ok crowded_inv p crowded_ring(1), of "\<lparr>k_random = (8, 5), k_now = 0\<rparr>"] by auto
qed

end
