(* ===== verification/CG_Isolated.thy ===== *)
theory CG_Isolated
  imports CG_Keeps
begin

text \<open>
  What a request can do to the stores, whatever it is and whichever branch its handler takes: the
  stores stay consistent, no session is ended or given to somebody else, at most one is added
  under the number that the kernel gave, and of the accounts in use only the one that the
  request's own session belongs to can change.
\<close>

section \<open>The relation between the stores before and after\<close>

definition kernel_number :: "kernel \<Rightarrow> u64" where
  "kernel_number k = cg_sessiondb_session_id_get (k_random k)"

definition stores_wf :: "server \<Rightarrow> bool" where
  "stores_wf srv \<longleftrightarrow> pred_option sessiondb_wf (srv_sessiondb srv) \<and> pred_option userdb_wf (srv_userdb srv)"

definition number_unused :: "kernel \<Rightarrow> server \<Rightarrow> bool" where
  "number_unused k srv \<longleftrightarrow> pred_option (\<lambda>db. sess_abs db (kernel_number k) = None) (srv_sessiondb srv)"

definition session_owner :: "cg_client_req \<Rightarrow> server \<Rightarrow> u32 option" where
  "session_owner req srv = Option.bind (srv_sessiondb srv) (\<lambda>db. sess_abs db (request_session req))"

definition session_added :: "u64 \<Rightarrow> cg_sessiondb \<Rightarrow> cg_sessiondb \<Rightarrow> bool" where
  "session_added sid db db' \<longleftrightarrow> sess_abs db' = sess_abs db \<or> (\<exists>u. sess_abs db' = (sess_abs db)(sid \<mapsto> u))"

definition others_kept :: "u32 option \<Rightarrow> cg_userdb \<Rightarrow> cg_userdb \<Rightarrow> bool" where
  "others_kept own udb udb' \<longleftrightarrow> (\<forall>i < USERDB_POOL_SIZE. user_active (udb_pool udb ! i) \<longrightarrow>
     own \<noteq> Some (uid (udb_pool udb ! i)) \<longrightarrow> udb_pool udb' ! i = udb_pool udb ! i)"

definition isolated :: "kernel \<Rightarrow> u32 option \<Rightarrow> server \<Rightarrow> server \<Rightarrow> bool" where
  "isolated k own srv srv' \<longleftrightarrow> stores_wf srv' \<and>
     rel_option (session_added (kernel_number k)) (srv_sessiondb srv) (srv_sessiondb srv') \<and>
     rel_option (others_kept own) (srv_userdb srv) (srv_userdb srv')"

lemma isolated_refl: "stores_wf srv \<Longrightarrow> isolated k own srv srv"
  by (auto simp: isolated_def session_added_def others_kept_def option.rel_refl)

lemma isolated_tx [simp]: "isolated k own srv (srv'\<lparr>srv_tx := tx\<rparr>) = isolated k own srv srv'"
  by (simp add: isolated_def stores_wf_def)

section \<open>The steps that change a store\<close>

lemma session_create_cases:
  assumes wf: "sessiondb_wf db" and new: "sess_abs db (cg_sessiondb_session_id_get rnd) = None"
    and run: "cg_sessiondb_entry_create db u rnd now = Inr (db', Some e)"
  shows "sessiondb_wf db' \<and> sess_abs db' = (sess_abs db)(cg_sessiondb_session_id_get rnd \<mapsto> u)"
proof -
  obtain res bytes where rnd: "rnd = (res, bytes)" by (cases rnd)
  define sid where "sid = cg_sessiondb_session_id_get rnd"
  have c: "hm_count (sdb_map db) < 4096" and "sid \<noteq> 0"
    using run by (auto simp: cg_sessiondb_entry_create_def sid_def Let_def split: if_splits)
  then have s: "8 \<le> res" "sid = (if bytes = 0 then 1 else bytes)"
    by (auto simp: sid_def rnd cg_sessiondb_session_id_get_def split: if_splits)
  have none: "sess_index db sid = None" using new by (simp add: sess_abs_None sid_def)
  have "sess_room db \<noteq> 0"
  proof
    assume "sess_room db = 0"
    then have "cg_hashmap_get_key_uint (sdb_map db) sid = Inl Diverges"
      using hashmap_get_diverges [OF sessiondb_wfD(2) [OF wf]] none by (simp add: sess_room_def sess_index_def)
    then have "cg_hashmap_insert_key_uint (sdb_map db) sid v = Inl Diverges" for v
      by (simp add: cg_hashmap_insert_key_uint_def hashmap_wf_entries [OF sessiondb_wfD(2) [OF wf]])
    then show False
      using run by (auto simp: cg_sessiondb_entry_create_def Let_def sid_def split: if_splits option.splits)
  qed
  then have "0 < sess_room db" by simp
  from sess_create_ok [OF wf c s none this, of u now] show ?thesis using run by (auto simp: rnd sid_def)
qed

lemma isolated_open_session:
  assumes J: "isolated k own srv0 srv" and same: "srv_sessiondb srv = srv_sessiondb srv0"
    and new: "number_unused k srv0" and run: "open_session k u srv = Inr (srv', sid)"
  shows "isolated k own srv0 srv'"
proof -
  obtain db db' e where db: "srv_sessiondb srv0 = Some db" "cg_sessiondb_entry_create db u (k_random k) (k_now k) = Inr (db', Some e)"
    and srv': "srv' = srv\<lparr>srv_sessiondb := Some db'\<rparr>"
    using run same by (auto simp: open_session_def deref_def cbind_eq_Inr split: option.splits)
  have "sessiondb_wf db" using J same db(1) by (simp add: isolated_def stores_wf_def)
  from session_create_cases [OF this _ db(2)] new db(1)
  have "sessiondb_wf db' \<and> sess_abs db' = (sess_abs db)(kernel_number k \<mapsto> u)"
    by (simp add: number_unused_def kernel_number_def)
  then show ?thesis using J srv' db(1) by (auto simp: isolated_def stores_wf_def session_added_def)
qed

lemma isolated_users:
  assumes "stores_wf srv" and "srv_userdb srv = Some udb" and "userdb_wf udb'" and "others_kept own udb udb'"
  shows "isolated k own srv (srv\<lparr>srv_userdb := Some udb'\<rparr>)"
  using assms by (auto simp: isolated_def stores_wf_def session_added_def option.rel_refl)

lemma own_slot_kept:
  assumes wf: "userdb_wf udb" and found: "cg_userdb_find_by_id udb n = Some i"
    and pool: "udb_pool udb' = (udb_pool udb)[i := u]"
  shows "others_kept (Some n) udb udb'"
  unfolding others_kept_def
proof (intro allI impI)
  fix j assume "j < USERDB_POOL_SIZE" "user_active (udb_pool udb ! j)" "Some n \<noteq> Some (uid (udb_pool udb ! j))"
  moreover have "uid (udb_pool udb ! i) = n"
    using find_by_id_Some [OF wf] found userdb_wfD(3) [OF wf] by metis
  ultimately show "udb_pool udb' ! j = udb_pool udb ! j" using pool by (cases "j = i") simp_all
qed

lemma user_create_kept:
  assumes wf: "userdb_wf udb" and nul: "has_nul name" "has_nul password"
    and run: "cg_userdb_create udb name password = Inr (udb', status, e)"
  shows "userdb_wf udb' \<and> others_kept own udb udb'"
proof (cases "user_slot udb (cstr name)")
  case (Some i)
  then show ?thesis using userdb_create_known [OF wf nul(1) Some, of password] run wf by (auto simp: others_kept_def)
next
  case None
  show ?thesis
  proof (cases "active_users udb = USERDB_POOL_SIZE")
    case True
    then show ?thesis
      using userdb_create_full [OF wf nul(1) None True, of password] run wf by (auto simp: others_kept_def)
  next
    case False
    then have room: "active_users udb < USERDB_POOL_SIZE"
      using active_users_le [OF wf] by (simp add: USERDB_POOL_SIZE_def)
    obtain i e where i: "user_is_active (udb_pool udb ! i) = 0" "udb_pool udb' = (udb_pool udb)[i := e]" "userdb_wf udb'"
      using userdb_create_new [OF wf nul None room] run by auto
    have "others_kept own udb udb'"
      unfolding others_kept_def
    proof (intro allI impI)
      fix j assume "user_active (udb_pool udb ! j)"
      then have "j \<noteq> i" using i(1) by auto
      then show "udb_pool udb' ! j = udb_pool udb ! j" by (simp add: i(2))
    qed
    then show ?thesis using i(3) by simp
  qed
qed

lemma user_delete_kept:
  assumes wf: "userdb_wf udb"
  shows "userdb_wf (fst (cg_userdb_delete udb n)) \<and> others_kept (Some n) udb (fst (cg_userdb_delete udb n))"
proof (cases "cg_userdb_find_by_id udb n")
  case None
  then show ?thesis using wf by (simp add: userdb_delete_unknown others_kept_def)
next
  case (Some i)
  then show ?thesis using userdb_delete_ok [OF wf Some] own_slot_kept [OF wf Some] by auto
qed

lemma user_set_kept:
  assumes wf: "userdb_wf udb" and found: "cg_userdb_find_by_id udb n = Some i"
    and u: "user_shape u" "same_account (udb_pool udb ! i) u"
  shows "userdb_wf (udb\<lparr>udb_pool := (udb_pool udb)[i := u]\<rparr>) \<and>
    others_kept (Some n) udb (udb\<lparr>udb_pool := (udb_pool udb)[i := u]\<rparr>)"
  using set_user_wf(1) [OF wf found_shape(2) [OF wf found] u] own_slot_kept [OF wf found]
  by (simp add: set_user_def)

section \<open>The handlers\<close>

lemmas ensures_rules = ensures_bind ensures_Inl ensures_Inr ensures_if ensures_option ensures_prod ensures_let

lemma isolated_reply: "isolated k own srv0 srv \<Longrightarrow> ensures (isolated k own srv0) (reply req body srv)"
  unfolding reply_def by (intro ensures_rules) simp

lemma isolated_reply_buf: "isolated k own srv0 srv \<Longrightarrow> ensures (isolated k own srv0) (reply_buf req p srv)"
  unfolding reply_buf_def by (intro ensures_rules) simp

lemma ensures_session:
  assumes "stores_wf srv" and "req_shape req"
    and "\<And>e. map_option user_id e = session_owner req srv \<Longrightarrow> ensures P (f e)"
  shows "ensures P (with_session req srv f)"
proof (cases "srv_sessiondb srv")
  case None
  then show ?thesis by (auto simp: with_session_def ensures_def cbind_eq_Inr deref_def)
next
  case (Some db)
  then have wf: "sessiondb_wf db" using assms(1) by (simp add: stores_wf_def)
  show ?thesis
  proof (cases "sess_abs db (request_session req) \<noteq> None \<or> 0 < sess_room db")
    case True
    from with_session_cases [OF assms(2) Some wf True] obtain e where
      e: "\<And>f. with_session req srv f = f e" "map_option user_id e = sess_abs db (request_session req)" by blast
    then show ?thesis using assms(3) [of e] Some by (simp add: session_owner_def)
  next
    case False
    then show ?thesis
      using with_session_stuck [OF get_session_id_shape [OF assms(2)] Some wf] by (simp add: ensures_Inl)
  qed
qed

lemma ensures_deref: "(\<And>x. p = Some x \<Longrightarrow> ensures P (f x)) \<Longrightarrow> ensures P (cbind (deref p) f)"
  by (cases p) (simp_all add: deref_def ensures_Inl)

lemma ensures_same_let: "ensures P (f x) \<Longrightarrow> ensures P (Let x f)"
  by simp

lemma ensures_open_session:
  assumes "isolated k own srv0 srv" and "srv_sessiondb srv = srv_sessiondb srv0" and "number_unused k srv0"
    and "\<And>srv' sid. isolated k own srv0 srv' \<Longrightarrow> ensures P (f srv' sid)"
  shows "ensures P (cbind (open_session k u srv) (\<lambda>(srv', sid). f srv' sid))"
  using assms isolated_open_session [OF assms(1-3)] by (intro ensures_bind ensures_prod) simp

lemma ensures_user_create:
  assumes "stores_wf srv" and "srv_userdb srv = Some udb" and "has_nul name" and "has_nul password"
    and "\<And>udb' st e. isolated k own srv (srv\<lparr>srv_userdb := Some udb'\<rparr>) \<Longrightarrow> ensures P (f udb' st e)"
  shows "ensures P (cbind (cg_userdb_create udb name password) (\<lambda>(udb', st, e). f udb' st e))"
proof -
  have "userdb_wf udb" using assms(1,2) by (simp add: stores_wf_def)
  from user_create_kept [OF this assms(3,4)] show ?thesis
    using isolated_users [OF assms(1,2)] assms(5) by (intro ensures_bind ensures_prod) blast
qed

lemma credentials_nul: "form_credentials req = Inr (Some (name, password)) \<Longrightarrow> has_nul name \<and> has_nul password"
  by (auto simp: form_credentials_def cbind_eq_Inr split: prod.splits if_splits)

lemmas isolated_rules =
  ensures_same_let ensures_deref ensures_rules isolated_reply isolated_reply_buf

text \<open>The handlers that only read, and those that open a session for somebody.\<close>

lemma readers_isolated:
  assumes J: "stores_wf srv" and shape: "req_shape req"
  shows "ensures (isolated k own srv) (cg_route_not_found k req srv)"
    "ensures (isolated k own srv) (cg_route_api_user_profile k req srv)"
    "ensures (isolated k own srv) (cg_route_api_public_profile k req srv)"
    "ensures (isolated k own srv) (cg_route_api_user_stats k req srv)"
    "ensures (isolated k own srv) (cg_route_api_leaderboard k req srv)"
proof -
  note R = isolated_refl [OF J]
  show "ensures (isolated k own srv) (cg_route_not_found k req srv)"
    unfolding cg_route_not_found_def by (intro isolated_rules R)
  show "ensures (isolated k own srv) (cg_route_api_user_profile k req srv)"
    unfolding cg_route_api_user_profile_def by (intro isolated_rules ensures_session [OF J shape] R)
  show "ensures (isolated k own srv) (cg_route_api_public_profile k req srv)"
    unfolding cg_route_api_public_profile_def by (intro isolated_rules R)
  show "ensures (isolated k own srv) (cg_route_api_user_stats k req srv)"
    unfolding cg_route_api_user_stats_def by (intro isolated_rules ensures_session [OF J shape] R)
  show "ensures (isolated k own srv) (cg_route_api_leaderboard k req srv)"
    unfolding cg_route_api_leaderboard_def by (intro isolated_rules R)
qed

lemma openers_isolated:
  assumes J: "stores_wf srv" and new: "number_unused k srv"
  shows "ensures (isolated k own srv) (cg_route_api_auth_guest k req srv)"
    "ensures (isolated k own srv) (cg_route_api_auth_login k req srv)"
    "ensures (isolated k own srv) (cg_route_api_auth_register k req srv)"
proof -
  note R = isolated_refl [OF J]
  show "ensures (isolated k own srv) (cg_route_api_auth_guest k req srv)"
    unfolding cg_route_api_auth_guest_def by (intro ensures_open_session [OF R refl new] isolated_rules R)
  show "ensures (isolated k own srv) (cg_route_api_auth_login k req srv)"
    unfolding cg_route_api_auth_login_def by (intro ensures_open_session [OF R refl new] isolated_rules R)
  show "ensures (isolated k own srv) (cg_route_api_auth_register k req srv)"
    unfolding cg_route_api_auth_register_def
    by (intro ensures_user_create [OF J] ensures_open_session [OF _ _ new] isolated_rules R;
        use credentials_nul in auto)
qed

text \<open>The handlers that change the account of the session they are called with.\<close>

lemma form_value_fits: "cg_get_form_value qs key cap = Inr (found, t) \<Longrightarrow> length t < cap"
proof -
  have "ensures (\<lambda>r. length (snd r) < cap) (cg_get_form_value qs key cap)"
    unfolding cg_get_form_value_def by (intro ensures_rules) simp_all
  then show "cg_get_form_value qs key cap = Inr (found, t) \<Longrightarrow> length t < cap" by (auto dest: ensuresD)
qed

lemma isolated_own_user:
  assumes J: "stores_wf srv" and udb: "srv_userdb srv = Some udb" and own: "own = Some n"
    and found: "cg_userdb_find_by_id udb n = Some i" and u: "user_shape u" "same_account (udb_pool udb ! i) u"
  shows "isolated k own srv (srv\<lparr>srv_userdb := Some (udb\<lparr>udb_pool := (udb_pool udb)[i := u]\<rparr>)\<rparr>)"
proof -
  have "userdb_wf udb" using J udb by (simp add: stores_wf_def)
  from user_set_kept [OF this found u] show ?thesis using isolated_users [OF J udb] own by simp
qed

lemma user_of_entry: "map_option user_id e = own \<Longrightarrow> \<not> (case e of None \<Rightarrow> True | Some e \<Rightarrow> user_id e = 0) \<Longrightarrow>
    own = Some (user_id (the e))"
  by (cases e) simp_all

lemma delete_isolated:
  assumes J: "stores_wf srv" and shape: "req_shape req"
  shows "ensures (isolated k (session_owner req srv) srv) (cg_route_api_user_delete k req srv)"
  unfolding cg_route_api_user_delete_def
proof (intro ensures_session [OF J shape] isolated_rules isolated_refl [OF J])
  fix e udb
  assume e: "map_option user_id e = session_owner req srv" "\<not> (case e of None \<Rightarrow> True | Some e \<Rightarrow> user_id e = 0)"
    and udb: "srv_userdb srv = Some udb"
  have "userdb_wf udb" using J udb by (simp add: stores_wf_def)
  from user_delete_kept [OF this] show "isolated k (session_owner req srv) srv
      (srv\<lparr>srv_userdb := Some (fst (cg_userdb_delete udb (user_id (the e))))\<rparr>)"
    using isolated_users [OF J udb] user_of_entry [OF e] by simp
qed

lemma update_isolated:
  assumes J: "stores_wf srv" and shape: "req_shape req"
  shows "ensures (isolated k (session_owner req srv) srv) (cg_route_api_user_profile_update k req srv)"
  unfolding cg_route_api_user_profile_update_def
proof (intro ensures_session [OF J shape] isolated_rules isolated_refl [OF J])
  fix e udb i x found t udb'
  assume e: "map_option user_id e = session_owner req srv" "\<not> (case e of None \<Rightarrow> True | Some e \<Rightarrow> user_id e = 0)"
    and udb: "srv_userdb srv = Some udb" and found: "cg_userdb_find_by_id udb (user_id (the e)) = Some i"
    and form: "cg_get_form_value (stdin_buf req) (lit ''description'') 2048 = Inr x" "x = (found, t)"
    and run: "(if found then cbind (set_description (udb_pool udb ! i) t) (\<lambda>u. Inr (udb\<lparr>udb_pool := (udb_pool udb)[i := u]\<rparr>))
      else Inr udb) = Inr udb'"
  have wf: "userdb_wf udb" using J udb by (simp add: stores_wf_def)
  have "length t < 2048" using form_value_fits form by blast
  from set_description_ok [OF found_shape(1) [OF wf found] this]
  obtain u where "set_description (udb_pool udb ! i) t = Inr u" "user_shape u" "same_account (udb_pool udb ! i) u" by blast
  then show "isolated k (session_owner req srv) srv (srv\<lparr>srv_userdb := Some udb'\<rparr>)"
    using run isolated_own_user [OF J udb user_of_entry [OF e] found] isolated_refl [OF J] udb
    by (cases found) (auto simp: isolated_def stores_wf_def)
qed

lemma award_isolated:
  assumes J: "stores_wf srv" and own: "own = Some n" and run: "award_user srv n (t @ [0]) pts = Inr srv'"
  shows "isolated k own srv srv'"
proof -
  obtain udb where udb: "srv_userdb srv = Some udb"
    using run by (auto simp: award_user_def cbind_eq_Inr deref_def split: option.splits)
  have wf: "userdb_wf udb" using J udb by (simp add: stores_wf_def)
  show ?thesis
  proof (cases "cg_userdb_find_by_id udb n")
    case None
    then have "srv' = srv" using run udb by (simp add: award_user_def deref_def)
    then show ?thesis using isolated_refl [OF J] by simp
  next
    case (Some i)
    from award_user_ok [OF udb wf Some, of t pts] obtain u
      where u: "srv' = srv\<lparr>srv_userdb := Some (set_user udb i u)\<rparr>" "userdb_wf (set_user udb i u)" using run by auto
    have "others_kept (Some n) udb (set_user udb i u)"
      using own_slot_kept [OF wf Some] by (simp add: set_user_def)
    then show ?thesis using isolated_users [OF J udb u(2)] u(1) own by simp
  qed
qed

lemma verify_isolated:
  assumes J: "stores_wf srv" and shape: "req_shape req"
  shows "ensures (isolated k (session_owner req srv) srv) (cg_route_api_challenge_verify k req srv)"
  unfolding cg_route_api_challenge_verify_def
proof (intro ensures_session [OF J shape] isolated_rules isolated_refl [OF J])
  fix entry e found name ci earned srv'
  assume e: "map_option user_id entry = session_owner req srv" "entry = Some e"
    and run: "(if earned = chal_total_points (g_challengedb ! ci) \<and> user_id e \<noteq> 0
      then award_user srv (user_id e) (name @ [0]) earned else Inr srv) = Inr srv'"
  have own: "session_owner req srv = Some (user_id e)" using e by simp
  show "isolated k (session_owner req srv) srv srv'"
    using run award_isolated [OF J own] isolated_refl [OF J] by (auto split: if_splits)
qed

section \<open>Every request\<close>

lemma handler_isolated:
  assumes "stores_wf srv" and "req_shape req" and "number_unused k srv"
  shows "ensures (isolated k (session_owner req srv) srv) (route_handler r k req srv)"
  using readers_isolated [OF assms(1,2)] openers_isolated [OF assms(1,3)] delete_isolated [OF assms(1,2)]
    update_isolated [OF assms(1,2)] verify_isolated [OF assms(1,2)]
  by (cases r) simp_all

lemma request_isolated:
  assumes J: "stores_wf srv" and shape: "req_shape req" and new: "number_unused k srv"
    and run: "cg_route_map_reply m k req srv = Inr (req', srv')"
  shows "isolated k (session_owner req srv) srv srv'"
proof -
  have same: "stores_wf (cleared srv)" "number_unused k (cleared srv)"
      "session_owner (terminated req) (cleared srv) = session_owner req srv"
      "isolated k own (cleared srv) s = isolated k own srv s" for own s
    using J new
    by (simp_all add: cleared_def terminated_def stores_wf_def number_unused_def session_owner_def isolated_def
        request_session_def get_session_id_def)
  note H = terminated_shape [OF shape]
  obtain entry srv2 tx where s: "(case entry of None \<Rightarrow> cg_route_not_found k (terminated req) (cleared srv)
      | Some r \<Rightarrow> route_handler r k (terminated req) (cleared srv)) = Inr srv2" and srv': "srv' = srv2\<lparr>srv_tx := tx\<rparr>"
    using map_reply_runs [OF shape run] by blast
  have "isolated k (session_owner req srv) srv srv2"
    using s ensuresD [OF handler_isolated [OF same(1) H same(2)]] ensuresD [OF readers_isolated(1) [OF same(1) H], of k]
    unfolding same(3,4) by (cases entry) simp_all
  then show ?thesis by (simp add: srv')
qed

end
