(* ===== verification/CG_Consistent.thy ===== *)
theory CG_Consistent
  imports CG_Isolated CG_Turn
begin

text \<open>
  The stores while the server runs: in every state that program and kernel reach, sessions and
  accounts are consistent, as long as the random numbers that the kernel gave on the way differ
  from one another and from the numbers that were in use.
\<close>

section \<open>What a step does to the stores\<close>

abbreviation same_stores :: "app \<Rightarrow> app \<Rightarrow> bool" where
  "same_stores app app' \<equiv> g_sessiondb app' = g_sessiondb app \<and> g_userdb app' = g_userdb app"

definition served :: "kernel \<Rightarrow> app \<Rightarrow> app \<Rightarrow> bool" where
  "served k app app' \<longleftrightarrow> (\<exists>m req req' fcgi srv. req_shape req \<and>
     cg_route_map_reply m k req (client_server app fcgi) = Inr (req', srv) \<and>
     g_sessiondb app' = srv_sessiondb srv \<and> g_userdb app' = srv_userdb srv)"

lemma read_done_stores:
  assumes ok: "client_ok (g_cli_ctx_pool app ! i)"
    and res: "unat (meta_valid (rx_buf_meta (fcgi_cli_ctx (g_cli_ctx_pool app ! i)))) + unat res \<le> 65790"
    and run: "client_read_done lay k i res app = Inr app'"
  shows "same_stores app app' \<or> served k app app'"
proof -
  let ?c = "g_cli_ctx_pool app ! i"
  let ?rx = "rx_buf_meta (fcgi_cli_ctx ?c)"
  let ?in = "?rx\<lparr>meta_valid := meta_valid ?rx + res, meta_pos := 0\<rparr>"
  note ok' = ok [unfolded client_ok_def Let_def]
  have "unat (meta_valid ?rx + res) = unat (meta_valid ?rx) + unat res" by (rule unat_add_small) (use res in simp)
  then have slack: "rx_slack 0 ?in" using ok' res by (simp add: rx_slack_def)
  obtain rx req hdr status buf where p: "cg_fastcgi_parse ?in (cli_req ?c) (saved_hdr (fcgi_cli_ctx ?c)) = Inr (rx, req, hdr, status)"
    and b: "(if 0 < meta_valid rx - meta_pos rx \<and> 0 < meta_pos rx then
        slide_buf (unat (lay_rx_buf lay i)) (meta_buf rx) (unat (meta_pos rx)) (unat (meta_valid rx - meta_pos rx))
      else Inr (meta_buf rx)) = Inr buf"
    using run by (fastforce simp: client_read_done_def Let_def cbind_eq_Inr)
  have shape: "req_shape req" using parse_returns(3) [OF slack _ p] ok' by simp
  show ?thesis
  proof (cases "status = 0")
    case True
    then obtain fcgi req' srv where "cg_route_map_reply (g_route_map app) k req (client_server app fcgi) = Inr (req', srv)"
        "g_sessiondb app' = srv_sessiondb srv" "g_userdb app' = srv_userdb srv"
      using run p b by (auto simp: client_read_done_def Let_def cbind_eq_Inr)
    then show ?thesis using shape unfolding served_def by blast
  next
    case False
    then have "same_stores app app'" using run p b by (auto simp: client_read_done_def Let_def cbind_eq_Inr)
    then show ?thesis by simp
  qed
qed

lemma client_stores:
  assumes ok: "client_ok (g_cli_ctx_pool app ! i)" and op: "op_of lay i (g_cli_ctx_pool app ! i) = Some e"
    and c: "answer e c" and run: "cg_main_client_cqe_handle lay k i c app = Inr app'"
  shows "same_stores app app' \<or> served k app app'"
proof (cases "fcli_state (fcgi_cli_ctx (g_cli_ctx_pool app ! i)) = CG_FASTCGI_CLIENT_STATE_READ_CQE \<and> 0 < sint (cqe_res c)")
  case True
  then have e: "sqe_opcode e = IORING_OP_READ" using op by (auto simp: op_of_def Let_def)
  note len = op_read(2) [OF ok op this]
  have "unat (cqe_res c) \<le> unat (sqe_len e)"
    using c e True sint_positive [of "cqe_res c"] by (simp add: answer_def flip: of_nat_le_iff [where ?'a = int])
  moreover have "client_read_done lay k i (cqe_res c) app = Inr app'"
    using run True by (simp add: cg_main_client_cqe_handle_def Let_def)
  moreover have "unat (meta_valid (rx_buf_meta (fcgi_cli_ctx (g_cli_ctx_pool app ! i)))) \<le> 65790"
    using ok by (simp add: client_ok_def Let_def)
  ultimately show ?thesis using read_done_stores [OF ok, of "cqe_res c" lay k app'] len by simp
next
  case False
  then have "same_stores app app'"
    using run unfolding cg_main_client_cqe_handle_def Let_def
    by (cases "fcli_state (fcgi_cli_ctx (g_cli_ctx_pool app ! i))")
      (auto simp: set_fcgi_def release_def client_write_done_def Let_def split: if_splits)
  then show ?thesis by simp
qed

lemma log_stores: "log_ts level line msg k app = Inr app' \<Longrightarrow> same_stores app app'"
  by (auto simp: log_ts_def cbind_eq_Inr emit_def split: prod.splits)

lemma enqueue_stores: "enqueue f app = Inr app' \<Longrightarrow> same_stores app app'"
  by (auto simp: enqueue_def Let_def cbind_eq_Inr emit_def split: if_splits prod.splits)

lemma tick_stores: "cg_main_timestamp_tick lay k app = Inr app' \<Longrightarrow> same_stores app app'"
  by (auto simp: cg_main_timestamp_tick_def cbind_eq_Inr dest!: enqueue_stores)

lemma listener_stores: "ensures (same_stores app) (cg_main_fastcgi_cqe_handle k c app)"
  unfolding cg_main_fastcgi_cqe_handle_def
  by (cases "fctx_state (g_fastcgi_ctx app)"; simp only: cg_fastcgi_state.case; intro keeps)
    (auto simp: emit_def Let_def dest!: log_stores)

lemma listen_stores: "cg_main_fastcgi_state_handle lay k app = Inr app' \<Longrightarrow> same_stores app app'"
  by (auto simp: cg_main_fastcgi_state_handle_def cbind_eq_Inr dest!: log_stores enqueue_stores split: if_splits)

lemma client_state_stores: "cg_main_client_state_handle lay i app = Inr app' \<Longrightarrow> same_stores app app'"
  unfolding cg_main_client_state_handle_def Let_def
  by (auto split: cg_fastcgi_client_state.splits if_splits simp: release_def set_fcgi_def dest!: enqueue_stores)

lemma handle_stores:
  assumes lay: "layout_ok lay" and inv: "sys_inv lay s" and ne: "completions (sys_ctx s) \<noteq> []"
    and run: "dispatch_cqe lay k (hd (completions (sys_ctx s))) (sys_app s) = Inr app"
  shows "same_stores (sys_app s) app \<or> served k (sys_app s) app"
proof -
  let ?c = "hd (completions (sys_ctx s))"
  let ?i = "lay_client_at lay (CG_UNTAG_PTR (cqe_user_data ?c))"
  show ?thesis
  proof (cases "CG_GET_TAG (cqe_user_data ?c) = CG_TAG_CLIENT")
    case True
    then have i: "?i < CG_MAX_CLIENTS" and h: "cg_main_client_cqe_handle lay k ?i ?c (sys_app s) = Inr app"
      using run tags_above sys_invD(2) [OF inv] by (auto simp: dispatch_cqe_def Let_def split: if_splits)
    obtain e where "op_of lay ?i (sys_pool s ! ?i) = Some e" "answer e ?c"
      using client_completion [OF inv i ne client_tag_of [OF lay True i]] by blast
    from client_stores [OF sys_invD(3) [OF inv i] this h] show ?thesis .
  next
    case False
    then have "same_stores (sys_app s) app"
      using run tick_stores ensuresD [OF listener_stores] by (auto simp: dispatch_cqe_def Let_def split: if_splits)
    then show ?thesis by simp
  qed
qed

section \<open>Runs, with the numbers that the kernel gave\<close>

text \<open>
  A run lists the random numbers of its handled completions; every other step leaves the stores
  alone. Each state that is reached is reached by a run.
\<close>

inductive sys_run :: "layout \<Rightarrow> system \<Rightarrow> u64 list \<Rightarrow> system \<Rightarrow> bool" for lay s where
  run_start: "sys_run lay s [] s"
| run_quiet: "sys_run lay s ns s1 \<Longrightarrow> sys_step lay s1 s2 \<Longrightarrow> same_stores (sys_app s1) (sys_app s2) \<Longrightarrow> sys_run lay s ns s2"
| run_handle: "sys_run lay s ns s1 \<Longrightarrow> completions (sys_ctx s1) \<noteq> [] \<Longrightarrow> found_room (sq_head s1) (sys_app s1) app \<Longrightarrow>
     dispatch_cqe lay k (hd (completions (sys_ctx s1))) (sys_app s1) = Inr app \<Longrightarrow>
     sys_run lay s (ns @ [kernel_number k]) (s1\<lparr>sys_app := discarded app\<rparr>)"

lemma read_into_stores: "same_stores app (read_into lay e bs app)"
  by (simp add: read_into_def set_fcgi_def Let_def)

lemma step_extends_run:
  assumes run: "sys_run lay s ns s1" and step: "sys_step lay s1 s2"
  shows "\<exists>ns. sys_run lay s ns s2"
  using step
proof (cases rule: sys_step_cases)
  case (program_handle k app)
  then show ?thesis using run_handle [OF run] by blast
next
  case (kernel_complete es e es' c bs)
  then show ?thesis using run_quiet [OF run step] read_into_stores by (auto simp: completes_def)
next
  case (program_client i app)
  then show ?thesis using run_quiet [OF run step] client_state_stores by auto
next
  case (program_listen k app)
  then show ?thesis using run_quiet [OF run step] listen_stores by auto
qed (use run_quiet [OF run step] in \<open>auto simp: completes_def\<close>)

lemma reachable_by_run:
  assumes "(sys_step lay)\<^sup>*\<^sup>* s s'"
  shows "\<exists>ns. sys_run lay s ns s'"
  using assms
proof induction
  case base
  show ?case using run_start by blast
next
  case (step s1 s2)
  then show ?case using step_extends_run by blast
qed

lemma run_reachable: "sys_run lay s ns s' \<Longrightarrow> (sys_step lay)\<^sup>*\<^sup>* s s'"
proof (induction rule: sys_run.induct)
  case (run_handle ns s1 app k)
  from sys_step_handle [OF run_handle(2,3,4)] show ?case using run_handle.IH by simp
qed simp_all

section \<open>The invariant\<close>

definition stores_ok :: "app \<Rightarrow> bool" where
  "stores_ok app \<longleftrightarrow> pred_option sessiondb_wf (g_sessiondb app) \<and> pred_option userdb_wf (g_userdb app)"

definition sessions :: "app \<Rightarrow> u64 \<Rightarrow> u32 option" where
  "sessions app sid = Option.bind (g_sessiondb app) (\<lambda>db. sess_abs db sid)"

lemma sessions_Some: "g_sessiondb app = Some db \<Longrightarrow> sessions app = sess_abs db"
  and sessions_None: "g_sessiondb app = None \<Longrightarrow> sessions app = Map.empty"
  by (simp_all add: sessions_def fun_eq_iff)

lemma served_keeps:
  assumes "served k app app'" and "stores_ok app" and "sessions app (kernel_number k) = None"
  shows "stores_ok app'" and "sessions app \<subseteq>\<^sub>m sessions app'"
    and "dom (sessions app') \<subseteq> insert (kernel_number k) (dom (sessions app))"
proof -
  obtain m req req' fcgi srv where r: "req_shape req" "cg_route_map_reply m k req (client_server app fcgi) = Inr (req', srv)"
      "g_sessiondb app' = srv_sessiondb srv" "g_userdb app' = srv_userdb srv"
    using assms(1) by (auto simp: served_def)
  have "stores_wf (client_server app fcgi)" "number_unused k (client_server app fcgi)"
    using assms(2,3) by (auto simp: stores_wf_def stores_ok_def number_unused_def sessions_def client_server_def
        split: bind_splits option.splits)
  from request_isolated [OF this(1) r(1) this(2) r(2)]
  have i: "stores_wf srv" "rel_option (session_added (kernel_number k)) (g_sessiondb app) (g_sessiondb app')"
    by (simp_all add: isolated_def client_server_def r(3))
  show "stores_ok app'" using i(1) r(3,4) by (simp add: stores_ok_def stores_wf_def)
  have "sessions app' = sessions app \<or> (\<exists>u. sessions app' = (sessions app)(kernel_number k \<mapsto> u))"
    using i(2) by (cases "g_sessiondb app"; cases "g_sessiondb app'") (auto simp: sessions_Some sessions_None session_added_def)
  then show "sessions app \<subseteq>\<^sub>m sessions app'" "dom (sessions app') \<subseteq> insert (kernel_number k) (dom (sessions app))"
    using assms(3) by (auto simp: map_le_def)
qed

lemma run_keeps_stores:
  assumes "sys_run lay s ns s'" and "layout_ok lay" and "sys_inv lay s" and "stores_ok (sys_app s)"
    and "distinct ns" and "set ns \<inter> dom (sessions (sys_app s)) = {}"
  shows "stores_ok (sys_app s') \<and> sessions (sys_app s) \<subseteq>\<^sub>m sessions (sys_app s') \<and>
    dom (sessions (sys_app s')) \<subseteq> set ns \<union> dom (sessions (sys_app s))"
  using assms(1,5,6)
proof (induction rule: sys_run.induct)
  case run_start
  then show ?case using assms(4) by simp
next
  case (run_quiet ns s1 s2)
  then have "sessions (sys_app s2) = sessions (sys_app s1)" "stores_ok (sys_app s2) = stores_ok (sys_app s1)"
    by (simp_all add: sessions_def stores_ok_def fun_eq_iff)
  then show ?case using run_quiet by simp
next
  case (run_handle ns s1 app k)
  have IH: "stores_ok (sys_app s1)" "sessions (sys_app s) \<subseteq>\<^sub>m sessions (sys_app s1)"
      "dom (sessions (sys_app s1)) \<subseteq> set ns \<union> dom (sessions (sys_app s))"
    using run_handle.IH run_handle.prems by auto
  have inv: "sys_inv lay s1" using sys_inv_reachable [OF assms(2) run_reachable [OF run_handle(1)] assms(3)] .
  have new: "sessions (sys_app s1) (kernel_number k) = None" using IH(3) run_handle.prems by auto
  have same: "sessions (discarded app) = sessions app" "stores_ok (discarded app) = stores_ok app"
    by (simp_all add: sessions_def stores_ok_def fun_eq_iff)
  from handle_stores [OF assms(2) inv run_handle(2,4)] show ?case
  proof
    assume "same_stores (sys_app s1) app"
    then have "sessions app = sessions (sys_app s1)" "stores_ok app = stores_ok (sys_app s1)"
      by (simp_all add: sessions_def stores_ok_def fun_eq_iff)
    then show ?thesis using IH same by auto
  next
    assume "served k (sys_app s1) app"
    from served_keeps [OF this IH(1) new] show ?thesis using IH same map_le_trans [OF IH(2)] by auto
  qed
qed

end
