(* ===== verification/CG_Request.thy ===== *)
theory CG_Request
  imports CG_Fastcgi
begin

text \<open>
  A whole request on the wire: the records that a web server sends for it, what they say, what the
  parser makes of all of them, and where it stops when only a part is there.
\<close>

section \<open>Records and their meaning\<close>

text \<open>What a record says. The first three bytes of the content of \<open>BEGIN_REQUEST\<close> are the role and the flags.\<close>

datatype event =
    Begin "byte list"
  | Params "(byte list \<times> byte list) list"
  | Data "byte list"
  | Other byte "byte list"
  | Finish

fun ev_type :: "event \<Rightarrow> byte" where
  "ev_type (Begin c) = CG_FASTCGI_BEGIN_REQUEST"
| "ev_type (Params ps) = CG_FASTCGI_PARAMS"
| "ev_type (Data bs) = CG_FASTCGI_STDIN"
| "ev_type (Other t c) = t"
| "ev_type Finish = CG_FASTCGI_STDIN"

fun ev_content :: "event \<Rightarrow> byte list" where
  "ev_content (Begin c) = c"
| "ev_content (Params ps) = enc_pairs ps"
| "ev_content (Data bs) = bs"
| "ev_content (Other t c) = c"
| "ev_content Finish = []"

fun ev_ok :: "event \<times> byte list \<Rightarrow> bool" where
  "ev_ok (ev, pad) \<longleftrightarrow> length (ev_content ev) < 65536 \<and> length pad < 256 \<and>
     (case ev of Begin c \<Rightarrow> 3 \<le> length c | Data bs \<Rightarrow> bs \<noteq> []
      | Other t c \<Rightarrow> t \<notin> {0, CG_FASTCGI_BEGIN_REQUEST, CG_FASTCGI_PARAMS, CG_FASTCGI_STDIN} | _ \<Rightarrow> True)"

definition be16 :: "u16 \<Rightarrow> byte list" where
  "be16 w = rev (store_u16 w)"

definition ev_header :: "u16 \<Rightarrow> event \<times> byte list \<Rightarrow> byte list" where
  "ev_header rid r = [1, ev_type (fst r)] @ be16 rid @ be16 (word_of_nat (length (ev_content (fst r)))) @
     [word_of_nat (length (snd r)), 0]"

definition ev_payload :: "event \<times> byte list \<Rightarrow> byte list" where
  "ev_payload r = ev_content (fst r) @ snd r"

definition ev_bytes :: "u16 \<Rightarrow> event \<times> byte list \<Rightarrow> byte list" where
  "ev_bytes rid r = ev_header rid r @ ev_payload r"

text \<open>What the handlers will see of a request, and what a record does to it.\<close>

record request_text =
  rt_id :: u16
  rt_keep :: byte
  rt_texts :: req_view
  rt_body :: "byte list"

definition request_text :: "cg_client_req \<Rightarrow> request_text" where
  "request_text req = \<lparr>rt_id = req_id req, rt_keep = keep_alive req, rt_texts = view_req req,
     rt_body = take (unat (stdin_len req)) (stdin_buf req)\<rparr>"

fun ev_effect :: "u16 \<Rightarrow> event \<Rightarrow> request_text \<Rightarrow> request_text" where
  "ev_effect rid (Begin c) rt = \<lparr>rt_id = bswap16 rid, rt_keep = c ! 2 AND 1,
     rt_texts = (case rt_texts rt of (u, m, s) \<Rightarrow> (u, m, [])), rt_body = []\<rparr>"
| "ev_effect rid (Params ps) rt = rt\<lparr>rt_texts := fold view_pair ps (rt_texts rt)\<rparr>"
| "ev_effect rid (Data bs) rt =
     (if length (rt_body rt) + length bs < 4096 then rt\<lparr>rt_body := rt_body rt @ bs\<rparr> else rt)"
| "ev_effect rid (Other t c) rt = rt"
| "ev_effect rid Finish rt = rt"

lemma length_ev_header [simp]: "length (ev_header rid r) = 8"
  by (simp add: ev_header_def be16_def store_u16_def)

lemma bswap16_be: "bswap16 (load_u16 (ucast (drop_bit 8 w)) (ucast w)) = w"
proof (rule bit_word_eqI)
  fix i assume "i < LENGTH(16)"
  then have "i < 8 \<or> 8 \<le> i \<and> i < 16" by fastforce
  then show "bit (bswap16 (load_u16 (ucast (drop_bit 8 w)) (ucast w))) i = bit w i"
    by (auto simp: bswap16_def load_u16_def bit_simps bit_byte_high)
qed

lemma load_be: "load_u16 (ucast (drop_bit 8 w)) (ucast w) = bswap16 w"
proof (rule bit_word_eqI)
  fix i assume "i < LENGTH(16)"
  then have "i < 8 \<or> 8 \<le> i \<and> i < 16" by fastforce
  then show "bit (load_u16 (ucast (drop_bit 8 w)) (ucast w)) i = bit (bswap16 w) i"
    by (auto simp: bswap16_def load_u16_def bit_simps bit_byte_high bit_u16_high)
qed

lemma load_ev_header:
  "load_header (ev_header rid r) =
     \<lparr>hdr_version = 1, hdr_type = ev_type (fst r), hdr_request_id = bswap16 rid,
      hdr_content_len = bswap16 (word_of_nat (length (ev_content (fst r)))),
      hdr_padding_len = word_of_nat (length (snd r)), hdr_reserved = 0\<rparr>"
  by (simp add: load_header_def ev_header_def be16_def store_u16_def load_be)

lemma bswap16_twice: "bswap16 (bswap16 w) = w"
  by (metis bswap16_be load_be)

section \<open>What the parser has not read yet\<close>

definition unread :: "cg_buffer_metadata \<Rightarrow> byte list" where
  "unread meta = take (leftover meta) (drop (unat (meta_pos meta)) (meta_buf meta))"

lemma length_unread: "rx_slack k meta \<Longrightarrow> length (unread meta) = leftover meta"
  by (auto simp: unread_def leftover_def rx_slack_def word_le_nat_alt)

lemma leftover_sub: "rx_slack k meta \<Longrightarrow> unat (meta_valid meta - meta_pos meta) = leftover meta"
  by (simp add: rx_slack_def unat_sub leftover_def)

lemma unread_advance:
  assumes rx: "rx_slack k meta" and split: "unread meta = xs @ ys" and n: "length xs = unat n"
  shows "\<not> meta_valid meta - meta_pos meta < n" "rx_slack k (meta\<lparr>meta_pos := meta_pos meta + n\<rparr>)"
    "unread (meta\<lparr>meta_pos := meta_pos meta + n\<rparr>) = ys"
    "take (unat n) (drop (unat (meta_pos meta)) (meta_buf meta)) = xs"
proof -
  have l: "leftover meta = unat n + length ys" using length_unread [OF rx] split n by simp
  show nl: "\<not> meta_valid meta - meta_pos meta < n" using leftover_sub [OF rx] l by (simp add: word_less_nat_alt)
  show "rx_slack k (meta\<lparr>meta_pos := meta_pos meta + n\<rparr>)" by (rule rx_advance(2) [OF rx nl])
  have p: "unat (meta_pos meta + n) = unat (meta_pos meta) + unat n" by (rule rx_advance(1) [OF rx nl])
  have "unread (meta\<lparr>meta_pos := meta_pos meta + n\<rparr>) = drop (unat n) (unread meta)"
    by (simp add: unread_def leftover_def p drop_take) (simp add: add.commute)
  then show "unread (meta\<lparr>meta_pos := meta_pos meta + n\<rparr>) = ys" using split n by simp
  have "take (unat n) (unread meta) = xs" using split n by simp
  then show "take (unat n) (drop (unat (meta_pos meta)) (meta_buf meta)) = xs"
    using l by (simp add: unread_def min_def)
qed

section \<open>One record\<close>

text \<open>What the parameters and the body leave alone.\<close>

definition frame_params :: "cg_client_req \<Rightarrow> cg_client_req \<Rightarrow> bool" where
  "frame_params req req' \<longleftrightarrow> req_id req' = req_id req \<and> keep_alive req' = keep_alive req \<and>
     stdin_len req' = stdin_len req \<and> stdin_buf req' = stdin_buf req"

lemma params_pair_frame: "params_pair req name n_len val v_len = Inr req' \<Longrightarrow> frame_params req req'"
  by (auto simp: params_pair_def frame_params_def cbind_eq_Inr Let_def split: if_splits)

lemma params_loop_frame:
  assumes "params_loop req payload cl p = Some r"
  shows "\<forall>req'. r = Inr req' \<longrightarrow> frame_params req req'"
proof (rule params_loop.raw_induct [OF _ assms])
  fix f req payload cl p r
  assume IH: "\<And>req payload cl p r. f req payload cl p = Some r \<Longrightarrow> \<forall>req'. r = Inr req' \<longrightarrow> frame_params req req'"
    and step: "(if p < cl then
        (case cg_fastcgi_len payload p cl of Inl e \<Rightarrow> Some (Inl e)
         | Inr (n_len, p1) \<Rightarrow> (case cg_fastcgi_len payload p1 cl of Inl e \<Rightarrow> Some (Inl e)
           | Inr (v_len, p2) \<Rightarrow>
              if cl < p2 + n_len + v_len then Some (Inr req)
              else (case params_pair req (drop (unat p2) payload) n_len
                         (drop (unat (p2 + n_len)) payload) v_len of
                 Inl e \<Rightarrow> Some (Inl e) | Inr req' \<Rightarrow> f req' payload cl (p2 + n_len + v_len))))
      else Some (Inr req)) = Some r"
  have refl: "frame_params req req" by (simp add: frame_params_def)
  have trans: "frame_params req r1 \<Longrightarrow> frame_params r1 r2 \<Longrightarrow> frame_params req r2" for r1 r2 by (simp add: frame_params_def)
  show "\<forall>req'. r = Inr req' \<longrightarrow> frame_params req req'"
    using step refl by (auto split: if_splits sum.splits prod.splits dest!: IH params_pair_frame intro: trans)
qed

lemma handle_params_frame: "cg_fastcgi_handle_params req payload cl = Inr req' \<Longrightarrow> frame_params req req'"
  using params_loop_frame [of req payload "ucast cl" 0]
  by (auto simp: cg_fastcgi_handle_params_def returns_or_diverges_def split: option.splits)

lemma handle_stdin_frame:
  "cg_fastcgi_handle_stdin req cl payload = Inr (req', s) \<Longrightarrow>
   req_id req' = req_id req \<and> keep_alive req' = keep_alive req \<and> view_req req' = view_req req"
  by (auto simp: cg_fastcgi_handle_stdin_def cbind_eq_Inr Let_def view_req_def split: if_splits)

definition ev_total :: "event \<times> byte list \<Rightarrow> u32" where
  "ev_total r = ucast (word_of_nat (length (ev_content (fst r))) :: u16) + ucast (word_of_nat (length (snd r)) :: byte)"

lemma unat_ev_total:
  assumes "ev_ok r"
  shows "unat (ev_total r) = length (ev_payload r)"
    "unat (word_of_nat (length (ev_content (fst r))) :: u16) = length (ev_content (fst r))"
proof -
  obtain ev pad where r: "r = (ev, pad)" by (cases r)
  have c: "length (ev_content ev) < 65536" "length pad < 256" using assms r by simp_all
  then have u: "unat (word_of_nat (length (ev_content ev)) :: u16) = length (ev_content ev)"
      "unat (word_of_nat (length pad) :: byte) = length pad" by (simp_all add: unat_of_nat)
  then show "unat (word_of_nat (length (ev_content (fst r))) :: u16) = length (ev_content (fst r))" using r by simp
  show "unat (ev_total r) = length (ev_payload r)"
    unfolding ev_total_def r fst_conv snd_conv ev_payload_def using c u
    by (subst unat_add_small) (simp_all add: unat_ucast_up)
qed

lemma begin_text:
  assumes "req_shape req" and "3 \<le> length c" and "take (length c) payload = c"
  shows "\<exists>req'. cg_fastcgi_handle_begin_request req hdr payload = Inr req' \<and> req_shape req' \<and>
    request_text req' = \<lparr>rt_id = hdr_request_id hdr, rt_keep = c ! 2 AND 1,
      rt_texts = (case view_req req of (u, m, s) \<Rightarrow> (u, m, [])), rt_body = []\<rparr>"
proof -
  have "length c \<le> length payload" using assms(3) by (metis length_take min.cobounded1)
  then have "2 < length payload" using assms(2) by simp
  moreover have "payload ! 2 = c ! 2" using assms(2,3) by (metis nth_take Suc_le_lessD numeral_2_eq_2 numeral_3_eq_3)
  ultimately show ?thesis
    using begin_request_ok [OF assms(1), of payload hdr] by (auto simp: request_text_def view_req_def)
qed

lemma record_handled:
  assumes rx: "rx_slack k meta" and shape: "req_shape req" and ok: "ev_ok r"
    and bytes: "unread meta = ev_payload r @ rest"
  shows "\<exists>req'. parse_record meta req (load_header (ev_header rid r)) =
      Inr (meta\<lparr>meta_pos := meta_pos meta + ev_total r\<rparr>, req', (load_header (ev_header rid r))\<lparr>hdr_type := 0\<rparr>,
        if fst r = Finish then Some 0 else None) \<and>
    req_shape req' \<and> request_text req' = ev_effect rid (fst r) (request_text req)"
proof -
  obtain ev pad where r: "r = (ev, pad)" by (cases r)
  let ?payload = "drop (unat (meta_pos meta)) (meta_buf meta)"
  let ?cl = "word_of_nat (length (ev_content ev)) :: u16"
  have cl: "unat ?cl = length (ev_content ev)" using unat_ev_total(2) [OF ok] r by simp
  note adv = unread_advance [OF rx bytes unat_ev_total(1) [OF ok, symmetric]]
  have "take (length (ev_content ev)) (take (unat (ev_total r)) ?payload) = ev_content ev"
    unfolding adv(4) by (simp add: ev_payload_def r)
  then have content: "take (length (ev_content ev)) ?payload = ev_content ev"
    using unat_ev_total(1) [OF ok] by (simp add: ev_payload_def r min_def)
  then have len: "length (ev_content ev) \<le> length ?payload" by (metis length_take min.cobounded1)
  have hdr: "parse_record meta req (load_header (ev_header rid r)) =
      (let hdr = load_header (ev_header rid r); meta' = meta\<lparr>meta_pos := meta_pos meta + ev_total r\<rparr> in
       if ev_type ev = CG_FASTCGI_BEGIN_REQUEST then
         cbind (cg_fastcgi_handle_begin_request req hdr ?payload) (\<lambda>req. Inr (meta', req, hdr\<lparr>hdr_type := 0\<rparr>, None))
       else if ev_type ev = CG_FASTCGI_PARAMS then
         cbind (cg_fastcgi_handle_params req ?payload ?cl) (\<lambda>req. Inr (meta', req, hdr\<lparr>hdr_type := 0\<rparr>, None))
       else if ev_type ev = CG_FASTCGI_STDIN then
         cbind (cg_fastcgi_handle_stdin req ?cl ?payload) (\<lambda>(req, status).
           Inr (meta', req, hdr\<lparr>hdr_type := 0\<rparr>, if status = 0 then Some 0 else None))
       else Inr (meta', req, hdr\<lparr>hdr_type := 0\<rparr>, None))"
    using adv(1) by (simp add: parse_record_def load_ev_header Let_def bswap16_twice ev_total_def r)
  show ?thesis
  proof (cases ev)
    case (Begin c)
    then have "3 \<le> length c" "take (length c) ?payload = c" using ok content r by simp_all
    from begin_text [OF shape this, of "load_header (ev_header rid r)"] show ?thesis
      unfolding hdr using Begin r by (auto simp: load_ev_header request_text_def Let_def)
  next
    case (Params ps)
    then obtain req' where "cg_fastcgi_handle_params req ?payload ?cl = Inr req'" "req_shape req'"
        "view_req req' = fold view_pair ps (view_req req)"
      using handle_params_enc [OF shape, of ?cl ?payload ps] content cl len by auto
    moreover from this(1) have "frame_params req req'" by (rule handle_params_frame)
    ultimately show ?thesis unfolding hdr using Params r by (simp add: request_text_def Let_def frame_params_def)
  next
    case (Data bs)
    have "length bs < 65536" "bs \<noteq> []" using ok Data r by simp_all
    then have "?cl \<noteq> 0" using cl Data by (metis ev_content.simps(3) length_0_conv unat_eq_0)
    have "unat ?cl \<le> length ?payload" using cl len by simp
    from handle_stdin_safe [OF shape this] \<open>?cl \<noteq> 0\<close> obtain req' where
      req': "cg_fastcgi_handle_stdin req ?cl ?payload = Inr (req', 1)" "req_shape req'"
      "take (unat (stdin_len req')) (stdin_buf req') = take (unat (stdin_len req)) (stdin_buf req) @
        (if unat (stdin_len req) + unat ?cl < 4096 then take (unat ?cl) ?payload else [])"
      by (auto simp del: of_nat_eq_0_iff)
    note frame = handle_stdin_frame [OF req'(1)]
    have "length (take (unat (stdin_len req)) (stdin_buf req)) = unat (stdin_len req)"
      using shape by (simp add: req_shape_def)
    then show ?thesis unfolding hdr using Data r req' frame content cl by (auto simp: request_text_def Let_def)
  next
    case (Other t c)
    then show ?thesis unfolding hdr using ok r shape by (simp add: Let_def)
  next
    case Finish
    then show ?thesis unfolding hdr using r shape by (simp add: Let_def cg_fastcgi_handle_stdin_def)
  qed
qed

section \<open>A request in one piece\<close>

text \<open>
  The bytes that are still to come for a list of records, before the parser starts on the first
  of them or after it has taken its header.
\<close>

definition expects :: "u16 \<Rightarrow> (event \<times> byte list) list \<Rightarrow> cg_fastcgi_header \<Rightarrow> byte list \<Rightarrow> bool" where
  "expects rid rs hdr bytes \<longleftrightarrow> (\<forall>r \<in> set rs. ev_ok r) \<and>
     (hdr_type hdr = 0 \<and> bytes = concat (map (ev_bytes rid) rs) \<or>
      (\<exists>r rs'. rs = r # rs' \<and> hdr = load_header (ev_header rid r) \<and>
         bytes = ev_payload r @ concat (map (ev_bytes rid) rs')))"

abbreviation effects :: "u16 \<Rightarrow> (event \<times> byte list) list \<Rightarrow> request_text \<Rightarrow> request_text" where
  "effects rid rs \<equiv> fold (\<lambda>r. ev_effect rid (fst r)) rs"

lemma ev_type_0: "ev_ok r \<Longrightarrow> ev_type (fst r) \<noteq> 0"
  by (cases r rule: ev_ok.cases) (auto split: event.splits)

lemma expects_start:
  assumes "\<forall>r \<in> set rs. ev_ok r" and "hdr_type hdr = 0"
  shows "expects rid rs hdr (concat (map (ev_bytes rid) rs))"
  using assms by (simp add: expects_def)

text \<open>Taking the header, when it is all there.\<close>

lemma step_takes_header:
  assumes rx: "rx_slack k meta" and h0: "hdr_type hdr = 0" and bytes: "unread meta = ev_header rid r @ ys"
  shows "parse_step meta req hdr = parse_record (meta\<lparr>meta_pos := meta_pos meta + 8\<rparr>) req (load_header (ev_header rid r))"
    "rx_slack k (meta\<lparr>meta_pos := meta_pos meta + 8\<rparr>)" "unread (meta\<lparr>meta_pos := meta_pos meta + 8\<rparr>) = ys"
    "\<not> meta_valid meta - meta_pos meta < 8"
proof -
  have l: "length (ev_header rid r) = unat (8 :: u32)" by simp
  note adv = unread_advance [OF rx bytes l]
  show "rx_slack k (meta\<lparr>meta_pos := meta_pos meta + 8\<rparr>)" "unread (meta\<lparr>meta_pos := meta_pos meta + 8\<rparr>) = ys"
    "\<not> meta_valid meta - meta_pos meta < 8" using adv by simp_all
  show "parse_step meta req hdr = parse_record (meta\<lparr>meta_pos := meta_pos meta + 8\<rparr>) req (load_header (ev_header rid r))"
    using parse_step_fresh [OF rx h0 adv(1)] adv(4) by simp
qed

text \<open>One whole record, from either state.\<close>

lemma step_whole:
  assumes rx: "rx_slack k meta" and shape: "req_shape req" and ex: "expects rid (r # rs) hdr bytes"
    and un: "unread meta = bytes @ rest"
  shows "\<exists>meta' req' hdr'. parse_step meta req hdr = Inr (meta', req', hdr', if fst r = Finish then Some 0 else None) \<and>
    rx_slack k meta' \<and> same_buffer meta meta' \<and> req_shape req' \<and> hdr_type hdr' = 0 \<and>
    unread meta' = concat (map (ev_bytes rid) rs) @ rest \<and> request_text req' = ev_effect rid (fst r) (request_text req)"
proof -
  have ok: "ev_ok r" using ex by (simp add: expects_def)
  have rec: ?thesis if "parse_step meta req hdr = parse_record m req (load_header (ev_header rid r))" and m: "rx_slack k m"
      "unread m = ev_payload r @ concat (map (ev_bytes rid) rs) @ rest" "same_buffer meta m" for m
  proof -
    note adv = unread_advance [OF m(1,2) unat_ev_total(1) [OF ok, symmetric]]
    have "same_buffer meta (m\<lparr>meta_pos := meta_pos m + ev_total r\<rparr>)"
      using same_buffer_trans [OF m(3) rx_advance(3) [OF m(1) adv(1)]] .
    moreover obtain req' where "parse_record m req (load_header (ev_header rid r)) =
        Inr (m\<lparr>meta_pos := meta_pos m + ev_total r\<rparr>, req', (load_header (ev_header rid r))\<lparr>hdr_type := 0\<rparr>,
          if fst r = Finish then Some 0 else None)" "req_shape req'" "request_text req' = ev_effect rid (fst r) (request_text req)"
      using record_handled [OF m(1) shape ok m(2), of rid] by blast
    ultimately show ?thesis
      using that(1) adv(2,3) by (intro exI [of _ "m\<lparr>meta_pos := meta_pos m + ev_total r\<rparr>"] exI [of _ req']
        exI [of _ "(load_header (ev_header rid r))\<lparr>hdr_type := 0\<rparr>"]) simp
  qed
  from ex consider "hdr_type hdr = 0" "bytes = ev_header rid r @ ev_payload r @ concat (map (ev_bytes rid) rs)"
    | "hdr = load_header (ev_header rid r)" "bytes = ev_payload r @ concat (map (ev_bytes rid) rs)"
    by (auto simp: expects_def ev_bytes_def)
  then show ?thesis
  proof cases
    case 1
    have "unread meta = ev_header rid r @ (ev_payload r @ concat (map (ev_bytes rid) rs) @ rest)" using un 1 by simp
    note h = step_takes_header [OF rx 1(1) this]
    show ?thesis by (rule rec [OF h(1-3)]) (rule rx_advance(3) [OF rx h(4)])
  next
    case 2
    then have "parse_step meta req hdr = parse_record meta req (load_header (ev_header rid r))"
      using ev_type_0 [OF ok] by (simp add: parse_step_saved load_ev_header)
    then show ?thesis by (rule rec) (use rx un 2 in simp_all)
  qed
qed

lemma unread_nonempty: "rx_slack k meta \<Longrightarrow> unread meta \<noteq> [] \<longleftrightarrow> meta_pos meta < meta_valid meta"
  using length_unread [of k meta] by (auto simp: leftover_def word_less_nat_alt simp flip: length_greater_0_conv)

lemma parse_whole:
  assumes rx: "rx_slack k meta" and shape: "req_shape req" and ex: "expects rid (rs @ [(Finish, pad)]) hdr bytes"
    and un: "unread meta = bytes @ rest" and ne: "bytes \<noteq> []" and nf: "Finish \<notin> fst ` set rs"
  shows "\<exists>meta' req' hdr'. parse_loop meta req hdr = Some (Inr (meta', req', hdr', 0)) \<and>
    rx_slack k meta' \<and> same_buffer meta meta' \<and> req_shape req' \<and> hdr_type hdr' = 0 \<and> unread meta' = rest \<and>
    request_text req' = effects rid rs (request_text req)"
  using rx shape ex un ne nf
proof (induction rs arbitrary: meta req hdr bytes)
  case Nil
  have go: "meta_pos meta < meta_valid meta" using unread_nonempty [OF Nil.prems(1)] Nil.prems(4,5) by simp
  from step_whole [OF Nil.prems(1,2), of rid "(Finish, pad)" "[]" hdr bytes rest] Nil.prems(3,4)
  show ?case using go by (subst parse_loop.simps) auto
next
  case (Cons r rs)
  have go: "meta_pos meta < meta_valid meta" using unread_nonempty [OF Cons.prems(1)] Cons.prems(4,5) by simp
  have "expects rid (r # (rs @ [(Finish, pad)])) hdr bytes" using Cons.prems(3) by simp
  from step_whole [OF Cons.prems(1,2) this Cons.prems(4)] obtain meta1 req1 hdr1 where
    s: "parse_step meta req hdr = Inr (meta1, req1, hdr1, None)" "rx_slack k meta1" "same_buffer meta meta1" "req_shape req1"
      "hdr_type hdr1 = 0" "unread meta1 = concat (map (ev_bytes rid) (rs @ [(Finish, pad)])) @ rest"
      "request_text req1 = ev_effect rid (fst r) (request_text req)"
    using Cons.prems(6) by auto
  have ex: "expects rid (rs @ [(Finish, pad)]) hdr1 (concat (map (ev_bytes rid) (rs @ [(Finish, pad)])))"
    using Cons.prems(3) s(5) by (intro expects_start) (auto simp: expects_def)
  have ne: "concat (map (ev_bytes rid) (rs @ [(Finish, pad)])) \<noteq> []" by (simp add: ev_bytes_def ev_header_def)
  have nf: "Finish \<notin> fst ` set rs" using Cons.prems(6) by simp
  have "parse_loop meta req hdr = parse_loop meta1 req1 hdr1" using go s(1) by (subst parse_loop.simps) simp
  then show ?case using Cons.IH [OF s(2,4) ex s(6) ne nf] same_buffer_trans [OF s(3)] s(7) by auto
qed

section \<open>A request in pieces\<close>

lemma split_longer:
  assumes "xs @ ys = got @ coming" and "length xs \<le> length got \<or> length coming \<le> length ys"
  shows "\<exists>g. got = xs @ g \<and> ys = g @ coming"
proof -
  have "length xs + length ys = length got + length coming" using assms(1) by (metis length_append)
  then have "length xs \<le> length got" using assms(2) by linarith
  then show ?thesis using assms(1) by (auto simp: append_eq_append_conv2)
qed

lemma split_shorter:
  assumes "xs @ ys = got @ coming" and "length ys < length coming"
  shows "length got < length xs"
proof -
  have "length xs + length ys = length got + length coming" using assms(1) by (metis length_append)
  then show ?thesis using assms(2) by linarith
qed

text \<open>Where the parser stops for want of bytes: within a header, or behind one, within its content.\<close>

definition short :: "(event \<times> byte list) list \<Rightarrow> cg_fastcgi_header \<Rightarrow> byte list \<Rightarrow> bool" where
  "short rs hdr got \<longleftrightarrow> (if hdr_type hdr = 0 then length got < 8 else length got < length (ev_payload (hd rs)))"

text \<open>How many of the first \<open>n\<close> bytes of the records the parser has then taken: headers and contents as a whole.\<close>

fun taken :: "(event \<times> byte list) list \<Rightarrow> nat \<Rightarrow> nat" where
  "taken [] n = 0"
| "taken (r # rs) n =
     (if n < 8 then 0 else if n < 8 + length (ev_payload r) then 8
      else 8 + length (ev_payload r) + taken rs (n - (8 + length (ev_payload r))))"

abbreviation records_size :: "(event \<times> byte list) list \<Rightarrow> nat" where
  "records_size rs \<equiv> sum_list (map (\<lambda>r. 8 + length (ev_payload r)) rs)"

lemma taken_short:
  assumes "todo \<noteq> []" and "short todo hdr got"
  shows "taken (fin @ todo) (records_size fin + (if hdr_type hdr = 0 then 0 else 8) + length got) =
    records_size fin + (if hdr_type hdr = 0 then 0 else 8)"
proof (induction fin)
  case Nil
  obtain r rs where "todo = r # rs" using assms(1) by (cases todo) auto
  then show ?case using assms(2) by (simp add: short_def split: if_splits)
next
  case (Cons r fin)
  then show ?case by (simp add: algebra_simps)
qed

text \<open>Less than a record: the parser keeps what it has, and what it has taken is the header.\<close>

lemma payload_short:
  assumes rx: "rx_slack k meta" and ok: "ev_ok r" and un: "length (unread meta) < length (ev_payload r)"
  shows "parse_record meta req (load_header (ev_header rid r)) = Inr (meta, req, load_header (ev_header rid r), Some 1)"
proof -
  have "meta_valid meta - meta_pos meta < ev_total r"
    using un unat_ev_total(1) [OF ok] leftover_sub [OF rx] length_unread [OF rx] by (simp add: word_less_nat_alt)
  then show ?thesis
    by (simp add: parse_record_def load_ev_header Let_def bswap16_twice ev_total_def)
qed

lemma step_short:
  assumes rx: "rx_slack k meta" and ex: "expects rid (r # rs) hdr bytes" and un: "unread meta = got"
    and bytes: "bytes = got @ coming" and part: "length coming > length (concat (map (ev_bytes rid) rs))"
  shows "\<exists>meta' hdr' bytes'. parse_step meta req hdr = Inr (meta', req, hdr', Some 1) \<and> rx_slack k meta' \<and>
    same_buffer meta meta' \<and> expects rid (r # rs) hdr' bytes' \<and> bytes' = unread meta' @ coming \<and>
    short (r # rs) hdr' (unread meta')"
proof -
  have ok: "ev_ok r" using ex by (simp add: expects_def)
  let ?tail = "concat (map (ev_bytes rid) rs)" and ?h = "load_header (ev_header rid r)"
  have t: "ev_type (fst r) \<noteq> 0" by (rule ev_type_0 [OF ok])
  from ex consider (fresh) "hdr_type hdr = 0" "bytes = ev_header rid r @ ev_payload r @ ?tail"
    | (saved) "hdr = ?h" "bytes = ev_payload r @ ?tail" by (auto simp: expects_def ev_bytes_def)
  then show ?thesis
  proof cases
    case saved
    then have "length got < length (ev_payload r)" using split_shorter [of "ev_payload r" ?tail got coming] bytes part by simp
    then have "parse_step meta req hdr = Inr (meta, req, hdr, Some 1)"
      using payload_short [OF rx ok] un saved(1) t by (simp add: parse_step_saved load_ev_header)
    moreover have "short (r # rs) hdr (unread meta)"
      using \<open>length got < _\<close> saved(1) un t by (simp add: short_def load_ev_header)
    ultimately show ?thesis using rx ex un bytes by (intro exI [of _ meta] exI [of _ hdr] exI [of _ bytes]) simp
  next
    case fresh
    show ?thesis
    proof (cases "length got < 8")
      case True
      have "meta_valid meta - meta_pos meta < 8"
        using True un leftover_sub [OF rx] length_unread [OF rx] by (simp add: word_less_nat_alt)
      then have "parse_step meta req hdr = Inr (meta, req, hdr, Some 1)" using fresh(1) by (simp add: parse_step_def)
      moreover have "short (r # rs) hdr (unread meta)" using True fresh(1) un by (simp add: short_def)
      ultimately show ?thesis using rx ex un bytes by (intro exI [of _ meta] exI [of _ hdr] exI [of _ bytes]) simp
    next
      case False
      then obtain got2 where got2: "got = ev_header rid r @ got2" "ev_payload r @ ?tail = got2 @ coming"
        using split_longer [of "ev_header rid r" "ev_payload r @ ?tail" got coming] bytes fresh(2) by auto
      let ?m = "meta\<lparr>meta_pos := meta_pos meta + 8\<rparr>"
      have "unread meta = ev_header rid r @ got2" using un got2(1) by simp
      note h = step_takes_header [OF rx fresh(1) this]
      have l: "length (unread ?m) < length (ev_payload r)"
        using split_shorter [OF got2(2) part] h(3) by simp
      then have "parse_step meta req hdr = Inr (?m, req, ?h, Some 1)" using h(1) payload_short [OF h(2) ok] by simp
      moreover have "expects rid (r # rs) ?h (ev_payload r @ ?tail)" using ex by (auto simp: expects_def)
      moreover have "short (r # rs) ?h (unread ?m)" using l t by (simp add: short_def load_ev_header)
      ultimately show ?thesis using h(2,3) rx_advance(3) [OF rx h(4)] got2(2)
        by (intro exI [of _ ?m] exI [of _ ?h] exI [of _ "ev_payload r @ ?tail"]) simp
    qed
  qed
qed

lemma parse_part:
  assumes rx: "rx_slack k meta" and shape: "req_shape req" and ex: "expects rid (rs @ [(Finish, pad)]) hdr bytes"
    and bytes: "bytes = unread meta @ coming" and ne: "coming \<noteq> []" and nf: "Finish \<notin> fst ` set rs"
    and some: "hdr_type hdr = 0 \<or> unread meta \<noteq> []"
  shows "\<exists>meta' req' hdr' fin todo bytes'. parse_loop meta req hdr = Some (Inr (meta', req', hdr', 1)) \<and>
    rx_slack k meta' \<and> same_buffer meta meta' \<and> req_shape req' \<and> rs = fin @ todo \<and>
    expects rid (todo @ [(Finish, pad)]) hdr' bytes' \<and> bytes' = unread meta' @ coming \<and>
    request_text req' = effects rid fin (request_text req) \<and> short (todo @ [(Finish, pad)]) hdr' (unread meta')"
  using rx shape ex bytes nf some
proof (induction rs arbitrary: meta req hdr bytes)
  case Nil
  show ?case
  proof (cases "meta_pos meta < meta_valid meta")
    case False
    then have "parse_loop meta req hdr = Some (Inr (meta, req, hdr, 1))" by (subst parse_loop.simps) simp
    moreover have "short ([] @ [(Finish, pad)]) hdr (unread meta)"
      using False Nil.prems(6) unread_nonempty [OF Nil.prems(1)] by (simp add: short_def)
    ultimately show ?thesis using Nil.prems by fastforce
  next
    case True
    have "length coming > length (concat (map (ev_bytes rid) []))" using ne by simp
    from step_short [OF Nil.prems(1) Nil.prems(3) [simplified] refl Nil.prems(4) this, of req]
    obtain meta' hdr' bytes' where s: "parse_step meta req hdr = Inr (meta', req, hdr', Some 1)" "rx_slack k meta'"
      "same_buffer meta meta'" "expects rid [(Finish, pad)] hdr' bytes'" "bytes' = unread meta' @ coming"
      "short [(Finish, pad)] hdr' (unread meta')" by auto
    then have "parse_loop meta req hdr = Some (Inr (meta', req, hdr', 1))" using True by (subst parse_loop.simps) simp
    then show ?thesis using s Nil.prems(2) by fastforce
  qed
next
  case (Cons r rs)
  let ?rs = "rs @ [(Finish, pad)]" and ?tail = "concat (map (ev_bytes rid) (rs @ [(Finish, pad)]))"
  have ex: "expects rid (r # ?rs) hdr bytes" using Cons.prems(3) by simp
  show ?case
  proof (cases "meta_pos meta < meta_valid meta")
    case False
    then have "parse_loop meta req hdr = Some (Inr (meta, req, hdr, 1))" by (subst parse_loop.simps) simp
    moreover have "short ((r # rs) @ [(Finish, pad)]) hdr (unread meta)"
      using False Cons.prems(6) unread_nonempty [OF Cons.prems(1)] by (simp add: short_def)
    moreover have "r # rs = [] @ (r # rs)" by simp
    ultimately show ?thesis using Cons.prems by fastforce
  next
    case go: True
    show ?thesis
    proof (cases "length coming > length ?tail")
      case True
      from step_short [OF Cons.prems(1) ex refl Cons.prems(4) True, of req]
      obtain meta' hdr' bytes' where s: "parse_step meta req hdr = Inr (meta', req, hdr', Some 1)" "rx_slack k meta'"
        "same_buffer meta meta'" "expects rid (r # ?rs) hdr' bytes'" "bytes' = unread meta' @ coming"
        "short (r # ?rs) hdr' (unread meta')" by auto
      then have "parse_loop meta req hdr = Some (Inr (meta', req, hdr', 1))" using go by (subst parse_loop.simps) simp
      moreover have "r # rs = [] @ (r # rs)" by simp
      ultimately show ?thesis using s Cons.prems(2) by fastforce
    next
      case False
      have ok: "\<forall>r \<in> set (r # ?rs). ev_ok r" using ex by (simp add: expects_def)
      obtain own where own: "bytes = own @ ?tail" "expects rid [r] hdr own"
        using ex ok by (auto simp: expects_def ev_bytes_def)
      with False Cons.prems(4) obtain got where got: "unread meta = own @ got" "?tail = got @ coming"
        using split_longer [of own ?tail "unread meta" coming] by auto
      from step_whole [OF Cons.prems(1,2) own(2) got(1)] obtain meta1 req1 hdr1 where
        s: "parse_step meta req hdr = Inr (meta1, req1, hdr1, None)" "rx_slack k meta1" "same_buffer meta meta1"
          "req_shape req1" "hdr_type hdr1 = 0" "unread meta1 = got" "request_text req1 = ev_effect rid (fst r) (request_text req)"
        using Cons.prems(5) by auto
      have e1: "expects rid ?rs hdr1 ?tail" using ok s(5) by (intro expects_start) auto
      have nf: "Finish \<notin> fst ` set rs" using Cons.prems(5) by simp
      have "?tail = unread meta1 @ coming" using got(2) s(6) by simp
      from Cons.IH [OF s(2,4) e1 this nf] s(5) obtain meta' req' hdr' fin todo bytes' where
        r: "parse_loop meta1 req1 hdr1 = Some (Inr (meta', req', hdr', 1))" "rx_slack k meta'" "same_buffer meta1 meta'"
          "req_shape req'" "rs = fin @ todo" "expects rid (todo @ [(Finish, pad)]) hdr' bytes'" "bytes' = unread meta' @ coming"
          "request_text req' = effects rid fin (request_text req1)" "short (todo @ [(Finish, pad)]) hdr' (unread meta')" by blast
      have "parse_loop meta req hdr = parse_loop meta1 req1 hdr1" using go s(1) by (subst parse_loop.simps) simp
      moreover have "r # rs = (r # fin) @ todo" using r(5) by simp
      moreover have "request_text req' = effects rid (r # fin) (request_text req)" using r(8) s(7) by simp
      ultimately show ?thesis using r same_buffer_trans [OF s(3) r(3)] by metis
    qed
  qed
qed

end
