(* ===== verification/CG_Served.thy ===== *)
theory CG_Served
  imports CG_App CG_Keeps CG_Request
begin

text \<open>
  From the bytes of a request in the receive buffer to the bytes of the answer in the transmit
  buffer: the parser, the dispatch and the handler together, as the event loop runs them.
\<close>

lemma cstr_take: "length (cstr u) \<le> n \<Longrightarrow> cstr (take n u) = cstr u"
proof (induction u arbitrary: n)
  case (Cons a u)
  then show ?case by (cases n) (auto simp: cstr_def split: if_splits)
qed (simp add: cstr_def)

lemma effects_id:
  "rt_id rt = bswap16 rid \<Longrightarrow> rt_id (effects rid rs rt) = bswap16 rid"
proof (induction rs arbitrary: rt)
  case (Cons r rs)
  have "rt_id (ev_effect rid (fst r) rt) = bswap16 rid" using Cons.prems by (cases "fst r") simp_all
  then show ?case using Cons.IH by simp
qed simp

lemma request_id:
  assumes "request_text req' = effects rid ((Begin c, pad) # rs) rt"
  shows "req_id req' = bswap16 rid"
proof -
  have "rt_id (request_text req') = bswap16 rid" unfolding assms by (simp add: effects_id del: ev_effect.simps(2-)) 
  then show ?thesis by (simp add: request_text_def)
qed

text \<open>What comes behind the request stays unread.\<close>

lemma read_request:
  assumes "length (meta_buf rx) = 65790" and "unat valid \<le> 65790" and "req_shape req" and "hdr_type hdr = 0"
    and "\<forall>r \<in> set rs. ev_ok r" and "Finish \<notin> fst ` set rs" and "ev_ok (Finish, pad)"
    and "take (unat valid) (meta_buf rx) = concat (map (ev_bytes rid) (rs @ [(Finish, pad)])) @ rest"
  shows "\<exists>rx' req' hdr'. cg_fastcgi_parse (rx\<lparr>meta_valid := valid, meta_pos := 0\<rparr>) req hdr = Inr (rx', req', hdr', 0) \<and>
    rx_slack 0 rx' \<and> unread rx' = rest \<and> length (meta_buf rx') = 65790 \<and> hdr_type hdr' = 0 \<and> req_shape req' \<and>
    request_text req' = effects rid rs (request_text req)"
proof -
  let ?rx = "rx\<lparr>meta_valid := valid, meta_pos := 0\<rparr>" and ?bytes = "concat (map (ev_bytes rid) (rs @ [(Finish, pad)]))"
  have slack: "rx_slack 0 ?rx" using assms(1,2) by (simp add: rx_slack_def)
  have un: "unread ?rx = ?bytes @ rest" using assms(8) by (simp add: unread_def leftover_def)
  have ne: "?bytes \<noteq> []" by (simp add: ev_bytes_def ev_header_def)
  have "expects rid (rs @ [(Finish, pad)]) hdr ?bytes" using assms(4,5,7) by (intro expects_start) auto
  from parse_whole [OF slack assms(3) this un ne assms(6)] obtain rx' req' hdr' where
    p: "parse_loop ?rx req hdr = Some (Inr (rx', req', hdr', 0))" "rx_slack 0 rx'" "req_shape req'" "unread rx' = rest"
      "request_text req' = effects rid rs (request_text req)" "same_buffer ?rx rx'" "hdr_type hdr' = 0" by blast
  then show ?thesis using assms(1) by (simp add: cg_fastcgi_parse_def same_buffer_def)
qed

text \<open>The client after its request was answered: the answer is in its buffer, and it waits to write it.\<close>

definition answered :: "cg_client_req \<Rightarrow> u16 \<Rightarrow> byte list \<Rightarrow> cg_client_ctx \<Rightarrow> bool" where
  "answered req rid body c \<longleftrightarrow> cli_req c = terminated req \<and>
     (let fcgi = fcgi_cli_ctx c in
      fcli_state fcgi = CG_FASTCGI_CLIENT_STATE_WRITE_SQE \<and> hdr_type (saved_hdr fcgi) = 0 \<and>
      length (meta_buf (rx_buf_meta fcgi)) = 65790 \<and> tx_ok (tx_buf_meta fcgi) \<and> meta_pos (tx_buf_meta fcgi) = 0 \<and>
      tx_text (tx_buf_meta fcgi) = response_text (bswap16 rid) body)"

text \<open>Once the parser is ready, the request is answered, whatever came before the last read.\<close>

lemma parsed_answers:
  assumes i: "i < length (g_cli_ctx_pool app)" and cli: "cli = g_cli_ctx_pool app ! i" "rx = rx_buf_meta (fcgi_cli_ctx cli)"
    and ok: "tx_ok (tx_buf_meta (fcgi_cli_ctx cli))" "routes_ready (g_route_map app)"
    and p: "cg_fastcgi_parse (rx\<lparr>meta_valid := meta_valid rx + res, meta_pos := 0\<rparr>) (cli_req cli) (saved_hdr (fcgi_cli_ctx cli)) =
        Inr (rx', req, hdr', 0)" "rx_slack 0 rx'" "length (meta_buf rx') = 65790" "hdr_type hdr' = 0"
      "req_shape req" "req_id req = bswap16 rid"
    and h: "handle (route_of req) k (terminated req) (cleared (client_server app (fcgi_cli_ctx cli))) = Inr srv2"
      "replied (terminated req) body srv1 srv2" "length body \<le> 60000"
  shows "\<exists>c. client_read_done lay k i res app = Inr (app\<lparr>g_sessiondb := srv_sessiondb srv1, g_userdb := srv_userdb srv1,
      g_cli_ctx_pool := (g_cli_ctx_pool app)[i := c]\<rparr>) \<and> answered req rid body c"
proof -
  let ?left = "meta_valid rx' - meta_pos rx'"
  have fit: "unat (meta_pos rx') + unat ?left \<le> length (meta_buf rx')"
    using leftover_sub [OF p(2)] p(2) by (simp add: rx_slack_def leftover_def word_le_nat_alt)
  have "\<exists>buf. (if 0 < ?left \<and> 0 < meta_pos rx' then
      slide_buf (unat (lay_rx_buf lay i)) (meta_buf rx') (unat (meta_pos rx')) (unat ?left) else Inr (meta_buf rx')) = Inr buf \<and>
      length buf = 65790"
    using fit p(3) by (simp add: slide_buf_def)
  then obtain buf where buf: "(if 0 < ?left \<and> 0 < meta_pos rx' then
      slide_buf (unat (lay_rx_buf lay i)) (meta_buf rx') (unat (meta_pos rx')) (unat ?left) else Inr (meta_buf rx')) = Inr buf"
      "length buf = 65790" by blast
  let ?fcgi = "(fcgi_cli_ctx cli)\<lparr>rx_buf_meta := rx'\<lparr>meta_buf := buf, meta_valid := ?left, meta_pos := 0\<rparr>, saved_hdr := hdr'\<rparr>"
  have srv: "client_server app ?fcgi = client_server app (fcgi_cli_ctx cli)" by (simp add: client_server_def)
  obtain srv' where m: "cg_route_map_reply (g_route_map app) k req (client_server app (fcgi_cli_ctx cli)) = Inr (terminated req, srv')"
      "tx_text (srv_tx srv') = response_text (req_id req) body" "srv_sessiondb srv' = srv_sessiondb srv1"
      "srv_userdb srv' = srv_userdb srv1"
    using map_reply_response [OF ok(2) p(5) h] by blast
  have "tx_ok (srv_tx (client_server app (fcgi_cli_ctx cli)))" using ok(1) by (simp add: client_server_def)
  from map_reply_keeps(1) [OF this p(5) m(1)] have "tx_ok (srv_tx srv') \<and> meta_pos (srv_tx srv') = 0" by (simp add: tx_fresh_def)
  then show ?thesis
    using p(1,4,6) buf m srv i
    by (intro exI [of _ "cli\<lparr>cli_req := terminated req, fcgi_cli_ctx :=
        ?fcgi\<lparr>tx_buf_meta := srv_tx srv', fcli_state := CG_FASTCGI_CLIENT_STATE_WRITE_SQE\<rparr>\<rparr>"])
      (simp add: client_read_done_def cli Let_def answered_def)
qed

lemma client_answers:
  assumes i: "i < length (g_cli_ctx_pool app)" and cli: "cli = g_cli_ctx_pool app ! i" "rx = rx_buf_meta (fcgi_cli_ctx cli)"
    and ok: "length (meta_buf rx) = 65790" "unat (meta_valid rx + res) \<le> 65790" "req_shape (cli_req cli)"
      "hdr_type (saved_hdr (fcgi_cli_ctx cli)) = 0" "tx_ok (tx_buf_meta (fcgi_cli_ctx cli))" "routes_ready (g_route_map app)"
    and rs: "\<forall>r \<in> set ((Begin c, p0) # rs). ev_ok r" "Finish \<notin> fst ` set rs" "ev_ok (Finish, pad)"
    and bytes: "take (unat (meta_valid rx + res)) (meta_buf rx) =
      concat (map (ev_bytes rid) ((Begin c, p0) # rs @ [(Finish, pad)])) @ rest"
  shows "\<exists>req. req_shape req \<and> request_text req = effects rid ((Begin c, p0) # rs) (request_text (cli_req cli)) \<and>
    (\<forall>body srv1 srv2. handle (route_of req) k (terminated req) (cleared (client_server app (fcgi_cli_ctx cli))) = Inr srv2 \<longrightarrow>
       replied (terminated req) body srv1 srv2 \<longrightarrow> length body \<le> 60000 \<longrightarrow>
       (\<exists>c. client_read_done lay k i res app = Inr (app\<lparr>g_sessiondb := srv_sessiondb srv1, g_userdb := srv_userdb srv1,
          g_cli_ctx_pool := (g_cli_ctx_pool app)[i := c]\<rparr>) \<and> answered req rid body c))"
proof -
  let ?rs = "(Begin c, p0) # rs"
  have fin: "Finish \<notin> fst ` set ?rs" using rs(2) by simp
  have b: "take (unat (meta_valid rx + res)) (meta_buf rx) = concat (map (ev_bytes rid) (?rs @ [(Finish, pad)])) @ rest"
    using bytes by simp
  obtain rx' req hdr' where
    p: "cg_fastcgi_parse (rx\<lparr>meta_valid := meta_valid rx + res, meta_pos := 0\<rparr>) (cli_req cli) (saved_hdr (fcgi_cli_ctx cli)) =
      Inr (rx', req, hdr', 0)" "rx_slack 0 rx'" "req_shape req"
      "request_text req = effects rid ?rs (request_text (cli_req cli))" "length (meta_buf rx') = 65790" "hdr_type hdr' = 0"
    using read_request [OF ok(1-4) rs(1) fin rs(3) b] by blast
  show ?thesis
    using p(3,4) parsed_answers [OF i cli ok(5,6) p(1,2,5,6,3) request_id [OF p(4)]] by blast
qed

end
