(* ===== verification/CG_Send.thy ===== *)
theory CG_Send
  imports CG_Consistent CG_Served
begin

text \<open>
  Sending an answer: the loop submits a write for what is left, the kernel writes some of it, and
  the loop submits the next one, until nothing is left. However the kernel cuts the answer, the
  bytes that leave are the answer, and a client that is kept alive ends up ready to read again.
\<close>

section \<open>The writes of one answer\<close>

abbreviation same_data :: "app \<Rightarrow> app \<Rightarrow> bool" where
  "same_data app app' \<equiv> same_stores app app' \<and> g_route_map app' = g_route_map app"

definition written :: "layout \<Rightarrow> nat \<Rightarrow> u32 \<Rightarrow> app \<Rightarrow> byte list" where
  "written lay i n app = (case op_of lay i (g_cli_ctx_pool app ! i) of
     None \<Rightarrow> []
   | Some e \<Rightarrow> take (unat n) (drop (unat (sqe_addr e - lay_tx_buf lay i))
       (meta_buf (tx_buf_meta (fcgi_cli_ctx (g_cli_ctx_pool app ! i))))))"

fun send_all :: "layout \<Rightarrow> kernel \<Rightarrow> nat \<Rightarrow> u32 list \<Rightarrow> app \<Rightarrow> (byte list \<times> app) cres" where
  "send_all lay k i [] app = Inr ([], app)"
| "send_all lay k i (n # ns) app =
     cbind (cg_main_client_state_handle lay i app) (\<lambda>app1.
     cbind (cg_main_client_cqe_handle lay k i \<lparr>cqe_user_data = client_tag lay i, cqe_res = n, cqe_flags = 0\<rparr> app1) (\<lambda>app2.
     cbind (send_all lay k i ns app2) (\<lambda>(bs, app3).
       Inr (written lay i n app1 @ bs, app3))))"

lemma sint_small:
  assumes "unat (n :: u32) < 2 ^ 31"
  shows "sint n = uint n"
proof -
  have "uint n < 2 ^ 31" using assms by (metis of_nat_less_iff of_nat_numeral of_nat_power uint_nat)
  moreover have "- (2 ^ 31) \<le> uint n" by (rule order_trans [OF _ unsigned_greater_eq]) simp
  ultimately show ?thesis unfolding sint_uint by (intro signed_take_bit_int_eq_self) simp_all
qed

lemma enqueue_returns:
  assumes "sq_ok (g_uring_ctx app)"
  shows "\<exists>app'. enqueue f app = Inr app' \<and> sq_ok (g_uring_ctx app') \<and> g_cli_ctx_pool app' = g_cli_ctx_pool app \<and>
    same_data app app'"
proof -
  let ?ctx = "g_uring_ctx app"
  have "sq_straight ?ctx (sq_tail ?ctx)" by (simp add: sq_straight_def ring_Nil)
  moreover have "unat (sq_tail ?ctx - sq_tail ?ctx) < length (sqes ?ctx)"
    using assms by (auto simp: sq_ok_def ring_size_def)
  ultimately obtain ctx w where s: "submit ?ctx f = Inr (ctx, w)" "sq_ok ctx"
    using submit_ok [OF assms, of "sq_tail ?ctx" f] by auto
  then show ?thesis
    using s by (intro exI [of _ "if w then emit Sq_Wakeup (app\<lparr>g_uring_ctx := ctx\<rparr>) else app\<lparr>g_uring_ctx := ctx\<rparr>"])
      (simp add: enqueue_submit emit_def)
qed

text \<open>A client with something to write, and what is left of it.\<close>

definition writing :: "nat \<Rightarrow> app \<Rightarrow> bool" where
  "writing i app \<longleftrightarrow> i < length (g_cli_ctx_pool app) \<and> sq_ok (g_uring_ctx app) \<and>
     (let fcgi = fcgi_cli_ctx (g_cli_ctx_pool app ! i); tx = tx_buf_meta fcgi in
      fcli_state fcgi = CG_FASTCGI_CLIENT_STATE_WRITE_SQE \<and> tx_ok tx \<and> meta_pos tx < meta_valid tx)"

definition unsent :: "nat \<Rightarrow> app \<Rightarrow> byte list" where
  "unsent i app = (let tx = tx_buf_meta (fcgi_cli_ctx (g_cli_ctx_pool app ! i)) in drop (unat (meta_pos tx)) (tx_text tx))"

text \<open>After the last write: ready for the next request, or to be closed.\<close>

definition finished_writing :: "nat \<Rightarrow> app \<Rightarrow> app \<Rightarrow> bool" where
  "finished_writing i app app' \<longleftrightarrow> sq_ok (g_uring_ctx app') \<and> same_data app app' \<and>
     (\<exists>fcgi. g_cli_ctx_pool app' = (g_cli_ctx_pool app)[i := (g_cli_ctx_pool app ! i)\<lparr>fcgi_cli_ctx := fcgi\<rparr>] \<and>
       (if keep_alive (cli_req (g_cli_ctx_pool app ! i)) \<noteq> 0
        then fcli_state fcgi = CG_FASTCGI_CLIENT_STATE_READ_SQE \<and> hdr_type (saved_hdr fcgi) = 0 \<and>
          rx_buf_meta fcgi = (rx_buf_meta (fcgi_cli_ctx (g_cli_ctx_pool app ! i)))\<lparr>meta_valid := 0, meta_pos := 0\<rparr> \<and>
          tx_ok (tx_buf_meta fcgi)
        else fcli_state fcgi = CG_FASTCGI_CLIENT_STATE_CLOSE_SQE))"

lemma length_unsent:
  assumes "writing i app"
  shows "let tx = tx_buf_meta (fcgi_cli_ctx (g_cli_ctx_pool app ! i)) in
    length (unsent i app) = unat (meta_valid tx) - unat (meta_pos tx)"
  using assms by (simp add: writing_def unsent_def tx_text_def tx_ok_def Let_def)

lemma one_write:
  assumes w: "writing i app" and n: "0 < n" "unat n \<le> length (unsent i app)"
  shows "\<exists>app1 app2. cg_main_client_state_handle lay i app = Inr app1 \<and>
    cg_main_client_cqe_handle lay k i \<lparr>cqe_user_data = client_tag lay i, cqe_res = n, cqe_flags = 0\<rparr> app1 = Inr app2 \<and>
    written lay i n app1 = take (unat n) (unsent i app) \<and>
    (if unat n = length (unsent i app) then finished_writing i app app2
     else writing i app2 \<and> unsent i app2 = drop (unat n) (unsent i app) \<and> same_data app app2 \<and>
       (\<exists>fcgi. g_cli_ctx_pool app2 = (g_cli_ctx_pool app)[i := (g_cli_ctx_pool app ! i)\<lparr>fcgi_cli_ctx := fcgi\<rparr>] \<and>
         rx_buf_meta fcgi = rx_buf_meta (fcgi_cli_ctx (g_cli_ctx_pool app ! i))))"
proof -
  let ?c = "g_cli_ctx_pool app ! i"
  define fcgi where "fcgi = fcgi_cli_ctx ?c"
  define tx where "tx = tx_buf_meta fcgi"
  have W: "i < length (g_cli_ctx_pool app)" "sq_ok (g_uring_ctx app)" "fcli_state fcgi = CG_FASTCGI_CLIENT_STATE_WRITE_SQE"
      "tx_ok tx" "meta_pos tx < meta_valid tx"
    using w by (simp_all add: writing_def Let_def fcgi_def tx_def)
  have len: "length (unsent i app) = unat (meta_valid tx) - unat (meta_pos tx)"
    using length_unsent [OF w] by (simp add: Let_def fcgi_def tx_def)
  let ?fcgi1 = "fcgi\<lparr>fcli_state := CG_FASTCGI_CLIENT_STATE_WRITE_CQE\<rparr>"
  have "sq_ok (g_uring_ctx (set_fcgi i ?fcgi1 app))" using W(2) by (simp add: set_fcgi_def)
  then obtain app1 where a1: "cg_main_client_state_handle lay i app = Inr app1" "sq_ok (g_uring_ctx app1)"
      "g_cli_ctx_pool app1 = (g_cli_ctx_pool app)[i := ?c\<lparr>fcgi_cli_ctx := ?fcgi1\<rparr>]" "same_data app app1"
    using enqueue_returns W(3) by (fastforce simp: cg_main_client_state_handle_def Let_def fcgi_def set_fcgi_def)
  have c1: "g_cli_ctx_pool app1 ! i = ?c\<lparr>fcgi_cli_ctx := ?fcgi1\<rparr>" using a1(3) W(1) by simp
  have le: "unat (meta_pos tx) < unat (meta_valid tx)" "unat (meta_valid tx) \<le> 65790"
    using W(4,5) by (simp_all add: tx_ok_def word_less_nat_alt)
  have pos: "unat (meta_pos tx + n) = unat (meta_pos tx) + unat n"
    using n(2) len le by (intro unat_add_small) simp
  have "unat n < 2 ^ 31" using n(2) len le by simp
  then have sn: "\<not> sint n < 0" by (simp add: sint_small)
  let ?tx2 = "tx\<lparr>meta_pos := meta_pos tx + n\<rparr>"
  have uns: "unsent i app = take (length (unsent i app)) (drop (unat (meta_pos tx)) (meta_buf tx))"
    using len by (simp add: unsent_def tx_text_def Let_def fcgi_def tx_def drop_take)
  have out: "written lay i n app1 = take (unat n) (unsent i app)"
  proof -
    have "written lay i n app1 = take (unat n) (drop (unat (meta_pos tx)) (meta_buf tx))"
      by (simp add: written_def op_of_def c1 Let_def tx_def unat_ucast_up)
    then show ?thesis by (subst uns) (use n(2) in \<open>simp add: min_absorb1\<close>)
  qed
  let ?app2 = "client_write_done i n app1"
  have a2: "cg_main_client_cqe_handle lay k i \<lparr>cqe_user_data = client_tag lay i, cqe_res = n, cqe_flags = 0\<rparr> app1 = Inr ?app2"
    using sn by (simp add: cg_main_client_cqe_handle_def c1 Let_def)
  have ok2: "sq_ok (g_uring_ctx ?app2)" "same_data app ?app2"
    using a1(2,4) by (simp_all add: client_write_done_def set_fcgi_def Let_def)
  have more: "meta_pos tx + n < meta_valid tx \<longleftrightarrow> unat n \<noteq> length (unsent i app)"
    using pos n(2) len le by (auto simp: word_less_nat_alt)
  show ?thesis
  proof (cases "unat n = length (unsent i app)")
    case True
    have "finished_writing i app ?app2"
      using ok2 more True W(1,4) c1
      by (auto simp: finished_writing_def client_write_done_def set_fcgi_def Let_def a1(3) tx_ok_def fcgi_def tx_def)
    then show ?thesis using a1(1) a2 out True by (intro exI [of _ app1] exI [of _ ?app2]) simp
  next
    case False
    then have m: "meta_pos tx + n < meta_valid tx" using more by simp
    have p2: "g_cli_ctx_pool ?app2 = (g_cli_ctx_pool app)[i := ?c\<lparr>fcgi_cli_ctx :=
        fcgi\<lparr>tx_buf_meta := ?tx2, fcli_state := CG_FASTCGI_CLIENT_STATE_WRITE_SQE\<rparr>\<rparr>]"
      using m by (simp add: client_write_done_def set_fcgi_def Let_def c1 tx_def) (simp add: a1(3))
    then have "writing i ?app2" using m W(1,4) ok2(1) by (simp add: writing_def tx_ok_def)
    moreover have "unsent i ?app2 = drop (unat n) (unsent i app)"
      using p2 W(1) pos by (simp add: unsent_def Let_def tx_text_def fcgi_def [symmetric] tx_def [symmetric] add.commute)
    ultimately show ?thesis
      using a1(1) a2 out False p2 ok2(2) by (intro exI [of _ app1] exI [of _ ?app2]) (auto simp: fcgi_def)
  qed
qed

section \<open>All of them\<close>

lemma send_all_ok:
  assumes "writing i app" and "\<forall>n \<in> set ns. 0 < n" and "sum_list (map unat ns) = length (unsent i app)"
  shows "\<exists>app'. send_all lay k i ns app = Inr (unsent i app, app') \<and> finished_writing i app app'"
  using assms
proof (induction ns arbitrary: app)
  case Nil
  then show ?case using length_unsent [OF Nil(1)] by (auto simp: writing_def Let_def word_less_nat_alt)
next
  case (Cons n ns)
  have n: "0 < n" "unat n \<le> length (unsent i app)" using Cons.prems(2,3) by (auto intro: le_add1 order_trans)
  obtain app1 app2 where w: "cg_main_client_state_handle lay i app = Inr app1"
      "cg_main_client_cqe_handle lay k i \<lparr>cqe_user_data = client_tag lay i, cqe_res = n, cqe_flags = 0\<rparr> app1 = Inr app2"
      "written lay i n app1 = take (unat n) (unsent i app)"
    and r: "if unat n = length (unsent i app) then finished_writing i app app2
     else writing i app2 \<and> unsent i app2 = drop (unat n) (unsent i app) \<and> same_data app app2 \<and>
       (\<exists>fcgi. g_cli_ctx_pool app2 = (g_cli_ctx_pool app)[i := (g_cli_ctx_pool app ! i)\<lparr>fcgi_cli_ctx := fcgi\<rparr>] \<and>
         rx_buf_meta fcgi = rx_buf_meta (fcgi_cli_ctx (g_cli_ctx_pool app ! i)))"
    using one_write [OF Cons.prems(1) n, of lay k] by blast
  show ?case
  proof (cases "unat n = length (unsent i app)")
    case True
    then have "sum_list (map unat ns) = 0" using Cons.prems(3) by simp
    then have "ns = []" using Cons.prems(2) by (cases ns) (auto simp: unat_eq_0)
    then show ?thesis using w r True by (intro exI [of _ app2]) simp
  next
    case False
    then obtain fcgi where f: "writing i app2" "unsent i app2 = drop (unat n) (unsent i app)" "same_data app app2"
        "g_cli_ctx_pool app2 = (g_cli_ctx_pool app)[i := (g_cli_ctx_pool app ! i)\<lparr>fcgi_cli_ctx := fcgi\<rparr>]"
        "rx_buf_meta fcgi = rx_buf_meta (fcgi_cli_ctx (g_cli_ctx_pool app ! i))"
      using r by auto
    have "sum_list (map unat ns) = length (unsent i app2)" using Cons.prems(3) f(2) by simp
    from Cons.IH [OF f(1) _ this] obtain app' where IH: "send_all lay k i ns app2 = Inr (unsent i app2, app')"
        "finished_writing i app2 app'" using Cons.prems(2) by auto
    have "i < length (g_cli_ctx_pool app)" using Cons.prems(1) by (simp add: writing_def)
    then have "finished_writing i app app'" using IH(2) f(3-5) by (auto simp: finished_writing_def)
    then show ?thesis using w IH(1) f(2) by (intro exI [of _ app']) simp
  qed
qed

section \<open>From request to request\<close>

text \<open>What a client must be like for its next request to be served, whatever it was used for before.\<close>

definition receptive :: "nat \<Rightarrow> app \<Rightarrow> bool" where
  "receptive i app \<longleftrightarrow> i < length (g_cli_ctx_pool app) \<and> sq_ok (g_uring_ctx app) \<and> routes_ready (g_route_map app) \<and>
     (let c = g_cli_ctx_pool app ! i; fcgi = fcgi_cli_ctx c in
      length (meta_buf (rx_buf_meta fcgi)) = 65790 \<and> req_shape (cli_req c) \<and> hdr_type (saved_hdr fcgi) = 0 \<and>
      tx_ok (tx_buf_meta fcgi))"

lemma response_nonempty: "response_text rid body \<noteq> []"
  by (simp add: response_text_def stdout_record_def)

lemma answer_sent:
  assumes r: "receptive i app" and read: "client_read_done lay k i res app = Inr app1"
    and app1: "app1 = app\<lparr>g_sessiondb := sdb, g_userdb := udb, g_cli_ctx_pool := (g_cli_ctx_pool app)[i := c]\<rparr>"
    and c: "answered req rid body c" and shape: "req_shape req"
    and ns: "\<forall>n \<in> set ns. 0 < n" "sum_list (map unat ns) = length (response_text (bswap16 rid) body)"
  shows "\<exists>app2. send_all lay k' i ns app1 = Inr (response_text (bswap16 rid) body, app2) \<and>
    g_sessiondb app2 = sdb \<and> g_userdb app2 = udb \<and> cli_req (g_cli_ctx_pool app2 ! i) = terminated req \<and>
    (let fcgi = fcgi_cli_ctx (g_cli_ctx_pool app2 ! i) in
     if keep_alive req \<noteq> 0 then receptive i app2 \<and> fcli_state fcgi = CG_FASTCGI_CLIENT_STATE_READ_SQE \<and>
       meta_valid (rx_buf_meta fcgi) = 0
     else fcli_state fcgi = CG_FASTCGI_CLIENT_STATE_CLOSE_SQE)"
proof -
  have i: "i < length (g_cli_ctx_pool app)" using r by (simp add: receptive_def)
  have c1: "g_cli_ctx_pool app1 ! i = c" using i by (simp add: app1)
  note A = c [unfolded answered_def Let_def]
  have answer: "tx_text (tx_buf_meta (fcgi_cli_ctx c)) = response_text (bswap16 rid) body" using A by simp
  have "meta_valid (tx_buf_meta (fcgi_cli_ctx c)) \<noteq> 0"
    using answer response_nonempty [of "bswap16 rid" body] by (auto simp: tx_text_def)
  then have "meta_pos (tx_buf_meta (fcgi_cli_ctx c)) < meta_valid (tx_buf_meta (fcgi_cli_ctx c))"
    using A by (simp add: word_gt_0)
  then have w: "writing i app1" using A i r c1 by (simp add: writing_def receptive_def Let_def) (simp add: app1)
  have u: "unsent i app1 = response_text (bswap16 rid) body" using A by (simp add: unsent_def c1 Let_def)
  obtain app2 where s: "send_all lay k' i ns app1 = Inr (unsent i app1, app2)" "finished_writing i app1 app2"
    using send_all_ok [OF w ns(1)] ns(2) u by auto
  then obtain fcgi where f: "g_cli_ctx_pool app2 = (g_cli_ctx_pool app1)[i := c\<lparr>fcgi_cli_ctx := fcgi\<rparr>]"
      "sq_ok (g_uring_ctx app2)" "same_data app1 app2"
      "if keep_alive (cli_req c) \<noteq> 0
        then fcli_state fcgi = CG_FASTCGI_CLIENT_STATE_READ_SQE \<and> hdr_type (saved_hdr fcgi) = 0 \<and>
          rx_buf_meta fcgi = (rx_buf_meta (fcgi_cli_ctx c))\<lparr>meta_valid := 0, meta_pos := 0\<rparr> \<and> tx_ok (tx_buf_meta fcgi)
        else fcli_state fcgi = CG_FASTCGI_CLIENT_STATE_CLOSE_SQE"
    unfolding finished_writing_def c1 by blast
  have app2: "g_route_map app2 = g_route_map app" "g_sessiondb app2 = sdb" "g_userdb app2 = udb"
      "g_cli_ctx_pool app2 = (g_cli_ctx_pool app)[i := c\<lparr>fcgi_cli_ctx := fcgi\<rparr>]"
    using f(1,3) by (simp_all add: app1)
  have k: "keep_alive (cli_req c) = keep_alive req" "req_shape (cli_req c)"
    using A terminated_shape [OF shape] by (simp_all add: terminated_def)
  show ?thesis
    using s(1) f(2,4) A r i k by (intro exI [of _ app2]) (simp add: app2 u receptive_def Let_def)
qed

end
