(* ===== verification/CG_Conversation.thy ===== *)
theory CG_Conversation
  imports CG_Send
begin

text \<open>
  A connection that is kept alive: one request after the other, each one read, served and
  answered, with the stores and the text of the request handed on from one to the next.
\<close>

section \<open>What an endpoint promises\<close>

type_synonym stores = "cg_sessiondb option \<times> cg_userdb option"

abbreviation stores_of :: "app \<Rightarrow> stores" where
  "stores_of app \<equiv> (g_sessiondb app, g_userdb app)"

text \<open>The answer to a request and the stores after it are settled by its text and the stores before.\<close>

definition serves :: "kernel \<Rightarrow> stores \<Rightarrow> request_text \<Rightarrow> byte list \<Rightarrow> stores \<Rightarrow> bool" where
  "serves k st rt body st' \<longleftrightarrow> length body \<le> 60000 \<and>
     (\<forall>req srv. req_shape req \<longrightarrow> request_text req = rt \<longrightarrow> srv_ready srv \<longrightarrow>
        (srv_sessiondb srv, srv_userdb srv) = st \<longrightarrow>
        (\<exists>srv2. handle (route_of req) k (terminated req) srv = Inr srv2 \<and>
           replied (terminated req) body (srv\<lparr>srv_sessiondb := fst st', srv_userdb := snd st'\<rparr>) srv2))"

text \<open>The records of one request, from its first to the empty one that ends it.\<close>

record request =
  rq_number :: u16
  rq_begin :: "byte list \<times> byte list"
  rq_records :: "(event \<times> byte list) list"
  rq_pad :: "byte list"

definition rq_events :: "request \<Rightarrow> (event \<times> byte list) list" where
  "rq_events r = (case rq_begin r of (c, p) \<Rightarrow> (Begin c, p)) # rq_records r"

definition rq_bytes :: "request \<Rightarrow> byte list" where
  "rq_bytes r = concat (map (ev_bytes (rq_number r)) (rq_events r @ [(Finish, rq_pad r)]))"

definition rq_ok :: "request \<Rightarrow> bool" where
  "rq_ok r \<longleftrightarrow> (\<forall>e \<in> set (rq_events r). ev_ok e) \<and> Finish \<notin> fst ` set (rq_records r) \<and> ev_ok (Finish, rq_pad r) \<and>
     length (rq_bytes r) \<le> 65790"

text \<open>The dialogue as the web server sees it: texts and stores, no buffers and no rings.\<close>

inductive dialogue :: "request_text \<Rightarrow> stores \<Rightarrow> (kernel \<times> request) list \<Rightarrow> byte list list \<Rightarrow> stores \<Rightarrow> bool" where
  dialogue_end: "dialogue rt st [] [] st"
| dialogue_next:
    "rq_ok r \<Longrightarrow> rt1 = effects (rq_number r) (rq_events r) rt \<Longrightarrow> rt_keep rt1 \<noteq> 0 \<Longrightarrow>
     serves k st rt1 body st1 \<Longrightarrow> dialogue rt1 st1 rs bodies st2 \<Longrightarrow>
     dialogue rt st ((k, r) # rs) (response_text (bswap16 (rq_number r)) body # bodies) st2"

inductive_cases dialogue_ConsE: "dialogue rt st ((k, r) # rs) answers st2"

section \<open>One exchange\<close>

definition received :: "nat \<Rightarrow> byte list \<Rightarrow> app \<Rightarrow> app" where
  "received i bs app = (let fcgi = fcgi_cli_ctx (g_cli_ctx_pool app ! i); rx = rx_buf_meta fcgi in
     set_fcgi i (fcgi\<lparr>rx_buf_meta := rx\<lparr>meta_buf := buf_splice (meta_buf rx) (unat (meta_valid rx)) bs\<rparr>\<rparr>) app)"

definition exchange :: "layout \<Rightarrow> nat \<Rightarrow> kernel \<Rightarrow> byte list \<Rightarrow> u32 list \<Rightarrow> app \<Rightarrow> (byte list \<times> app) cres" where
  "exchange lay i k bs ns app =
     cbind (cg_main_client_state_handle lay i app) (\<lambda>app.
     cbind (cg_main_client_cqe_handle lay k i
         \<lparr>cqe_user_data = client_tag lay i, cqe_res = word_of_nat (length bs), cqe_flags = 0\<rparr> (received i bs app))
       (\<lambda>app. send_all lay k i ns app))"

fun converse :: "layout \<Rightarrow> nat \<Rightarrow> (kernel \<times> request) list \<Rightarrow> u32 list list \<Rightarrow> app \<Rightarrow> (byte list list \<times> app) cres" where
  "converse lay i [] nss app = Inr ([], app)"
| "converse lay i ((k, r) # rs) (ns # nss) app =
     cbind (exchange lay i k (rq_bytes r) ns app) (\<lambda>(out, app).
     cbind (converse lay i rs nss app) (\<lambda>(outs, app). Inr (out # outs, app)))"
| "converse lay i (x # rs) [] app = Inl Diverges"

definition listening :: "nat \<Rightarrow> app \<Rightarrow> bool" where
  "listening i app \<longleftrightarrow> receptive i app \<and>
     (let fcgi = fcgi_cli_ctx (g_cli_ctx_pool app ! i) in
      fcli_state fcgi = CG_FASTCGI_CLIENT_STATE_READ_SQE \<and> meta_valid (rx_buf_meta fcgi) = 0)"

lemma terminated_text:
  assumes "req_shape req"
  shows "request_text (terminated req) = request_text req"
proof -
  have u: "length (uri req) = 128" "has_nul (uri req)" using assms by (simp_all add: req_shape_def)
  have "length (cstr (uri req)) < 128" using length_cstr_less [OF u(2)] u(1) by simp
  then have "cstr (take 127 (uri req)) = cstr (uri req)" by (intro cstr_take) simp
  then have "cstr (uri (terminated req)) = cstr (uri req)" using terminated_path [OF u(1)] by (simp add: request_path_def)
  then show ?thesis by (simp add: request_text_def view_req_def) (simp add: terminated_def)
qed

lemma read_submitted:
  assumes "sq_ok (g_uring_ctx app)" and "fcli_state (fcgi_cli_ctx (g_cli_ctx_pool app ! i)) = CG_FASTCGI_CLIENT_STATE_READ_SQE"
  shows "\<exists>app1. cg_main_client_state_handle lay i app = Inr app1 \<and> sq_ok (g_uring_ctx app1) \<and> same_data app app1 \<and>
    g_cli_ctx_pool app1 = (g_cli_ctx_pool app)[i := (g_cli_ctx_pool app ! i)\<lparr>fcgi_cli_ctx :=
      (fcgi_cli_ctx (g_cli_ctx_pool app ! i))\<lparr>fcli_state := CG_FASTCGI_CLIENT_STATE_READ_CQE\<rparr>\<rparr>]"
proof -
  let ?app = "set_fcgi i ((fcgi_cli_ctx (g_cli_ctx_pool app ! i))\<lparr>fcli_state := CG_FASTCGI_CLIENT_STATE_READ_CQE\<rparr>) app"
  have "sq_ok (g_uring_ctx ?app)" using assms by (simp add: set_fcgi_def)
  then show ?thesis
    using enqueue_returns assms(2) by (fastforce simp: cg_main_client_state_handle_def Let_def set_fcgi_def)
qed

text \<open>What comes behind the request in the same read is forgotten with the last write of the answer.\<close>

lemma exchange_ok:
  assumes l: "listening i app" and r: "rq_ok r"
    and rt1: "rt1 = effects (rq_number r) (rq_events r) (request_text (cli_req (g_cli_ctx_pool app ! i)))" "rt_keep rt1 \<noteq> 0"
    and serves: "serves k (stores_of app) rt1 body st1"
    and ns: "\<forall>n \<in> set ns. 0 < n" "sum_list (map unat ns) = length (response_text (bswap16 (rq_number r)) body)"
    and rest: "length (rq_bytes r @ rest) \<le> 65790"
  shows "\<exists>app'. exchange lay i k (rq_bytes r @ rest) ns app = Inr (response_text (bswap16 (rq_number r)) body, app') \<and>
    listening i app' \<and> stores_of app' = st1 \<and> request_text (cli_req (g_cli_ctx_pool app' ! i)) = rt1"
proof -
  let ?c = "g_cli_ctx_pool app ! i" and ?rid = "rq_number r"
  define bs where "bs = rq_bytes r @ rest"
  define fcgi where "fcgi = fcgi_cli_ctx ?c"
  define rx where "rx = rx_buf_meta fcgi"
  obtain app1 where a1: "cg_main_client_state_handle lay i app = Inr app1" "sq_ok (g_uring_ctx app1)" "same_data app app1"
      "g_cli_ctx_pool app1 = (g_cli_ctx_pool app)[i := ?c\<lparr>fcgi_cli_ctx := fcgi\<lparr>fcli_state := CG_FASTCGI_CLIENT_STATE_READ_CQE\<rparr>\<rparr>]"
    using read_submitted [of app i lay] l unfolding fcgi_def by (auto simp: listening_def receptive_def Let_def)
  have L: "i < length (g_cli_ctx_pool app)" "routes_ready (g_route_map app)" "length (meta_buf rx) = 65790"
      "req_shape (cli_req ?c)" "hdr_type (saved_hdr fcgi) = 0" "tx_ok (tx_buf_meta fcgi)" "meta_valid rx = 0"
    using l by (simp_all add: listening_def receptive_def Let_def fcgi_def rx_def)
  define app2 where "app2 = received i bs app1"
  define c2 where "c2 = g_cli_ctx_pool app2 ! i"
  let ?rx2 = "rx\<lparr>meta_buf := buf_splice (meta_buf rx) 0 bs\<rparr>"
  have c2: "c2 = ?c\<lparr>fcgi_cli_ctx := fcgi\<lparr>fcli_state := CG_FASTCGI_CLIENT_STATE_READ_CQE, rx_buf_meta := ?rx2\<rparr>\<rparr>"
    using L(1,7) by (simp add: c2_def app2_def received_def set_fcgi_def Let_def a1(4) rx_def)
  have p2: "length (g_cli_ctx_pool app2) = length (g_cli_ctx_pool app)" "sq_ok (g_uring_ctx app2)" "same_data app app2"
    using a1(2-4) by (simp_all add: app2_def received_def set_fcgi_def Let_def)
  have len: "length bs \<le> 65790" unfolding bs_def by (rule rest)
  have rec2: "receptive i app2"
    using p2 L len by (simp add: receptive_def Let_def flip: c2_def) (simp add: c2)
  have res: "unat (word_of_nat (length bs) :: u32) = length bs" using len by (simp add: unat_of_nat)
  have ev: "rq_events r = (Begin (fst (rq_begin r)), snd (rq_begin r)) # rq_records r"
    by (simp add: rq_events_def split: prod.split)
  have pos: "0 < length bs" by (simp add: bs_def rq_bytes_def ev ev_bytes_def ev_header_def)
  have "sint (word_of_nat (length bs) :: u32) = int (length bs)"
    using sint_small [of "word_of_nat (length bs)"] len res by (simp add: uint_nat)
  then have "\<not> sint (word_of_nat (length bs) :: u32) \<le> 0" using pos by linarith
  then have handle: "cg_main_client_cqe_handle lay k i
        \<lparr>cqe_user_data = client_tag lay i, cqe_res = word_of_nat (length bs), cqe_flags = 0\<rparr> app2 =
      client_read_done lay k i (word_of_nat (length bs)) app2"
    by (simp add: cg_main_client_cqe_handle_def Let_def flip: c2_def) (simp add: c2)
  have srv: "srv_ready (cleared (client_server app2 (fcgi_cli_ctx c2)))"
    using L(6) by (intro cleared_ready) (simp add: client_server_def c2)
  have "take (length bs) (buf_splice (meta_buf rx) 0 bs) = bs" using take_buf_splice [of 0 bs "meta_buf rx"] L(3) len by simp
  then have bytes: "take (unat (meta_valid ?rx2 + word_of_nat (length bs))) (meta_buf ?rx2) =
      concat (map (ev_bytes ?rid) ((Begin (fst (rq_begin r)), snd (rq_begin r)) # rq_records r @ [(Finish, rq_pad r)])) @ rest"
    using L(7) res ev by (simp add: rq_bytes_def bs_def)
  have pre: "i < length (g_cli_ctx_pool app2)" "?rx2 = rx_buf_meta (fcgi_cli_ctx c2)" "length (meta_buf ?rx2) = 65790"
      "unat (meta_valid ?rx2 + word_of_nat (length bs)) \<le> 65790" "req_shape (cli_req c2)"
      "hdr_type (saved_hdr (fcgi_cli_ctx c2)) = 0" "tx_ok (tx_buf_meta (fcgi_cli_ctx c2))" "routes_ready (g_route_map app2)"
    using L len res p2 by (simp_all add: c2)
  have recs: "\<forall>e \<in> set ((Begin (fst (rq_begin r)), snd (rq_begin r)) # rq_records r). ev_ok e"
      "Finish \<notin> fst ` set (rq_records r)" "ev_ok (Finish, rq_pad r)"
    using r unfolding rq_ok_def ev by blast+
  from client_answers [OF pre(1) c2_def pre(2-8) recs bytes, of k lay]
  obtain req where req: "req_shape req" "request_text req = rt1"
    and ans: "\<And>body srv1 srv2. handle (route_of req) k (terminated req) (cleared (client_server app2 (fcgi_cli_ctx c2))) = Inr srv2 \<Longrightarrow>
      replied (terminated req) body srv1 srv2 \<Longrightarrow> length body \<le> 60000 \<Longrightarrow>
      \<exists>c. client_read_done lay k i (word_of_nat (length bs)) app2 = Inr (app2\<lparr>g_sessiondb := srv_sessiondb srv1,
        g_userdb := srv_userdb srv1, g_cli_ctx_pool := (g_cli_ctx_pool app2)[i := c]\<rparr>) \<and> answered req ?rid body c"
    unfolding rt1(1) ev by (simp add: c2) blast
  have st: "(srv_sessiondb (cleared (client_server app2 (fcgi_cli_ctx c2))), srv_userdb (cleared (client_server app2 (fcgi_cli_ctx c2)))) =
      stores_of app"
    using p2(3) by (simp add: cleared_def client_server_def)
  obtain srv2 where "handle (route_of req) k (terminated req) (cleared (client_server app2 (fcgi_cli_ctx c2))) = Inr srv2"
      "replied (terminated req) body ((cleared (client_server app2 (fcgi_cli_ctx c2)))
        \<lparr>srv_sessiondb := fst st1, srv_userdb := snd st1\<rparr>) srv2" "length body \<le> 60000"
    using serves req srv st unfolding serves_def by blast
  from ans [OF this] obtain c where
    c: "client_read_done lay k i (word_of_nat (length bs)) app2 =
      Inr (app2\<lparr>g_sessiondb := fst st1, g_userdb := snd st1, g_cli_ctx_pool := (g_cli_ctx_pool app2)[i := c]\<rparr>)"
      "answered req ?rid body c" by auto
  have keep: "keep_alive req \<noteq> 0" using req(2) rt1(2) by (auto simp: request_text_def)
  from answer_sent [OF rec2 c(1) refl c(2) req(1) ns, where k' = k] keep obtain app3 where
    s: "send_all lay k i ns (app2\<lparr>g_sessiondb := fst st1, g_userdb := snd st1, g_cli_ctx_pool := (g_cli_ctx_pool app2)[i := c]\<rparr>) =
      Inr (response_text (bswap16 ?rid) body, app3)"
    and f: "g_sessiondb app3 = fst st1" "g_userdb app3 = snd st1" "cli_req (g_cli_ctx_pool app3 ! i) = terminated req"
      "listening i app3"
    by (auto simp: Let_def listening_def)
  have "exchange lay i k bs ns app = Inr (response_text (bswap16 ?rid) body, app3)"
    using a1(1) handle c(1) s by (simp add: exchange_def flip: app2_def)
  then show ?thesis using f req terminated_text by (intro exI [of _ app3]) (simp add: bs_def)
qed

lemma converse_ok:
  assumes "dialogue (request_text (cli_req (g_cli_ctx_pool app ! i))) (stores_of app) rs answers st2" and "listening i app"
    and "list_all2 (\<lambda>ns a. (\<forall>n \<in> set ns. 0 < n) \<and> sum_list (map unat ns) = length a) nss answers"
  shows "\<exists>app'. converse lay i rs nss app = Inr (answers, app') \<and> listening i app' \<and> stores_of app' = st2"
  using assms
proof (induction rs arbitrary: app nss answers)
  case Nil
  then show ?case by (auto elim: dialogue.cases)
next
  case (Cons x rs)
  obtain k r where x: "x = (k, r)" by (cases x)
  from Cons.prems(1) [unfolded x] obtain rt1 body st1 bodies where
    d: "answers = response_text (bswap16 (rq_number r)) body # bodies" "rq_ok r"
      "rt1 = effects (rq_number r) (rq_events r) (request_text (cli_req (g_cli_ctx_pool app ! i)))" "rt_keep rt1 \<noteq> 0"
      "serves k (stores_of app) rt1 body st1" "dialogue rt1 st1 rs bodies st2"
    by (elim dialogue_ConsE) blast
  obtain ns nss' where nss: "nss = ns # nss'" "\<forall>n \<in> set ns. 0 < n"
      "sum_list (map unat ns) = length (response_text (bswap16 (rq_number r)) body)"
      "list_all2 (\<lambda>ns a. (\<forall>n \<in> set ns. 0 < n) \<and> sum_list (map unat ns) = length a) nss' bodies"
    using Cons.prems(3) d(1) by (auto simp: list_all2_Cons2)
  obtain app1 where e: "exchange lay i k (rq_bytes r) ns app = Inr (response_text (bswap16 (rq_number r)) body, app1)"
      "listening i app1" "stores_of app1 = st1" "request_text (cli_req (g_cli_ctx_pool app1 ! i)) = rt1"
    using exchange_ok [OF Cons.prems(2) d(2-5) nss(2,3), of "[]"] d(2) by (auto simp: rq_ok_def)
  have "dialogue (request_text (cli_req (g_cli_ctx_pool app1 ! i))) (stores_of app1) rs bodies st2"
    using d(6) e(3,4) by simp
  from Cons.IH [OF this e(2) nss(4)] show ?case using e(1) by (auto simp: x nss(1) d(1))
qed

end
