(* ===== verification/CG_Journey.thy ===== *)
theory CG_Journey
  imports CG_Conversation
begin

text \<open>
  What an endpoint makes of a request is settled by the request's text: its path, method, session
  and body. So endpoints become services of the dialogue on a connection, and a visitor's way
  through several of them can be followed from request to request.
\<close>

section \<open>What the text of a request settles\<close>

lemma text_route:
  assumes "p \<in> set route_paths" and "req_shape req" and "rt_texts (request_text req) = (str (fst p), m, s)"
  shows "handle (route_of req) = route_handler (snd p)"
proof -
  have "cstr (uri req) = str (fst p)" using assms(3) by (simp add: request_text_def view_req_def)
  moreover have "length (str (fst p)) < 127" using assms(1) by (auto simp: route_paths_def)
  ultimately have "request_path req = str (fst p)" by (simp add: request_path_def cstr_take)
  from route_of_path [OF assms(1) this] show ?thesis by (simp add: handle_def)
qed

lemma text_method:
  assumes "rt_texts (request_text req) = (u, str m, s)"
  shows "uses_method (terminated req) m"
proof -
  have v: "cstr (req_method req) = str m" using assms by (simp add: request_text_def view_req_def)
  have "take (length (cstr (req_method req))) (req_method req) = cstr (req_method req)" by (rule take_cstr)
  then show ?thesis using v by (simp add: uses_method_def terminated_def)
qed

lemma text_session:
  assumes "req_shape req" and "rt_texts (request_text req) = (u, m, dec (unat (sid :: u64)))"
  shows "request_session (terminated req) = sid" and "req_session_id (terminated req) ! 0 \<noteq> 0"
proof -
  have v: "cstr (req_session_id (terminated req)) = dec (unat sid)"
    using assms(2) by (simp add: request_text_def view_req_def terminated_def)
  have "has_nul (req_session_id (terminated req))"
    using terminated_shape [OF assms(1)] by (simp add: req_shape_def)
  from get_session_id_dec [OF this v] show "request_session (terminated req) = sid" by (simp add: request_session_def)
  have "0 < length (cstr (req_session_id (terminated req)))" unfolding v by (rule length_dec_pos)
  then show "req_session_id (terminated req) ! 0 \<noteq> 0"
    by (cases "req_session_id (terminated req)") (auto simp: cstr_def split: if_splits)
qed

lemma text_field:
  assumes shape: "req_shape req" and body: "rt_body (request_text req) = enc_form fs"
    and keys: "plain_key (str key)" "\<forall>f \<in> set fs. plain_key (fst f)"
  shows "form_field (stdin_buf (terminated req)) key = map_of fs (str key)"
proof -
  let ?n = "unat (stdin_len req)" and ?b = "stdin_buf req"
  have n: "?n < length ?b" "?b ! ?n = 0" using shape by (simp_all add: req_shape_def)
  have "?b = take ?n ?b @ 0 # drop (Suc ?n) ?b" using id_take_nth_drop [OF n(1)] n(2) by simp
  moreover have "take ?n ?b = enc_form fs" using body by (simp add: request_text_def)
  ultimately have "form_scan ?b (str key) = form_scan (enc_form fs @ 0 # drop (Suc ?n) ?b) (str key)" by simp
  then show ?thesis
    using form_scan_form [OF keys, of "drop (Suc ?n) ?b"] by (simp add: form_field_def terminated_def)
qed

section \<open>The endpoints as services\<close>

lemma servesI:
  assumes "length body \<le> 60000"
    and "\<And>req srv. req_shape req \<Longrightarrow> request_text req = rt \<Longrightarrow> srv_ready srv \<Longrightarrow>
      srv_sessiondb srv = fst st \<Longrightarrow> srv_userdb srv = snd st \<Longrightarrow>
      \<exists>srv2. handle (route_of req) k (terminated req) srv = Inr srv2 \<and>
        replied (terminated req) body (srv\<lparr>srv_sessiondb := fst st', srv_userdb := snd st'\<rparr>) srv2"
  shows "serves k st rt body st'"
  using assms by (auto simp: serves_def)

lemma login_serves:
  assumes rt: "rt_texts rt = (str ''/api/auth/login'', str ''POST'', s)" "rt_body rt = enc_form fs"
    and fs: "\<forall>f \<in> set fs. plain_key (fst f)" "map_of fs (str ''username'') = Some n" "length n < 64"
      "map_of fs (str ''password'') = Some w" "length w < 64"
    and udb: "userdb_wf udb" "user_slot udb (cstr (n @ [0])) = Some i"
      "pass_hash (udb_pool udb ! i) = ucast (crc32c (cstr (w @ [0])))"
    and db: "sessiondb_wf db" "sess_abs db sid = None" "0 < sess_room db"
    and rnd: "k_random k = (res, bytes)" "8 \<le> res" "sid = (if bytes = 0 then 1 else bytes)"
  shows "\<exists>db'. serves k (Some db, Some udb) rt
      (login_text sid (cstr (username (udb_pool udb ! i))) (total_points (udb_pool udb ! i))) (Some db', Some udb) \<and>
    sessiondb_wf db' \<and> sess_abs db' = (sess_abs db)(sid \<mapsto> uid (udb_pool udb ! i))"
proof -
  let ?u = "udb_pool udb ! i"
  have "sess_index db sid = None" using db(2) by (simp add: sess_abs_None)
  from sess_create_ok [OF db(1) sess_count_room [OF db(1,3)] rnd(2,3) this db(3), of "uid ?u" "k_now k"]
  obtain db' where db': "cg_sessiondb_entry_create db (uid ?u) (res, bytes) (k_now k) = Inr (db', Some (new_session sid (uid ?u) (k_now k)))"
      "sessiondb_wf db'" "sess_abs db' = (sess_abs db)(sid \<mapsto> uid ?u)" by blast
  have "i < length (udb_pool udb)" using udb(2) by (simp add: user_slot_def first_index_less)
  then have "length (cstr (username ?u)) \<le> 31"
    using userdb_wfD(2) [OF udb(1)] length_cstr_less [of "username ?u"] by (simp add: user_shape_def)
  then have len: "length (login_text sid (cstr (username ?u)) (total_points ?u)) \<le> 60000"
    using length_user_text [of "cstr (username ?u)" sid] length_dec_u32 [of "total_points ?u"] by (simp add: login_text_def)
  have keys: "plain_key (str ''username'')" "plain_key (str ''password'')" by (simp_all add: plain_key_def str_def)
  have "serves k (Some db, Some udb) rt (login_text sid (cstr (username ?u)) (total_points ?u)) (Some db', Some udb)"
  proof (rule servesI [OF len])
    fix req srv
    assume r: "req_shape req" "request_text req = rt" "srv_ready srv" "srv_sessiondb srv = fst (Some db, Some udb)"
      "srv_userdb srv = snd (Some db, Some udb)"
    note shape = terminated_shape [OF r(1)]
    have "handle (route_of req) = cg_route_api_auth_login"
      using text_route [of "(''/api/auth/login'', Route_AuthLogin)" req] r(1,2) rt(1) by (simp add: route_paths_def)
    moreover have "form_credentials (terminated req) = Inr (Some (n @ [0], w @ [0]))"
      using text_field [OF r(1) _ keys(1) fs(1)] text_field [OF r(1) _ keys(2) fs(1)] r(2) rt(2) fs
      by (intro form_credentials_ok stdin_has_nul [OF shape]) simp_all
    moreover have "uses_method (terminated req) ''POST''" using text_method r(2) rt(1) by blast
    moreover have "open_session k (uid ?u) srv = Inr (srv\<lparr>srv_sessiondb := Some db'\<rparr>, sid)"
      using db'(1) r(4) rnd(1) by (simp add: open_session_def deref_def)
    moreover have st: "srv\<lparr>srv_sessiondb := Some db', srv_userdb := Some udb\<rparr> = srv\<lparr>srv_sessiondb := Some db'\<rparr>"
      using r(5) by (cases srv) simp
    ultimately show "\<exists>srv2. handle (route_of req) k (terminated req) srv = Inr srv2 \<and>
        replied (terminated req) (login_text sid (cstr (username ?u)) (total_points ?u))
          (srv\<lparr>srv_sessiondb := fst (Some db', Some udb), srv_userdb := snd (Some db', Some udb)\<rparr>) srv2"
      unfolding fst_conv snd_conv st using login_ok [OF r(3) shape _ _ _ udb, of k db' sid] r(5) by simp
  qed
  then show ?thesis using db'(2,3) by blast
qed

lemma profile_serves:
  assumes rt: "rt_texts rt = (str ''/api/user/profile'', str ''GET'', dec (unat sid))"
    and udb: "userdb_wf udb" and db: "sessiondb_wf db" "sess_abs db sid = Some n"
    and found: "cg_userdb_find_by_id udb n = Some i" and "n \<noteq> 0"
  shows "serves k (Some db, Some udb) rt (profile_body (udb_pool udb ! i)) (Some db, Some udb)"
proof (rule servesI)
  show "length (profile_body (udb_pool udb ! i)) \<le> 60000"
    using profile_text_ok(2) [OF found_shape(1) [OF udb found]] by simp
  fix req srv
  assume r: "req_shape req" "request_text req = rt" "srv_ready srv" "srv_sessiondb srv = fst (Some db, Some udb)"
    "srv_userdb srv = snd (Some db, Some udb)"
  have "handle (route_of req) = cg_route_api_user_profile"
    using text_route [of "(''/api/user/profile'', Route_UserProfile)" req] r(1,2) rt by (simp add: route_paths_def)
  moreover have "uses_method (terminated req) ''GET''" using text_method r(2) rt by blast
  moreover note text_session [OF r(1), of _ _ sid]
  moreover have st: "srv\<lparr>srv_sessiondb := Some db, srv_userdb := Some udb\<rparr> = srv" using r(4,5) by (cases srv) simp
  moreover have "profile_answer (Some n) udb = profile_body (udb_pool udb ! i)"
    using assms(5,6) by (simp add: profile_answer_def)
  ultimately show "\<exists>srv2. handle (route_of req) k (terminated req) srv = Inr srv2 \<and>
      replied (terminated req) (profile_body (udb_pool udb ! i))
        (srv\<lparr>srv_sessiondb := fst (Some db, Some udb), srv_userdb := snd (Some db, Some udb)\<rparr>) srv2"
    unfolding fst_conv snd_conv st using profile_handler [OF r(3) terminated_shape [OF r(1)] _ _ _ db(1) _ udb, of k] r(2,4,5) rt db(2) by simp
qed

lemma update_serves:
  assumes rt: "rt_texts rt = (str ''/api/user/profile/update'', str ''POST'', dec (unat sid))" "rt_body rt = enc_form fs"
    and fs: "\<forall>f \<in> set fs. plain_key (fst f)" "map_of fs (str ''description'') = Some t" "length t < 2048"
    and udb: "userdb_wf udb" and db: "sessiondb_wf db" "sess_abs db sid = Some n"
    and found: "cg_userdb_find_by_id udb n = Some i" and "n \<noteq> 0"
    and u': "set_description (udb_pool udb ! i) t = Inr u'"
  shows "serves k (Some db, Some udb) rt (json_text ''200 OK'' ''{\"status\":\"success\"}'')
    (Some db, Some (set_user udb i u'))"
proof (rule servesI)
  show "length (json_text ''200 OK'' ''{\"status\":\"success\"}'') \<le> 60000" by (simp add: length_json_text)
  have key: "plain_key (str ''description'')" by (simp add: plain_key_def str_def)
  fix req srv
  assume r: "req_shape req" "request_text req = rt" "srv_ready srv" "srv_sessiondb srv = fst (Some db, Some udb)"
    "srv_userdb srv = snd (Some db, Some udb)"
  have "handle (route_of req) = cg_route_api_user_profile_update"
    using text_route [of "(''/api/user/profile/update'', Route_UserProfileUpdate)" req] r(1,2) rt by (simp add: route_paths_def)
  moreover have "uses_method (terminated req) ''POST''" using text_method r(2) rt(1) by blast
  moreover have "request_session (terminated req) = sid" using text_session(1) [OF r(1)] r(2) rt(1) by blast
  moreover have "form_field (stdin_buf (terminated req)) ''description'' = Some t"
    using text_field [OF r(1) _ key fs(1)] r(2) rt(2) fs(2) by simp
  moreover have "named_user db sid = Some n" using db(2) assms(10) by (simp add: named_user_def)
  moreover have st: "srv\<lparr>srv_sessiondb := Some db, srv_userdb := Some (set_user udb i u')\<rparr> =
      srv\<lparr>srv_userdb := Some (set_user udb i u')\<rparr>" using r(4) by (cases srv) simp
  ultimately show "\<exists>srv2. handle (route_of req) k (terminated req) srv = Inr srv2 \<and>
      replied (terminated req) (json_text ''200 OK'' ''{\"status\":\"success\"}'')
        (srv\<lparr>srv_sessiondb := fst (Some db, Some (set_user udb i u')), srv_userdb := snd (Some db, Some (set_user udb i u'))\<rparr>) srv2"
    unfolding fst_conv snd_conv st
    using update_writes [OF r(3) terminated_shape [OF r(1)] _ _ db(1) _ _ found _ fs(3) u', of k] r(4,5) by simp
qed

section \<open>A visit\<close>

text \<open>
  The records that the web server sends for one request of a visitor on a kept connection: method,
  path and, when there is one, the cookie, and then the body.
\<close>

definition web_request :: "u16 \<Rightarrow> string \<Rightarrow> string \<Rightarrow> byte list \<Rightarrow> byte list \<Rightarrow> request" where
  "web_request num meth path cookie body =
     \<lparr>rq_number = num, rq_begin = ([0, 1, 1, 0, 0, 0, 0, 0], []),
      rq_records = [(Params ([(str ''REQUEST_METHOD'', str meth), (str ''REQUEST_URI'', str path)] @
          (if cookie = [] then [] else [(str ''HTTP_COOKIE'', cookie)])), []), (Params [], [])] @
        (if body = [] then [] else [(Data body, [])]),
      rq_pad = []\<rparr>"

abbreviation session_cookie :: "u64 \<Rightarrow> byte list" where
  "session_cookie sid \<equiv> str ''SESSION='' @ dec (unat sid)"

lemma web_number: "rq_number (web_request num meth path cookie body) = num"
  by (simp add: web_request_def)

lemma length_enc_pair: "length (enc_pair (n, v)) \<le> 8 + length n + length v"
  by (simp add: enc_pair_def enc_len_def)

lemma web_request_ok:
  assumes "length meth \<le> 100" and "length path \<le> 1000" and "length cookie \<le> 1000" and "length body < 4096"
  shows "rq_ok (web_request num meth path cookie body)"
proof -
  define ps where "ps = [(str ''REQUEST_METHOD'', str meth), (str ''REQUEST_URI'', str path)] @
    (if cookie = [] then [] else [(str ''HTTP_COOKIE'', cookie)])"
  have "length (enc_pairs ps) \<le> 3000"
    using assms length_enc_pair [of "str ''REQUEST_METHOD''" "str meth"] length_enc_pair [of "str ''REQUEST_URI''" "str path"]
      length_enc_pair [of "str ''HTTP_COOKIE''" cookie] by (auto simp: ps_def enc_pairs_def)
  then show ?thesis
    using assms(4) unfolding rq_ok_def rq_bytes_def rq_events_def web_request_def ps_def [symmetric]
    by (auto simp: ev_bytes_def ev_payload_def enc_pairs_def [of "[]"])
qed

lemma path_view:
  assumes "p \<in> set route_paths"
  shows "takeWhile (\<lambda>c. c \<noteq> 0 \<and> c \<noteq> 63) (take 127 (str (fst p))) = str (fst p)"
  using assms unfolding route_paths_def by (auto simp: str_def of_char_def)

lemma web_text:
  fixes num :: u16 and rt :: request_text
  assumes p: "(path, r) \<in> set route_paths" and m: "meth = ''GET'' \<or> meth = ''POST''" and body: "length body < 4096"
    and cookie: "cookie = [] \<and> s = [] \<or> cookie = session_cookie sid \<and> s = dec (unat sid)"
  defines "rt1 \<equiv> effects num (rq_events (web_request num meth path cookie body)) rt"
  shows "rt_texts rt1 = (str path, str meth, s)" and "rt_body rt1 = body" and "rt_keep rt1 = 1"
proof -
  have ne: "str ''REQUEST_METHOD'' \<noteq> str ''REQUEST_URI''" "str ''HTTP_COOKIE'' \<noteq> str ''REQUEST_URI''"
      "str ''HTTP_COOKIE'' \<noteq> str ''REQUEST_METHOD''" by (simp_all add: str_def of_char_def)
  have mv: "cstr (take 15 (str meth)) = str meth" using m by (auto simp: str_def cstr_def of_char_def)
  have cv: "cookie \<noteq> [] \<Longrightarrow> cookie_value cookie = Some s"
    using cookie cookie_value_session [of "[]" sid "[]"] by auto
  have "s = []" if "cookie = []" using cookie that by (auto simp: str_def)
  then show "rt_texts rt1 = (str path, str meth, s)"
    using path_view [OF p] ne mv cv
    by (cases "rt_texts rt") (auto simp: rt1_def rq_events_def web_request_def)
  show "rt_body rt1 = body" using body by (auto simp: rt1_def rq_events_def web_request_def)
  show "rt_keep rt1 = 1" by (auto simp: rt1_def rq_events_def web_request_def)
qed

end
