(* ===== verification/CG_Pieces.thy ===== *)
theory CG_Pieces
  imports CG_Conversation CG_Slide
begin

text \<open>
  A request that comes in several reads. After each of them the event loop parses what is there and
  moves the rest to the start of the buffer with the vector copy; where this move is right, the
  next read goes on where the last one has stopped.
\<close>

section \<open>The reads\<close>

text \<open>The loop submits a read, and handles its completion with the bytes in the buffer.\<close>

definition read_piece :: "layout \<Rightarrow> kernel \<Rightarrow> nat \<Rightarrow> byte list \<Rightarrow> app \<Rightarrow> app cres" where
  "read_piece lay k i c app =
     cbind (cg_main_client_state_handle lay i app) (\<lambda>app.
       cg_main_client_cqe_handle lay k i
         \<lparr>cqe_user_data = client_tag lay i, cqe_res = word_of_nat (length c), cqe_flags = 0\<rparr> (received i c app))"

fun read_all :: "layout \<Rightarrow> kernel \<Rightarrow> nat \<Rightarrow> byte list list \<Rightarrow> app \<Rightarrow> app cres" where
  "read_all lay k i [] app = Inr app"
| "read_all lay k i (c # cs) app = cbind (read_piece lay k i c app) (read_all lay k i cs)"

text \<open>
  Where the moves between the reads are right, for a buffer at \<open>base\<close>: it depends on how many bytes
  the parser has taken since the last move, and how many are left behind them.
\<close>

definition slide_fits :: "nat \<Rightarrow> nat \<Rightarrow> nat \<Rightarrow> bool" where
  "slide_fits base pos n \<longleftrightarrow> pos = 0 \<or> n < 32 \<or> copy_tail base n = 0 \<or> 32 \<le> pos + copy_tail base n"

fun cuts_fit :: "nat \<Rightarrow> (event \<times> byte list) list \<Rightarrow> nat \<Rightarrow> byte list list \<Rightarrow> bool" where
  "cuts_fit base rs n [] \<longleftrightarrow> True"
| "cuts_fit base rs n (c # cs) \<longleftrightarrow>
     (let n' = n + length c in slide_fits base (taken rs n' - taken rs n) (n' - taken rs n') \<and> cuts_fit base rs n' cs)"

section \<open>In the middle of a request\<close>

text \<open>The bytes that wait in the buffer, and how many of the request have come.\<close>

abbreviation waiting :: "nat \<Rightarrow> app \<Rightarrow> byte list" where
  "waiting i app \<equiv> (let rx = rx_buf_meta (fcgi_cli_ctx (g_cli_ctx_pool app ! i)) in take (unat (meta_valid rx)) (meta_buf rx))"

abbreviation header_of :: "nat \<Rightarrow> app \<Rightarrow> cg_fastcgi_header" where
  "header_of i app \<equiv> saved_hdr (fcgi_cli_ctx (g_cli_ctx_pool app ! i))"

definition arrived :: "(event \<times> byte list) list \<Rightarrow> nat \<Rightarrow> app \<Rightarrow> nat" where
  "arrived fin i app = records_size fin + (if hdr_type (header_of i app) = 0 then 0 else 8) + length (waiting i app)"

definition midway :: "u16 \<Rightarrow> nat \<Rightarrow> (event \<times> byte list) list \<Rightarrow> byte list \<Rightarrow> app \<Rightarrow> bool" where
  "midway rid i todo coming app \<longleftrightarrow>
     i < length (g_cli_ctx_pool app) \<and> sq_ok (g_uring_ctx app) \<and> routes_ready (g_route_map app) \<and>
     (let c = g_cli_ctx_pool app ! i; fcgi = fcgi_cli_ctx c in
      fcli_state fcgi = CG_FASTCGI_CLIENT_STATE_READ_SQE \<and> length (meta_buf (rx_buf_meta fcgi)) = 65790 \<and>
      unat (meta_valid (rx_buf_meta fcgi)) \<le> 65790 \<and> req_shape (cli_req c) \<and> tx_ok (tx_buf_meta fcgi)) \<and>
     expects rid todo (header_of i app) (waiting i app @ coming) \<and> short todo (header_of i app) (waiting i app) \<and>
     length (waiting i app @ coming) \<le> 65790"

lemma expects_length:
  assumes "expects rid rs hdr bytes" and "short rs hdr got"
  shows "(if hdr_type hdr = 0 then 0 else 8) + length bytes = records_size rs"
proof -
  have l: "length (concat (map (ev_bytes rid) rs)) = records_size rs" for rs
    by (induction rs) (simp_all add: ev_bytes_def)
  from assms(1) consider "hdr_type hdr = 0" "bytes = concat (map (ev_bytes rid) rs)"
    | r rs' where "rs = r # rs'" "hdr = load_header (ev_header rid r)" "bytes = ev_payload r @ concat (map (ev_bytes rid) rs')" "ev_ok r"
    by (auto simp: expects_def)
  then show ?thesis
  proof cases
    case 1
    then show ?thesis using l by simp
  next
    case 2
    then show ?thesis using l ev_type_0 [of r] by (simp add: load_ev_header)
  qed
qed

text \<open>What the handler of the completion starts from.\<close>

lemma piece_arrives:
  assumes m: "midway rid i todo (c @ coming) app" and c: "c \<noteq> []"
  defines "cli \<equiv> g_cli_ctx_pool app ! i"
  defines "rx \<equiv> rx_buf_meta (fcgi_cli_ctx cli)"
  shows "\<exists>app2 buf. (\<forall>k. read_piece lay k i c app = client_read_done lay k i (word_of_nat (length c)) app2) \<and>
    same_data app app2 \<and> sq_ok (g_uring_ctx app2) \<and>
    g_cli_ctx_pool app2 = (g_cli_ctx_pool app)[i := cli\<lparr>fcgi_cli_ctx := (fcgi_cli_ctx cli)
      \<lparr>fcli_state := CG_FASTCGI_CLIENT_STATE_READ_CQE, rx_buf_meta := rx\<lparr>meta_buf := buf\<rparr>\<rparr>\<rparr>] \<and>
    length buf = 65790 \<and> unat (meta_valid rx + word_of_nat (length c)) = unat (meta_valid rx) + length c \<and>
    unat (meta_valid rx) + length c \<le> 65790 \<and>
    take (unat (meta_valid rx) + length c) buf = take (unat (meta_valid rx)) (meta_buf rx) @ c"
proof -
  have M: "i < length (g_cli_ctx_pool app)" "sq_ok (g_uring_ctx app)" "length (meta_buf rx) = 65790"
      "fcli_state (fcgi_cli_ctx (g_cli_ctx_pool app ! i)) = CG_FASTCGI_CLIENT_STATE_READ_SQE"
      "unat (meta_valid rx) + length c \<le> 65790"
    using m by (auto simp: midway_def Let_def cli_def rx_def)
  from read_submitted [OF M(2,4), of lay] obtain app1 where
    a1: "cg_main_client_state_handle lay i app = Inr app1" "sq_ok (g_uring_ctx app1)" "same_data app app1"
      "g_cli_ctx_pool app1 = (g_cli_ctx_pool app)[i := cli\<lparr>fcgi_cli_ctx :=
        (fcgi_cli_ctx cli)\<lparr>fcli_state := CG_FASTCGI_CLIENT_STATE_READ_CQE\<rparr>\<rparr>]" unfolding cli_def by blast
  let ?buf = "buf_splice (meta_buf rx) (unat (meta_valid rx)) c" and ?app2 = "received i c app1"
  have p: "g_cli_ctx_pool ?app2 = (g_cli_ctx_pool app)[i := cli\<lparr>fcgi_cli_ctx := (fcgi_cli_ctx cli)
      \<lparr>fcli_state := CG_FASTCGI_CLIENT_STATE_READ_CQE, rx_buf_meta := rx\<lparr>meta_buf := ?buf\<rparr>\<rparr>\<rparr>]"
    using M(1) by (simp add: received_def set_fcgi_def Let_def a1(4) rx_def)
  have "length c \<le> 65790" using M(5) by simp
  then have res: "unat (word_of_nat (length c) :: u32) = length c" by (simp add: unat_of_nat)
  have "sint (word_of_nat (length c) :: u32) = int (length c)"
    using sint_small [of "word_of_nat (length c)"] M(5) res by (simp add: uint_nat)
  then have "\<not> sint (word_of_nat (length c) :: u32) \<le> 0" using c by simp
  then have h: "read_piece lay k i c app = client_read_done lay k i (word_of_nat (length c)) ?app2" for k
    using a1(1) M(1) by (simp add: read_piece_def cg_main_client_cqe_handle_def Let_def p)
  have "unat (meta_valid rx + word_of_nat (length c)) = unat (meta_valid rx) + length c"
    using unat_add_small [of "meta_valid rx" "word_of_nat (length c)"] res M(5) by simp
  moreover have "take (unat (meta_valid rx) + length c) ?buf = take (unat (meta_valid rx)) (meta_buf rx) @ c"
    using M(3,5) take_buf_splice [of "unat (meta_valid rx)" c "meta_buf rx"] by simp
  ultimately show ?thesis
    using h a1(2,3) p M(3,5) by (intro exI [of _ ?app2] exI [of _ ?buf]) (simp add: received_def set_fcgi_def Let_def)
qed

text \<open>Everything but the last read: the parser waits, and the rest is at the start of the buffer.\<close>

lemma piece_part:
  assumes m: "midway rid i (rs @ [(Finish, pad)]) (c @ coming) app" and c: "c \<noteq> []" "coming \<noteq> []"
    and nf: "Finish \<notin> fst ` set rs"
    and fits: "n' = arrived fin i app + length c"
      "slide_fits (unat (lay_rx_buf lay i)) (taken (fin @ rs @ [(Finish, pad)]) n' - taken (fin @ rs @ [(Finish, pad)]) (arrived fin i app))
        (n' - taken (fin @ rs @ [(Finish, pad)]) n')"
  shows "\<exists>app' fin' todo. read_piece lay k i c app = Inr app' \<and> rs = fin' @ todo \<and>
    midway rid i (todo @ [(Finish, pad)]) coming app' \<and> arrived (fin @ fin') i app' = n' \<and> same_data app app' \<and>
    request_text (cli_req (g_cli_ctx_pool app' ! i)) = effects rid fin' (request_text (cli_req (g_cli_ctx_pool app ! i)))"
proof -
  let ?F = "[(Finish, pad)]"
  define cli where "cli = g_cli_ctx_pool app ! i"
  define fcgi where "fcgi = fcgi_cli_ctx cli"
  define rx where "rx = rx_buf_meta fcgi"
  define got where "got = take (unat (meta_valid rx)) (meta_buf rx)"
  have M: "i < length (g_cli_ctx_pool app)" "routes_ready (g_route_map app)" "req_shape (cli_req cli)" "tx_ok (tx_buf_meta fcgi)"
      "expects rid (rs @ ?F) (saved_hdr fcgi) (got @ c @ coming)" "short (rs @ ?F) (saved_hdr fcgi) got"
      "length (got @ c @ coming) \<le> 65790" "length got = unat (meta_valid rx)"
    using m by (auto simp: midway_def Let_def cli_def fcgi_def rx_def got_def)
  from piece_arrives [OF m c(1), of lay] obtain app2 buf where
    a2: "\<And>k. read_piece lay k i c app = client_read_done lay k i (word_of_nat (length c)) app2" "same_data app app2"
      "sq_ok (g_uring_ctx app2)"
      "g_cli_ctx_pool app2 = (g_cli_ctx_pool app)[i := cli\<lparr>fcgi_cli_ctx := fcgi
        \<lparr>fcli_state := CG_FASTCGI_CLIENT_STATE_READ_CQE, rx_buf_meta := rx\<lparr>meta_buf := buf\<rparr>\<rparr>\<rparr>]"
      "length buf = 65790" "unat (meta_valid rx + word_of_nat (length c)) = unat (meta_valid rx) + length c"
      "unat (meta_valid rx) + length c \<le> 65790" "take (unat (meta_valid rx) + length c) buf = got @ c"
    unfolding got_def rx_def fcgi_def cli_def by blast
  let ?rx = "rx\<lparr>meta_buf := buf, meta_valid := meta_valid rx + word_of_nat (length c), meta_pos := 0\<rparr>"
  have slack: "rx_slack 0 ?rx" using a2(5-7) by (simp add: rx_slack_def)
  have un: "unread ?rx = got @ c" using a2(6,8) by (simp add: unread_def leftover_def)
  have ex: "expects rid (rs @ ?F) (saved_hdr fcgi) (unread ?rx @ coming)" using M(5) un by simp
  have "hdr_type (saved_hdr fcgi) = 0 \<or> unread ?rx \<noteq> []" using un c(1) by simp
  from parse_part [OF slack M(3) ex refl c(2) nf this] obtain rx' req' hdr' fin' todo where
    p: "parse_loop ?rx (cli_req cli) (saved_hdr fcgi) = Some (Inr (rx', req', hdr', 1))" "rx_slack 0 rx'"
      "same_buffer ?rx rx'" "req_shape req'" "rs = fin' @ todo" "expects rid (todo @ ?F) hdr' (unread rx' @ coming)"
      "request_text req' = effects rid fin' (request_text (cli_req cli))" "short (todo @ ?F) hdr' (unread rx')" by blast
  have buf': "meta_buf rx' = buf" "meta_valid rx' = meta_valid rx + word_of_nat (length c)" using p(3) by (simp_all add: same_buffer_def)
  have l: "length (unread rx') = unat (meta_valid rx' - meta_pos rx')" using length_unread [OF p(2)] leftover_sub [OF p(2)] by simp
  have pos: "unat (meta_pos rx') + length (unread rx') = length got + length c"
    using length_unread [OF p(2)] p(2) a2(6) M(8) buf'(2) by (simp add: leftover_def rx_slack_def word_le_nat_alt)
  define h where "h = (if hdr_type (saved_hdr fcgi) = 0 then 0 else 8 :: nat)"
  define h' where "h' = (if hdr_type hdr' = 0 then 0 else 8 :: nat)"
  have size: "records_size fin' + h' + length (unread rx') = h + length got + length c"
    using expects_length [OF M(5,6)] expects_length [OF p(6,8)] p(5) unfolding h_def [symmetric] h'_def [symmetric] by simp
  have arr: "arrived fin i app = records_size fin + h + length got"
    by (simp add: arrived_def Let_def h_def got_def rx_def fcgi_def cli_def)
  have n': "n' = records_size (fin @ fin') + h' + length (unread rx')" using fits(1) arr size by simp
  have t1: "taken (fin @ rs @ ?F) (arrived fin i app) = records_size fin + h"
    unfolding arr h_def by (rule taken_short) (use M(6) in simp_all)
  have t2: "taken (fin @ rs @ ?F) n' = records_size (fin @ fin') + h'"
    using taken_short [OF _ p(8), of "fin @ fin'"] p(5) n' by (simp add: h'_def)
  have fit: "slide_fits (unat (lay_rx_buf lay i)) (unat (meta_pos rx')) (length (unread rx'))"
  proof -
    have "taken (fin @ rs @ ?F) n' - taken (fin @ rs @ ?F) (arrived fin i app) = unat (meta_pos rx')"
      using t1 t2 size pos by simp
    moreover have "n' - taken (fin @ rs @ ?F) n' = length (unread rx')" using t2 n' by simp
    ultimately show ?thesis using fits(2) by metis
  qed
  let ?left = "meta_valid rx' - meta_pos rx'"
  have inside: "unat (meta_pos rx') + length (unread rx') \<le> length buf" using pos a2(5,7) M(8) by simp
  have whole: "unread rx' = take (length (unread rx')) (drop (unat (meta_pos rx')) buf)"
    using length_unread [OF p(2)] buf'(1) by (simp add: unread_def)
  have "\<exists>buf2. (if 0 < ?left \<and> 0 < meta_pos rx' then
      slide_buf (unat (lay_rx_buf lay i)) (meta_buf rx') (unat (meta_pos rx')) (unat ?left) else Inr (meta_buf rx')) = Inr buf2 \<and>
      length buf2 = 65790 \<and> take (unat ?left) buf2 = unread rx'"
  proof (cases "0 < ?left \<and> 0 < meta_pos rx'")
    case True
    then have "unat (meta_pos rx') \<noteq> 0" by (simp add: unat_eq_0 word_gt_0)
    then have "slide_buf (unat (lay_rx_buf lay i)) buf (unat (meta_pos rx')) (length (unread rx')) =
        Inr (take (length (unread rx')) (drop (unat (meta_pos rx')) buf) @ drop (length (unread rx')) buf)"
      using fit by (intro slide_ok [OF inside]) (auto simp: slide_fits_def)
    then have s: "slide_buf (unat (lay_rx_buf lay i)) (meta_buf rx') (unat (meta_pos rx')) (unat ?left) =
        Inr (unread rx' @ drop (length (unread rx')) buf)" using whole l buf'(1) by metis
    show ?thesis
      using True s l inside a2(5) by (intro exI [of _ "unread rx' @ drop (length (unread rx')) buf"]) simp
  next
    case False
    have "take (length (unread rx')) buf = unread rx'"
    proof (cases "meta_pos rx' = 0")
      case True
      then show ?thesis using whole by simp
    next
      case False
      then have "?left = 0" using \<open>\<not> (0 < ?left \<and> _)\<close> by (simp add: word_gt_0)
      then show ?thesis using l by simp
    qed
    then have "length (meta_buf rx') = 65790 \<and> take (unat ?left) (meta_buf rx') = unread rx'" using l a2(5) buf'(1) by simp
    then show ?thesis unfolding if_not_P [OF False] by blast
  qed
  then obtain buf2 where buf2: "(if 0 < ?left \<and> 0 < meta_pos rx' then
      slide_buf (unat (lay_rx_buf lay i)) (meta_buf rx') (unat (meta_pos rx')) (unat ?left) else Inr (meta_buf rx')) = Inr buf2"
      "length buf2 = 65790" "take (unat ?left) buf2 = unread rx'" by blast
  define cli2 where "cli2 = cli\<lparr>cli_req := req', fcgi_cli_ctx := fcgi\<lparr>rx_buf_meta := rx'\<lparr>meta_buf := buf2, meta_valid := ?left, meta_pos := 0\<rparr>,
    saved_hdr := hdr', fcli_state := CG_FASTCGI_CLIENT_STATE_READ_SQE\<rparr>\<rparr>"
  define app3 where "app3 = app2\<lparr>g_cli_ctx_pool := (g_cli_ctx_pool app2)[i := cli2]\<rparr>"
  have run: "read_piece lay k i c app = Inr app3"
    unfolding a2(1) app3_def cli2_def
    using p(1) buf2(1) M(1) by (simp add: client_read_done_def Let_def a2(4) cg_fastcgi_parse_def)
  have c3: "g_cli_ctx_pool app3 ! i = cli2" "length (g_cli_ctx_pool app3) = length (g_cli_ctx_pool app)" "same_data app app3"
      "sq_ok (g_uring_ctx app3)"
    using M(1) a2(2-4) by (simp_all add: app3_def)
  have w: "waiting i app3 = unread rx'" "header_of i app3 = hdr'" using buf2(3) by (simp_all add: c3(1) cli2_def)
  have "midway rid i (todo @ ?F) coming app3"
    unfolding midway_def w
    using c3 M p(4,6,8) buf2(2) l pos a2(7) by (simp add: Let_def) (simp add: cli2_def)
  moreover have "arrived (fin @ fin') i app3 = n'" unfolding arrived_def w n' h'_def by simp
  moreover have "request_text (cli_req (g_cli_ctx_pool app3 ! i)) = effects rid fin' (request_text (cli_req cli))"
    using p(7) by (simp add: c3(1) cli2_def)
  ultimately show ?thesis using run p(5) c3(3) unfolding cli_def by blast
qed

text \<open>The last read: the request is complete, and answered.\<close>

lemma piece_last:
  assumes m: "midway rid i (rs @ [(Finish, pad)]) c app" and c: "c \<noteq> []" and nf: "Finish \<notin> fst ` set rs"
    and rt1: "effects rid rs (request_text (cli_req (g_cli_ctx_pool app ! i))) = rt1" "rt1 = effects rid ((Begin b, p0) # rs0) rt0"
    and serves: "serves k (stores_of app) rt1 body st1"
  shows "\<exists>app' req. read_piece lay k i c app = Inr app' \<and> stores_of app' = st1 \<and>
    answered req rid body (g_cli_ctx_pool app' ! i) \<and> request_text (cli_req (g_cli_ctx_pool app' ! i)) = rt1"
proof -
  let ?F = "[(Finish, pad)]"
  define cli where "cli = g_cli_ctx_pool app ! i"
  define fcgi where "fcgi = fcgi_cli_ctx cli"
  define rx where "rx = rx_buf_meta fcgi"
  define got where "got = take (unat (meta_valid rx)) (meta_buf rx)"
  have M: "i < length (g_cli_ctx_pool app)" "routes_ready (g_route_map app)" "req_shape (cli_req cli)" "tx_ok (tx_buf_meta fcgi)"
      "expects rid (rs @ ?F) (saved_hdr fcgi) (got @ c)"
    using m by (auto simp: midway_def Let_def cli_def fcgi_def rx_def got_def)
  have "midway rid i (rs @ ?F) (c @ []) app" using m by simp
  from piece_arrives [OF this c, of lay] obtain app2 buf where
    a2: "\<And>k. read_piece lay k i c app = client_read_done lay k i (word_of_nat (length c)) app2" "same_data app app2"
      "g_cli_ctx_pool app2 = (g_cli_ctx_pool app)[i := cli\<lparr>fcgi_cli_ctx := fcgi
        \<lparr>fcli_state := CG_FASTCGI_CLIENT_STATE_READ_CQE, rx_buf_meta := rx\<lparr>meta_buf := buf\<rparr>\<rparr>\<rparr>]"
      "length buf = 65790" "unat (meta_valid rx + word_of_nat (length c)) = unat (meta_valid rx) + length c"
      "unat (meta_valid rx) + length c \<le> 65790" "take (unat (meta_valid rx) + length c) buf = got @ c"
    unfolding got_def rx_def fcgi_def cli_def by blast
  let ?rx = "rx\<lparr>meta_buf := buf, meta_valid := meta_valid rx + word_of_nat (length c), meta_pos := 0\<rparr>"
  have slack: "rx_slack 0 ?rx" using a2(4-6) by (simp add: rx_slack_def)
  have un: "unread ?rx = (got @ c) @ []" using a2(5,7) by (simp add: unread_def leftover_def)
  have "got @ c \<noteq> []" using c by simp
  from parse_whole [OF slack M(3,5) un this nf] obtain rx' req hdr' where
    p: "parse_loop ?rx (cli_req cli) (saved_hdr fcgi) = Some (Inr (rx', req, hdr', 0))" "rx_slack 0 rx'" "same_buffer ?rx rx'"
      "req_shape req" "hdr_type hdr' = 0" "request_text req = effects rid rs (request_text (cli_req cli))" by blast
  have rt: "request_text req = rt1" using p(6) rt1(1) by (simp add: cli_def)
  have id: "req_id req = bswap16 rid" using request_id rt rt1(2) by blast
  define cli2 where "cli2 = g_cli_ctx_pool app2 ! i"
  have c2: "cli2 = cli\<lparr>fcgi_cli_ctx := fcgi\<lparr>fcli_state := CG_FASTCGI_CLIENT_STATE_READ_CQE,
      rx_buf_meta := rx\<lparr>meta_buf := buf\<rparr>\<rparr>\<rparr>" using M(1) by (simp add: cli2_def a2(3))
  define srv where "srv = cleared (client_server app2 (fcgi_cli_ctx cli2))"
  have "srv_ready srv" unfolding srv_def using M(4) by (intro cleared_ready) (simp add: client_server_def c2)
  moreover have "(srv_sessiondb srv, srv_userdb srv) = stores_of app"
    using a2(2) by (simp add: srv_def cleared_def client_server_def)
  ultimately obtain srv2 where h: "handle (route_of req) k (terminated req) srv = Inr srv2"
      "replied (terminated req) body (srv\<lparr>srv_sessiondb := fst st1, srv_userdb := snd st1\<rparr>) srv2" "length body \<le> 60000"
    using serves p(4) rt unfolding serves_def by blast
  have g: "i < length (g_cli_ctx_pool app2)" "tx_ok (tx_buf_meta (fcgi_cli_ctx cli2))" "routes_ready (g_route_map app2)"
      "length (meta_buf rx') = 65790"
    using M a2(2-4) p(3) by (simp_all add: c2 same_buffer_def)
  have parse: "cg_fastcgi_parse ((rx_buf_meta (fcgi_cli_ctx cli2))\<lparr>meta_valid := meta_valid (rx_buf_meta (fcgi_cli_ctx cli2)) +
      word_of_nat (length c), meta_pos := 0\<rparr>) (cli_req cli2) (saved_hdr (fcgi_cli_ctx cli2)) = Inr (rx', req, hdr', 0)"
    using p(1) by (simp add: cg_fastcgi_parse_def c2)
  from parsed_answers [OF g(1) cli2_def refl g(2,3) parse p(2) g(4) p(5,4) id h(1) [unfolded srv_def] h(2,3), of lay]
  obtain cli' where r: "client_read_done lay k i (word_of_nat (length c)) app2 = Inr (app2\<lparr>g_sessiondb := fst st1, g_userdb := snd st1,
      g_cli_ctx_pool := (g_cli_ctx_pool app2)[i := cli']\<rparr>)" "answered req rid body cli'" by auto
  have "request_text (cli_req cli') = rt1" using r(2) terminated_text [OF p(4)] rt by (simp add: answered_def)
  then show ?thesis using r g(1) a2(1) by auto
qed

section \<open>All reads\<close>

lemma read_some:
  assumes "midway rid i (rs @ [(Finish, pad)]) (concat ds @ coming) app" and "\<forall>c \<in> set ds. c \<noteq> []" and "coming \<noteq> []"
    and "Finish \<notin> fst ` set rs"
    and "cuts_fit (unat (lay_rx_buf lay i)) (fin @ rs @ [(Finish, pad)]) (arrived fin i app) (ds @ es)"
  shows "\<exists>app' fin' todo. read_all lay k i ds app = Inr app' \<and> rs = fin' @ todo \<and>
    midway rid i (todo @ [(Finish, pad)]) coming app' \<and> same_data app app' \<and>
    cuts_fit (unat (lay_rx_buf lay i)) ((fin @ fin') @ todo @ [(Finish, pad)]) (arrived (fin @ fin') i app') es \<and>
    request_text (cli_req (g_cli_ctx_pool app' ! i)) = effects rid fin' (request_text (cli_req (g_cli_ctx_pool app ! i)))"
  using assms
proof (induction ds arbitrary: app fin rs)
  case Nil
  then show ?case by (intro exI [of _ app] exI [of _ "[]"] exI [of _ rs]) simp
next
  case (Cons c ds)
  have m: "midway rid i (rs @ [(Finish, pad)]) (c @ concat ds @ coming) app" "c \<noteq> []" "concat ds @ coming \<noteq> []"
    using Cons.prems(1-3) by simp_all
  from Cons.prems(5) have f: "slide_fits (unat (lay_rx_buf lay i))
        (taken (fin @ rs @ [(Finish, pad)]) (arrived fin i app + length c) - taken (fin @ rs @ [(Finish, pad)]) (arrived fin i app))
        (arrived fin i app + length c - taken (fin @ rs @ [(Finish, pad)]) (arrived fin i app + length c))"
    and g: "cuts_fit (unat (lay_rx_buf lay i)) (fin @ rs @ [(Finish, pad)]) (arrived fin i app + length c) (ds @ es)"
    by (simp_all add: Let_def)
  from piece_part [OF m Cons.prems(4) refl f, of k] obtain app1 fin1 todo1 where
    p: "read_piece lay k i c app = Inr app1" "rs = fin1 @ todo1" "midway rid i (todo1 @ [(Finish, pad)]) (concat ds @ coming) app1"
      "arrived (fin @ fin1) i app1 = arrived fin i app + length c" "same_data app app1"
      "request_text (cli_req (g_cli_ctx_pool app1 ! i)) = effects rid fin1 (request_text (cli_req (g_cli_ctx_pool app ! i)))" by blast
  have nf: "Finish \<notin> fst ` set todo1" using Cons.prems(4) p(2) by auto
  have g1: "cuts_fit (unat (lay_rx_buf lay i)) ((fin @ fin1) @ todo1 @ [(Finish, pad)]) (arrived (fin @ fin1) i app1) (ds @ es)"
    using g p(2,4) by simp
  from Cons.IH [OF p(3) _ Cons.prems(3) nf g1] Cons.prems(2) obtain app2 fin2 todo2 where
    q: "read_all lay k i ds app1 = Inr app2" "todo1 = fin2 @ todo2" "midway rid i (todo2 @ [(Finish, pad)]) coming app2"
      "same_data app1 app2"
      "cuts_fit (unat (lay_rx_buf lay i)) (((fin @ fin1) @ fin2) @ todo2 @ [(Finish, pad)]) (arrived ((fin @ fin1) @ fin2) i app2) es"
      "request_text (cli_req (g_cli_ctx_pool app2 ! i)) = effects rid fin2 (request_text (cli_req (g_cli_ctx_pool app1 ! i)))" by auto
  show ?case
    using p q by (intro exI [of _ app2] exI [of _ "fin1 @ fin2"] exI [of _ todo2]) simp
qed

text \<open>A client that listens is at the beginning of its next request.\<close>

lemma listening_midway:
  assumes l: "listening i app" and r: "rq_ok r"
  shows "midway (rq_number r) i (rq_events r @ [(Finish, rq_pad r)]) (rq_bytes r) app" "arrived [] i app = 0"
proof -
  have ok: "\<forall>e \<in> set (rq_events r @ [(Finish, rq_pad r)]). ev_ok e" "length (rq_bytes r) \<le> 65790" using r by (auto simp: rq_ok_def)
  have h: "hdr_type (header_of i app) = 0" "meta_valid (rx_buf_meta (fcgi_cli_ctx (g_cli_ctx_pool app ! i))) = 0"
    using l by (simp_all add: listening_def receptive_def Let_def)
  have "expects (rq_number r) (rq_events r @ [(Finish, rq_pad r)]) (header_of i app) (rq_bytes r)"
    unfolding rq_bytes_def by (rule expects_start [OF ok(1) h(1)])
  then show "midway (rq_number r) i (rq_events r @ [(Finish, rq_pad r)]) (rq_bytes r) app"
    using l h ok(2) by (simp add: midway_def listening_def receptive_def Let_def short_def)
  show "arrived [] i app = 0" using h by (simp add: arrived_def Let_def)
qed

lemma read_all_append: "read_all lay k i (ds @ es) app = cbind (read_all lay k i ds app) (read_all lay k i es)"
proof (induction ds arbitrary: app)
  case (Cons c ds)
  then show ?case by (cases "read_piece lay k i c app") simp_all
qed simp

text \<open>Before the last read the client reads on; with it the request is answered.\<close>

lemma read_request_waits:
  assumes "listening i app" and "rq_ok r" and "rq_bytes r = concat (ds @ es)" and "\<forall>c \<in> set (ds @ es). c \<noteq> []" and "es \<noteq> []"
    and "cuts_fit (unat (lay_rx_buf lay i)) (rq_events r @ [(Finish, rq_pad r)]) 0 (ds @ es)"
  shows "\<exists>app' fin todo. read_all lay k i ds app = Inr app' \<and> rq_events r = fin @ todo \<and>
    midway (rq_number r) i (todo @ [(Finish, rq_pad r)]) (concat es) app' \<and> same_data app app' \<and>
    request_text (cli_req (g_cli_ctx_pool app' ! i)) = effects (rq_number r) fin (request_text (cli_req (g_cli_ctx_pool app ! i)))"
proof -
  note L = listening_midway [OF assms(1,2)]
  have nf: "Finish \<notin> fst ` set (rq_events r)" using assms(2) by (auto simp: rq_ok_def rq_events_def split: prod.splits)
  have ne: "concat es \<noteq> []" using assms(4,5) by (cases es) auto
  have m: "midway (rq_number r) i (rq_events r @ [(Finish, rq_pad r)]) (concat ds @ concat es) app" using L(1) assms(3) by simp
  have f: "cuts_fit (unat (lay_rx_buf lay i)) ([] @ rq_events r @ [(Finish, rq_pad r)]) (arrived [] i app) (ds @ es)"
    using assms(6) L(2) by simp
  from read_some [OF m _ ne nf f, of k] assms(4) show ?thesis by auto
qed

lemma read_request_ends:
  assumes "listening i app" and r: "rq_ok r" and "rq_bytes r = concat cs" and "\<forall>c \<in> set cs. c \<noteq> []"
    and "cuts_fit (unat (lay_rx_buf lay i)) (rq_events r @ [(Finish, rq_pad r)]) 0 cs"
    and rt1: "rt1 = effects (rq_number r) (rq_events r) (request_text (cli_req (g_cli_ctx_pool app ! i)))"
    and serves: "serves k (stores_of app) rt1 body st1"
  shows "\<exists>app' req. read_all lay k i cs app = Inr app' \<and> stores_of app' = st1 \<and>
    answered req (rq_number r) body (g_cli_ctx_pool app' ! i) \<and> request_text (cli_req (g_cli_ctx_pool app' ! i)) = rt1"
proof -
  have nf: "Finish \<notin> fst ` set (rq_events r)" using r by (auto simp: rq_ok_def rq_events_def split: prod.splits)
  have "rq_bytes r \<noteq> []" by (simp add: rq_bytes_def ev_bytes_def ev_header_def)
  then have "cs \<noteq> []" using assms(3) by auto
  then obtain ds c where cs: "cs = ds @ [c]" by (cases cs rule: rev_cases) auto
  from read_request_waits [OF assms(1,2), of ds "[c]" lay k] assms(3-5) cs obtain app1 fin todo where
    p: "read_all lay k i ds app = Inr app1" "rq_events r = fin @ todo"
      "midway (rq_number r) i (todo @ [(Finish, rq_pad r)]) c app1" "same_data app app1"
      "request_text (cli_req (g_cli_ctx_pool app1 ! i)) = effects (rq_number r) fin (request_text (cli_req (g_cli_ctx_pool app ! i)))"
    by auto
  have c: "c \<noteq> []" using assms(4) cs by simp
  have nf': "Finish \<notin> fst ` set todo" using nf p(2) by auto
  have t: "effects (rq_number r) todo (request_text (cli_req (g_cli_ctx_pool app1 ! i))) = rt1" using rt1 p(2,5) by simp
  have ev: "rq_events r = (Begin (fst (rq_begin r)), snd (rq_begin r)) # rq_records r" by (simp add: rq_events_def split: prod.split)
  have "serves k (stores_of app1) rt1 body st1" using serves p(4) by simp
  from piece_last [OF p(3) c nf' t rt1 [unfolded ev] this, of lay] obtain app' req where
    l: "read_piece lay k i c app1 = Inr app'" "stores_of app' = st1" "answered req (rq_number r) body (g_cli_ctx_pool app' ! i)"
      "request_text (cli_req (g_cli_ctx_pool app' ! i)) = rt1" by blast
  have "read_all lay k i cs app = Inr app'" unfolding cs read_all_append using p(1) l(1) by simp
  then show ?thesis using l by blast
qed

end
