(* ===== verification/CG_Spec_Request.thy ===== *)
theory CG_Spec_Request
  imports CG_Journey CG_Pieces CG_Spec_Loop CG_Spec_Services
begin

text \<open>
  The properties of a whole request: from the records that a web server sends to the answer, and
  the same request when it comes in pieces.
\<close>

section \<open>Served\<close>

text \<open>
  C5: A client whose receive buffer begins with the records of one request is served: the handler that
  belongs to the request's path runs on the path, method, session and body that the records say,
  and the client then waits to write exactly the handler's answer, framed in records. What the
  stores are afterwards is what the handler made of them. The records of the answer do not carry
  the number of the request, but that number with its two bytes exchanged.
\<close>

theorem request_served:
  assumes "i < length (g_cli_ctx_pool app)" and "cli = g_cli_ctx_pool app ! i" and "rx = rx_buf_meta (fcgi_cli_ctx cli)"
    and "length (meta_buf rx) = 65790" and "unat (meta_valid rx + res) \<le> 65790" and "req_shape (cli_req cli)"
    and "hdr_type (saved_hdr (fcgi_cli_ctx cli)) = 0" and "tx_ok (tx_buf_meta (fcgi_cli_ctx cli))"
    and "routes_ready (g_route_map app)"
    and "\<forall>r \<in> set ((Begin c, p0) # rs). ev_ok r" and "Finish \<notin> fst ` set rs" and "ev_ok (Finish, pad)"
    and "take (unat (meta_valid rx + res)) (meta_buf rx) =
      concat (map (ev_bytes rid) ((Begin c, p0) # rs @ [(Finish, pad)])) @ rest"
  shows "\<exists>req. req_shape req \<and> request_text req = effects rid ((Begin c, p0) # rs) (request_text (cli_req cli)) \<and>
    (\<forall>body srv1 srv2. handle (route_of req) k (terminated req) (cleared (client_server app (fcgi_cli_ctx cli))) = Inr srv2 \<longrightarrow>
       replied (terminated req) body srv1 srv2 \<longrightarrow> length body \<le> 60000 \<longrightarrow>
       (\<exists>app'. client_read_done lay k i res app = Inr app' \<and>
          g_sessiondb app' = srv_sessiondb srv1 \<and> g_userdb app' = srv_userdb srv1 \<and>
          (let fcgi = fcgi_cli_ctx (g_cli_ctx_pool app' ! i) in
           fcli_state fcgi = CG_FASTCGI_CLIENT_STATE_WRITE_SQE \<and> meta_pos (tx_buf_meta fcgi) = 0 \<and>
           tx_text (tx_buf_meta fcgi) = response_text (bswap16 rid) body)))"
proof -
  from client_answers [OF assms, of k lay] obtain req where
    req: "req_shape req" "request_text req = effects rid ((Begin c, p0) # rs) (request_text (cli_req cli))"
    and ans: "\<And>body srv1 srv2. handle (route_of req) k (terminated req) (cleared (client_server app (fcgi_cli_ctx cli))) = Inr srv2 \<Longrightarrow>
       replied (terminated req) body srv1 srv2 \<Longrightarrow> length body \<le> 60000 \<Longrightarrow>
       (\<exists>c. client_read_done lay k i res app = Inr (app\<lparr>g_sessiondb := srv_sessiondb srv1, g_userdb := srv_userdb srv1,
          g_cli_ctx_pool := (g_cli_ctx_pool app)[i := c]\<rparr>) \<and> answered req rid body c)" by blast
  show ?thesis
    using req ans assms(1) by (intro exI [of _ req]) (fastforce simp: answered_def Let_def)
qed

definition guest_records :: "(event \<times> byte list) list" where
  "guest_records = [(Params [(str ''REQUEST_METHOD'', str ''POST''), (str ''REQUEST_URI'', str ''/api/auth/guest?x'')], [0, 0]),
     (Params [], [])]"

definition guest_begin :: "byte list" where
  "guest_begin = [0, 1, 0, 0, 0, 0, 0, 0]"

definition guest_bytes :: "byte list" where
  "guest_bytes = concat (map (ev_bytes 1) ((Begin guest_begin, []) # guest_records @ [(Finish, [])]))"

definition guest_client :: cg_client_ctx where
  "guest_client = (let c = connected CG_FASTCGI_CLIENT_STATE_READ_CQE; fcgi = fcgi_cli_ctx c in
     c\<lparr>fcgi_cli_ctx := fcgi\<lparr>rx_buf_meta := (rx_buf_meta fcgi)\<lparr>meta_buf := guest_bytes @ replicate 65698 0\<rparr>\<rparr>\<rparr>)"

lemma guest_bytes_length: "length guest_bytes = 92"
  by (simp add: guest_bytes_def guest_records_def guest_begin_def ev_bytes_def ev_payload_def enc_pairs_def enc_pair_def enc_len_def)

lemma guest_client_ok:
  "length (meta_buf (rx_buf_meta (fcgi_cli_ctx guest_client))) = 65790"
  "meta_valid (rx_buf_meta (fcgi_cli_ctx guest_client)) = 0"
  "req_shape (cli_req guest_client)" "cli_req guest_client = new_request"
  "hdr_type (saved_hdr (fcgi_cli_ctx guest_client)) = 0"
  "tx_buf_meta (fcgi_cli_ctx guest_client) = new_buffer"
  "take 92 (meta_buf (rx_buf_meta (fcgi_cli_ctx guest_client))) = guest_bytes"
  using new_request_shape
  by (simp_all add: guest_client_def connected_def new_client_def new_buffer_def Let_def guest_bytes_length)

lemma guest_view: "fold view_pair [(str ''REQUEST_METHOD'', str ''POST''), (str ''REQUEST_URI'', str ''/api/auth/guest?x'')] (u, m, s) =
    (str ''/api/auth/guest'', str ''POST'', s)"
  by simp (simp add: str_def cstr_def of_char_def)

lemma guest_effects:
  "rt_texts (effects rid ((Begin c, p) # guest_records) rt) = (str ''/api/auth/guest'', str ''POST'', [])"
proof -
  obtain u m s where "rt_texts rt = (u, m, s)" by (cases "rt_texts rt") auto
  then show ?thesis using guest_view [of u m "[]"] by (simp add: guest_records_def del: fold_simps view_pair.simps)
qed

text \<open>A request whose text says so is for the guest endpoint.\<close>

lemma guest_request:
  assumes "req_shape req" and "rt_texts (request_text req) = (str ''/api/auth/guest'', str ''POST'', s)"
  shows "handle (route_of req) = cg_route_api_auth_guest" and "uses_method (terminated req) ''POST''"
  using text_route [of "(''/api/auth/guest'', Route_AuthGuest)" req] text_method assms by (simp_all add: route_paths_def)

lemma three_parts: "take a xs @ take b (drop a xs) @ drop (a + b) xs = xs"
  by (metis add.commute append_take_drop_id drop_drop)

theorem request_served_witness:
  "\<exists>app app' db'. g_cli_ctx_pool app = [guest_client] \<and>
    client_read_done sample_layout sample_kernel 0 92 app = Inr app' \<and> g_sessiondb app' = Some db' \<and>
    tx_text (tx_buf_meta (fcgi_cli_ctx (g_cli_ctx_pool app' ! 0))) = response_text 256 (guest_text 42)"
proof -
  obtain m where m: "routes_ready m" using route_map_ready by blast
  define app where "app = (sample_app sample_ring [guest_client])\<lparr>g_route_map := m, g_sessiondb := Some new_sessiondb,
    g_userdb := Some new_userdb\<rparr>"
  have pool: "g_cli_ctx_pool app = [guest_client]" by (simp add: app_def sample_app_def)
  have ready: "routes_ready (g_route_map app)" using m by (simp add: app_def)
  have srv: "client_server app (fcgi_cli_ctx guest_client) = new_server"
    using guest_client_ok(6) by (simp add: client_server_def app_def new_server_def)
  have rs: "\<forall>r \<in> set ((Begin guest_begin, []) # guest_records). ev_ok r" "Finish \<notin> fst ` set guest_records" "ev_ok (Finish, [])"
    by (simp_all add: guest_records_def guest_begin_def enc_pairs_def enc_pair_def enc_len_def)
  have bytes: "take (unat (meta_valid (rx_buf_meta (fcgi_cli_ctx guest_client)) + 92)) (meta_buf (rx_buf_meta (fcgi_cli_ctx guest_client))) =
      concat (map (ev_bytes 1) ((Begin guest_begin, []) # guest_records @ [(Finish, [])])) @ []"
    using guest_client_ok(2,7) by (simp add: guest_bytes_def)
  have "0 < length (g_cli_ctx_pool app)" "guest_client = g_cli_ctx_pool app ! 0" "tx_ok (tx_buf_meta (fcgi_cli_ctx guest_client))"
      "unat (meta_valid (rx_buf_meta (fcgi_cli_ctx guest_client)) + 92) \<le> 65790"
    using pool guest_client_ok(2,6) new_buffer_ok(1) by simp_all
  from request_served [OF this(1,2) refl guest_client_ok(1) this(4) guest_client_ok(3,5) this(3) ready rs bytes, of sample_kernel sample_layout]
  obtain req where req: "req_shape req" "request_text req = effects 1 ((Begin guest_begin, []) # guest_records) (request_text new_request)"
    "\<And>body srv1 srv2. handle (route_of req) sample_kernel (terminated req) (cleared new_server) = Inr srv2 \<Longrightarrow>
       replied (terminated req) body srv1 srv2 \<Longrightarrow> length body \<le> 60000 \<Longrightarrow>
       (\<exists>app'. client_read_done sample_layout sample_kernel 0 92 app = Inr app' \<and>
          g_sessiondb app' = srv_sessiondb srv1 \<and>
          tx_text (tx_buf_meta (fcgi_cli_ctx (g_cli_ctx_pool app' ! 0))) = response_text (bswap16 1) body)"
    unfolding srv guest_client_ok(4) Let_def by blast
  have id: "bswap16 1 = 256" by (simp add: bswap16_def)
  have "rt_texts (request_text req) = (str ''/api/auth/guest'', str ''POST'', [])" by (simp only: req(2) guest_effects)
  note h = guest_request [OF req(1) this]
  obtain db' where db': "open_session sample_kernel 0 (cleared new_server) =
      Inr ((cleared new_server)\<lparr>srv_sessiondb := Some db'\<rparr>, 42)"
    using open_session_ok [of "cleared new_server" new_sessiondb sample_kernel 8 42 42 0] new_sessiondb_ok
    by (auto simp: new_sessiondb_count new_server_def sample_kernel_def cleared_def)
  have "tx_ok (srv_tx new_server)" by (simp add: new_server_def new_buffer_ok)
  from guest_ok [OF cleared_ready [OF this] terminated_shape [OF req(1)] h(2) db'] obtain srv2 where
    s: "cg_route_api_auth_guest sample_kernel (terminated req) (cleared new_server) = Inr srv2"
      "replied (terminated req) (guest_text 42) ((cleared new_server)\<lparr>srv_sessiondb := Some db'\<rparr>) srv2" by blast
  have "length (guest_text 42) \<le> 60000"
    using length_session_head [of 42] by (simp add: guest_text_def session_tail_def)
  from req(3) [OF _ s(2) this] show ?thesis using h(1) s(1) pool id by auto
qed

section \<open>One after the other\<close>

text \<open>
  C1: On a connection that is kept alive, any sequence of requests is served one after the other:
  each is read, handled and answered with its own answer, in its order, however the kernel cuts
  the answers into writes; each starts from the stores and the text that the one before left, and
  after the last the client listens again. What an endpoint answers and stores is settled by the
  text of the request and the stores before, and buffers and rings never leak from one request
  into another.
\<close>

theorem conversation_served:
  assumes "listening i app"
    and "dialogue (request_text (cli_req (g_cli_ctx_pool app ! i))) (stores_of app) rs answers st"
    and "list_all2 (\<lambda>ns a. (\<forall>n \<in> set ns. 0 < n) \<and> sum_list (map unat ns) = length a) nss answers"
  shows "\<exists>app'. converse lay i rs nss app = Inr (answers, app') \<and> listening i app' \<and> stores_of app' = st"
  using assms(2,1,3) by (rule converse_ok)

definition guest_again :: "u16 \<Rightarrow> request" where
  "guest_again n = \<lparr>rq_number = n, rq_begin = ([0, 1, 1, 0, 0, 0, 0, 0], []), rq_records = guest_records, rq_pad = []\<rparr>"

lemma guest_again_ok: "rq_ok (guest_again n)"
  by (simp add: rq_ok_def rq_events_def rq_bytes_def guest_again_def guest_records_def ev_bytes_def ev_payload_def
      enc_pairs_def enc_pair_def enc_len_def)

lemma guest_again_text:
  fixes n :: u16 and rt :: request_text
  defines "rt1 \<equiv> effects n (rq_events (guest_again n)) rt"
  shows "rt_texts rt1 = (str ''/api/auth/guest'', str ''POST'', [])" and "rt_keep rt1 = 1"
proof -
  have rt1: "rt1 = effects n ((Begin [0, 1, 1, 0, 0, 0, 0, 0], []) # guest_records) rt"
    by (simp add: rt1_def rq_events_def guest_again_def)
  show "rt_texts rt1 = (str ''/api/auth/guest'', str ''POST'', [])" unfolding rt1 by (rule guest_effects)
  show "rt_keep rt1 = 1" unfolding rt1 by (simp add: guest_records_def)
qed

lemma guest_serves:
  assumes wf: "sessiondb_wf db" and new: "sess_abs db sid = None" "sid \<noteq> 0" "0 < sess_room db"
    and k: "k_random k = (8, sid)" and rt: "rt_texts rt = (str ''/api/auth/guest'', str ''POST'', s)"
  shows "\<exists>db'. serves k (Some db, udb) rt (guest_text sid) (Some db', udb) \<and> sessiondb_wf db' \<and>
    sess_abs db' = (sess_abs db)(sid \<mapsto> 0) \<and> sess_room db \<le> Suc (sess_room db')"
proof -
  have "sess_index db sid = None" using new(1) by (simp add: sess_abs_None)
  from sess_create_ok [OF wf sess_count_room [OF wf new(3)], of 8 sid sid, OF _ _ this new(3), of 0 "k_now k"] new(2)
  obtain db' where db': "cg_sessiondb_entry_create db 0 (8, sid) (k_now k) = Inr (db', Some (new_session sid 0 (k_now k)))"
      "sessiondb_wf db'" "sess_abs db' = (sess_abs db)(sid \<mapsto> 0)" "sess_room db \<le> Suc (sess_room db')" by auto
  have len: "length (guest_text sid) \<le> 60000"
    using length_session_head [of sid] by (simp add: guest_text_def session_tail_def)
  have "serves k (Some db, udb) rt (guest_text sid) (Some db', udb)"
    unfolding serves_def
  proof (intro conjI allI impI len)
    fix req srv
    assume r: "req_shape req" "request_text req = rt" "srv_ready srv" "(srv_sessiondb srv, srv_userdb srv) = (Some db, udb)"
    note g = guest_request [OF r(1), of s]
    have o: "open_session k 0 srv = Inr (srv\<lparr>srv_sessiondb := Some db'\<rparr>, sid)"
      using db'(1) r(4) k by (simp add: open_session_def deref_def)
    have "srv\<lparr>srv_sessiondb := Some db', srv_userdb := udb\<rparr> = srv\<lparr>srv_sessiondb := Some db'\<rparr>"
      using r(4) by (cases srv) simp
    then show "\<exists>srv2. handle (route_of req) k (terminated req) srv = Inr srv2 \<and>
        replied (terminated req) (guest_text sid) (srv\<lparr>srv_sessiondb := fst (Some db', udb), srv_userdb := snd (Some db', udb)\<rparr>) srv2"
      using guest_ok [OF r(3) terminated_shape [OF r(1)] _ o] g rt r(2) by simp
  qed
  then show ?thesis using db' by blast
qed

definition numbered :: "u64 \<Rightarrow> kernel" where
  "numbered sid = \<lparr>k_random = (8, sid), k_now = 1000\<rparr>"

text \<open>A client that is connected and kept, with any stores.\<close>

lemma someone_listens: "\<exists>app. listening 0 app \<and> stores_of app = st"
proof -
  obtain m where m: "routes_ready m" using route_map_ready by blast
  let ?client = "connected CG_FASTCGI_CLIENT_STATE_READ_SQE"
  let ?app = "(sample_app sample_ring [?client])\<lparr>g_route_map := m, g_sessiondb := fst st, g_userdb := snd st\<rparr>"
  have "listening 0 ?app"
    using m sample_rings(4) new_request_shape
    by (simp add: listening_def receptive_def sample_app_def connected_def new_client_def new_buffer_def tx_ok_def Let_def)
  then show ?thesis by (intro exI [of _ ?app]) simp
qed

text \<open>The answer in one write.\<close>

lemma guest_one_write: "\<exists>n :: u32. 0 < n \<and> unat n = length (response_text r (guest_text sid))"
proof (intro exI conjI)
  have "0 < length (response_text r (guest_text sid))" using response_nonempty by blast
  moreover have "length (response_text r (guest_text sid)) < 2 ^ 32"
    using length_session_head [of sid]
    by (simp add: response_text_def stdout_record_def end_record_def guest_text_def session_tail_def store_u16_def)
  ultimately show "unat (word_of_nat (length (response_text r (guest_text sid))) :: u32) = length (response_text r (guest_text sid))"
    and "0 < (word_of_nat (length (response_text r (guest_text sid))) :: u32)"
    by (simp_all add: unat_of_nat word_less_nat_alt)
qed

theorem conversation_served_witness:
  "\<exists>app n1 n2 app' db'. converse sample_layout 0 [(numbered 42, guest_again 1), (numbered 43, guest_again 2)] [[n1], [n2]] app =
      Inr ([response_text 256 (guest_text 42), response_text 512 (guest_text 43)], app') \<and>
    g_sessiondb app' = Some db' \<and> sess_abs db' = [42 \<mapsto> 0, 43 \<mapsto> 0]"
proof -
  obtain app where l: "listening 0 app" and st: "stores_of app = (Some new_sessiondb, Some new_userdb)"
    using someone_listens by blast
  define rt where "rt = request_text (cli_req (g_cli_ctx_pool app ! 0))"
  define rt1 where "rt1 = effects 1 (rq_events (guest_again 1)) rt"
  define rt2 where "rt2 = effects 2 (rq_events (guest_again 2)) rt1"
  have t1: "rt_texts rt1 = (str ''/api/auth/guest'', str ''POST'', [])" "rt_keep rt1 \<noteq> 0"
    and t2: "rt_texts rt2 = (str ''/api/auth/guest'', str ''POST'', [])" "rt_keep rt2 \<noteq> 0"
    by (simp_all add: rt1_def rt2_def guest_again_text)
  obtain db1 where d1: "serves (numbered 42) (Some new_sessiondb, Some new_userdb) rt1 (guest_text 42) (Some db1, Some new_userdb)"
      "sessiondb_wf db1" "sess_abs db1 = [42 \<mapsto> 0]" "4096 \<le> Suc (sess_room db1)"
    using guest_serves [OF new_sessiondb_ok(1), of 42 "numbered 42" rt1 "[]" "Some new_userdb"] t1(1) new_sessiondb_ok
    by (auto simp: numbered_def)
  obtain db2 where d2: "serves (numbered 43) (Some db1, Some new_userdb) rt2 (guest_text 43) (Some db2, Some new_userdb)"
      "sess_abs db2 = [42 \<mapsto> 0, 43 \<mapsto> 0]"
    using guest_serves [OF d1(2), of 43 "numbered 43" rt2 "[]" "Some new_userdb"] t2(1) d1(3,4)
    by (auto simp: numbered_def)
  have num: "rq_number (guest_again n) = n" for n by (simp add: guest_again_def)
  have "dialogue rt2 (Some db2, Some new_userdb) [] [] (Some db2, Some new_userdb)" by (rule dialogue_end)
  from dialogue_next [OF guest_again_ok _ t2(2) d2(1) this, of 2 rt1]
  have "dialogue rt1 (Some db1, Some new_userdb) [(numbered 43, guest_again 2)] [response_text (bswap16 2) (guest_text 43)]
      (Some db2, Some new_userdb)" by (simp add: num rt2_def)
  from dialogue_next [OF guest_again_ok _ t1(2) d1(1) this, of 1 rt]
  have d: "dialogue rt (stores_of app) [(numbered 42, guest_again 1), (numbered 43, guest_again 2)]
      [response_text (bswap16 1) (guest_text 42), response_text (bswap16 2) (guest_text 43)] (Some db2, Some new_userdb)"
    by (simp add: num rt1_def st)
  obtain n1 n2 :: u32 where n: "0 < n1" "unat n1 = length (response_text (bswap16 1) (guest_text 42))"
      "0 < n2" "unat n2 = length (response_text (bswap16 2) (guest_text 43))" using guest_one_write by metis
  have id: "bswap16 1 = 256" "bswap16 2 = 512" by (simp_all add: bswap16_def)
  from conversation_served [OF l d [unfolded rt_def], of "[[n1], [n2]]" sample_layout] n
  obtain app' where "converse sample_layout 0 [(numbered 42, guest_again 1), (numbered 43, guest_again 2)] [[n1], [n2]] app =
      Inr ([response_text 256 (guest_text 42), response_text 512 (guest_text 43)], app')" "g_sessiondb app' = Some db2"
    by (auto simp: id simp del: converse.simps)
  then show ?thesis using d2(2) by blast
qed

section \<open>In pieces\<close>

text \<open>
  C6: A request may come in any number of reads, cut within a header, within the content or between
  two records. As long as the loop's moves of the bytes that are left over are right, which the
  cuts and the alignment of the buffer decide (a read that leaves less than 32 bytes over is never
  affected), the client reads on after every read but the last, with the stores untouched, and with
  the last one its request is answered exactly as in one read: the text is what all the records
  say, what was taken of a record before is continued and never taken again, the stores are what the
  endpoint made of them, and the answer stands ready to be written.
\<close>

theorem request_in_pieces:
  assumes "listening i app" and "rq_ok r" and "rq_bytes r = concat cs" and "\<forall>c \<in> set cs. c \<noteq> []"
    and "cuts_fit (unat (lay_rx_buf lay i)) (rq_events r @ [(Finish, rq_pad r)]) 0 cs"
    and "rt1 = effects (rq_number r) (rq_events r) (request_text (cli_req (g_cli_ctx_pool app ! i)))"
    and "serves k (stores_of app) rt1 body st1"
  shows "(\<exists>app'. read_all lay k i cs app = Inr app' \<and> stores_of app' = st1 \<and>
      (let c = g_cli_ctx_pool app' ! i; fcgi = fcgi_cli_ctx c in
       request_text (cli_req c) = rt1 \<and> fcli_state fcgi = CG_FASTCGI_CLIENT_STATE_WRITE_SQE \<and>
       meta_pos (tx_buf_meta fcgi) = 0 \<and> tx_text (tx_buf_meta fcgi) = response_text (bswap16 (rq_number r)) body)) \<and>
    (\<forall>ds es. cs = ds @ es \<longrightarrow> es \<noteq> [] \<longrightarrow>
      (\<exists>app'. read_all lay k i ds app = Inr app' \<and> stores_of app' = stores_of app \<and>
        fcli_state (fcgi_cli_ctx (g_cli_ctx_pool app' ! i)) = CG_FASTCGI_CLIENT_STATE_READ_SQE))"
proof -
  have "\<exists>app'. read_all lay k i ds app = Inr app' \<and> stores_of app' = stores_of app \<and>
      fcli_state (fcgi_cli_ctx (g_cli_ctx_pool app' ! i)) = CG_FASTCGI_CLIENT_STATE_READ_SQE" if "cs = ds @ es" "es \<noteq> []" for ds es
    using read_request_waits [OF assms(1,2), of ds es lay k] assms(3-5) that by (auto simp: midway_def Let_def)
  moreover from read_request_ends [OF assms] obtain app' req where
    "read_all lay k i cs app = Inr app'" "stores_of app' = st1" "answered req (rq_number r) body (g_cli_ctx_pool app' ! i)"
      "request_text (cli_req (g_cli_ctx_pool app' ! i)) = rt1" by blast
  ultimately show ?thesis unfolding answered_def Let_def by blast
qed

text \<open>Three reads: a part of the first header; up to the content of the parameters, of which 45 bytes are moved; the rest.\<close>

definition guest_pieces :: "byte list list" where
  "guest_pieces = [take 3 (rq_bytes (guest_again 1)), take 66 (drop 3 (rq_bytes (guest_again 1))), drop 69 (rq_bytes (guest_again 1))]"

lemma guest_again_length: "length (rq_bytes (guest_again 1)) = 92"
  by (simp add: rq_events_def rq_bytes_def guest_again_def guest_records_def ev_bytes_def ev_payload_def
      enc_pairs_def enc_pair_def enc_len_def)

lemma guest_cuts:
  "rq_bytes (guest_again 1) = concat guest_pieces" "\<forall>c \<in> set guest_pieces. c \<noteq> []"
  "cuts_fit (unat (lay_rx_buf sample_layout 0)) (rq_events (guest_again 1) @ [(Finish, rq_pad (guest_again 1))]) 0 guest_pieces"
proof -
  note l = guest_again_length
  show "rq_bytes (guest_again 1) = concat guest_pieces"
    using three_parts [of 3 "rq_bytes (guest_again 1)" 66] by (simp add: guest_pieces_def)
  show "\<forall>c \<in> set guest_pieces. c \<noteq> []" using l by (auto simp: guest_pieces_def)
  define e where "e = rq_events (guest_again 1) @ [(Finish, rq_pad (guest_again 1))]"
  define ps where "ps = [(str ''REQUEST_METHOD'', str ''POST''), (str ''REQUEST_URI'', str ''/api/auth/guest?x'')]"
  have e: "e = [(Begin [0, 1, 1, 0, 0, 0, 0, 0], []), (Params ps, [0, 0]), (Params [], []), (Finish, [])]"
    by (simp add: e_def rq_events_def guest_again_def guest_records_def ps_def)
  have n: "length (ev_payload (Params ps, [0, 0])) = 52"
    by (simp add: ps_def ev_payload_def enc_pairs_def enc_pair_def enc_len_def)
  have z: "length (ev_payload (Begin [0, 1, 1, 0, 0, 0, 0, 0], [])) = 8" "length (ev_payload (Params [], [])) = 0"
      "length (ev_payload (Finish, [])) = 0" by (simp_all add: ev_payload_def enc_pairs_def)
  have t: "taken e 0 = 0" "taken e 3 = 0" "taken e 69 = 24" "taken e 92 = 92" by (simp_all add: e n z)
  have "lay_rx_buf sample_layout 0 = 0x500000" by (simp add: sample_layout_def)
  then have s: "slide_fits (unat (lay_rx_buf sample_layout 0)) 24 45" by (simp add: slide_fits_def copy_tail_def)
  have "length (take 3 (rq_bytes (guest_again 1))) = 3" "length (take 66 (drop 3 (rq_bytes (guest_again 1)))) = 66"
      "length (drop 69 (rq_bytes (guest_again 1))) = 23" using l by simp_all
  then show "cuts_fit (unat (lay_rx_buf sample_layout 0)) (rq_events (guest_again 1) @ [(Finish, rq_pad (guest_again 1))]) 0 guest_pieces"
    unfolding guest_pieces_def e_def [symmetric] using t s by (simp add: Let_def slide_fits_def del: taken.simps)
qed

theorem request_in_pieces_witness:
  "\<exists>app app' db'. read_all sample_layout (numbered 42) 0 guest_pieces app = Inr app' \<and>
    tx_text (tx_buf_meta (fcgi_cli_ctx (g_cli_ctx_pool app' ! 0))) = response_text 256 (guest_text 42) \<and>
    g_sessiondb app' = Some db' \<and> sess_abs db' = [42 \<mapsto> 0]"
proof -
  obtain app where l: "listening 0 app" and st: "stores_of app = (Some new_sessiondb, Some new_userdb)"
    using someone_listens by blast
  define rt1 where "rt1 = effects (rq_number (guest_again 1)) (rq_events (guest_again 1)) (request_text (cli_req (g_cli_ctx_pool app ! 0)))"
  have num: "rq_number (guest_again n) = n" for n by (simp add: guest_again_def)
  have t1: "rt_texts rt1 = (str ''/api/auth/guest'', str ''POST'', [])" by (simp add: rt1_def num guest_again_text)
  obtain db1 where d1: "serves (numbered 42) (stores_of app) rt1 (guest_text 42) (Some db1, Some new_userdb)"
      "sess_abs db1 = [42 \<mapsto> 0]"
    using guest_serves [OF new_sessiondb_ok(1), of 42 "numbered 42" rt1 "[]" "Some new_userdb"] t1 new_sessiondb_ok st
    by (auto simp: numbered_def)
  from request_in_pieces [OF l guest_again_ok guest_cuts rt1_def d1(1)] obtain app' where
    "read_all sample_layout (numbered 42) 0 guest_pieces app = Inr app'" "stores_of app' = (Some db1, Some new_userdb)"
    "tx_text (tx_buf_meta (fcgi_cli_ctx (g_cli_ctx_pool app' ! 0))) = response_text (bswap16 1) (guest_text 42)"
    unfolding num Let_def by blast
  then show ?thesis using d1(2) by (auto simp: bswap16_def)
qed

section \<open>Two at once\<close>



end
