(* ===== verification/CG_Spec_Isolation.thy ===== *)
theory CG_Spec_Isolation
  imports CG_Consistent CG_Spec_Loop CG_Spec_Services
begin

text \<open>
  The properties that hold of every request and of the server as it runs: who can change what, and
  what stays consistent.
\<close>

section \<open>One request\<close>

text \<open>
  C9: A request, whatever its path, method, cookie and body are, and whichever branch its handler
  takes, leaves both stores consistent, ends no session and changes the user of none, and opens at
  most one, under the number that the kernel gave. Of the accounts in use it can change, or close,
  only the one that the session in its own cookie belongs to: nobody's account is touched by a
  request of somebody else, of a guest or of a stranger. This needs the random number that the
  kernel gives for a new session to be in use by no session: the code never looks whether it is,
  and a number that is taken would be redirected to the entry of the new session.
\<close>

theorem requests_isolated:
  assumes "srv_sessiondb srv = Some db" and "sessiondb_wf db" and "srv_userdb srv = Some udb" and "userdb_wf udb"
    and "req_shape req" and "sess_abs db (kernel_number k) = None" and "cg_route_map_reply m k req srv = Inr (req', srv')"
  shows "\<exists>db' udb'. srv_sessiondb srv' = Some db' \<and> sessiondb_wf db' \<and> srv_userdb srv' = Some udb' \<and> userdb_wf udb' \<and>
    (sess_abs db' = sess_abs db \<or> (\<exists>u. sess_abs db' = (sess_abs db)(kernel_number k \<mapsto> u))) \<and>
    (\<forall>i < USERDB_POOL_SIZE. user_active (udb_pool udb ! i) \<longrightarrow>
       sess_abs db (request_session req) \<noteq> Some (uid (udb_pool udb ! i)) \<longrightarrow> udb_pool udb' ! i = udb_pool udb ! i)"
proof -
  have "stores_wf srv" "number_unused k srv" using assms by (simp_all add: stores_wf_def number_unused_def)
  from request_isolated [OF this(1) assms(5) this(2) assms(7)] show ?thesis
    using assms(1,3)
    by (auto simp: isolated_def stores_wf_def session_owner_def session_added_def others_kept_def option_rel_Some1)
qed

theorem requests_isolated_witness:
  "\<exists>m srv' udb'. cg_route_map_reply m sample_kernel (sample_request ''/api/auth/guest'' ''POST'' [] [])
      (sample_server new_sessiondb alice_userdb) = Inr (terminated (sample_request ''/api/auth/guest'' ''POST'' [] []), srv') \<and>
    srv_userdb srv' = Some udb' \<and> udb_pool udb' ! 0 = alice"
proof -
  let ?req = "sample_request ''/api/auth/guest'' ''POST'' [] []" and ?srv = "sample_server new_sessiondb alice_userdb"
  obtain m where m: "cg_route_map_init (empty_route_map Route_AuthGuest) = Inr m"
    using route_map_ready by blast
  have shape: "req_shape ?req" by (rule sample_request_shape) simp
  obtain db' srv2 where s: "cg_route_api_auth_guest sample_kernel (terminated ?req) (cleared ?srv) = Inr srv2"
      "replied (terminated ?req) (guest_text 42) ((cleared ?srv)\<lparr>srv_sessiondb := Some db'\<rparr>) srv2"
    using sample_guest [of alice_userdb] by blast
  have "request_path ?req = str ''/api/auth/guest''" by (rule sample_path) simp_all
  then have "handle (route_of ?req) = cg_route_api_auth_guest"
    using route_of_path [of "(''/api/auth/guest'', Route_AuthGuest)" ?req] by (simp add: route_paths_def handle_def)
  then have "handle (route_of ?req) sample_kernel (terminated ?req) (cleared ?srv) = Inr srv2" using s(1) by simp
  moreover have "length (guest_text 42) \<le> 60000"
    using length_session_head [of 42] by (simp add: guest_text_def session_tail_def)
  moreover have "routes_ready m" using m route_map_ready [of Route_AuthGuest] by auto
  ultimately obtain srv' where r: "cg_route_map_reply m sample_kernel ?req ?srv = Inr (terminated ?req, srv')"
    using map_reply_response [OF _ shape _ s(2)] by blast
  from requests_isolated [OF sample_server_ok(2) new_sessiondb_ok(1) sample_server_ok(3) alice_userdb_ok(1) shape _ r]
  obtain udb' where u: "srv_userdb srv' = Some udb'" "\<forall>i < USERDB_POOL_SIZE. user_active (udb_pool alice_userdb ! i) \<longrightarrow>
      udb_pool udb' ! i = udb_pool alice_userdb ! i"
    by (auto simp: new_sessiondb_ok)
  moreover have "user_active (udb_pool alice_userdb ! 0)" "0 < USERDB_POOL_SIZE"
    using alice_userdb_ok(4) alice_ok(3) by (simp_all add: USERDB_POOL_SIZE_def)
  ultimately have "udb_pool udb' ! 0 = alice" using alice_userdb_ok(4) by metis
  then show ?thesis using r u(1) by blast
qed

section \<open>The server as it runs\<close>

text \<open>
  C10: From a consistent state on, in every state that program and kernel reach, in whatever order
  they take their turns and whatever the clients send, as long as every submission finds room in
  the queue, the session store and the account store are consistent, every session that was open is
  still open for the same user, and the only new ones have numbers that the kernel gave on the way.
  This needs these numbers to differ from one another and from those in use, since the code does not
  look whether a number is taken.
\<close>

theorem stores_stay_consistent:
  assumes "layout_ok lay" and "sys_inv lay s0" and "stores_ok (sys_app s0)" and "(sys_step lay)\<^sup>*\<^sup>* s0 s"
  shows "(\<exists>ns. sys_run lay s0 ns s) \<and>
    (\<forall>ns. sys_run lay s0 ns s \<longrightarrow> distinct ns \<longrightarrow> set ns \<inter> dom (sessions (sys_app s0)) = {} \<longrightarrow>
       stores_ok (sys_app s) \<and> sessions (sys_app s0) \<subseteq>\<^sub>m sessions (sys_app s) \<and>
       dom (sessions (sys_app s)) \<subseteq> set ns \<union> dom (sessions (sys_app s0)))"
  using reachable_by_run [OF assms(4)] run_keeps_stores [OF _ assms(1-3)] by blast

definition stocked :: system where
  "stocked = reading\<lparr>sys_app := (sys_app reading)\<lparr>g_sessiondb := Some (session_of 5), g_userdb := Some alice_userdb\<rparr>\<rparr>"

lemma stocked_inv: "sys_inv sample_layout stocked"
  using reading_inv by (simp add: stocked_def sys_inv_def pending_def finished_def rings_ok_def)

theorem stores_stay_consistent_witness:
  "\<exists>s. (sys_step sample_layout)\<^sup>*\<^sup>* stocked s \<and> sys_app s \<noteq> sys_app stocked \<and> sessions (sys_app s) 77 = Some 5"
proof -
  define c where "c = \<lparr>cqe_user_data = client_tag sample_layout 0, cqe_res = 4, cqe_flags = 0\<rparr>"
  let ?app = "read_into sample_layout the_read [1, 1, 0, 1] (sys_app stocked)"
  let ?s = "stocked\<lparr>sys_app := completes c ?app, in_flight := []\<rparr>"
  have a: "answer the_read c" by (simp add: answer_def the_read_def c_def)
  have len: "length [1, 1, 0, 1 :: byte] = (if sqe_opcode the_read = IORING_OP_READ \<and> 0 < sint (cqe_res c) then unat (cqe_res c) else 0)"
    by (simp add: the_read_def c_def)
  have room: "cq_room (sys_app stocked)" by (simp add: stocked_def reading_def sample_app_def sample_ring_def)
  have "in_flight stocked = [] @ the_read # []" by (simp add: stocked_def reading_def)
  from sys_step_kernel [OF kernel_complete [OF this a room _ len, of sample_layout]] have step: "sys_step sample_layout stocked ?s" by (simp add: c_def)
  have same: "same_stores (sys_app stocked) (sys_app ?s)"
    using read_into_stores [of sample_layout the_read "[1, 1, 0, 1]" "sys_app stocked"] by (simp add: completes_def)
  have run: "sys_run sample_layout stocked [] ?s" using run_quiet [OF run_start step same] .
  have old: "stores_ok (sys_app stocked)" "sessions (sys_app stocked) = [77 \<mapsto> 5]"
    using session_of_ok [of 5] alice_userdb_ok(1) by (simp_all add: stores_ok_def stocked_def sessions_Some)
  have reach: "(sys_step sample_layout)\<^sup>*\<^sup>* stocked ?s" using step by blast
  have "sessions (sys_app stocked) \<subseteq>\<^sub>m sessions (sys_app ?s)"
    using stores_stay_consistent [OF sample_layout_ok stocked_inv old(1) reach] run by simp
  then have "sessions (sys_app ?s) 77 = Some 5" using old(2) by (force simp: map_le_def)
  moreover have "sys_app ?s \<noteq> sys_app stocked"
  proof
    assume "sys_app ?s = sys_app stocked"
    then have "cq_tail (g_uring_ctx (sys_app ?s)) = cq_tail (g_uring_ctx (sys_app stocked))" by (rule arg_cong)
    then show False by (simp add: completes_def cq_put_def read_into_frame)
  qed
  ultimately show ?thesis using reach by blast
qed

end
