(* ===== verification/CG_Machine.thy ===== *)
theory CG_Machine
  imports CG_Start CG_Send
begin

text \<open>
  The loop in the order in which the code runs it: the program stands at one of a few points, each
  of its steps leads from one point to the next, and the kernel works at any time in between.
  What holds at each point, that no step can fail but the answer to a request, when the listener
  still hears, and that a turn of the loop as a function is a run of these steps.
\<close>

section \<open>The points of the loop\<close>

text \<open>
  Before the listener's part; before the part of client \<open>i\<close>, or behind the last one; in the wait,
  before and in the system call; with a completion at hand; and behind a completion.
\<close>

datatype point = At_Listener | At_Client nat | At_Wait | At_Enter | At_Cqe nat | At_Next

text \<open>Where the program looks into the completion queue, and where it goes when there is nothing.\<close>

fun when_empty :: "point \<Rightarrow> point option" where
  "when_empty (At_Client i) = (if i < CG_MAX_CLIENTS then None else Some At_Wait)"
| "when_empty At_Wait = Some At_Enter"
| "when_empty At_Enter = Some At_Listener"
| "when_empty At_Next = Some At_Listener"
| "when_empty At_Listener = None"
| "when_empty (At_Cqe c) = None"

text \<open>\<open>k\<close> is what the kernel answers to the calls of the step.\<close>

inductive main_step :: "layout \<Rightarrow> kernel \<Rightarrow> point \<times> system \<Rightarrow> point \<times> system \<Rightarrow> bool" for lay k where
  main_listener:
    "cg_main_fastcgi_state_handle lay k (sys_app s) = Inr app \<Longrightarrow>
     main_step lay k (At_Listener, s) (At_Client 0, s\<lparr>sys_app := app\<rparr>)"
| main_client:
    "i < CG_MAX_CLIENTS \<Longrightarrow> cg_main_client_state_handle lay i (sys_app s) = Inr app \<Longrightarrow>
     main_step lay k (At_Client i, s) (At_Client (Suc i), s\<lparr>sys_app := app\<rparr>)"
| main_peek:
    "when_empty p = Some q \<Longrightarrow> cg_uring_cq_peek (sys_ctx s) = Inr cqe \<Longrightarrow>
     main_step lay k (p, s) (case cqe of None \<Rightarrow> q | Some c \<Rightarrow> At_Cqe c, s)"
| main_interrupted:
    "main_step lay k (At_Enter, s) (At_Listener, s)"
| main_handle:
    "c < length (cqes (sys_ctx s)) \<Longrightarrow>
     dispatch_cqe lay k (cqes (sys_ctx s) ! c) (sys_app s) = Inr app \<Longrightarrow>
     main_step lay k (At_Cqe c, s) (At_Next, s\<lparr>sys_app := discarded app\<rparr>)"

inductive_cases main_at_cqeE: "main_step lay k (At_Cqe c, s) y"

text \<open>Program and kernel, as long as every submission finds room in the queue.\<close>

inductive turn_step :: "layout \<Rightarrow> point \<times> system \<Rightarrow> point \<times> system \<Rightarrow> bool" for lay where
  turn_kernel: "kernel_step lay s s' \<Longrightarrow> turn_step lay (p, s) (p, s')"
| turn_main: "main_step lay k x y \<Longrightarrow> found_room (sq_head (snd x)) (sys_app (snd x)) (sys_app (snd y)) \<Longrightarrow>
    turn_step lay x y"

section \<open>What is under way\<close>

text \<open>
  The tags that the program gives out, and what their entries ask for. The clock's entry is always
  there once.
\<close>

abbreviation listener_tag :: "layout \<Rightarrow> u64" where
  "listener_tag lay \<equiv> CG_TAG_PTR (lay_fastcgi lay) CG_TAG_FASTCGI"

definition known_tag :: "layout \<Rightarrow> u64 \<Rightarrow> bool" where
  "known_tag lay t \<longleftrightarrow> t = listener_tag lay \<or> t = CG_TAG_TIMESTAMP \<or>
     (\<exists>i < CG_MAX_CLIENTS. t = client_tag lay i)"

definition known_entry :: "layout \<Rightarrow> io_uring_sqe \<Rightarrow> bool" where
  "known_entry lay e \<longleftrightarrow> known_tag lay (sqe_user_data e) \<and>
     (sqe_user_data e = CG_TAG_TIMESTAMP \<longrightarrow> sqe_opcode e = IORING_OP_TIMEOUT) \<and>
     (sqe_user_data e = listener_tag lay \<longrightarrow> sqe_opcode e = IORING_OP_ACCEPT)"

abbreviation entries :: "system \<Rightarrow> io_uring_sqe list" where
  "entries s \<equiv> in_flight s @ submissions (sys_ctx s) (sq_head s)"

definition timers :: "system \<Rightarrow> nat" where
  "timers s = count_list (map sqe_user_data (entries s)) CG_TAG_TIMESTAMP +
     count_list (map cqe_user_data (completions (sys_ctx s))) CG_TAG_TIMESTAMP"

definition traffic_ok :: "layout \<Rightarrow> system \<Rightarrow> bool" where
  "traffic_ok lay s \<longleftrightarrow> (\<forall>e \<in> set (entries s). known_entry lay e) \<and>
     (\<forall>c \<in> set (completions (sys_ctx s)). known_tag lay (cqe_user_data c)) \<and> timers s = 1"

lemma listener_tag_timestamp:
  assumes "layout_ok lay"
  shows "listener_tag lay \<noteq> CG_TAG_TIMESTAMP"
proof -
  have "CG_GET_TAG (listener_tag lay) = CG_TAG_FASTCGI"
    using assms tag_roundtrip tags_above by (simp add: layout_ok_def)
  moreover have "CG_GET_TAG CG_TAG_TIMESTAMP = CG_TAG_TIMESTAMP"
    by (simp add: CG_GET_TAG_def CG_TAG_TIMESTAMP_def CG_PTR_MASK_def)
  ultimately show ?thesis using tags_above by metis
qed

text \<open>A known tag is told apart by its upper bits.\<close>

lemma known_tag_cases:
  assumes "layout_ok lay" and "known_tag lay t"
  obtains "CG_GET_TAG t = CG_TAG_FASTCGI" "t \<noteq> CG_TAG_TIMESTAMP" "t = listener_tag lay"
  | "CG_GET_TAG t = CG_TAG_TIMESTAMP" "t = CG_TAG_TIMESTAMP"
  | i where "i < CG_MAX_CLIENTS" "t = client_tag lay i" "CG_GET_TAG t = CG_TAG_CLIENT"
      "lay_client_at lay (CG_UNTAG_PTR t) = i" "t \<noteq> CG_TAG_TIMESTAMP"
      "t \<noteq> listener_tag lay"
proof -
  have "CG_GET_TAG (listener_tag lay) = CG_TAG_FASTCGI"
    using assms(1) tag_roundtrip tags_above by (simp add: layout_ok_def)
  moreover have "CG_GET_TAG CG_TAG_TIMESTAMP = CG_TAG_TIMESTAMP"
    by (simp add: CG_GET_TAG_def CG_TAG_TIMESTAMP_def CG_PTR_MASK_def)
  ultimately show thesis
    using assms that listener_tag_timestamp [OF assms(1)] client_tag_parts [OF assms(1)] other_tags [OF assms(1)]
    unfolding known_tag_def by metis
qed

lemma traffic_frame:
  assumes "traffic_ok lay s" and "submissions (sys_ctx s') (sq_head s') = submissions (sys_ctx s) (sq_head s) @ es"
    and "in_flight s' = in_flight s" and "completions (sys_ctx s') = completions (sys_ctx s)"
    and "\<forall>e \<in> set es. known_entry lay e \<and> sqe_user_data e \<noteq> CG_TAG_TIMESTAMP"
  shows "traffic_ok lay s'"
proof -
  have "count_list (map sqe_user_data es) CG_TAG_TIMESTAMP = 0"
    using assms(5) by (auto simp: count_list_0_iff)
  then show ?thesis using assms by (auto simp: traffic_ok_def timers_def)
qed

lemma traffic_take:
  assumes "sys_inv lay s" and "traffic_ok lay s" and ne: "sq_head s \<noteq> sq_tail (sys_ctx s)"
  shows "traffic_ok lay (s\<lparr>sq_head := sq_head s + 1, in_flight := in_flight s @ [hd (submissions (sys_ctx s) (sq_head s))]\<rparr>)"
proof -
  have st: "sq_straight (sys_ctx s) (sq_head s)" using sys_invD(1) [OF assms(1)] by (simp add: rings_ok_def)
  have "submissions (sys_ctx s) (sq_head s) \<noteq> []"
    using ring_head [OF ne, of "sq_array (sys_ctx s)"] by (simp add: submissions_def)
  then have "entries (s\<lparr>sq_head := sq_head s + 1, in_flight := in_flight s @ [hd (submissions (sys_ctx s) (sq_head s))]\<rparr>) =
      entries s" by (simp add: kernel_takes [OF st ne])
  then show ?thesis using assms(2) by (simp add: traffic_ok_def timers_def del: map_append)
qed

lemma traffic_complete:
  assumes inv: "sys_inv lay s" and ok: "traffic_ok lay s" and fl: "in_flight s = es @ e # es'"
    and a: "answer e c" and room: "cq_room (sys_app s)"
  shows "traffic_ok lay (s\<lparr>sys_app := completes c (read_into lay e bs (sys_app s)), in_flight := es @ es'\<rparr>)"
proof -
  have "rings_ok (read_into lay e bs (sys_app s)) (sq_head s)"
    using sys_invD(1) [OF inv] by (simp add: rings_ok_def read_into_frame)
  note C = completes_ok [OF this, of c]
  show ?thesis
    using C ok fl a room by (auto simp: traffic_ok_def timers_def read_into_frame answer_def known_entry_def)
qed

lemma traffic_accept:
  assumes inv: "sys_inv lay s" and ok: "traffic_ok lay s" and e: "e \<in> set (in_flight s)"
    and op: "sqe_opcode e = IORING_OP_ACCEPT" and a: "answer e c" and room: "cq_room (sys_app s)"
  shows "traffic_ok lay (s\<lparr>sys_app := completes c (sys_app s)\<rparr>)"
proof -
  have "known_entry lay e" using ok e by (simp add: traffic_ok_def)
  then have "known_tag lay (cqe_user_data c)" "cqe_user_data c \<noteq> CG_TAG_TIMESTAMP"
    using a op by (auto simp: known_entry_def answer_def)
  then show ?thesis
    using completes_ok [OF sys_invD(1) [OF inv] room, of c] ok by (auto simp: traffic_ok_def timers_def)
qed

lemma listen_frame:
  assumes "rings_ok app h" and "found_room h app app'" and "cg_main_fastcgi_state_handle lay k app = Inr app'"
  shows "\<exists>es. submissions (g_uring_ctx app') h = submissions (g_uring_ctx app) h @ es \<and>
    (\<forall>e \<in> set es. sqe_user_data e = listener_tag lay \<and> sqe_opcode e = IORING_OP_ACCEPT) \<and>
    (fctx_state (g_fastcgi_ctx app) = CG_FASTCGI_STATE_ACCEPT_SQE \<longrightarrow>
       es \<noteq> [] \<and> fctx_state (g_fastcgi_ctx app') = CG_FASTCGI_STATE_ACCEPT_CQE) \<and>
    (fctx_state (g_fastcgi_ctx app) \<noteq> CG_FASTCGI_STATE_ACCEPT_SQE \<longrightarrow> app' = app) \<and>
    completions (g_uring_ctx app') = completions (g_uring_ctx app) \<and> g_cli_ctx_pool app' = g_cli_ctx_pool app"
proof (cases "fctx_state (g_fastcgi_ctx app) = CG_FASTCGI_STATE_ACCEPT_SQE")
  case False
  then show ?thesis using assms(3) by (intro exI [of _ "[]"]) (simp add: cg_main_fastcgi_state_handle_def)
next
  case True
  let ?f = "\<lambda>sqe. sqe\<lparr>sqe_opcode := IORING_OP_ACCEPT,
      sqe_fd := fctx_sockfd (g_fastcgi_ctx app), sqe_addr := 0, sqe_len := 0,
      sqe_ioprio := IORING_ACCEPT_MULTISHOT, sqe_accept_flags := 0x80800,
      sqe_user_data := CG_TAG_PTR (lay_fastcgi lay) CG_TAG_FASTCGI\<rparr>"
  obtain app1 where 1: "enqueue ?f app = Inr app1" and
      2: "log_ts ''note'' ''202'' ''Enqueued accept operation SQE\<newline>'' k
        (app1\<lparr>g_fastcgi_ctx := (g_fastcgi_ctx app1)\<lparr>fctx_state := CG_FASTCGI_STATE_ACCEPT_CQE\<rparr>\<rparr>) = Inr app'"
    using assms(3) True by (auto simp: cg_main_fastcgi_state_handle_def cbind_eq_Inr)
  show ?thesis
    using enqueue_ok [OF assms(1) enqueue_room [OF 1 assms(2)] 1] log_ts_frame [OF 2] True
    by (intro exI [of _ "[?f zero_sqe]"]) (simp add: submitted_def)
qed

lemma traffic_handle:
  assumes lay: "layout_ok lay" and inv: "sys_inv lay s" and ok: "traffic_ok lay s"
    and ne: "completions (sys_ctx s) \<noteq> []" and room: "found_room (sq_head s) (sys_app s) app"
    and run: "dispatch_cqe lay k (hd (completions (sys_ctx s))) (sys_app s) = Inr app"
  shows "traffic_ok lay (s\<lparr>sys_app := discarded app\<rparr>)"
proof -
  let ?t = "cqe_user_data (hd (completions (sys_ctx s)))"
  have c: "completions (g_uring_ctx app) = completions (sys_ctx s)" by (rule cq_sameD(1) [OF dispatch_cq [OF run]])
  then have d: "completions (g_uring_ctx (discarded app)) = tl (completions (sys_ctx s))"
    using cq_discard_ok(1) [of "g_uring_ctx app"] ne by simp
  obtain c0 cs where cs: "completions (sys_ctx s) = c0 # cs" using ne by (cases "completions (sys_ctx s)") auto
  have known: "known_tag lay ?t" using ok ne by (simp add: traffic_ok_def)
  have "\<exists>es. submissions (g_uring_ctx app) (sq_head s) = submissions (sys_ctx s) (sq_head s) @ es \<and>
      (\<forall>e \<in> set es. known_entry lay e) \<and>
      count_list (map sqe_user_data es) CG_TAG_TIMESTAMP = (if ?t = CG_TAG_TIMESTAMP then 1 else 0)"
  proof (cases rule: known_tag_cases [OF lay known])
    case 2
    then have "cg_main_timestamp_tick lay k (sys_app s) = Inr app"
      using run tags_above by (auto simp: dispatch_cqe_def Let_def split: if_splits)
    from tick_submits [OF inv room this] show ?thesis
      using 2 listener_tag_timestamp [OF lay] by (auto simp: submitted_def known_entry_def known_tag_def)
  next
    case 1
    then have "g_uring_ctx app = sys_ctx s"
      using run ensuresD [OF listener_ring] by (auto simp: dispatch_cqe_def Let_def split: if_splits)
    then show ?thesis using 1 by (intro exI [of _ "[]"]) simp
  next
    case (3 i)
    then have "g_uring_ctx app = sys_ctx s"
      using run client_ring tags_above by (auto simp: dispatch_cqe_def Let_def split: if_splits)
    then show ?thesis using 3 by (intro exI [of _ "[]"]) simp
  qed
  then show ?thesis
    using ok d by (auto simp: traffic_ok_def timers_def discard_submissions cs split: if_splits)
qed

lemma traffic_step:
  assumes lay: "layout_ok lay" and inv: "sys_inv lay s" and ok: "traffic_ok lay s" and step: "sys_step lay s s'"
  shows "traffic_ok lay s'"
  using step
proof (cases rule: sys_step_cases)
  case kernel_take
  then show ?thesis using traffic_take [OF inv ok] by simp
next
  case (kernel_complete es e es' c bs)
  then show ?thesis using traffic_complete [OF inv ok] by simp
next
  case (kernel_accept e c)
  then show ?thesis using traffic_accept [OF inv ok] by simp
next
  case (program_client i app)
  from client_state_frame [OF sys_invD(1) [OF inv] program_client(3,4)]
  obtain es where "submissions (g_uring_ctx app) (sq_head s) = submissions (sys_ctx s) (sq_head s) @ es"
      "\<forall>e \<in> set es. sqe_user_data e = client_tag lay i" "completions (g_uring_ctx app) = completions (sys_ctx s)"
    by blast
  then show ?thesis
    using program_client(1,2) other_tags [OF lay program_client(2)]
    by (intro traffic_frame [OF ok, of _ es]) (auto simp: known_entry_def known_tag_def)
next
  case (program_listen k app)
  from listen_frame [OF sys_invD(1) [OF inv] program_listen(2,3)]
  obtain es where "submissions (g_uring_ctx app) (sq_head s) = submissions (sys_ctx s) (sq_head s) @ es"
      "\<forall>e \<in> set es. sqe_user_data e = listener_tag lay \<and> sqe_opcode e = IORING_OP_ACCEPT"
      "completions (g_uring_ctx app) = completions (sys_ctx s)" by blast
  then show ?thesis
    using program_listen(1) listener_tag_timestamp [OF lay]
    by (intro traffic_frame [OF ok, of _ es]) (auto simp: known_entry_def known_tag_def)
next
  case (program_handle k app)
  then show ?thesis using traffic_handle [OF lay inv ok] by simp
qed

section \<open>What holds at each point\<close>

text \<open>
  A client has handed over its operation when it is in no state that submits. At the wait the
  listener and all clients have, and a completion at hand is the oldest one.
\<close>

definition handed :: "cg_client_ctx \<Rightarrow> bool" where
  "handed c \<longleftrightarrow> fcli_state (fcgi_cli_ctx c) \<notin> {CG_FASTCGI_CLIENT_STATE_READ_SQE,
     CG_FASTCGI_CLIENT_STATE_WRITE_SQE, CG_FASTCGI_CLIENT_STATE_CLOSE_SQE}"

definition given :: "nat \<Rightarrow> app \<Rightarrow> bool" where
  "given n app \<longleftrightarrow> fctx_state (g_fastcgi_ctx app) \<noteq> CG_FASTCGI_STATE_ACCEPT_SQE \<and>
     (\<forall>j < n. j < CG_MAX_CLIENTS \<longrightarrow> handed (g_cli_ctx_pool app ! j))"

definition cqe_at_hand :: "nat \<Rightarrow> cg_uring_ctx \<Rightarrow> bool" where
  "cqe_at_hand c ctx \<longleftrightarrow> completions ctx \<noteq> [] \<and> c = unat (cq_head ctx) mod length (cqes ctx)"

fun point_ok :: "point \<Rightarrow> app \<Rightarrow> bool" where
  "point_ok At_Listener app = True"
| "point_ok (At_Client i) app = given i app"
| "point_ok At_Wait app = given CG_MAX_CLIENTS app"
| "point_ok At_Enter app = given CG_MAX_CLIENTS app"
| "point_ok (At_Cqe c) app = cqe_at_hand c (g_uring_ctx app)"
| "point_ok At_Next app = True"

abbreviation ts_ok :: "app \<Rightarrow> bool" where
  "ts_ok app \<equiv> length (g_ts_buf app) = 20"

definition loop_ok :: "layout \<Rightarrow> point \<times> system \<Rightarrow> bool" where
  "loop_ok lay x \<longleftrightarrow> (case x of (p, s) \<Rightarrow>
     sys_inv lay s \<and> traffic_ok lay s \<and> ts_ok (sys_app s) \<and> point_ok p (sys_app s))"

lemma loop_okD:
  assumes "loop_ok lay (p, s)"
  shows "sys_inv lay s" "traffic_ok lay s" "ts_ok (sys_app s)" "point_ok p (sys_app s)"
  using assms by (simp_all add: loop_ok_def)

text \<open>The timestamp keeps its length.\<close>

lemma log_ts_ok:
  assumes "ts_ok app" and "log_ts level line msg k app = Inr app'"
  shows "ts_ok app'"
  using log_returns [OF assms(1), of level line msg k] assms(2) by auto

lemma enqueue_ts: "enqueue f app = Inr app' \<Longrightarrow> g_ts_buf app' = g_ts_buf app"
  by (auto simp: enqueue_def Let_def cbind_eq_Inr emit_def)

lemma listen_ts: "ts_ok app \<Longrightarrow> cg_main_fastcgi_state_handle lay k app = Inr app' \<Longrightarrow> ts_ok app'"
  by (auto simp: cg_main_fastcgi_state_handle_def cbind_eq_Inr dest!: enqueue_ts log_ts_ok [rotated] split: if_splits)

lemma client_state_ts: "cg_main_client_state_handle lay i app = Inr app' \<Longrightarrow> g_ts_buf app' = g_ts_buf app"
  unfolding cg_main_client_state_handle_def Let_def
  by (auto split: cg_fastcgi_client_state.splits if_splits simp: release_def set_fcgi_def dest!: enqueue_ts)

lemma tick_ts:
  assumes "ts_ok app" and "cg_main_timestamp_tick lay k app = Inr app'"
  shows "ts_ok app'"
  using assms(2) datetime_returns [OF assms(1), of "k_now k"]
  by (auto simp: cg_main_timestamp_tick_def cbind_eq_Inr dest!: enqueue_ts)

lemma listener_ts: "ts_ok app \<Longrightarrow> ensures ts_ok (cg_main_fastcgi_cqe_handle k c app)"
  unfolding cg_main_fastcgi_cqe_handle_def
  by (cases "fctx_state (g_fastcgi_ctx app)"; simp only: cg_fastcgi_state.case; intro keeps)
    (auto simp: emit_def Let_def dest!: log_ts_ok [rotated])

lemma client_handle_ts:
  assumes "cg_main_client_cqe_handle lay k i c app = Inr app'"
  shows "g_ts_buf app' = g_ts_buf app"
proof -
  have r: "ensures (\<lambda>app'. g_ts_buf app' = g_ts_buf app) (client_read_done lay k i (cqe_res c) app)"
    unfolding client_read_done_def by (intro keeps; simp)+
  have "g_ts_buf (client_write_done i r app) = g_ts_buf app" for r
    by (simp add: client_write_done_def set_fcgi_def Let_def)
  then show ?thesis
    using assms ensuresD [OF r] unfolding cg_main_client_cqe_handle_def Let_def
    by (cases "fcli_state (fcgi_cli_ctx (g_cli_ctx_pool app ! i))")
      (auto simp: set_fcgi_def release_def split: if_splits)
qed

lemma dispatch_ts:
  assumes "ts_ok app" and "dispatch_cqe lay k c app = Inr app'"
  shows "ts_ok app'"
  using assms(2) tick_ts [OF assms(1)] ensuresD [OF listener_ts [OF assms(1)]] client_handle_ts assms(1)
  by (fastforce simp: dispatch_cqe_def Let_def split: if_splits)

lemma ts_step:
  assumes "sys_step lay s s'" and "ts_ok (sys_app s)"
  shows "ts_ok (sys_app s')"
  using assms(1)
proof (cases rule: sys_step_cases)
  case (program_client i app)
  then show ?thesis using assms(2) client_state_ts by simp
next
  case (program_listen k app)
  then show ?thesis using assms(2) listen_ts by simp
next
  case (program_handle k app)
  then show ?thesis using assms(2) dispatch_ts by simp
qed (use assms(2) in \<open>simp_all add: completes_def read_into_def set_fcgi_def Let_def\<close>)

section \<open>The steps keep it\<close>

lemma kernel_keeps_point:
  assumes inv: "sys_inv lay s" and step: "kernel_step lay s s'" and ok: "point_ok p (sys_app s)"
  shows "point_ok p (sys_app s')"
proof -
  have read: "fcli_state (fcgi_cli_ctx (g_cli_ctx_pool (read_into lay e bs app) ! j)) = fcli_state (fcgi_cli_ctx (g_cli_ctx_pool app ! j))"
    for e bs app j
    by (simp add: read_into_def set_fcgi_def Let_def nth_list_update)
  have at: "cqe_at_hand c (g_uring_ctx (completes e app))"
    if "cqe_at_hand c (g_uring_ctx app)" "rings_ok app h" "cq_room app" for c e app h
    using that completes_ok(2) [OF that(2,3), of e] by (simp add: cqe_at_hand_def completes_def cq_put_def Let_def)
  have giv: "given n (completes e app) = given n app" for n e app
    by (simp add: given_def completes_def)
  have r: "rings_ok (sys_app s) (sq_head s)" "rings_ok (read_into lay e bs (sys_app s)) (sq_head s)" for e bs
    using sys_invD(1) [OF inv] by (simp_all add: rings_ok_def read_into_frame)
  show ?thesis
    using step
  proof cases
    case kernel_take
    then show ?thesis using ok by simp
  next
    case (kernel_complete es e es' c bs)
    let ?app = "read_into lay e bs (sys_app s)"
    have "given n ?app = given n (sys_app s)" for n by (simp add: given_def handed_def read read_into_frame)
    then show ?thesis
      using ok kernel_complete giv at [OF _ r(2) [of e bs], of _ c] by (cases p) (simp_all add: read_into_frame)
  next
    case (kernel_accept e c)
    then show ?thesis using ok giv at [OF _ r(1), of _ c] by (cases p) simp_all
  qed
qed

text \<open>Each step of the program at its point is one of the system, or only looks.\<close>

lemma main_step_sys:
  assumes ok: "loop_ok lay (p, s)" and step: "main_step lay k (p, s) (q, s')"
    and room: "found_room (sq_head s) (sys_app s) (sys_app s')"
  shows "s' = s \<or> sys_step lay s s'"
  using step
proof cases
  case (main_handle c app)
  have at: "cqe_at_hand c (sys_ctx s)" using loop_okD(4) [OF ok] main_handle by simp
  then have "cqes (sys_ctx s) ! c = hd (completions (sys_ctx s))"
    using cq_peek_ok(2) sys_invD(1) [OF loop_okD(1) [OF ok]] by (simp add: cqe_at_hand_def rings_ok_def)
  then show ?thesis
    using main_handle at room sys_step_handle [of s app lay k]
    by (simp add: cqe_at_hand_def) (simp add: cg_uring_cq_discard_def)
qed (use room in \<open>auto intro: sys_step_client sys_step_listen\<close>)

lemma client_hands_over:
  assumes "rings_ok app h" and "found_room h app app'" and "i < length (g_cli_ctx_pool app)"
    and run: "cg_main_client_state_handle lay i app = Inr app'"
  shows "handed (g_cli_ctx_pool app' ! i)" "\<forall>j. j \<noteq> i \<longrightarrow> g_cli_ctx_pool app' ! j = g_cli_ctx_pool app ! j"
    "g_fastcgi_ctx app' = g_fastcgi_ctx app"
proof -
  have sub: "g_cli_ctx_pool app' = (g_cli_ctx_pool app)[i := (g_cli_ctx_pool app ! i)\<lparr>fcgi_cli_ctx := fcgi\<rparr>]"
    if "enqueue f (set_fcgi i fcgi app) = Inr app'" for f fcgi
  proof -
    have "rings_ok (set_fcgi i fcgi app) h" "sq_room (set_fcgi i fcgi app) h"
      using assms(1) enqueue_room [OF that assms(2)] by (simp_all add: rings_ok_def set_fcgi_def)
    from enqueue_ok(1) [OF this that] show ?thesis by (simp add: submitted_def set_fcgi_def)
  qed
  show "handed (g_cli_ctx_pool app' ! i)" "\<forall>j. j \<noteq> i \<longrightarrow> g_cli_ctx_pool app' ! j = g_cli_ctx_pool app ! j"
    using run assms(3) unfolding cg_main_client_state_handle_def Let_def
    by (auto split: cg_fastcgi_client_state.splits if_splits simp: release_def handed_def dest!: sub)
  show "g_fastcgi_ctx app' = g_fastcgi_ctx app" using client_state_frame [OF assms(1,2) run] by blast
qed

lemma main_keeps_point:
  assumes ok: "loop_ok lay (p, s)" and step: "main_step lay k (p, s) (q, s')"
    and room: "found_room (sq_head s) (sys_app s) (sys_app s')"
  shows "point_ok q (sys_app s')"
  using step
proof cases
  case (main_listener app)
  have "found_room (sq_head s) (sys_app s) app" using room main_listener by simp
  from listen_frame [OF sys_invD(1) [OF loop_okD(1) [OF ok]] this main_listener(4)] main_listener show ?thesis
    by (auto simp: given_def)
next
  case (main_client i app)
  have "i < length (sys_pool s)" "found_room (sq_head s) (sys_app s) app"
    using main_client sys_invD(2) [OF loop_okD(1) [OF ok]] room by simp_all
  note C = client_hands_over [OF sys_invD(1) [OF loop_okD(1) [OF ok]] this(2,1) main_client(5)]
  have "handed (g_cli_ctx_pool app ! j)" if "j < Suc i" "j < CG_MAX_CLIENTS" for j
    using C loop_okD(4) [OF ok] main_client(1) that by (cases "j = i") (auto simp: given_def)
  then show ?thesis using C(3) main_client loop_okD(4) [OF ok] by (simp add: given_def)
next
  case (main_peek q' cqe)
  have "point_ok q' (sys_app s)"
    using main_peek(3) loop_okD(4) [OF ok] by (cases p) (auto simp: given_def split: if_splits)
  moreover have "cqe_at_hand c (sys_ctx s)" if "cqe = Some c" for c
    using main_peek that cq_peek_ok(1) [of "sys_ctx s"] sys_invD(1) [OF loop_okD(1) [OF ok]]
    by (auto simp: rings_ok_def cqe_at_hand_def split: if_splits)
  ultimately show ?thesis using main_peek by (auto split: option.splits)
qed simp_all

lemma turn_step_sys:
  assumes ok: "loop_ok lay x" and step: "turn_step lay x y"
  shows "snd y = snd x \<or> sys_step lay (snd x) (snd y)"
  using step
proof cases
  case (turn_kernel s s' p)
  then show ?thesis using sys_step_kernel by simp
next
  case (turn_main k)
  then show ?thesis using main_step_sys ok by (metis prod.collapse)
qed

lemma turn_keeps:
  assumes lay: "layout_ok lay" and ok: "loop_ok lay x" and step: "turn_step lay x y"
  shows "loop_ok lay y"
proof -
  obtain p s q s' where xy: "x = (p, s)" "y = (q, s')" by (cases x; cases y)
  note k = loop_okD [OF ok [unfolded xy]]
  have "s' = s \<or> sys_step lay s s'" using turn_step_sys [OF ok step] xy by simp
  then have inv: "sys_inv lay s' \<and> traffic_ok lay s' \<and> ts_ok (sys_app s')"
    using k(1-3) sys_inv_step [OF lay] traffic_step [OF lay] ts_step by blast
  have "point_ok q (sys_app s')"
    using step [unfolded xy]
  proof cases
    case turn_kernel
    then show ?thesis using kernel_keeps_point [OF k(1)] k(4) by blast
  next
    case (turn_main k)
    then show ?thesis using main_keeps_point [OF ok [unfolded xy]] by simp
  qed
  then show ?thesis using inv by (simp add: loop_ok_def xy)
qed

lemma turn_reachable:
  assumes lay: "layout_ok lay" and "(turn_step lay)\<^sup>*\<^sup>* x y" and "loop_ok lay x"
  shows "loop_ok lay y \<and> (sys_step lay)\<^sup>*\<^sup>* (snd x) (snd y)"
  using assms(2)
proof induction
  case base
  then show ?case using assms(3) by simp
next
  case (step y z)
  then have ok: "loop_ok lay y" "(sys_step lay)\<^sup>*\<^sup>* (snd x) (snd y)" by simp_all
  then show ?case
    using turn_keeps [OF lay ok(1) step(2)] turn_step_sys [OF ok(1) step(2)] by (auto intro: rtranclp.rtrancl_into_rtrancl)
qed

section \<open>The start\<close>

lemma started_ts:
  assumes ts: "ts_ok app" and run: "main_start lay k envp sdb udb net app = Inr (app', True)"
  shows "ts_ok app'"
proof -
  have init: "ensures ts_ok (cg_main_init envp sdb udb app)"
    unfolding cg_main_init_def by (intro keeps) (auto simp: ts emit_def buf_write_def split: if_splits)
  have fatal: "ts_ok app1 \<Longrightarrow> ensures (\<lambda>(app', run). ts_ok app') (fatal line msg k app1)" for line msg app1
    unfolding fatal_def by (intro keeps) (auto simp: emit_def dest: log_ts_ok)
  have net: "ts_ok app1 \<Longrightarrow> ensures (\<lambda>(app', run). ts_ok app') (cg_main_fastcgi_setup fd b l k app1)" for fd b l app1
    unfolding cg_main_fastcgi_setup_def
    by (intro keeps fatal) (auto simp: emit_def Let_def dest!: log_ts_ok [rotated])
  obtain fd b l where n: "net = (fd, b, l)" by (cases net)
  obtain app1 app2 fctx pool app3 m where
      1: "cg_main_init envp sdb udb app = Inr app1" and 2: "cg_main_timestamp_tick lay k app1 = Inr app2"
    and 3: "cg_main_fastcgi_setup fd b l k (app2\<lparr>g_fastcgi_ctx := fctx, g_cli_ctx_pool := pool\<rparr>) = Inr (app3, True)"
    and 4: "app' = app3\<lparr>g_route_map := m\<rparr>"
    using run by (auto simp: main_start_def n cbind_eq_Inr Let_def split: if_splits)
  have "ts_ok app2" by (rule tick_ts [OF ensuresD [OF init 1] 2])
  then have "ts_ok app3" using ensuresD [OF net 3] by simp
  then show ?thesis using 4 by simp
qed

lemma started_loop_ok:
  assumes lay: "layout_ok lay" and fresh: "fresh_globals app" and ts: "ts_ok app"
    and run: "main_start lay k envp sdb udb net app = Inr (app', True)"
  shows "loop_ok lay (At_Listener, boot app app')"
proof -
  have "traffic_ok lay (boot app app')"
    using started_rings(2,3) [OF fresh run] listener_tag_timestamp [OF lay]
    by (auto simp: traffic_ok_def timers_def known_entry_def known_tag_def)
  then show ?thesis
    using started_inv [OF lay fresh run] started_ts [OF ts run] by (simp add: loop_ok_def)
qed

lemma started_listener:
  assumes run: "main_start lay k envp sdb udb net app = Inr (app', True)"
  shows "fctx_state (g_fastcgi_ctx app') = CG_FASTCGI_STATE_ACCEPT_SQE"
proof -
  obtain fd b l where n: "net = (fd, b, l)" by (cases net)
  obtain app1 app2 where "cg_main_fastcgi_setup fd b l k app1 = Inr (app2, True)"
      "g_fastcgi_ctx app' = g_fastcgi_ctx app2"
    using run by (auto simp: main_start_def n cbind_eq_Inr Let_def split: if_splits)
  then show ?thesis
    by (auto simp: cg_main_fastcgi_setup_def fatal_def emit_def Let_def cbind_eq_Inr split: if_splits dest!: log_ts_frame(3))
qed

section \<open>No step fails but the answer to a request\<close>

lemma tick_returns:
  assumes "sq_ok (g_uring_ctx app)" and "ts_ok app"
  shows "\<exists>app'. cg_main_timestamp_tick lay k app = Inr app'"
proof -
  obtain ts where "cg_datetime_str_get (k_now k) (g_ts_buf app) = Inr ts" using datetime_returns [OF assms(2)] by blast
  then show ?thesis
    using enqueue_returns [of "app\<lparr>g_ts_buf := ts\<rparr>"] assms(1) by (force simp: cg_main_timestamp_tick_def)
qed

lemma listen_returns:
  assumes "sq_ok (g_uring_ctx app)" and "ts_ok app"
  shows "\<exists>app'. cg_main_fastcgi_state_handle lay k app = Inr app'"
proof (cases "fctx_state (g_fastcgi_ctx app) = CG_FASTCGI_STATE_ACCEPT_SQE")
  case True
  let ?f = "\<lambda>sqe. sqe\<lparr>sqe_opcode := IORING_OP_ACCEPT,
      sqe_fd := fctx_sockfd (g_fastcgi_ctx app), sqe_addr := 0, sqe_len := 0,
      sqe_ioprio := IORING_ACCEPT_MULTISHOT, sqe_accept_flags := 0x80800,
      sqe_user_data := CG_TAG_PTR (lay_fastcgi lay) CG_TAG_FASTCGI\<rparr>"
  obtain app1 where 1: "enqueue ?f app = Inr app1" using enqueue_returns [OF assms(1), of ?f] by blast
  then have "ts_ok (app1\<lparr>g_fastcgi_ctx := (g_fastcgi_ctx app1)\<lparr>fctx_state := CG_FASTCGI_STATE_ACCEPT_CQE\<rparr>\<rparr>)"
    using enqueue_ts [OF 1] assms(2) by simp
  from log_returns [OF this] show ?thesis
    using True 1 by (force simp: cg_main_fastcgi_state_handle_def)
qed (simp add: cg_main_fastcgi_state_handle_def)

lemma client_state_returns:
  assumes "sq_ok (g_uring_ctx app)"
  shows "\<exists>app'. cg_main_client_state_handle lay i app = Inr app'"
proof -
  have "\<exists>app'. enqueue f (set_fcgi i fcgi app) = Inr app'" for f fcgi
    using enqueue_returns [of "set_fcgi i fcgi app"] assms by (force simp: set_fcgi_frame)
  then show ?thesis
    by (cases "fcli_state (fcgi_cli_ctx (g_cli_ctx_pool app ! i))") (simp_all add: cg_main_client_state_handle_def Let_def)
qed

lemma listener_returns:
  assumes "ts_ok app" and "length (g_cli_ctx_pool app) = CG_MAX_CLIENTS"
  shows "\<exists>app'. cg_main_fastcgi_cqe_handle k c app = Inr app'"
proof (cases "fctx_state (g_fastcgi_ctx app) = CG_FASTCGI_STATE_ACCEPT_CQE")
  case True
  have "\<exists>pool r. cg_client_alloc (g_cli_ctx_pool app) CG_MAX_CLIENTS = Inr (pool, r)"
    using assms(2) by (simp add: cg_client_alloc_def split: option.split)
  then obtain pool r where a: "cg_client_alloc (g_cli_ctx_pool app) CG_MAX_CLIENTS = Inr (pool, r)" by blast
  obtain ts tr where "log_ts ''error'' ''226'' ''Accept error\<newline>'' k app = Inr (app\<lparr>g_ts_buf := ts, app_trace := tr\<rparr>)"
    using log_returns [OF assms(1)] by blast
  moreover obtain ts' tr' where
      "log_ts ''note'' ''232'' ''Accepted incoming connection\<newline>'' k app = Inr (app\<lparr>g_ts_buf := ts', app_trace := tr'\<rparr>)"
    using log_returns [OF assms(1)] by blast
  ultimately show ?thesis
    using True a by (simp add: cg_main_fastcgi_cqe_handle_def Let_def split: option.splits)
qed (cases "fctx_state (g_fastcgi_ctx app)"; simp add: cg_main_fastcgi_cqe_handle_def)

text \<open>A completed read with bytes, whose request cannot be answered, is the only way to stop.\<close>

definition request_fails :: "layout \<Rightarrow> kernel \<Rightarrow> io_uring_cqe \<Rightarrow> app \<Rightarrow> bool" where
  "request_fails lay k c app \<longleftrightarrow> (\<exists>i < CG_MAX_CLIENTS. cqe_user_data c = client_tag lay i \<and>
     fcli_state (fcgi_cli_ctx (g_cli_ctx_pool app ! i)) = CG_FASTCGI_CLIENT_STATE_READ_CQE \<and>
     0 < sint (cqe_res c) \<and> (\<exists>e. client_read_done lay k i (cqe_res c) app = Inl e))"

lemma dispatch_returns:
  assumes lay: "layout_ok lay" and "sq_ok (g_uring_ctx app)" and "ts_ok app"
    and len: "length (g_cli_ctx_pool app) = CG_MAX_CLIENTS" and known: "known_tag lay (cqe_user_data c)"
  shows "(\<exists>app'. dispatch_cqe lay k c app = Inr app') \<or> request_fails lay k c app"
proof (cases rule: known_tag_cases [OF lay known])
  case 1
  then show ?thesis using listener_returns [OF assms(3,4), of k c] by (simp add: dispatch_cqe_def Let_def)
next
  case 2
  then show ?thesis using tick_returns [OF assms(2,3), of lay k] tags_above by (simp add: dispatch_cqe_def Let_def)
next
  case (3 i)
  then have d: "dispatch_cqe lay k c app = cg_main_client_cqe_handle lay k i c app"
    using tags_above len by (simp add: dispatch_cqe_def Let_def)
  consider "fcli_state (fcgi_cli_ctx (g_cli_ctx_pool app ! i)) = CG_FASTCGI_CLIENT_STATE_READ_CQE \<and> 0 < sint (cqe_res c)"
    | "\<exists>app'. cg_main_client_cqe_handle lay k i c app = Inr app'"
    by (cases "0 < sint (cqe_res c)"; cases "fcli_state (fcgi_cli_ctx (g_cli_ctx_pool app ! i))")
      (simp_all add: cg_main_client_cqe_handle_def Let_def)
  then show ?thesis
  proof cases
    case 1
    then have "cg_main_client_cqe_handle lay k i c app = client_read_done lay k i (cqe_res c) app"
      by (simp add: cg_main_client_cqe_handle_def Let_def)
    then show ?thesis
      using 1 3 d by (cases "client_read_done lay k i (cqe_res c) app") (auto simp: request_fails_def)
  qed (simp add: d)
qed

lemma request_fails_dispatch:
  assumes lay: "layout_ok lay" and len: "length (g_cli_ctx_pool app) = CG_MAX_CLIENTS" and "request_fails lay k c app"
  shows "\<exists>e. dispatch_cqe lay k c app = Inl e"
proof -
  obtain i e where i: "i < CG_MAX_CLIENTS" "cqe_user_data c = client_tag lay i"
      "fcli_state (fcgi_cli_ctx (g_cli_ctx_pool app ! i)) = CG_FASTCGI_CLIENT_STATE_READ_CQE"
      "0 < sint (cqe_res c)" "client_read_done lay k i (cqe_res c) app = Inl e"
    using assms(3) by (auto simp: request_fails_def)
  then have "dispatch_cqe lay k c app = client_read_done lay k i (cqe_res c) app"
    using len client_tag_parts [OF lay i(1)] tags_above
    by (simp add: dispatch_cqe_def cg_main_client_cqe_handle_def Let_def)
  then show ?thesis using i(5) by simp
qed

text \<open>The completion at hand is the oldest one, and carries a tag that the program gave out.\<close>

lemma at_hand:
  assumes "loop_ok lay (At_Cqe c, s)"
  shows "c < length (cqes (sys_ctx s))" "cqes (sys_ctx s) ! c = hd (completions (sys_ctx s))"
    "completions (sys_ctx s) \<noteq> []" "cg_uring_cq_peek (sys_ctx s) = Inr (Some c)"
    "known_tag lay (cqe_user_data (cqes (sys_ctx s) ! c))"
proof -
  note D = loop_okD [OF assms]
  have rings: "cq_ok (sys_ctx s)" using sys_invD(1) [OF D(1)] by (simp add: rings_ok_def)
  have at: "completions (sys_ctx s) \<noteq> []" "c = unat (cq_head (sys_ctx s)) mod length (cqes (sys_ctx s))"
    using D(4) by (simp_all add: cqe_at_hand_def)
  have size: "ring_size (cqes (sys_ctx s)) (cq_ring_mask (sys_ctx s))" using rings by (simp add: cq_ok_def)
  show "c < length (cqes (sys_ctx s))" using at(2) ring_slot(2) [OF size] by simp
  show hd: "cqes (sys_ctx s) ! c = hd (completions (sys_ctx s))" using cq_peek_ok(2) [OF rings at(1)] at(2) by simp
  show "completions (sys_ctx s) \<noteq> []" by (rule at(1))
  show "cg_uring_cq_peek (sys_ctx s) = Inr (Some c)" using cq_peek_ok(1) [OF rings] at by simp
  show "known_tag lay (cqe_user_data (cqes (sys_ctx s) ! c))" using D(2) at(1) hd by (simp add: traffic_ok_def)
qed

lemma dispatch_fails:
  assumes lay: "layout_ok lay" and ok: "loop_ok lay (At_Cqe c, s)"
    and run: "dispatch_cqe lay k (cqes (sys_ctx s) ! c) (sys_app s) = Inl e"
  shows "request_fails lay k (cqes (sys_ctx s) ! c) (sys_app s)"
proof -
  note D = loop_okD [OF ok]
  have "sq_ok (sys_ctx s)" using sys_invD(1) [OF D(1)] by (simp add: rings_ok_def)
  from dispatch_returns [OF lay this D(3) sys_invD(2) [OF D(1)] at_hand(5) [OF ok], of k] run show ?thesis by auto
qed

lemma main_progress:
  assumes lay: "layout_ok lay" and ok: "loop_ok lay (p, s)"
  shows "(\<exists>y. main_step lay k (p, s) y) \<longleftrightarrow>
    \<not> (\<exists>c. p = At_Cqe c \<and> request_fails lay k (cqes (sys_ctx s) ! c) (sys_app s))"
proof -
  note D = loop_okD [OF ok]
  have rings: "sq_ok (sys_ctx s)" "cq_ok (sys_ctx s)" using sys_invD(1) [OF D(1)] by (simp_all add: rings_ok_def)
  have look: "\<exists>y. main_step lay k (p, s) y" if "when_empty p = Some q" for q
    using main_peek [OF that cq_peek_ok(1) [OF rings(2)]] by blast
  show ?thesis
  proof (cases p)
    case At_Listener
    then show ?thesis using listen_returns [OF rings(1) D(3), of lay k] main_listener by blast
  next
    case (At_Client i)
    obtain app where "cg_main_client_state_handle lay i (sys_app s) = Inr app"
      using client_state_returns [OF rings(1)] by blast
    from main_client [OF _ this] show ?thesis
      using At_Client look by (cases "i < CG_MAX_CLIENTS") (blast, simp)
  next
    case (At_Cqe c)
    note C = at_hand [OF ok [unfolded At_Cqe]]
    have "\<not> request_fails lay k (cqes (sys_ctx s) ! c) (sys_app s)" if m: "main_step lay k (At_Cqe c, s) y" for y
    proof
      assume "request_fails lay k (cqes (sys_ctx s) ! c) (sys_app s)"
      from request_fails_dispatch [OF lay sys_invD(2) [OF D(1)] this] m show False by (auto elim!: main_at_cqeE)
    qed
    with dispatch_returns [OF lay rings(1) D(3) sys_invD(2) [OF D(1)] C(5), of k]
    show ?thesis using At_Cqe main_handle [OF C(1)] by blast
  qed (use look in simp_all)
qed

section \<open>When the listener still hears\<close>

text \<open>
  The listener that waits for a completion gets one: an accept is with the queue or the kernel, or
  its last completion, behind which no other comes, is in the ring.
\<close>

definition hears :: "layout \<Rightarrow> system \<Rightarrow> bool" where
  "hears lay s \<longleftrightarrow> (\<exists>e \<in> set (entries s). sqe_user_data e = listener_tag lay \<and> sqe_opcode e = IORING_OP_ACCEPT) \<or>
     (\<exists>c \<in> set (completions (sys_ctx s)). cqe_user_data c = listener_tag lay \<and> cqe_flags c AND IORING_CQE_F_MORE = 0)"

definition listener_ok :: "layout \<Rightarrow> system \<Rightarrow> bool" where
  "listener_ok lay s \<longleftrightarrow> fctx_state (g_fastcgi_ctx (sys_app s)) \<noteq> CG_FASTCGI_STATE_ERROR \<and>
     (fctx_state (g_fastcgi_ctx (sys_app s)) = CG_FASTCGI_STATE_ACCEPT_CQE \<longrightarrow> hears lay s)"

text \<open>The last completion of its accept is at hand, with a connection, and no context is free.\<close>

definition loses_listener :: "layout \<Rightarrow> system \<Rightarrow> bool" where
  "loses_listener lay s \<longleftrightarrow> (\<exists>c cs. completions (sys_ctx s) = c # cs \<and>
     cqe_user_data c = listener_tag lay \<and> cqe_flags c AND IORING_CQE_F_MORE = 0 \<and> 0 \<le> sint (cqe_res c) \<and>
     fctx_state (g_fastcgi_ctx (sys_app s)) = CG_FASTCGI_STATE_ACCEPT_CQE \<and>
     (\<forall>i < CG_MAX_CLIENTS. cli_state (sys_pool s ! i) \<noteq> CG_CLIENT_STATE_FREE) \<and>
     (\<forall>e \<in> set (entries s). sqe_user_data e \<noteq> listener_tag lay) \<and>
     (\<forall>c \<in> set cs. cqe_user_data c = listener_tag lay \<longrightarrow> cqe_flags c AND IORING_CQE_F_MORE \<noteq> 0))"

lemma hears_frame:
  assumes "hears lay s" and "set (entries s) \<subseteq> set (entries s')"
    and "set (completions (sys_ctx s)) \<subseteq> set (completions (sys_ctx s'))"
  shows "hears lay s'"
  using assms unfolding hears_def by blast

lemma listener_outcome:
  assumes inv: "sys_inv lay s" and run: "cg_main_fastcgi_cqe_handle k c (sys_app s) = Inr app"
    and st: "fctx_state (g_fastcgi_ctx (sys_app s)) = CG_FASTCGI_STATE_ACCEPT_CQE"
  shows "fctx_state (g_fastcgi_ctx app) = CG_FASTCGI_STATE_ACCEPT_SQE \<or>
    fctx_state (g_fastcgi_ctx app) = CG_FASTCGI_STATE_ACCEPT_CQE \<and> 0 \<le> sint (cqe_res c) \<and>
      (cqe_flags c AND IORING_CQE_F_MORE \<noteq> 0 \<or> (\<forall>i < CG_MAX_CLIENTS. cli_state (sys_pool s ! i) \<noteq> CG_CLIENT_STATE_FREE))"
proof (cases "sint (cqe_res c) < 0")
  case True
  then show ?thesis using run st by (auto simp: cg_main_fastcgi_cqe_handle_def cbind_eq_Inr)
next
  case False
  then obtain app1 pool r where l: "log_ts ''note'' ''232'' ''Accepted incoming connection\<newline>'' k (sys_app s) = Inr app1"
    and al: "cg_client_alloc (g_cli_ctx_pool app1) CG_MAX_CLIENTS = Inr (pool, r)"
    using run st by (auto simp: cg_main_fastcgi_cqe_handle_def cbind_eq_Inr)
  note L = log_ts_frame [OF l]
  have "\<forall>i < CG_MAX_CLIENTS. cli_state (sys_pool s ! i) \<noteq> CG_CLIENT_STATE_FREE" if "r = None"
    using al that L(2) sys_invD(2) [OF inv]
    by (auto simp: cg_client_alloc_def first_index_None all_set_conv_all_nth split: option.splits if_splits)
  then show ?thesis
    using run False l al L st by (cases r) (auto simp: cg_main_fastcgi_cqe_handle_def emit_def Let_def split: if_splits)
qed

lemma listener_handle:
  assumes lay: "layout_ok lay" and inv: "sys_inv lay s" and ok: "listener_ok lay s" and traffic: "traffic_ok lay s"
    and ne: "completions (sys_ctx s) \<noteq> []" and room: "found_room (sq_head s) (sys_app s) app"
    and run: "dispatch_cqe lay k (hd (completions (sys_ctx s))) (sys_app s) = Inr app"
  shows "listener_ok lay (s\<lparr>sys_app := discarded app\<rparr>) \<or> loses_listener lay s"
proof -
  let ?s' = "s\<lparr>sys_app := discarded app\<rparr>"
  obtain c cs where cs: "completions (sys_ctx s) = c # cs" using ne by (cases "completions (sys_ctx s)") auto
  have d: "completions (g_uring_ctx (discarded app)) = cs"
    using cq_discard_ok(1) [of "g_uring_ctx app"] cq_sameD(1) [OF dispatch_cq [OF run]] cs by simp
  have known: "known_tag lay (cqe_user_data c)" using traffic cs by (simp add: traffic_ok_def)
  have others: ?thesis if f: "g_fastcgi_ctx app = g_fastcgi_ctx (sys_app s)"
    and e: "set (entries s) \<subseteq> set (in_flight s @ submissions (g_uring_ctx app) (sq_head s))"
    and t: "cqe_user_data c \<noteq> listener_tag lay"
  proof -
    have "hears lay ?s'" if "hears lay s"
      using that e t cs d by (auto simp: hears_def discard_submissions)
    then show ?thesis using ok f by (simp add: listener_ok_def)
  qed
  show ?thesis
  proof (cases rule: known_tag_cases [OF lay known])
    case 2
    then have "cg_main_timestamp_tick lay k (sys_app s) = Inr app"
      using run tags_above cs by (auto simp: dispatch_cqe_def Let_def split: if_splits)
    from tick_submits [OF inv room this] show ?thesis
      using 2 listener_tag_timestamp [OF lay] by (intro others) (auto simp: submitted_def)
  next
    case (3 i)
    then have "g_uring_ctx app = sys_ctx s \<and> g_fastcgi_ctx app = g_fastcgi_ctx (sys_app s)"
      using run client_ring tags_above cs by (auto simp: dispatch_cqe_def Let_def split: if_splits)
    then show ?thesis using 3 by (intro others) simp_all
  next
    case 1
    then have h: "cg_main_fastcgi_cqe_handle k c (sys_app s) = Inr app"
      using run cs by (simp add: dispatch_cqe_def Let_def)
    note u = ensuresD [OF listener_ring h]
    show ?thesis
    proof (cases "fctx_state (g_fastcgi_ctx (sys_app s)) = CG_FASTCGI_STATE_ACCEPT_CQE")
      case False
      then have "app = sys_app s" "fctx_state (g_fastcgi_ctx (sys_app s)) = CG_FASTCGI_STATE_ACCEPT_SQE"
        using h ok by (cases "fctx_state (g_fastcgi_ctx (sys_app s))"; simp add: cg_main_fastcgi_cqe_handle_def listener_ok_def)+
      then show ?thesis by (simp add: listener_ok_def)
    next
      case True
      have hears: "hears lay s" using ok True by (simp add: listener_ok_def)
      have "hears lay ?s' \<or> cqe_flags c AND IORING_CQE_F_MORE = 0 \<and>
          (\<forall>e \<in> set (entries s). sqe_user_data e \<noteq> listener_tag lay) \<and>
          (\<forall>c \<in> set cs. cqe_user_data c = listener_tag lay \<longrightarrow> cqe_flags c AND IORING_CQE_F_MORE \<noteq> 0)"
        using hears traffic cs d u by (auto simp: hears_def discard_submissions traffic_ok_def known_entry_def)
      then show ?thesis
        using listener_outcome [OF inv h True] cs 1(3) True by (auto simp: listener_ok_def loses_listener_def)
    qed
  qed
qed

lemma listener_step:
  assumes lay: "layout_ok lay" and inv: "sys_inv lay s" and traffic: "traffic_ok lay s" and ok: "listener_ok lay s"
    and step: "sys_step lay s s'"
  shows "listener_ok lay s' \<or> loses_listener lay s"
  using step
proof (cases rule: sys_step_cases)
  case kernel_take
  have st: "sq_straight (sys_ctx s) (sq_head s)" using sys_invD(1) [OF inv] by (simp add: rings_ok_def)
  have "submissions (sys_ctx s) (sq_head s) \<noteq> []"
    using ring_head [OF kernel_take(2), of "sq_array (sys_ctx s)"] by (simp add: submissions_def)
  then have "entries s' = entries s" using kernel_take by (simp add: kernel_takes [OF st kernel_take(2)])
  then have "hears lay s \<Longrightarrow> hears lay s'" using kernel_take by (simp add: hears_def)
  then show ?thesis using ok kernel_take by (simp add: listener_ok_def)
next
  case (kernel_complete es e es' c bs)
  have "rings_ok (read_into lay e bs (sys_app s)) (sq_head s)"
    using sys_invD(1) [OF inv] by (simp add: rings_ok_def read_into_frame)
  note C = completes_ok [OF this, of c]
  have g: "g_fastcgi_ctx (sys_app s') = g_fastcgi_ctx (sys_app s)"
    using kernel_complete by (simp add: completes_def read_into_frame)
  have "hears lay s \<Longrightarrow> hears lay s'"
    using kernel_complete C(2,3) by (auto simp: hears_def read_into_frame answer_def)
  then show ?thesis using ok g by (simp add: listener_ok_def)
next
  case (kernel_accept e c)
  note C = completes_ok [OF sys_invD(1) [OF inv] kernel_accept(5), of c]
  have "hears lay s \<Longrightarrow> hears lay s'" using kernel_accept C by (auto simp: hears_def)
  moreover have "g_fastcgi_ctx (sys_app s') = g_fastcgi_ctx (sys_app s)" using kernel_accept by (simp add: completes_def)
  ultimately show ?thesis using ok by (simp add: listener_ok_def)
next
  case (program_client i app)
  from client_state_frame [OF sys_invD(1) [OF inv] program_client(3,4)]
  have "hears lay s \<Longrightarrow> hears lay s'" "g_fastcgi_ctx (sys_app s') = g_fastcgi_ctx (sys_app s)"
    using program_client(1) by (auto simp: hears_def)
  then show ?thesis using ok by (simp add: listener_ok_def)
next
  case (program_listen k app)
  note L = listen_frame [OF sys_invD(1) [OF inv] program_listen(2,3)]
  show ?thesis
  proof (cases "fctx_state (g_fastcgi_ctx (sys_app s)) = CG_FASTCGI_STATE_ACCEPT_SQE")
    case True
    from L obtain es where es: "submissions (g_uring_ctx app) (sq_head s) = submissions (sys_ctx s) (sq_head s) @ es"
        "\<forall>e \<in> set es. sqe_user_data e = listener_tag lay \<and> sqe_opcode e = IORING_OP_ACCEPT" "es \<noteq> []"
        "fctx_state (g_fastcgi_ctx app) = CG_FASTCGI_STATE_ACCEPT_CQE" using True by blast
    from es(3) have m: "hd es \<in> set es" by simp
    then have "hd es \<in> set (entries s')" using es(1) program_listen(1) by simp
    then have "hears lay s'" using es(2) m unfolding hears_def by blast
    then show ?thesis using es(4) program_listen(1) by (simp add: listener_ok_def)
  next
    case False
    then have "app = sys_app s" using L by blast
    then show ?thesis using ok program_listen(1) by simp
  qed
next
  case (program_handle k app)
  then show ?thesis using listener_handle [OF lay inv ok traffic] by simp
qed

text \<open>The listener never gets into its error state, lost or not.\<close>

lemma listener_no_error:
  assumes inv: "sys_inv lay s" and ok: "fctx_state (g_fastcgi_ctx (sys_app s)) \<noteq> CG_FASTCGI_STATE_ERROR"
    and step: "sys_step lay s s'"
  shows "fctx_state (g_fastcgi_ctx (sys_app s')) \<noteq> CG_FASTCGI_STATE_ERROR"
  using step
proof (cases rule: sys_step_cases)
  case (program_client i app)
  then show ?thesis using client_state_frame [OF sys_invD(1) [OF inv] program_client(3,4)] ok by auto
next
  case (program_listen k app)
  then show ?thesis using listen_frame [OF sys_invD(1) [OF inv] program_listen(2,3)] ok by auto
next
  case (program_handle k app)
  let ?c = "hd (completions (sys_ctx s))"
  consider "cg_main_fastcgi_cqe_handle k ?c (sys_app s) = Inr app" | "cg_main_timestamp_tick lay k (sys_app s) = Inr app"
    | "g_fastcgi_ctx app = g_fastcgi_ctx (sys_app s)"
    using program_handle(4) client_ring by (fastforce simp: dispatch_cqe_def Let_def split: if_splits)
  then have "fctx_state (g_fastcgi_ctx app) \<noteq> CG_FASTCGI_STATE_ERROR"
  proof cases
    case 1
    show ?thesis
    proof (cases "fctx_state (g_fastcgi_ctx (sys_app s)) = CG_FASTCGI_STATE_ACCEPT_CQE")
      case True
      from listener_outcome [OF inv 1 True] show ?thesis by auto
    next
      case False
      then have "app = sys_app s"
        using 1 by (cases "fctx_state (g_fastcgi_ctx (sys_app s))") (simp_all add: cg_main_fastcgi_cqe_handle_def)
      then show ?thesis using ok by simp
    qed
  next
    case 2
    from tick_submits [OF inv program_handle(3) this] show ?thesis using ok by auto
  qed (use ok in simp)
  then show ?thesis using program_handle by simp
qed (use ok in \<open>simp_all add: completes_def read_into_frame\<close>)

lemma started_waits:
  assumes lay: "layout_ok lay" and ok: "loop_ok lay (p, boot app app')"
    and "fctx_state (g_fastcgi_ctx app') = CG_FASTCGI_STATE_ACCEPT_SQE"
    and "(turn_step lay)\<^sup>*\<^sup>* (p, boot app app') (q, s)"
  shows "fctx_state (g_fastcgi_ctx (sys_app s)) \<noteq> CG_FASTCGI_STATE_ERROR"
proof -
  have r: "(sys_step lay)\<^sup>*\<^sup>* (boot app app') s" using turn_reachable [OF lay assms(4) ok] by simp
  have "sys_inv lay s \<and> fctx_state (g_fastcgi_ctx (sys_app s)) \<noteq> CG_FASTCGI_STATE_ERROR"
    using r
  proof induction
    case base
    then show ?case using loop_okD(1) [OF ok] assms(3) by simp
  next
    case (step s1 s2)
    then show ?case using sys_inv_step [OF lay] listener_no_error by blast
  qed
  then show ?thesis by blast
qed

text \<open>The only way to lose the listener, at some point of the run.\<close>

lemma listener_run:
  assumes lay: "layout_ok lay" and ok: "loop_ok lay x" and start: "listener_ok lay (snd x)"
    and run: "(turn_step lay)\<^sup>*\<^sup>* x y"
  shows "listener_ok lay (snd y) \<or> (\<exists>z. (turn_step lay)\<^sup>*\<^sup>* x z \<and> (turn_step lay)\<^sup>*\<^sup>* z y \<and> loses_listener lay (snd z))"
  using run
proof induction
  case base
  then show ?case using start by simp
next
  case (step y z)
  have y: "loop_ok lay y" using turn_reachable [OF lay step(1) ok] by simp
  have inv: "sys_inv lay (snd y)" "traffic_ok lay (snd y)" using y by (auto simp: loop_ok_def)
  have "listener_ok lay (snd y) \<Longrightarrow> listener_ok lay (snd z) \<or> loses_listener lay (snd y)"
    using turn_step_sys [OF y step(2)] listener_step [OF lay inv] by metis
  moreover have "(turn_step lay)\<^sup>*\<^sup>* y z" using step(2) by blast
  ultimately show ?case using step by (meson rtranclp.rtrancl_into_rtrancl)
qed

section \<open>A turn of the loop is a run\<close>

lemma kernel_run: "(kernel_step lay)\<^sup>*\<^sup>* s s' \<Longrightarrow> (turn_step lay)\<^sup>*\<^sup>* (p, s) (p, s')"
  by (induction rule: rtranclp_induct) (auto intro: rtranclp.rtrancl_into_rtrancl turn_kernel)

text \<open>The kernel's thread may take all entries at any point; then the queue has room.\<close>

lemma takes_all:
  assumes "sys_inv lay s"
  shows "\<exists>s'. (kernel_step lay)\<^sup>*\<^sup>* s s' \<and> sys_app s' = sys_app s \<and> sq_head s' = sq_tail (sys_ctx s)"
  using assms
proof (induction "unat (sq_tail (sys_ctx s) - sq_head s)" arbitrary: s)
  case 0
  then have "sq_tail (sys_ctx s) - sq_head s = 0" by (simp add: unat_eq_0)
  then show ?case by (intro exI [of _ s]) simp
next
  case (Suc n)
  let ?s = "s\<lparr>sq_head := sq_head s + 1, in_flight := in_flight s @ [hd (submissions (sys_ctx s) (sq_head s))]\<rparr>"
  have ne: "sq_head s \<noteq> sq_tail (sys_ctx s)" using Suc.hyps(2) by auto
  have "sq_tail (sys_ctx s) - sq_head s \<noteq> 0" using ne by simp
  then have "unat (sq_tail (sys_ctx s) - sq_head s - 1) = unat (sq_tail (sys_ctx s) - sq_head s) - 1"
    by (simp add: unat_minus_one)
  then have "n = unat (sq_tail (sys_ctx ?s) - sq_head ?s)"
    using Suc.hyps(2) by (simp add: algebra_simps)
  from Suc.hyps(1) [OF this take_inv [OF Suc.prems ne]]
  obtain s' where "(kernel_step lay)\<^sup>*\<^sup>* ?s s'" "sys_app s' = sys_app s" "sq_head s' = sq_tail (sys_ctx s)" by auto
  then show ?case using converse_rtranclp_into_rtranclp [of "kernel_step lay", OF kernel_take [OF ne]] by blast
qed

lemma makes_room:
  assumes "layout_ok lay" and "loop_ok lay (p, s)"
  shows "\<exists>s'. (turn_step lay)\<^sup>*\<^sup>* (p, s) (p, s') \<and> loop_ok lay (p, s') \<and> sys_app s' = sys_app s \<and>
    sq_room (sys_app s') (sq_head s')"
proof -
  obtain s' where s': "(kernel_step lay)\<^sup>*\<^sup>* s s'" "sys_app s' = sys_app s" "sq_head s' = sq_tail (sys_ctx s)"
    using takes_all [OF loop_okD(1) [OF assms(2)]] by blast
  have "ring_size (sqes (sys_ctx s)) (sq_ring_mask (sys_ctx s))"
    using sys_invD(1) [OF loop_okD(1) [OF assms(2)]] by (simp add: rings_ok_def sq_ok_def)
  then have "sq_room (sys_app s') (sq_head s')" using s'(2,3) by (auto simp: ring_size_def)
  then show ?thesis
    using s' kernel_run [OF s'(1), of p] turn_reachable [OF assms(1) _ assms(2)] by auto
qed

text \<open>One step of the program, once the kernel has made room for it.\<close>

lemma then_step:
  assumes lay: "layout_ok lay" and ok: "loop_ok lay (p, s)"
    and step: "\<And>s'. sys_app s' = sys_app s \<Longrightarrow> main_step lay k (p, s') (q, s'\<lparr>sys_app := app\<rparr>)"
  shows "\<exists>s'. (turn_step lay)\<^sup>*\<^sup>* (p, s) (q, s') \<and> loop_ok lay (q, s') \<and> sys_app s' = app"
proof -
  obtain s1 where s1: "(turn_step lay)\<^sup>*\<^sup>* (p, s) (p, s1)" "loop_ok lay (p, s1)" "sys_app s1 = sys_app s"
      "sq_room (sys_app s1) (sq_head s1)" using makes_room [OF lay ok] by blast
  have t: "turn_step lay (p, s1) (q, s1\<lparr>sys_app := app\<rparr>)" by (rule turn_main [OF step [OF s1(3)]]) (simp add: s1(4))
  then show ?thesis
    using s1(1) turn_keeps [OF lay s1(2) t]
    by (intro exI [of _ "s1\<lparr>sys_app := app\<rparr>"]) (auto intro: rtranclp.rtrancl_into_rtrancl)
qed

lemma look_step:
  assumes "loop_ok lay (p, s)" and "when_empty p = Some q" and "cg_uring_cq_peek (sys_ctx s) = Inr cqe"
  shows "turn_step lay (p, s) (case cqe of None \<Rightarrow> q | Some c \<Rightarrow> At_Cqe c, s)"
  by (rule turn_main [OF main_peek [OF assms(2,3)]]) simp

lemma clients_run:
  assumes lay: "layout_ok lay" and "i \<le> CG_MAX_CLIENTS" and "loop_ok lay (At_Client i, s)"
    and "client_states lay [i..<CG_MAX_CLIENTS] (sys_app s) = Inr app"
  shows "\<exists>s'. (turn_step lay)\<^sup>*\<^sup>* (At_Client i, s) (At_Client CG_MAX_CLIENTS, s') \<and>
    loop_ok lay (At_Client CG_MAX_CLIENTS, s') \<and> sys_app s' = app"
  using assms(2-4)
proof (induction arbitrary: s rule: inc_induct)
  case base
  then show ?case by auto
next
  case (step i)
  obtain app1 where a: "cg_main_client_state_handle lay i (sys_app s) = Inr app1"
      "client_states lay [Suc i..<CG_MAX_CLIENTS] app1 = Inr app"
    using step.prems(2) step.hyps(2) by (auto simp: upt_conv_Cons cbind_eq_Inr)
  have "main_step lay k (At_Client i, s') (At_Client (Suc i), s'\<lparr>sys_app := app1\<rparr>)" if "sys_app s' = sys_app s" for s' k
    by (rule main_client) (use that a(1) step.hyps(2) in simp_all)
  from then_step [OF lay step.prems(1) this]
  obtain s1 where s1: "(turn_step lay)\<^sup>*\<^sup>* (At_Client i, s) (At_Client (Suc i), s1)"
      "loop_ok lay (At_Client (Suc i), s1)" "sys_app s1 = app1" by blast
  from step.IH [OF s1(2)] a(2) s1 show ?case by (auto intro: rtranclp_trans)
qed

abbreviation at_result :: "point \<Rightarrow> nat option \<Rightarrow> point" where
  "at_result q cqe \<equiv> (case cqe of None \<Rightarrow> q | Some c \<Rightarrow> At_Cqe c)"

text \<open>
  The inner loop ends: all completions are handled, or one is reached whose handler fails. One
  iteration is a step, and leaves one completion less.
\<close>

definition drained :: "layout \<Rightarrow> (nat \<Rightarrow> kernel) \<Rightarrow> point \<times> system \<Rightarrow> app cres \<Rightarrow> bool" where
  "drained lay ks x res \<longleftrightarrow>
     (\<exists>app s'. res = Inr app \<and> (turn_step lay)\<^sup>*\<^sup>* x (At_Listener, s') \<and> sys_app s' = app) \<or>
     (\<exists>e c j s'. res = Inl e \<and> (turn_step lay)\<^sup>*\<^sup>* x (At_Cqe c, s') \<and>
       dispatch_cqe lay (ks j) (cqes (sys_ctx s') ! c) (sys_app s') = Inl e)"

lemma drained_trans:
  assumes "(turn_step lay)\<^sup>*\<^sup>* x y" and "drained lay ks y res"
  shows "drained lay ks x res"
  using assms(2) rtranclp_trans [OF assms(1)] unfolding drained_def by blast

lemma drained_later: "drained lay (\<lambda>n. ks (Suc n)) x res \<Longrightarrow> drained lay ks x res"
  unfolding drained_def by blast

lemma drain_run:
  assumes lay: "layout_ok lay" and "loop_ok lay (at_result At_Listener cqe, s)"
  shows "\<exists>res. drain_loop lay ks cqe (sys_app s) = Some res \<and> drained lay ks (at_result At_Listener cqe, s) res"
  using assms(2)
proof (induction "length (completions (sys_ctx s))" arbitrary: cqe s ks rule: less_induct)
  case less
  show ?case
  proof (cases cqe)
    case None
    then show ?thesis by (auto simp: drain_loop.simps drained_def)
  next
    case (Some c)
    then have ok: "loop_ok lay (At_Cqe c, s)" using less.prems by simp
    show ?thesis
    proof (cases "dispatch_cqe lay (ks 0) (cqes (sys_ctx s) ! c) (sys_app s)")
      case (Inl e)
      then have "drain_loop lay ks cqe (sys_app s) = Some (Inl e)" by (simp add: Some drain_loop.simps)
      then show ?thesis using Some Inl by (auto simp: drained_def)
    next
      case (Inr app1)
      have "main_step lay (ks 0) (At_Cqe c, s') (At_Next, s'\<lparr>sys_app := discarded app1\<rparr>)" if "sys_app s' = sys_app s" for s'
        by (rule main_handle) (use that Inr at_hand(1) [OF ok] in simp_all)
      from then_step [OF lay ok this]
      obtain s1 where s1: "(turn_step lay)\<^sup>*\<^sup>* (At_Cqe c, s) (At_Next, s1)" "loop_ok lay (At_Next, s1)"
          "sys_app s1 = discarded app1" by blast
      have "cq_ok (sys_ctx s1)" using sys_invD(1) [OF loop_okD(1) [OF s1(2)]] by (simp add: rings_ok_def)
      then obtain cqe1 where p: "cg_uring_cq_peek (sys_ctx s1) = Inr cqe1" using cq_peek_ok(1) by blast
      note t = look_step [OF s1(2) _ p, of At_Listener, simplified]
      have "completions (sys_ctx s1) = tl (completions (sys_ctx s))"
        using s1(3) cq_discard_ok(1) [of "g_uring_ctx app1"] cq_sameD(1) [OF dispatch_cq [OF Inr]] at_hand(3) [OF ok] by simp
      then have "length (completions (sys_ctx s1)) < length (completions (sys_ctx s))" using at_hand(3) [OF ok] by simp
      from less.hyps [OF this turn_keeps [OF lay s1(2) t], of "\<lambda>n. ks (Suc n)"]
      obtain res where res: "drain_loop lay (\<lambda>n. ks (Suc n)) cqe1 (discarded app1) = Some res"
          "drained lay (\<lambda>n. ks (Suc n)) (at_result At_Listener cqe1, s1) res" using s1(3) by metis
      have "drain_loop lay ks cqe (sys_app s) = Some res"
        using p s1(3) res(1) Inr Some by (subst drain_loop.simps) (simp add: Let_def)
      moreover have "(turn_step lay)\<^sup>*\<^sup>* (At_Cqe c, s) (at_result At_Listener cqe1, s1)"
        using s1(1) t by (rule rtranclp.rtrancl_into_rtrancl)
      from drained_later [OF drained_trans [OF this res(2)]] have "drained lay ks (at_result At_Listener cqe, s) res" using Some by simp
      ultimately show ?thesis by blast
    qed
  qed
qed

text \<open>
  What \<open>enter\<close> says of the kernel: while the program is in the system call, the memory changes by
  steps of the kernel.
\<close>

definition kernel_waits :: "layout \<Rightarrow> (app \<Rightarrow> u32 \<times> app) \<Rightarrow> bool" where
  "kernel_waits lay enter \<longleftrightarrow> (\<forall>s. loop_ok lay (At_Enter, s) \<longrightarrow>
     (\<exists>s'. (kernel_step lay)\<^sup>*\<^sup>* s s' \<and> sys_app s' = snd (enter (sys_app s))))"

text \<open>Nothing that a turn does before it waits can fail, and it leaves the completions alone.\<close>

lemma clients_return:
  assumes "sq_ok (g_uring_ctx app)"
  shows "\<exists>app'. client_states lay is app = Inr app' \<and> completions (g_uring_ctx app') = completions (g_uring_ctx app)"
  using assms
proof (induction "is" arbitrary: app)
  case (Cons i "is")
  obtain app1 where 1: "cg_main_client_state_handle lay i app = Inr app1" using client_state_returns [OF Cons.prems] by blast
  have sub: "sq_ok (g_uring_ctx app1) \<and> completions (g_uring_ctx app1) = completions (g_uring_ctx app)"
    if "enqueue f (set_fcgi i fcgi app) = Inr app1" for f fcgi
    using that enqueue_returns [of "set_fcgi i fcgi app" f] Cons.prems cq_sameD(1) [OF enqueue_cq [OF that]]
    by (simp add: set_fcgi_frame)
  have "sq_ok (g_uring_ctx app1) \<and> completions (g_uring_ctx app1) = completions (g_uring_ctx app)"
    using 1 Cons.prems unfolding cg_main_client_state_handle_def Let_def
    by (auto split: cg_fastcgi_client_state.splits if_splits simp: release_def dest!: sub)
  then show ?case using 1 Cons.IH [of app1] by simp
qed simp

lemma first_half:
  assumes lay: "layout_ok lay" and ok: "loop_ok lay (At_Listener, s)"
  shows "\<exists>app1 app2 s'. cg_main_fastcgi_state_handle lay k (sys_app s) = Inr app1 \<and>
    client_states lay [0..<CG_MAX_CLIENTS] app1 = Inr app2 \<and>
    (turn_step lay)\<^sup>*\<^sup>* (At_Listener, s) (At_Client CG_MAX_CLIENTS, s') \<and> sys_app s' = app2 \<and>
    loop_ok lay (At_Client CG_MAX_CLIENTS, s') \<and> completions (g_uring_ctx app2) = completions (sys_ctx s)"
proof -
  note D = loop_okD [OF ok]
  have rings: "sq_ok (sys_ctx s)" using sys_invD(1) [OF D(1)] by (simp add: rings_ok_def)
  obtain app1 where 1: "cg_main_fastcgi_state_handle lay k (sys_app s) = Inr app1"
    using listen_returns [OF rings D(3)] by blast
  have "main_step lay k (At_Listener, s') (At_Client 0, s'\<lparr>sys_app := app1\<rparr>)" if "sys_app s' = sys_app s" for s'
    by (rule main_listener) (use that 1 in simp_all)
  from then_step [OF lay ok this]
  obtain s1 where s1: "(turn_step lay)\<^sup>*\<^sup>* (At_Listener, s) (At_Client 0, s1)" "loop_ok lay (At_Client 0, s1)"
      "sys_app s1 = app1" by blast
  have "sq_ok (g_uring_ctx app1)"
    using sys_invD(1) [OF loop_okD(1) [OF s1(2)]] s1(3) by (simp add: rings_ok_def)
  then obtain app2 where 2: "client_states lay [0..<CG_MAX_CLIENTS] app1 = Inr app2"
      "completions (g_uring_ctx app2) = completions (g_uring_ctx app1)" using clients_return by blast
  from clients_run [OF lay _ s1(2)] 2(1) s1(3)
  obtain s2 where s2: "(turn_step lay)\<^sup>*\<^sup>* (At_Client 0, s1) (At_Client CG_MAX_CLIENTS, s2)"
      "loop_ok lay (At_Client CG_MAX_CLIENTS, s2)" "sys_app s2 = app2" by auto
  obtain s0 where s0: "loop_ok lay (At_Listener, s0)" "sys_app s0 = sys_app s" "sq_room (sys_app s0) (sq_head s0)"
    using makes_room [OF lay ok] by blast
  have "completions (g_uring_ctx app1) = completions (sys_ctx s)"
    using listen_frame [OF sys_invD(1) [OF loop_okD(1) [OF s0(1)]], of app1 lay k] 1 s0(2,3) by auto
  then show ?thesis using 1 2 s2 rtranclp_trans [OF s1(1) s2(1)] by fastforce
qed

lemma reaches_wait:
  assumes lay: "layout_ok lay" and ok: "loop_ok lay (At_Listener, s)" and none: "completions (sys_ctx s) = []"
  shows "\<exists>s'. (turn_step lay)\<^sup>*\<^sup>* (At_Listener, s) (At_Wait, s')"
proof -
  obtain s' where s': "(turn_step lay)\<^sup>*\<^sup>* (At_Listener, s) (At_Client CG_MAX_CLIENTS, s')"
      "loop_ok lay (At_Client CG_MAX_CLIENTS, s')" "completions (sys_ctx s') = []" using first_half [OF assms(1,2)] none by auto
  have "cg_uring_cq_peek (sys_ctx s') = Inr None"
    using cq_peek_ok(1) sys_invD(1) [OF loop_okD(1) [OF s'(2)]] s'(3) by (simp add: rings_ok_def)
  from look_step [OF s'(2) _ this, of At_Wait] have "turn_step lay (At_Client CG_MAX_CLIENTS, s') (At_Wait, s')" by simp
  then show ?thesis using s'(1) by (blast intro: rtranclp.rtrancl_into_rtrancl)
qed

text \<open>The wait returns, with or without a completion.\<close>

lemma wait_run:
  assumes lay: "layout_ok lay" and kernel: "kernel_waits lay enter" and ok: "loop_ok lay (At_Wait, s)"
    and peek: "cg_uring_cq_peek (sys_ctx s) = Inr None" and enter: "enter (sys_app s) = (ret, app')"
  shows "\<exists>r cqe s'. cg_uring_cqe_wait (sys_ctx s) (ret, g_uring_ctx app') = Inr (g_uring_ctx app', r, cqe) \<and>
    (turn_step lay)\<^sup>*\<^sup>* (At_Wait, s) (at_result At_Listener cqe, s') \<and> sys_app s' = app'"
proof -
  have e: "turn_step lay (At_Wait, s) (At_Enter, s)" using look_step [OF ok _ peek, of At_Enter] by simp
  note ok' = turn_keeps [OF lay ok e]
  obtain s1 where s1: "(kernel_step lay)\<^sup>*\<^sup>* s s1" "sys_app s1 = app'"
    using kernel ok' enter by (auto simp: kernel_waits_def)
  note k = kernel_run [OF s1(1), of At_Enter]
  have ok1: "loop_ok lay (At_Enter, s1)" using turn_reachable [OF lay k ok'] by simp
  have r1: "(turn_step lay)\<^sup>*\<^sup>* (At_Wait, s) (At_Enter, s1)" using e k by (rule converse_rtranclp_into_rtranclp)
  have "cq_ok (sys_ctx s1)" using sys_invD(1) [OF loop_okD(1) [OF ok1]] by (simp add: rings_ok_def)
  then obtain cqe where p: "cg_uring_cq_peek (sys_ctx s1) = Inr cqe" using cq_peek_ok(1) by blast
  have "turn_step lay (At_Enter, s1) (At_Listener, s1)" by (rule turn_main [OF main_interrupted]) simp
  moreover note look_step [OF ok1 _ p, of At_Listener]
  ultimately show ?thesis
    using r1 p peek s1(2)
    by (cases "sint ret < 0"; cases cqe) (auto simp: cg_uring_cqe_wait_def intro: rtranclp.rtrancl_into_rtrancl)
qed

text \<open>What the turn does before the inner loop cannot fail, and is a run.\<close>

lemma turn_run:
  assumes lay: "layout_ok lay" and kernel: "kernel_waits lay enter" and ok: "loop_ok lay (At_Listener, s)"
  shows "\<exists>cqe s'. main_turn lay k enter ks (sys_app s) = drain lay ks cqe (sys_app s') \<and>
    (turn_step lay)\<^sup>*\<^sup>* (At_Listener, s) (at_result At_Listener cqe, s')"
proof -
  obtain app1 s2 where a: "cg_main_fastcgi_state_handle lay k (sys_app s) = Inr app1"
      "client_states lay [0..<CG_MAX_CLIENTS] app1 = Inr (sys_app s2)"
      "(turn_step lay)\<^sup>*\<^sup>* (At_Listener, s) (At_Client CG_MAX_CLIENTS, s2)" "loop_ok lay (At_Client CG_MAX_CLIENTS, s2)"
    using first_half [OF lay ok] by blast
  have "cq_ok (sys_ctx s2)" using sys_invD(1) [OF loop_okD(1) [OF a(4)]] by (simp add: rings_ok_def)
  then obtain cqe1 where p: "cg_uring_cq_peek (sys_ctx s2) = Inr cqe1" using cq_peek_ok(1) by blast
  have t: "turn_step lay (At_Client CG_MAX_CLIENTS, s2) (at_result At_Wait cqe1, s2)"
    using look_step [OF a(4) _ p, of At_Wait] by simp
  have run: "(turn_step lay)\<^sup>*\<^sup>* (At_Listener, s) (at_result At_Wait cqe1, s2)"
    using a(3) t by (rule rtranclp.rtrancl_into_rtrancl)
  show ?thesis
  proof (cases cqe1)
    case (Some c)
    then have "main_turn lay k enter ks (sys_app s) = drain lay ks cqe1 (sys_app s2)"
      using a(1,2) p by (simp add: main_turn_def)
    then show ?thesis using run Some by (intro exI [of _ cqe1] exI [of _ s2]) simp
  next
    case None
    obtain ret app' where e: "enter (sys_app s2) = (ret, app')" by (cases "enter (sys_app s2)")
    have "loop_ok lay (At_Wait, s2)" using turn_keeps [OF lay a(4) t] None by simp
    from wait_run [OF lay kernel this _ e] p None obtain r cqe s3 where
      w: "cg_uring_cqe_wait (sys_ctx s2) (ret, g_uring_ctx app') = Inr (g_uring_ctx app', r, cqe)"
      "(turn_step lay)\<^sup>*\<^sup>* (At_Wait, s2) (at_result At_Listener cqe, s3)" "sys_app s3 = app'" by auto
    have "main_turn lay k enter ks (sys_app s) = drain lay ks cqe (sys_app s3)"
      using a(1,2) p None e w(1,3) by (simp add: main_turn_def)
    moreover have "(turn_step lay)\<^sup>*\<^sup>* (At_Listener, s) (at_result At_Listener cqe, s3)"
      using run w(2) None by (auto intro: rtranclp_trans)
    ultimately show ?thesis by blast
  qed
qed

text \<open>A turn is a run to the listener's part again, or to the completion whose handler fails.\<close>

lemma turn_ends:
  assumes lay: "layout_ok lay" and kernel: "kernel_waits lay enter" and ok: "loop_ok lay (At_Listener, s)"
  shows "drained lay ks (At_Listener, s) (main_turn lay k enter ks (sys_app s))"
proof -
  obtain cqe s1 where a: "main_turn lay k enter ks (sys_app s) = drain lay ks cqe (sys_app s1)"
      "(turn_step lay)\<^sup>*\<^sup>* (At_Listener, s) (at_result At_Listener cqe, s1)"
    using turn_run [OF assms] by blast
  have "loop_ok lay (at_result At_Listener cqe, s1)" using turn_reachable [OF lay a(2) ok] by simp
  from drain_run [OF lay this, of ks] obtain res where
    res: "drain_loop lay ks cqe (sys_app s1) = Some res" "drained lay ks (at_result At_Listener cqe, s1) res" by blast
  have "main_turn lay k enter ks (sys_app s) = res" using a(1) res(1) by (simp add: drain_def)
  then show ?thesis using drained_trans [OF a(2) res(2)] by simp
qed

end
