(* ===== verification/CG_Overflow.thy ===== *)
theory CG_Overflow
  imports CG_Start
begin

text \<open>
  The submission queue when it is full. The code never looks at the kernel's head, so the next
  entry takes the place of the oldest one that the kernel has not taken.
\<close>

lemma ring_snoc:
  assumes "unat (t - h) < 2 ^ 32 - 1"
  shows "ring xs h (t + 1) = ring xs h t @ [xs ! (unat t mod length xs)]"
proof -
  have "unat (t - h + 1) = unat (t - h) + unat (1 :: u32)" by (rule unat_add_small) (use assms in simp)
  then have "unat (t + 1 - h) = Suc (unat (t - h))" by (simp add: algebra_simps)
  then show ?thesis by (simp add: ring_def)
qed

lemma full_slots:
  assumes size: "ring_size (sqes ctx) m" and straight: "sq_straight ctx h"
    and full: "unat (sq_tail ctx - h) = length (sqes ctx)"
  shows "sq_slot ctx h = sq_slot ctx (sq_tail ctx)"
  using ring_tail [OF size, of "sq_tail ctx" h] full by (simp add: sq_slot_def)

text \<open>The new entry stands in the queue twice, and the oldest one is gone.\<close>

lemma submit_full:
  assumes ok: "sq_ok ctx" and straight: "sq_straight ctx h"
    and full: "unat (sq_tail ctx - h) = length (sqes ctx)"
  shows "\<exists>ctx' w. submit ctx f = Inr (ctx', w) \<and> completions ctx' = completions ctx \<and>
    submissions ctx' h = f zero_sqe # tl (submissions ctx h) @ [f zero_sqe]"
proof -
  have size: "ring_size (sqes ctx) (sq_ring_mask ctx)" and la: "length (sq_array ctx) = length (sqes ctx)"
    using ok by (simp_all add: sq_ok_def)
  let ?t = "sq_tail ctx" and ?i = "sq_slot ctx (sq_tail ctx)"
  obtain k where k: "k < 32" "length (sqes ctx) = 2 ^ k" using size by (auto simp: ring_size_def)
  have i: "unat (?t AND sq_ring_mask ctx) = ?i" "?i < length (sqes ctx)"
    using ring_slot [OF size, of ?t] by (simp_all add: sq_slot_def)
  define ctx1 where "ctx1 = ctx\<lparr>sqes := (sqes ctx)[?i := f zero_sqe], sqe_tail := ?t + 1\<rparr>"
  define ctx' where "ctx' = ctx1\<lparr>sq_array := (sq_array ctx)[?i := word_of_nat ?i], sq_tail := ?t + 1\<rparr>"
  have run: "submit ctx f = Inr (ctx', sq_flags ctx AND IORING_SQ_NEED_WAKEUP \<noteq> 0)"
    using i la by (simp add: submit_def sqe_get_ok [OF ok] fill_sqe_def cg_uring_sq_enqueue_def ctx1_def ctx'_def Let_def)
  have ne: "h \<noteq> ?t" using full k by auto
  have "ring (sq_array ctx) h ?t ! 0 = word_of_nat (sq_slot ctx h)"
    using straight full k by (simp add: sq_straight_def)
  then have "sq_array ctx ! (unat h mod length (sq_array ctx)) = word_of_nat ?i"
    using ring_head [OF ne, of "sq_array ctx"] full_slots [OF size straight full] by simp
  then have "sq_array ctx ! ?i = word_of_nat ?i"
    using full_slots [OF size straight full] la by (simp add: sq_slot_def)
  then have arr: "sq_array ctx' = sq_array ctx" by (simp add: ctx'_def list_update_same_conv i la)
  have straight1: "sq_straight ctx1 h" using straight by (simp add: sq_straight_def ctx1_def sq_slot_def)
  have size1: "ring_size (sqes ctx1) (sq_ring_mask ctx)" using size by (simp add: ring_size_def ctx1_def)
  have "submissions ctx1 h = ring (sqes ctx1) h ?t"
    using straight_submissions [OF size1 straight1] by (simp add: ctx1_def)
  also have "\<dots> = f zero_sqe # tl (ring (sqes ctx) h ?t)"
    using ring_overwrite [OF size full, of "f zero_sqe"] i(1) by (simp add: ctx1_def)
  also have "\<dots> = f zero_sqe # tl (submissions ctx h)"
    using straight_submissions [OF size straight] by simp
  finally have sub1: "map (\<lambda>i. sqes ctx1 ! unat i) (ring (sq_array ctx) h ?t) = f zero_sqe # tl (submissions ctx h)"
    by (simp add: submissions_def ctx1_def)
  have "(2 :: nat) ^ k \<le> 2 ^ 31" using k(1) by (intro power_increasing) simp_all
  then have lt: "unat (?t - h) < 2 ^ 32 - 1" "?i < 2 ^ 32" using full k i(2) by simp_all
  have "ring (sq_array ctx) h (?t + 1) = ring (sq_array ctx) h ?t @ [word_of_nat ?i]"
    using ring_snoc [OF lt(1), of "sq_array ctx"] \<open>sq_array ctx ! ?i = word_of_nat ?i\<close> la by (simp add: sq_slot_def)
  moreover have "sqes ctx' = sqes ctx1" "sq_tail ctx' = ?t + 1" by (simp_all add: ctx'_def)
  moreover have "sqes ctx1 ! unat (word_of_nat ?i :: u32) = f zero_sqe"
    using lt(2) i(2) by (simp add: ctx1_def unat_of_nat)
  ultimately have "submissions ctx' h = (f zero_sqe # tl (submissions ctx h)) @ [f zero_sqe]"
    unfolding submissions_def [of ctx'] arr using sub1 by simp
  then show ?thesis using run by (simp add: ctx'_def ctx1_def completions_def)
qed

text \<open>A client submits into a full queue whose oldest entry is another client's.\<close>

lemma full_queue_client:
  assumes lay: "layout_ok lay" and inv: "sys_inv lay s"
    and full: "unat (sq_tail (sys_ctx s) - sq_head s) = length (sqes (sys_ctx s))"
    and i: "i < CG_MAX_CLIENTS" "fcli_state (fcgi_cli_ctx (sys_pool s ! i)) = CG_FASTCGI_CLIENT_STATE_READ_SQE"
    and j: "j < CG_MAX_CLIENTS" "sqe_user_data (hd (submissions (sys_ctx s) (sq_head s))) = client_tag lay j"
    and run: "cg_main_client_state_handle lay i (sys_app s) = Inr app"
  shows "op_of lay j (g_cli_ctx_pool app ! j) = Some (hd (submissions (sys_ctx s) (sq_head s)))"
    and "pending lay (s\<lparr>sys_app := app\<rparr>) j = []" and "finished lay (s\<lparr>sys_app := app\<rparr>) j = []"
    and "\<exists>e. op_of lay i (g_cli_ctx_pool app ! i) = Some e \<and> pending lay (s\<lparr>sys_app := app\<rparr>) i = [e, e]"
proof -
  let ?c = "sys_pool s ! i" and ?h = "sq_head s"
  let ?fcgi = "fcgi_cli_ctx ?c"
  let ?rx = "rx_buf_meta ?fcgi"
  let ?f = "\<lambda>sqe. sqe\<lparr>sqe_opcode := IORING_OP_READ, sqe_fd := fcli_sockfd ?fcgi,
    sqe_addr := lay_rx_buf lay i + ucast (meta_valid ?rx),
    sqe_len := meta_len ?rx - meta_valid ?rx, sqe_user_data := CG_TAG_PTR (lay_client lay i) CG_TAG_CLIENT\<rparr>"
  define app0 where "app0 = set_fcgi i (?fcgi\<lparr>fcli_state := CG_FASTCGI_CLIENT_STATE_READ_CQE\<rparr>) (sys_app s)"
  have q: "sq_ok (sys_ctx s)" "sq_straight (sys_ctx s) ?h" using sys_invD(1) [OF inv] by (simp_all add: rings_ok_def)
  obtain ctx w where s: "submit (sys_ctx s) ?f = Inr (ctx, w)" "completions ctx = completions (sys_ctx s)"
      "submissions ctx ?h = ?f zero_sqe # tl (submissions (sys_ctx s) ?h) @ [?f zero_sqe]"
    using submit_full [OF q full, of ?f] by blast
  have "enqueue ?f app0 = Inr app" using run i(2) by (simp add: cg_main_client_state_handle_def Let_def app0_def)
  then have app: "g_uring_ctx app = ctx" "g_cli_ctx_pool app = g_cli_ctx_pool app0"
    using s(1) by (auto simp: enqueue_submit app0_def set_fcgi_frame emit_def)
  have il: "i < length (sys_pool s)" using i(1) sys_invD(2) [OF inv] by simp
  have pool: "g_cli_ctx_pool app ! i = ?c\<lparr>fcgi_cli_ctx := ?fcgi\<lparr>fcli_state := CG_FASTCGI_CLIENT_STATE_READ_CQE\<rparr>\<rparr>"
      "n \<noteq> i \<Longrightarrow> g_cli_ctx_pool app ! n = sys_pool s ! n" for n
    using il by (simp_all add: app(2) app0_def set_fcgi_def)
  have "0 < unat (sq_tail (sys_ctx s) - ?h)"
    using full q(1) by (auto simp: sq_ok_def ring_size_def)
  then have "?h \<noteq> sq_tail (sys_ctx s)" by auto
  then have "submissions (sys_ctx s) ?h \<noteq> []"
    using ring_head [of ?h "sq_tail (sys_ctx s)" "sq_array (sys_ctx s)"] by (simp add: submissions_def)
  then obtain e es where e: "submissions (sys_ctx s) ?h = e # es" by (cases "submissions (sys_ctx s) ?h") auto
  have idle: "pending lay s i = []"
    using sys_invD(4) [OF inv i(1)] i(2) by (simp add: awaited_def op_of_def Let_def)
  have ej: "sqe_user_data e = client_tag lay j" using j(2) e by simp
  have me: "sqe_user_data (?f zero_sqe) = client_tag lay i" by (simp add: client_tag_def)
  have ij: "i \<noteq> j" using idle ej e by (auto simp: pending_def)
  then have tags: "client_tag lay i \<noteq> client_tag lay j" using client_tag_inj [OF lay i(1) j(1)] by simp
  have p: "pending lay s j = [e]" "op_of lay j (sys_pool s ! j) = Some e" "finished lay s j = []"
    using sys_invD(4) [OF inv j(1)] e ej by (auto simp: awaited_def pending_def append_eq_Cons_conv split: option.splits)
  show "op_of lay j (g_cli_ctx_pool app ! j) = Some (hd (submissions (sys_ctx s) ?h))"
    using p(2) pool(2) [of j] ij e by simp
  show "pending lay (s\<lparr>sys_app := app\<rparr>) j = []"
    using p(1) e ej s(3) me tags by (simp add: pending_def app(1)) (auto simp: append_eq_Cons_conv)
  show "finished lay (s\<lparr>sys_app := app\<rparr>) j = []" using p(3) s(2) by (simp add: finished_def app(1))
  have "op_of lay i (g_cli_ctx_pool app ! i) = Some (?f zero_sqe)"
    by (simp add: pool(1) op_of_def Let_def client_tag_def)
  moreover have "pending lay (s\<lparr>sys_app := app\<rparr>) i = [?f zero_sqe, ?f zero_sqe]"
    using idle e s(3) me ej tags by (simp add: pending_def app(1) filter_empty_conv)
  ultimately show "\<exists>e. op_of lay i (g_cli_ctx_pool app ! i) = Some e \<and> pending lay (s\<lparr>sys_app := app\<rparr>) i = [e, e]"
    by blast
qed

end
