(* ===== verification/CG_Spec_Machine.thy ===== *)
theory CG_Spec_Machine
  imports CG_Machine CG_Overflow CG_Spec_Loop
begin

text \<open>
  The properties of the whole program from its start on, in the order in which the code runs: no
  step but the answer to a request can fail, every turn of the loop is a run of the steps, and who
  waits for whom when the program waits.
\<close>

section \<open>A program that has started\<close>

abbreviation sample_globals :: app where
  "sample_globals \<equiv> sample_app sample_ring (replicate 1024 new_client)"

abbreviation sample_kernel :: kernel where
  "sample_kernel \<equiv> \<lparr>k_random = (8, 5), k_now = 0\<rparr>"

abbreviation sample_start :: "(app \<times> bool) cres" where
  "sample_start \<equiv> main_start sample_layout sample_kernel sample_process (Inr None) (Inr None) (3, 0, 0) sample_globals"

lemma sample_started:
  "\<exists>app. sample_start = Inr (app, True) \<and> loop_ok sample_layout (At_Listener, boot sample_globals app) \<and>
     completions (g_uring_ctx app) = []"
proof -
  have g: "length (g_ts_buf sample_globals) = 20"
      "g_route_map_entries sample_globals = replicate 32 \<lparr>ent_key = 0, ent_val = Route_AuthGuest, ent_occupied = 0\<rparr>"
    by (simp_all add: sample_app_def)
  have e: "\<forall>e \<in> set [lit ''A'', lit ''FASTCGI_SOCK=/x'']. has_nul e" by (simp add: lit_def)
  have l: "length (socket_path [lit ''A'', lit ''FASTCGI_SOCK=/x'']) \<le> 107" by (simp add: sample_socket_path)
  have n: "0 \<le> sint (3 :: u64)" "0 \<le> sint (0 :: u64)" by simp_all
  from start_returns [OF sample_layout_ok sample_fresh g e l sample_clock n n(2), of sample_kernel Map.empty None None]
  obtain app where run: "sample_start = Inr (app, True)" by blast
  show ?thesis
    using run started_loop_ok [OF sample_layout_ok sample_fresh g(1) run] started_rings(2) [OF sample_fresh run] by blast
qed

section \<open>No step but an answer can fail\<close>

text \<open>
  C4: From the start on, whatever the kernel does and at whatever point it does it, as long as every
  submission finds room in the queue, the state stays well formed: rings, contexts, buffers and the
  timestamp keep their shapes, every completion carries a tag that the program gave out, and an
  entry at hand is the oldest completion. And in each such state, for every answer that the kernel
  gives to the calls of the step, the program can go on, with exactly one exception: the completed
  read of a client whose request cannot be answered with this answer of the kernel. No other step
  leaves an object, meets a bad pointer or runs forever.
\<close>

theorem loop_type_sound:
  assumes "layout_ok lay" and "fresh_globals app" and "length (g_ts_buf app) = 20"
    and "main_start lay k0 proc sdb udb net app = Inr (app', True)"
    and "(turn_step lay)\<^sup>*\<^sup>* (At_Listener, boot app app') (p, s)"
  shows "loop_ok lay (p, s) \<and>
    (\<forall>k. (\<exists>y. main_step lay k (p, s) y) \<longleftrightarrow>
      \<not> (\<exists>c. p = At_Cqe c \<and> request_fails lay k (cqes (sys_ctx s) ! c) (sys_app s)))"
proof -
  have "loop_ok lay (p, s)"
    using turn_reachable [OF assms(1,5) started_loop_ok [OF assms(1-4)]] by blast
  then show ?thesis using main_progress [OF assms(1)] by blast
qed

theorem loop_type_sound_witness:
  "\<exists>app s. sample_start = Inr (app, True) \<and>
     (turn_step sample_layout)\<^sup>*\<^sup>* (At_Listener, boot sample_globals app) (At_Wait, s) \<and>
     loop_ok sample_layout (At_Wait, s) \<and> (\<forall>k. \<exists>y. main_step sample_layout k (At_Wait, s) y)"
proof -
  obtain app s where run: "sample_start = Inr (app, True)"
      "(turn_step sample_layout)\<^sup>*\<^sup>* (At_Listener, boot sample_globals app) (At_Wait, s)"
    using sample_started reaches_wait [OF sample_layout_ok] by force
  have "length (g_ts_buf sample_globals) = 20" by (simp add: sample_app_def)
  from loop_type_sound [OF sample_layout_ok sample_fresh this run] show ?thesis using run by blast
qed

section \<open>Who waits for whom\<close>

text \<open>
  C12: When the program waits for a completion, and every submission has found room in the queue:
  every client is either free, with nothing under way for it, or has exactly the one operation that
  its state stands for with the kernel, or its one answer in the ring. Exactly one timer runs or has
  run out, so that the wait ends. And the listener waits for an accept that is with the queue or the
  kernel, or whose last completion is in the ring, unless the listener has been lost before: at an
  earlier point of the run the last completion of its accept was at hand, with a connection, while
  all contexts were in use.
\<close>

theorem wait_forgets_nobody:
  assumes "layout_ok lay" and "fresh_globals app" and "length (g_ts_buf app) = 20"
    and "main_start lay k proc sdb udb net app = Inr (app', True)"
    and "(turn_step lay)\<^sup>*\<^sup>* (At_Listener, boot app app') (p, s)" and "p \<in> {At_Wait, At_Enter}"
  shows "timers s = 1 \<and>
    (\<forall>i < CG_MAX_CLIENTS.
      cli_state (sys_pool s ! i) = CG_CLIENT_STATE_FREE \<and> pending lay s i = [] \<and> finished lay s i = [] \<or>
      (\<exists>e. op_of lay i (sys_pool s ! i) = Some e \<and>
        (pending lay s i = [e] \<and> finished lay s i = [] \<or>
         pending lay s i = [] \<and> (\<exists>c. finished lay s i = [c] \<and> answer e c)))) \<and>
    fctx_state (g_fastcgi_ctx (sys_app s)) = CG_FASTCGI_STATE_ACCEPT_CQE \<and>
    ((\<exists>e \<in> set (in_flight s @ submissions (sys_ctx s) (sq_head s)).
        sqe_user_data e = listener_tag lay \<and> sqe_opcode e = IORING_OP_ACCEPT) \<or>
     (\<exists>c \<in> set (completions (sys_ctx s)). cqe_user_data c = listener_tag lay \<and> cqe_flags c AND IORING_CQE_F_MORE = 0) \<or>
     (\<exists>q s1. (turn_step lay)\<^sup>*\<^sup>* (At_Listener, boot app app') (q, s1) \<and> (turn_step lay)\<^sup>*\<^sup>* (q, s1) (p, s) \<and>
        loses_listener lay s1))"
proof -
  note start = started_loop_ok [OF assms(1-4)]
  have "loop_ok lay (p, s)" using turn_reachable [OF assms(1,5) start] by blast
  note D = loop_okD [OF this]
  have g: "given CG_MAX_CLIENTS (sys_app s)" using D(4) assms(6) by auto
  have clients: "cli_state (sys_pool s ! i) = CG_CLIENT_STATE_FREE \<and> op_of lay i (sys_pool s ! i) = None \<or>
      (\<exists>e. op_of lay i (sys_pool s ! i) = Some e)" if "i < CG_MAX_CLIENTS" for i
    using g that sys_invD(3) [OF D(1) that] unfolding given_def handed_def client_ok_def Let_def op_of_None
    by (cases "fcli_state (fcgi_cli_ctx (sys_pool s ! i))") (auto simp: op_of_def Let_def)
  have "listener_ok lay (boot app app')" using started_listener [OF assms(4)] by (simp add: listener_ok_def)
  then have l: "listener_ok lay s \<or> (\<exists>q s1. (turn_step lay)\<^sup>*\<^sup>* (At_Listener, boot app app') (q, s1) \<and>
      (turn_step lay)\<^sup>*\<^sup>* (q, s1) (p, s) \<and> loses_listener lay s1)"
    using listener_run [OF assms(1) start _ assms(5)] by simp
  have st: "fctx_state (g_fastcgi_ctx (sys_app s)) = CG_FASTCGI_STATE_ACCEPT_CQE"
    using g started_waits [OF assms(1) start started_listener [OF assms(4)] assms(5)]
    by (cases "fctx_state (g_fastcgi_ctx (sys_app s))") (auto simp: given_def)
  have "timers s = 1" using D(2) by (simp add: traffic_ok_def)
  then show ?thesis
    using clients l st sys_invD(4) [OF D(1)] by (fastforce simp: listener_ok_def hears_def awaited_def)
qed

theorem wait_forgets_nobody_witness:
  "\<exists>app s. sample_start = Inr (app, True) \<and>
     (turn_step sample_layout)\<^sup>*\<^sup>* (At_Listener, boot sample_globals app) (At_Wait, s) \<and>
     fctx_state (g_fastcgi_ctx (sys_app s)) = CG_FASTCGI_STATE_ACCEPT_CQE \<and> timers s = 1"
proof -
  obtain app s where run: "sample_start = Inr (app, True)"
      "(turn_step sample_layout)\<^sup>*\<^sup>* (At_Listener, boot sample_globals app) (At_Wait, s)"
    using sample_started reaches_wait [OF sample_layout_ok] by force
  have "length (g_ts_buf sample_globals) = 20" by (simp add: sample_app_def)
  from wait_forgets_nobody [OF sample_layout_ok sample_fresh this run] show ?thesis using run by blast
qed

section \<open>A turn of the loop\<close>






section \<open>A full queue\<close>

text \<open>
  C20: When the submission queue is full, the read that a client submits takes the place of the
  oldest entry that the kernel has not taken. The client of that entry waits for an operation that
  is with nobody any more, neither in the queue nor with the kernel nor completed, and the read of
  the submitting client stands in the queue twice.
\<close>

theorem full_queue_loses:
  assumes "layout_ok lay" and "sys_inv lay s"
    and "unat (sq_tail (sys_ctx s) - sq_head s) = length (sqes (sys_ctx s))"
    and "i < CG_MAX_CLIENTS" and "fcli_state (fcgi_cli_ctx (sys_pool s ! i)) = CG_FASTCGI_CLIENT_STATE_READ_SQE"
    and "j < CG_MAX_CLIENTS" and "sqe_user_data (hd (submissions (sys_ctx s) (sq_head s))) = client_tag lay j"
  shows "\<exists>app. cg_main_client_state_handle lay i (sys_app s) = Inr app \<and>
    (let s' = s\<lparr>sys_app := app\<rparr> in
      op_of lay j (sys_pool s' ! j) = Some (hd (submissions (sys_ctx s) (sq_head s))) \<and>
      pending lay s' j = [] \<and> finished lay s' j = [] \<and>
      (\<exists>e. op_of lay i (sys_pool s' ! i) = Some e \<and> pending lay s' i = [e, e]))"
proof -
  have "sq_ok (sys_ctx s)" using sys_invD(1) [OF assms(2)] by (simp add: rings_ok_def)
  then obtain app where run: "cg_main_client_state_handle lay i (sys_app s) = Inr app"
    using client_state_returns by blast
  from full_queue_client [OF assms run] run show ?thesis by (intro exI [of _ app]) (simp add: Let_def)
qed

definition one_ring :: cg_uring_ctx where
  "one_ring = sample_ring\<lparr>sq_entries := 1, sq_tail := 1, sq_ring_mask := 0, sq_array := [0], sqes := [the_read], sqe_tail := 1\<rparr>"

definition crammed :: system where
  "crammed = \<lparr>sys_app = sample_app one_ring (reading_pool[1 := connected CG_FASTCGI_CLIENT_STATE_READ_SQE]), sq_head = 0,
     in_flight = []\<rparr>"

lemma one_ring_ok: "sq_ok one_ring" "sq_straight one_ring 0" "cq_ok one_ring" "submissions one_ring 0 = [the_read]"
  "completions one_ring = []"
proof -
  have "ring_size [the_read] 0" unfolding ring_size_def by (intro exI [of _ 0]) simp
  then show "sq_ok one_ring" by (simp add: sq_ok_def one_ring_def)
  show "sq_straight one_ring 0" "submissions one_ring 0 = [the_read]"
    by (simp_all add: sq_straight_def submissions_def ring_def one_ring_def sq_slot_def)
  show "cq_ok one_ring" using sample_rings(5) by (simp add: cq_ok_def one_ring_def)
  show "completions one_ring = []" using sample_rings(2) by (simp add: completions_def one_ring_def)
qed

lemma crammed_inv: "sys_inv sample_layout crammed"
proof -
  let ?pool = "(replicate 1024 new_client)[1 := connected CG_FASTCGI_CLIENT_STATE_READ_SQE]"
  let ?idle = "\<lparr>sys_app = sample_app sample_ring ?pool, sq_head = 0, in_flight = []\<rparr>"
  have "op_of lay i new_client = None" "op_of lay i (connected CG_FASTCGI_CLIENT_STATE_READ_SQE) = None" for lay i
    by (simp_all add: op_of_None new_client_def connected_def)
  then have idle: "sys_inv sample_layout ?idle"
    using sample_rings new_client_ok
    by (intro idle_inv) (auto simp: CG_MAX_CLIENTS_def sample_app_def dest!: set_update_subset_insert [THEN subsetD])
  have tag: "sqe_user_data the_read = client_tag sample_layout 0" by (simp add: the_read_def)
  show ?thesis
  proof (rule sys_inv_frame [OF idle, of _ 0])
    show "sys_pool crammed ! j = sys_pool ?idle ! j \<and> pending sample_layout crammed j = pending sample_layout ?idle j \<and>
        finished sample_layout crammed j = finished sample_layout ?idle j" if "j < CG_MAX_CLIENTS" "j \<noteq> 0" for j
      using that client_tag_inj [OF sample_layout_ok, of 0 j] sample_rings(2,3) one_ring_ok(4,5) tag
      by (simp add: crammed_def sample_app_def reading_pool_def pending_def finished_def CG_MAX_CLIENTS_def nth_list_update)
    show "client_ok (sys_pool crammed ! 0) \<and>
        awaited (op_of sample_layout 0 (sys_pool crammed ! 0)) (pending sample_layout crammed 0) (finished sample_layout crammed 0)"
      using reading_op new_client_ok(2) [of CG_FASTCGI_CLIENT_STATE_READ_CQE] one_ring_ok(4,5) tag
      by (simp add: crammed_def sample_app_def awaited_def pending_def finished_def) (simp add: reading_pool_def)
  qed (use one_ring_ok in \<open>simp_all add: crammed_def sample_app_def reading_pool_def rings_ok_def\<close>)
qed

theorem full_queue_loses_witness:
  "\<exists>app. cg_main_client_state_handle sample_layout 1 (sys_app crammed) = Inr app \<and>
    op_of sample_layout 0 (g_cli_ctx_pool app ! 0) = Some the_read \<and>
    pending sample_layout (crammed\<lparr>sys_app := app\<rparr>) 0 = [] \<and> finished sample_layout (crammed\<lparr>sys_app := app\<rparr>) 0 = []"
proof -
  have g: "sys_ctx crammed = one_ring" "sq_head crammed = 0" by (simp_all add: crammed_def sample_app_def)
  have full: "unat (sq_tail (sys_ctx crammed) - sq_head crammed) = length (sqes (sys_ctx crammed))"
    by (simp add: g) (simp add: one_ring_def)
  have i: "1 < CG_MAX_CLIENTS" "0 < CG_MAX_CLIENTS" by (simp_all add: CG_MAX_CLIENTS_def)
  have st: "fcli_state (fcgi_cli_ctx (sys_pool crammed ! 1)) = CG_FASTCGI_CLIENT_STATE_READ_SQE"
    by (simp add: crammed_def sample_app_def reading_pool_def connected_def)
  have "sqe_user_data (hd (submissions (sys_ctx crammed) (sq_head crammed))) = client_tag sample_layout 0"
    by (simp add: g one_ring_ok(4)) (simp add: the_read_def)
  from full_queue_loses [OF sample_layout_ok crammed_inv full i(1) st i(2) this]
  show ?thesis by (auto simp: Let_def g one_ring_ok(4))
qed

end
