(* ===== verification/CG_Alike.thy ===== *)
theory CG_Alike
  imports CG_Journey
begin

text \<open>
  Two requests with the same text are the same for every handler: nothing behind a terminator is
  read, and of the method, the session and the form only what the text says.
\<close>

section \<open>Requests with the same text\<close>

text \<open>Nothing behind the terminator of a form is read.\<close>

lemma form_match_cut: "has_nul p \<Longrightarrow> 0 \<notin> set key \<Longrightarrow> form_match key (p @ q) = form_match key p"
proof (induction key p rule: form_match.induct)
  case (2 k ks c p)
  then show ?case by (cases "c = 0") auto
qed simp_all

lemma form_decode_cut: "has_nul p \<Longrightarrow> form_decode (p @ q) = form_decode p"
proof (induction p rule: form_decode.induct)
  case (2 c p)
  show ?case
  proof (cases "c = 0 \<or> c = 38")
    case False
    then have nul: "has_nul p" using 2 by auto
    then obtain a p' where p: "p = a # p'" by (cases p) auto
    show ?thesis
    proof (cases "c = 37 \<and> a \<noteq> 0")
      case True
      then have "has_nul p'" using nul p by auto
      then obtain b p'' where p': "p' = b # p''" by (cases p') auto
      show ?thesis using 2 False True nul p p' by auto
    next
      case other: False
      then show ?thesis using 2 False nul p by auto
    qed
  qed auto
qed simp

lemma form_skip_cut: "has_nul p \<Longrightarrow> form_skip (p @ q) = form_skip p @ q"
  by (induction p) auto

lemma form_scan_cut:
  assumes "has_nul p" and "0 \<notin> set key"
  shows "form_scan (p @ q) key = form_scan p key"
  using assms
proof (induction p key rule: form_scan.induct)
  case (2 c p key)
  show ?case
  proof (cases "c = 0")
    case False
    then have nul: "has_nul (c # p)" "has_nul p" using "2.prems"(1) by auto
    have m: "form_match key ((c # p) @ q) = form_match key (c # p)"
      using form_match_cut [OF nul(1) "2.prems"(2)] .
    obtain b where b: "form_match key (c # p) = Inr b" using form_match_total [OF nul(1) "2.prems"(2)] by simp
    show ?thesis
    proof (cases b)
      case True
      then obtain r where r: "c # p = key @ 61 # r" using b form_match_total [OF nul(1) "2.prems"(2)] by auto
      then have "has_nul r" using nul(1) "2.prems"(2) by auto
      moreover have "drop (length key + 1) (c # p) = r" "drop (length key + 1) ((c # p) @ q) = r @ q"
        using r by (simp_all only: append_assoc append_Cons) simp_all
      ultimately show ?thesis using False b m True form_decode_cut [of r q] by simp
    next
      case nb: False
      have "has_nul (form_skip (c # p))" using form_skip_nul [OF nul(1)] by simp
      moreover have "form_skip ((c # p) @ q) = form_skip (c # p) @ q" using form_skip_cut [OF nul(1)] .
      ultimately show ?thesis using False b m nb "2.IH" [OF False] "2.prems"(2) by simp
    qed
  qed simp
qed simp

lemma session_digits_cut: "has_nul p \<Longrightarrow> session_digits v (p @ q) = session_digits v p"
proof (induction p arbitrary: v)
  case (Cons c p)
  then show ?case by (cases "c = 0") auto
qed simp

lemma prefix_cstr:
  assumes "0 \<notin> set s"
  shows "take (length s) b = s \<longleftrightarrow> take (length s) (cstr b) = s"
proof
  assume "take (length s) b = s"
  then have b: "b = s @ drop (length s) b" by (metis append_take_drop_id)
  have "cstr (s @ drop (length s) b) = s @ cstr (drop (length s) b)"
    using assms unfolding cstr_def by (subst takeWhile_append2) auto
  then show "take (length s) (cstr b) = s" using b by (metis append_eq_conv_conj)
next
  assume a: "take (length s) (cstr b) = s"
  then have "length s \<le> length (cstr b)" by (metis length_take min.cobounded1)
  then have "take (length s) (take (length (cstr b)) b) = take (length s) b" by (simp add: min_def)
  then show "take (length s) b = s" using a by (simp add: take_cstr)
qed

text \<open>What a handler looks at in a request.\<close>

definition alike :: "cg_client_req \<Rightarrow> cg_client_req \<Rightarrow> bool" where
  "alike req req' \<longleftrightarrow> req_id req' = req_id req \<and>
     method_differs req' ''POST'' = method_differs req ''POST'' \<and> method_differs req' ''GET'' = method_differs req ''GET'' \<and>
     get_session_id req' = get_session_id req \<and> buf_read (req_session_id req') 0 = buf_read (req_session_id req) 0 \<and>
     cg_get_form_value (stdin_buf req') = cg_get_form_value (stdin_buf req)"

lemma alike_verify:
  assumes "cg_get_form_value form' = cg_get_form_value form"
  shows "verify_questions form' qs b n p = verify_questions form qs b n p"
proof (induction qs arbitrary: b n p)
  case (Cons q qs)
  show ?case unfolding verify_questions.simps assms Cons.IH by (rule refl)
qed simp

lemma alike_handler:
  assumes "alike req req'"
  shows "route_handler r k req' srv = route_handler r k req srv" and "cg_route_not_found k req' srv = cg_route_not_found k req srv"
proof -
  note A = assms [unfolded alike_def]
  have f: "cg_get_form_value (stdin_buf req') = cg_get_form_value (stdin_buf req)" using A by blast
  have rep: "reply req' = reply req" "reply_buf req' = reply_buf req" "with_session req' = with_session req"
    using A by (simp_all add: fun_eq_iff reply_def reply_buf_def with_session_def)
  have cred: "form_credentials req' = form_credentials req" by (simp only: form_credentials_def f)
  show "cg_route_not_found k req' srv = cg_route_not_found k req srv" by (simp only: cg_route_not_found_def rep)
  show "route_handler r k req' srv = route_handler r k req srv"
    using A by (cases r)
      (simp_all only: route_handler.simps cg_route_api_auth_guest_def cg_route_api_auth_register_def
        cg_route_api_auth_login_def cg_route_api_user_profile_def cg_route_api_user_profile_update_def
        cg_route_api_public_profile_def cg_route_api_user_stats_def cg_route_api_user_delete_def
        cg_route_api_leaderboard_def cg_route_api_challenge_verify_def rep cred alike_verify [OF f])
qed

lemma body_split:
  assumes "req_shape req"
  shows "\<exists>r. stdin_buf req = (rt_body (request_text req) @ [0]) @ r"
proof -
  let ?n = "unat (stdin_len req)" and ?b = "stdin_buf req"
  have n: "?n < length ?b" "?b ! ?n = 0" using assms by (simp_all add: req_shape_def)
  have "?b = take ?n ?b @ 0 # drop (Suc ?n) ?b" using id_take_nth_drop [OF n(1)] n(2) by simp
  then show ?thesis by (auto simp: request_text_def)
qed

lemma text_scan:
  assumes "req_shape req" and "0 \<notin> set key"
  shows "form_scan (stdin_buf req) key = form_scan (rt_body (request_text req) @ [0]) key"
  using body_split [OF assms(1)] form_scan_cut [OF _ assms(2), of "rt_body (request_text req) @ [0]"] by auto

lemma form_value_scan:
  assumes "\<And>key. 0 \<notin> set key \<Longrightarrow> form_scan form' key = form_scan form key"
  shows "cg_get_form_value form' = cg_get_form_value form"
proof (intro ext)
  fix key cap
  show "cg_get_form_value form' key cap = cg_get_form_value form key cap"
  proof (cases "has_nul key")
    case True
    then show ?thesis using assms [of "cstr key"] by (simp add: cg_get_form_value_def take_cstr)
  qed (simp add: cg_get_form_value_def cg_strlen_eq)
qed

lemma text_alike:
  assumes shape: "req_shape req" "req_shape req'" and same: "request_text req' = request_text req"
  shows "alike (terminated req) (terminated req')" and "route_of req' = route_of req"
proof -
  have v: "cstr (uri req') = cstr (uri req)" "cstr (req_method req') = cstr (req_method req)"
      "cstr (req_session_id req') = cstr (req_session_id req)" "req_id req' = req_id req"
    using same by (simp_all add: request_text_def view_req_def)
  note T = shape [THEN terminated_shape]
  have um: "uses_method (terminated req') m = uses_method (terminated req) m" if "CHR 0x00 \<notin> set m" for m
  proof -
    have "0 \<notin> set (str m)" using that by (simp add: str_no_nul)
    from prefix_cstr [OF this, of "req_method req"] prefix_cstr [OF this, of "req_method req'"]
    show ?thesis using v(2) by (simp add: uses_method_def terminated_def)
  qed
  have n: "has_nul (req_session_id req)" "has_nul (req_session_id req')" using shape by (simp_all add: req_shape_def)
  obtain r r' where s: "req_session_id req = (cstr (req_session_id req) @ [0]) @ r"
      "req_session_id req' = (cstr (req_session_id req) @ [0]) @ r'"
    using has_nul_split [OF n(1)] has_nul_split [OF n(2)] v(3) by fastforce
  have sid: "get_session_id (terminated req') = get_session_id (terminated req)"
  proof -
    have "session_digits 0 ((cstr (req_session_id req) @ [0]) @ t) = session_digits 0 (cstr (req_session_id req) @ [0])" for t
      by (rule session_digits_cut) simp
    then have "session_digits 0 (req_session_id req') = session_digits 0 (req_session_id req)" using s by metis
    then show ?thesis by (simp add: get_session_id_def terminated_def)
  qed
  have "req_session_id req' ! 0 = req_session_id req ! 0"
    using s by (metis append_is_Nil_conv length_greater_0_conv not_Cons_self2 nth_append)
  then have b: "buf_read (req_session_id (terminated req')) 0 = buf_read (req_session_id (terminated req)) 0"
    using shape by (simp add: buf_read_def req_shape_def terminated_def)
  have "cg_get_form_value (stdin_buf req') = cg_get_form_value (stdin_buf req)"
    using text_scan [OF shape(1)] text_scan [OF shape(2)] same by (intro form_value_scan) simp
  then have "cg_get_form_value (stdin_buf (terminated req')) = cg_get_form_value (stdin_buf (terminated req))"
    by (simp add: terminated_def)
  then show "alike (terminated req) (terminated req')"
    using method_differs_shape [OF T(1)] method_differs_shape [OF T(2)] um sid b v(4)
    by (simp add: alike_def) (simp add: terminated_def)
  have "cstr (take 127 (uri q)) = cstr (uri q)" if "req_shape q" for q
    using that length_cstr_less [of "uri q"] by (intro cstr_take) (simp add: req_shape_def)
  then show "route_of req' = route_of req" using shape v(1) by (simp add: route_of_def request_path_def)
qed

end
