(* ===== verification/CG_Settles.thy ===== *)
theory CG_Settles
  imports CG_Alike CG_Isolated
begin

text \<open>
  Every endpoint has an answer: with stores in order, room for a session, a good random number and
  form values that fit their arrays, no branch of any handler fails, and the stores are in order
  afterwards.
\<close>

section \<open>What an answer needs\<close>

text \<open>Two stores in order, with room for \<open>n\<close> more sessions, and the numbers of the open sessions.\<close>

definition in_order :: "nat \<Rightarrow> stores \<Rightarrow> bool" where
  "in_order n st \<longleftrightarrow> (case st of
     (Some db, Some udb) \<Rightarrow> sessiondb_wf db \<and> n \<le> sess_room db \<and> userdb_wf udb
   | _ \<Rightarrow> False)"

definition open_numbers :: "stores \<Rightarrow> u64 set" where
  "open_numbers st = (case fst st of None \<Rightarrow> {} | Some db \<Rightarrow> dom (sess_abs db))"

lemma in_order_Suc: "in_order (Suc n) st \<Longrightarrow> in_order n st"
  by (auto simp: in_order_def split: prod.splits option.splits)

lemma in_orderE:
  assumes "in_order n st"
  obtains db udb where "st = (Some db, Some udb)" "sessiondb_wf db" "n \<le> sess_room db" "userdb_wf udb"
  using assms by (auto simp: in_order_def split: prod.splits option.splits)

text \<open>Every value that a handler may copy fits into its array.\<close>

definition form_fits :: "byte list \<Rightarrow> bool" where
  "form_fits form \<longleftrightarrow>
     list_all (\<lambda>(key, cap). pred_option (\<lambda>t. length t < cap) (form_field form key))
       [(''username'', 64), (''password'', 64), (''id'', 64), (''description'', 2048)] \<and>
     list_all (\<lambda>c. short_answers form (questions c)) g_challengedb"

lemma form_fitsD:
  assumes "form_fits form"
  shows "form_field form ''username'' = Some t \<Longrightarrow> length t < 64"
    and "form_field form ''password'' = Some t \<Longrightarrow> length t < 64"
    and "form_field form ''id'' = Some t \<Longrightarrow> length t < 64"
    and "form_field form ''description'' = Some t \<Longrightarrow> length t < 2048"
    and "find_challenge nm = Some ci \<Longrightarrow> short_answers form (questions (g_challengedb ! ci))"
proof -
  have "list_all (\<lambda>c. short_answers form (questions c)) g_challengedb" using assms by (simp add: form_fits_def)
  then show "find_challenge nm = Some ci \<Longrightarrow> short_answers form (questions (g_challengedb ! ci))"
    by (simp add: find_challenge_def list_all_length first_index_less)
qed (use assms in \<open>simp_all add: form_fits_def\<close>)

lemma short_form_fits:
  assumes "has_nul form" and "length form \<le> 64"
  shows "form_fits form"
proof -
  have l: "length t < 64" if "form_scan form key = Inr (Some t)" "0 \<notin> set key" for key t
    using form_scan_total [OF assms(1) that(2)] that(1) assms(2) by auto
  then have f: "pred_option (\<lambda>t. length t < cap) (form_field form key)" if c: "64 \<le> cap" "0 \<notin> set (str key)" for key cap
  proof -
    obtain r where r: "form_scan form (str key) = Inr r" using form_scan_total [OF assms(1) c(2)] by blast
    then show ?thesis using l [of "str key"] c
      by (cases r) (auto simp: form_field_def intro: less_le_trans)
  qed
  have "field_at form (answer_key q) = Some t \<Longrightarrow> length t < 256" for q t
    using form_scan_total [OF assms(1) answer_key_no_nul, of q] assms(2) by (auto simp: field_at_def)
  then show ?thesis by (simp add: form_fits_def f str_no_nul short_answers_def list_all_iff)
qed

lemma form_fits_cut:
  assumes "has_nul p" and "form_fits p"
  shows "form_fits (p @ q)"
proof -
  have "field_at (p @ q) k = field_at p k" if "0 \<notin> set k" for k
    using form_scan_cut [OF assms(1) that] by (simp add: field_at_def)
  moreover have "form_field (p @ q) k = form_field p k" if "CHR 0x00 \<notin> set k" for k
    using form_scan_cut [OF assms(1), of "str k"] that by (simp add: form_field_def str_no_nul)
  ultimately show ?thesis using assms(2) by (simp add: form_fits_def short_answers_def answer_key_no_nul)
qed

text \<open>A handler that has an answer, the same for all servers with the same stores.\<close>

definition settles :: "nat \<Rightarrow> kernel \<Rightarrow> stores \<Rightarrow> cg_client_req \<Rightarrow> handler \<Rightarrow> bool" where
  "settles n k st req h \<longleftrightarrow> (\<exists>body st'. length body \<le> 60000 \<and> in_order n st' \<and>
     open_numbers st' \<subseteq> insert (kernel_number k) (open_numbers st) \<and>
     (\<forall>srv. srv_ready srv \<longrightarrow> (srv_sessiondb srv, srv_userdb srv) = st \<longrightarrow>
        (\<exists>srv2. h k req srv = Inr srv2 \<and>
           replied req body (srv\<lparr>srv_sessiondb := fst st', srv_userdb := snd st'\<rparr>) srv2)))"

lemma settlesI:
  assumes "length body \<le> 60000" and "in_order n st'"
    and "open_numbers st' \<subseteq> insert (kernel_number k) (open_numbers st)"
    and "\<And>srv. srv_ready srv \<Longrightarrow> srv_sessiondb srv = fst st \<Longrightarrow> srv_userdb srv = snd st \<Longrightarrow>
      \<exists>srv2. h k req srv = Inr srv2 \<and> replied req body (srv\<lparr>srv_sessiondb := fst st', srv_userdb := snd st'\<rparr>) srv2"
  shows "settles n k st req h"
  unfolding settles_def using assms by (intro exI [of _ body] exI [of _ st']) auto

lemma settles_same:
  assumes "in_order (Suc n) st" and "length body \<le> 60000"
    and "\<And>srv. srv_ready srv \<Longrightarrow> srv_sessiondb srv = fst st \<Longrightarrow> srv_userdb srv = snd st \<Longrightarrow>
      \<exists>srv2. h k req srv = Inr srv2 \<and> replied req body srv srv2"
  shows "settles n k st req h"
proof (rule settlesI [OF assms(2) in_order_Suc [OF assms(1)]])
  fix srv assume s: "srv_ready srv" "srv_sessiondb srv = fst st" "srv_userdb srv = snd st"
  have "srv\<lparr>srv_sessiondb := fst st, srv_userdb := snd st\<rparr> = srv" using s(2,3) by (cases srv) simp
  then show "\<exists>srv2. h k req srv = Inr srv2 \<and> replied req body (srv\<lparr>srv_sessiondb := fst st, srv_userdb := snd st\<rparr>) srv2"
    using assms(3) [OF s] by simp
qed auto

lemma settles_json:
  assumes "in_order (Suc n) st" and "CHR 0x00 \<notin> set status" "CHR 0x00 \<notin> set body" "length status \<le> 1000" "length body \<le> 1000"
    and "\<And>srv. srv_sessiondb srv = fst st \<Longrightarrow> srv_userdb srv = snd st \<Longrightarrow> h k req srv = reply req (json_text status body) srv"
  shows "settles n k st req h"
  using assms json_reply_ok [of _ status body req]
  by (intro settles_same [OF assms(1), of "json_text status body"]) (simp_all add: length_json_text)

text \<open>With a good random number and room a session is opened.\<close>

lemma session_opens:
  assumes "in_order (Suc n) (Some db, Some udb)" and "8 \<le> fst (k_random k)" and "sess_abs db (kernel_number k) = None"
  shows "\<exists>db'. sessiondb_wf db' \<and> n \<le> sess_room db' \<and> sess_abs db' = (sess_abs db)(kernel_number k \<mapsto> u) \<and>
    (\<forall>srv. srv_sessiondb srv = Some db \<longrightarrow>
       open_session k u srv = Inr (srv\<lparr>srv_sessiondb := Some db'\<rparr>, kernel_number k))"
proof -
  obtain res bytes where r: "k_random k = (res, bytes)" by (cases "k_random k")
  have db: "sessiondb_wf db" "Suc n \<le> sess_room db" using assms(1) by (simp_all add: in_order_def)
  have k: "8 \<le> res" "kernel_number k = (if bytes = 0 then 1 else bytes)"
    using assms(2) r by (simp_all add: kernel_number_def cg_sessiondb_session_id_get_def)
  have new: "sess_index db (kernel_number k) = None" using assms(3) by (simp add: sess_abs_None)
  have room: "0 < sess_room db" using db(2) by simp
  from sess_create_ok [OF db(1) sess_count_room [OF db(1) room] k new room, of u "k_now k"]
  obtain db' where "cg_sessiondb_entry_create db u (k_random k) (k_now k) = Inr (db', Some (new_session (kernel_number k) u (k_now k)))"
      "sessiondb_wf db'" "sess_abs db' = (sess_abs db)(kernel_number k \<mapsto> u)" "sess_room db \<le> Suc (sess_room db')"
    unfolding r by blast
  then show ?thesis using db(2) by (intro exI [of _ db']) (auto simp: open_session_def deref_def)
qed

section \<open>The endpoints that open a session\<close>

lemma length_answers:
  "length (guest_text sid) \<le> 60000"
  "length nm \<le> 31 \<Longrightarrow> length (register_text sid nm) \<le> 60000"
  "length nm \<le> 31 \<Longrightarrow> length (login_text sid nm points) \<le> 60000"
  "length (stats_body points) \<le> 60000"
  using length_session_head [of sid] length_user_text [of nm sid] length_dec_u32 [of points]
  by (simp_all add: guest_text_def session_tail_def register_text_def login_text_def stats_body_def length_http_ok_text)

lemma opened_numbers:
  "sess_abs db' = (sess_abs db)(sid \<mapsto> u) \<Longrightarrow> open_numbers (Some db', x) \<subseteq> insert sid (open_numbers (Some db, y))"
  by (simp add: open_numbers_def)

lemma guest_settles:
  assumes st: "in_order (Suc n) (Some db, Some udb)" and shape: "req_shape req"
    and k: "8 \<le> fst (k_random k)" "sess_abs db (kernel_number k) = None"
  shows "settles n k (Some db, Some udb) req cg_route_api_auth_guest"
proof (cases "uses_method req ''POST''")
  case True
  obtain db' where db': "sessiondb_wf db'" "n \<le> sess_room db'" "sess_abs db' = (sess_abs db)(kernel_number k \<mapsto> 0)"
      "\<And>srv. srv_sessiondb srv = Some db \<Longrightarrow> open_session k 0 srv = Inr (srv\<lparr>srv_sessiondb := Some db'\<rparr>, kernel_number k)"
    using session_opens [OF st k, of 0] by blast
  show ?thesis
  proof (rule settlesI [OF length_answers(1), where st' = "(Some db', Some udb)"])
    show "in_order n (Some db', Some udb)" using st db' by (simp add: in_order_def)
    show "open_numbers (Some db', Some udb) \<subseteq> insert (kernel_number k) (open_numbers (Some db, Some udb))"
      by (rule opened_numbers [OF db'(3)])
    fix srv assume s: "srv_ready srv" "srv_sessiondb srv = fst (Some db, Some udb)" "srv_userdb srv = snd (Some db, Some udb)"
    have e: "srv\<lparr>srv_sessiondb := Some db', srv_userdb := Some udb\<rparr> = srv\<lparr>srv_sessiondb := Some db'\<rparr>"
      using s(3) by (cases srv) simp
    show "\<exists>srv2. cg_route_api_auth_guest k req srv = Inr srv2 \<and> replied req (guest_text (kernel_number k))
        (srv\<lparr>srv_sessiondb := fst (Some db', Some udb), srv_userdb := snd (Some db', Some udb)\<rparr>) srv2"
      using guest_ok [OF s(1) shape True db'(4)] s(2) by (simp add: e)
  qed
next
  case False
  show ?thesis
    by (rule settles_json [OF st, of "''405 Method Not Allowed''" "''{\"error\":\"405 - This endpoint requires a POST request.\"}''"])
      (use False method_differs_shape [OF shape] in \<open>simp_all add: cg_route_api_auth_guest_def\<close>)
qed

lemma credentials_cases:
  assumes "req_shape req" and "form_fits (stdin_buf req)"
  obtains "form_credentials req = Inr None"
  | n w where "form_credentials req = Inr (Some (n @ [0], w @ [0]))"
proof -
  note nul = stdin_has_nul [OF assms(1)]
  show ?thesis
  proof (cases "form_field (stdin_buf req) ''username''")
    case None
    then show ?thesis using form_credentials_missing [OF nul] that(1) by blast
  next
    case (Some n)
    note l = form_fitsD(1) [OF assms(2) Some]
    show ?thesis
    proof (cases "form_field (stdin_buf req) ''password''")
      case None
      then show ?thesis using form_credentials_missing [OF nul] Some l that(1) by blast
    next
      case w: (Some w)
      from form_credentials_ok [OF nul Some l w form_fitsD(2) [OF assms(2) w]] show ?thesis by (rule that(2))
    qed
  qed
qed

lemma name_bounded: "user_shape u \<Longrightarrow> length (cstr (username u)) \<le> 31"
  using length_cstr_less [of "username u"] by (simp add: user_shape_def)

lemma register_settles:
  assumes st: "in_order (Suc n) (Some db, Some udb)" and shape: "req_shape req" and fits: "form_fits (stdin_buf req)"
    and k: "8 \<le> fst (k_random k)" "sess_abs db (kernel_number k) = None"
  shows "settles n k (Some db, Some udb) req cg_route_api_auth_register"
proof (cases "uses_method req ''POST''")
  case post: True
  have udb: "userdb_wf udb" using st by (simp add: in_order_def)
  note md = method_differs_shape [OF shape]
  show ?thesis
  proof (cases rule: credentials_cases [OF shape fits])
    case 1
    show ?thesis
      by (rule settles_json [OF st, of "''400 Bad Request''" "''{\"error\":\"Missing credentials\"}''"])
        (use 1 md post in \<open>simp_all add: cg_route_api_auth_register_def\<close>)
  next
    case cred: (2 nm w)
    show ?thesis
    proof (cases "user_slot udb (cstr (nm @ [0])) = None \<and> active_users udb < USERDB_POOL_SIZE")
      case True
      then obtain udb' u where c: "cg_userdb_create udb (nm @ [0]) (w @ [0]) = Inr (udb', 0, Some u)" "userdb_wf udb'" "user_shape u"
        using userdb_create_new [OF udb, of "nm @ [0]" "w @ [0]"] by auto
      obtain db' where db': "sessiondb_wf db'" "n \<le> sess_room db'" "sess_abs db' = (sess_abs db)(kernel_number k \<mapsto> uid u)"
          "\<And>srv. srv_sessiondb srv = Some db \<Longrightarrow> open_session k (uid u) srv = Inr (srv\<lparr>srv_sessiondb := Some db'\<rparr>, kernel_number k)"
        using session_opens [OF st k, of "uid u"] by blast
      show ?thesis
      proof (rule settlesI [OF length_answers(2) [OF name_bounded [OF c(3)]], where st' = "(Some db', Some udb')"])
        show "in_order n (Some db', Some udb')" using c(2) db' by (simp add: in_order_def)
        show "open_numbers (Some db', Some udb') \<subseteq> insert (kernel_number k) (open_numbers (Some db, Some udb))"
          by (rule opened_numbers [OF db'(3)])
        fix srv assume s: "srv_ready srv" "srv_sessiondb srv = fst (Some db, Some udb)" "srv_userdb srv = snd (Some db, Some udb)"
        have "open_session k (uid u) (srv\<lparr>srv_userdb := Some udb'\<rparr>) =
            Inr (srv\<lparr>srv_userdb := Some udb', srv_sessiondb := Some db'\<rparr>, kernel_number k)" using db'(4) s(2) by simp
        moreover have e: "srv\<lparr>srv_userdb := Some udb', srv_sessiondb := Some db'\<rparr> =
            srv\<lparr>srv_sessiondb := Some db', srv_userdb := Some udb'\<rparr>" by (cases srv) simp
        ultimately have "\<exists>srv2. cg_route_api_auth_register k req srv = Inr srv2 \<and>
            replied req (register_text (kernel_number k) (cstr (username u)))
              (srv\<lparr>srv_userdb := Some udb', srv_sessiondb := Some db'\<rparr>) srv2"
          using register_new [OF s(1) shape post cred _ c(1,3) refl name_bounded [OF c(3)]] s(3) by simp
        then
        show "\<exists>srv2. cg_route_api_auth_register k req srv = Inr srv2 \<and> replied req (register_text (kernel_number k) (cstr (username u)))
            (srv\<lparr>srv_sessiondb := fst (Some db', Some udb'), srv_userdb := snd (Some db', Some udb')\<rparr>) srv2"
          unfolding e fst_conv snd_conv .
      qed
    next
      case False
      have "\<exists>status. cg_userdb_create udb (nm @ [0]) (w @ [0]) = Inr (udb, status, None)"
      proof (cases "user_slot udb (cstr (nm @ [0]))")
        case None
        then have "active_users udb = USERDB_POOL_SIZE"
          using False active_users_le [OF udb] by (simp add: USERDB_POOL_SIZE_def)
        from userdb_create_full [OF udb _ None this] show ?thesis by auto
      next
        case (Some i)
        from userdb_create_known [OF udb _ Some] show ?thesis by auto
      qed
      then obtain status where c: "cg_userdb_create udb (nm @ [0]) (w @ [0]) = Inr (udb, status, None)" ..
      have len: "length (json_text ''409 Conflict'' ''{\"error\":\"User exists or DB full\"}'') \<le> 60000" by (simp add: length_json_text)
      show ?thesis using register_conflict [OF _ shape post cred _ c] by (intro settles_same [OF st len]) simp_all
    qed
  qed
next
  case False
  show ?thesis
    by (rule settles_json [OF st, of "''405 Method Not Allowed''" "''{\"error\":\"405\"}''"])
      (use False method_differs_shape [OF shape] in \<open>simp_all add: cg_route_api_auth_register_def\<close>)
qed

lemma login_settles:
  assumes st: "in_order (Suc n) (Some db, Some udb)" and shape: "req_shape req" and fits: "form_fits (stdin_buf req)"
    and k: "8 \<le> fst (k_random k)" "sess_abs db (kernel_number k) = None"
  shows "settles n k (Some db, Some udb) req cg_route_api_auth_login"
proof (cases "uses_method req ''POST''")
  case post: True
  have udb: "userdb_wf udb" using st by (simp add: in_order_def)
  note md = method_differs_shape [OF shape]
  show ?thesis
  proof (cases rule: credentials_cases [OF shape fits])
    case 1
    show ?thesis
      by (rule settles_json [OF st, of "''400 Bad Request''" "''{\"error\":\"Missing credentials\"}''"])
        (use 1 md post in \<open>simp_all add: cg_route_api_auth_login_def\<close>)
  next
    case cred: (2 nm w)
    show ?thesis
    proof (cases "\<exists>i. user_slot udb (cstr (nm @ [0])) = Some i \<and> pass_hash (udb_pool udb ! i) = ucast (crc32c (cstr (w @ [0])))")
      case True
      then obtain i where i: "user_slot udb (cstr (nm @ [0])) = Some i"
          "pass_hash (udb_pool udb ! i) = ucast (crc32c (cstr (w @ [0])))" by blast
      let ?u = "udb_pool udb ! i"
      have "i < length (udb_pool udb)" using i(1) by (simp add: user_slot_def first_index_less)
      then have nm: "length (cstr (username ?u)) \<le> 31" using userdb_wfD(2) [OF udb] name_bounded by simp
      obtain db' where db': "sessiondb_wf db'" "n \<le> sess_room db'" "sess_abs db' = (sess_abs db)(kernel_number k \<mapsto> uid ?u)"
          "\<And>srv. srv_sessiondb srv = Some db \<Longrightarrow> open_session k (uid ?u) srv = Inr (srv\<lparr>srv_sessiondb := Some db'\<rparr>, kernel_number k)"
        using session_opens [OF st k, of "uid ?u"] by blast
      show ?thesis
      proof (rule settlesI [OF length_answers(3) [OF nm], where st' = "(Some db', Some udb)"])
        show "in_order n (Some db', Some udb)" using udb db' by (simp add: in_order_def)
        show "open_numbers (Some db', Some udb) \<subseteq> insert (kernel_number k) (open_numbers (Some db, Some udb))"
          by (rule opened_numbers [OF db'(3)])
        fix srv assume s: "srv_ready srv" "srv_sessiondb srv = fst (Some db, Some udb)" "srv_userdb srv = snd (Some db, Some udb)"
        have e: "srv\<lparr>srv_sessiondb := Some db', srv_userdb := Some udb\<rparr> = srv\<lparr>srv_sessiondb := Some db'\<rparr>"
          using s(3) by (cases srv) simp
        show "\<exists>srv2. cg_route_api_auth_login k req srv = Inr srv2 \<and>
            replied req (login_text (kernel_number k) (cstr (username ?u)) (total_points ?u))
            (srv\<lparr>srv_sessiondb := fst (Some db', Some udb), srv_userdb := snd (Some db', Some udb)\<rparr>) srv2"
          using login_ok [OF s(1) shape post cred _ udb i db'(4)] s(2,3) by (simp add: e)
      qed
    next
      case False
      have len: "length (json_text ''401 Unauthorized'' ''{\"error\":\"Invalid credentials\"}'') \<le> 60000" by (simp add: length_json_text)
      show ?thesis using login_refused [OF _ shape post cred _ udb] False by (intro settles_same [OF st len]) auto
    qed
  qed
next
  case False
  show ?thesis
    by (rule settles_json [OF st, of "''405 Method Not Allowed''" "''{\"error\":\"405\"}''"])
      (use False method_differs_shape [OF shape] in \<open>simp_all add: cg_route_api_auth_login_def\<close>)
qed

section \<open>The other endpoints\<close>

lemma in_order_room: "in_order (Suc n) (Some db, Some udb) \<Longrightarrow> sess_abs db sid \<noteq> None \<or> 0 < sess_room db"
  by (auto simp: in_order_def)

lemma length_profile_answers:
  assumes "userdb_wf udb"
  shows "length (profile_answer user udb) \<le> 60000" and "length (public_answer nm udb) \<le> 60000"
proof -
  have p: "length (profile_body (udb_pool udb ! i)) \<le> 60000" if "cg_userdb_find_by_id udb n = Some i" for n i
    using profile_text_ok(2) [OF found_shape(1) [OF assms that]] by simp
  have g: "length guest_profile \<le> 60000" by (simp add: guest_profile_def length_http_ok_text)
  show "length (profile_answer user udb) \<le> 60000"
    using p g by (auto simp: profile_answer_def length_json_text split: option.split)
  have "length (public_body (udb_pool udb ! i)) \<le> 60000" if "user_slot udb nm = Some i" for i
  proof -
    have "i < length (udb_pool udb)" using that by (simp add: user_slot_def first_index_less)
    then show ?thesis using public_profile_text_ok(2) [of "udb_pool udb ! i"] userdb_wfD(2) [OF assms] by simp
  qed
  then show "length (public_answer nm udb) \<le> 60000" by (auto simp: public_answer_def length_json_text split: option.split)
qed

lemma profile_settles:
  assumes st: "in_order (Suc n) (Some db, Some udb)" and shape: "req_shape req"
  shows "settles n k (Some db, Some udb) req cg_route_api_user_profile"
proof -
  have wf: "sessiondb_wf db" "userdb_wf udb" using st by (simp_all add: in_order_def)
  note md = method_differs_shape [OF shape]
  have c: "buf_read (req_session_id req) 0 = Inr (req_session_id req ! 0)"
    using shape by (intro buf_read_ok) (simp add: req_shape_def)
  consider "\<not> uses_method req ''GET''" | "uses_method req ''GET''" "req_session_id req ! 0 = 0"
    | "uses_method req ''GET''" "req_session_id req ! 0 \<noteq> 0" by blast
  then show ?thesis
  proof cases
    case 1
    show ?thesis
      by (rule settles_json [OF st, of "''405 Method Not Allowed''" "''{\"error\":\"405\"}''"])
        (use 1 md in \<open>simp_all add: cg_route_api_user_profile_def\<close>)
  next
    case 2
    show ?thesis
      by (rule settles_json [OF st, of "''401 Unauthorized''" "''{\"error\":\"No session\"}''"])
        (use 2 md c in \<open>simp_all add: cg_route_api_user_profile_def\<close>)
  next
    case 3
    show ?thesis
      by (rule settles_same [OF st length_profile_answers(1) [OF wf(2)]])
        (use profile_handler [OF _ shape 3 _ wf(1) _ wf(2) in_order_room [OF st]] in simp)
  qed
qed

lemma public_settles:
  assumes st: "in_order (Suc n) (Some db, Some udb)" and shape: "req_shape req" and fits: "form_fits (stdin_buf req)"
  shows "settles n k (Some db, Some udb) req cg_route_api_public_profile"
proof -
  have wf: "userdb_wf udb" using st by (simp add: in_order_def)
  note md = method_differs_shape [OF shape]
  have val: "cg_get_form_value (stdin_buf req) (lit ''username'') 64 = Inr (False, [])"
    if "form_field (stdin_buf req) ''username'' = None"
    using form_value_cases [OF stdin_has_nul [OF shape], of "''username''" 64] that by (simp add: str_no_nul)
  consider "\<not> uses_method req ''POST''" | "uses_method req ''POST''" "form_field (stdin_buf req) ''username'' = None"
    | t where "uses_method req ''POST''" "form_field (stdin_buf req) ''username'' = Some t" by fastforce
  then show ?thesis
  proof cases
    case 1
    show ?thesis
      by (rule settles_json [OF st, of "''405 Method Not Allowed''" "''{\"error\":\"405\"}''"])
        (use 1 md in \<open>simp_all add: cg_route_api_public_profile_def\<close>)
  next
    case 2
    show ?thesis
      by (rule settles_json [OF st, of "''400 Bad Request''" "''{\"error\":\"Missing username\"}''"])
        (use 2 md val in \<open>simp_all add: cg_route_api_public_profile_def\<close>)
  next
    case 3
    show ?thesis
      by (rule settles_same [OF st length_profile_answers(2) [OF wf]])
        (use public_handler [OF _ shape 3(1) _ wf 3(2) form_fitsD(1) [OF fits 3(2)]] in simp)
  qed
qed

lemma stats_settles:
  assumes st: "in_order (Suc n) (Some db, Some udb)" and shape: "req_shape req"
  shows "settles n k (Some db, Some udb) req cg_route_api_user_stats"
proof -
  have wf: "sessiondb_wf db" using st by (simp add: in_order_def)
  show ?thesis
    by (rule settles_same [OF st length_answers(4)])
      (use stats_handler [OF _ shape _ wf _ in_order_room [OF st]] in simp)
qed

lemma length_leaderboard:
  assumes "userdb_wf udb"
  shows "length (leaderboard_body (udb_pool udb)) \<le> 60000"
proof -
  let ?us = "map (\<lambda>i. udb_pool udb ! i) (leaders (udb_pool udb))"
  have "\<forall>u \<in> set ?us. user_shape u"
    using leaders_active [of "udb_pool udb"] userdb_wfD(1,2) [OF assms] by (auto simp: active_slots_def)
  moreover have "length ?us \<le> 10" by (simp add: leaders_def)
  ultimately have "length (rows_text ?us True) \<le> 980" using length_rows_text [of ?us True] by linarith
  then show ?thesis by (simp add: leaderboard_body_def length_http_ok_text)
qed

lemma leaderboard_settles:
  assumes st: "in_order (Suc n) (Some db, Some udb)" and shape: "req_shape req"
  shows "settles n k (Some db, Some udb) req cg_route_api_leaderboard"
proof (cases "uses_method req ''GET''")
  case True
  have wf: "userdb_wf udb" using st by (simp add: in_order_def)
  show ?thesis
    by (rule settles_same [OF st length_leaderboard [OF wf]])
      (use leaderboard_handler [OF _ shape True _ wf] in simp)
next
  case False
  show ?thesis
    by (rule settles_json [OF st, of "''405 Method Not Allowed''" "''{\"error\":\"405\"}''"])
      (use False method_differs_shape [OF shape] in \<open>simp_all add: cg_route_api_leaderboard_def\<close>)
qed

text \<open>Endings without a body.\<close>

lemma settles_plain:
  assumes "in_order (Suc n) st" and "CHR 0x00 \<notin> set status" and "length status \<le> 1000"
    and "\<And>srv. srv_sessiondb srv = fst st \<Longrightarrow> srv_userdb srv = snd st \<Longrightarrow> h k req srv = reply req (str status @ crlf @ crlf) srv"
  shows "settles n k st req h"
proof -
  have "0 \<notin> set (str status @ crlf @ crlf)" "length (str status @ crlf @ crlf) \<le> 60000"
    using assms(2,3) by (simp_all add: str_no_nul)
  with reply_ok [OF _ this] show ?thesis
    using assms(4) by (intro settles_same [OF assms(1), of "str status @ crlf @ crlf"]) auto
qed

lemma delete_settles:
  assumes st: "in_order (Suc n) (Some db, Some udb)" and shape: "req_shape req"
  shows "settles n k (Some db, Some udb) req cg_route_api_user_delete"
proof -
  have wf: "sessiondb_wf db" "userdb_wf udb" using st by (simp_all add: in_order_def)
  note md = method_differs_shape [OF shape]
  consider "\<not> uses_method req ''POST''"
    | "uses_method req ''POST''" "named_user db (request_session req) = None"
    | u where "uses_method req ''POST''" "named_user db (request_session req) = Some u" by fastforce
  then show ?thesis
  proof cases
    case 1
    show ?thesis
      by (rule settles_plain [OF st, of "''Status: 405 Method Not Allowed''"])
        (use 1 md in \<open>simp_all add: cg_route_api_user_delete_def\<close>)
  next
    case 2
    show ?thesis
    proof (rule settles_plain [OF st, of "''Status: 401 Unauthorized''"])
      fix srv :: server assume s: "srv_sessiondb srv = fst (Some db, Some udb)" "srv_userdb srv = snd (Some db, Some udb)"
      then have "srv_sessiondb srv = Some db" by simp
      from named_session [OF shape this wf(1) in_order_room [OF st]] 2(2)
      show "cg_route_api_user_delete k req srv = reply req (str ''Status: 401 Unauthorized'' @ crlf @ crlf) srv"
        using 2(1) md by (auto simp: cg_route_api_user_delete_def)
    qed simp_all
  next
    case 3
    let ?st = "(Some db, Some (fst (cg_userdb_delete udb u)))"
    have "userdb_wf (fst (cg_userdb_delete udb u))" using user_delete_kept [OF wf(2)] by blast
    then have o: "in_order n ?st" using st by (simp add: in_order_def)
    show ?thesis
    proof (rule settlesI [OF delete_text_plain(2) o])
      show "open_numbers ?st \<subseteq> insert (kernel_number k) (open_numbers (Some db, Some udb))" by (auto simp: open_numbers_def)
      fix srv assume s: "srv_ready srv" "srv_sessiondb srv = fst (Some db, Some udb)" "srv_userdb srv = snd (Some db, Some udb)"
      have e: "srv\<lparr>srv_sessiondb := Some db, srv_userdb := x\<rparr> = srv\<lparr>srv_userdb := x\<rparr>" for x
        using s(2) by (cases srv) simp
      show "\<exists>srv2. cg_route_api_user_delete k req srv = Inr srv2 \<and>
          replied req delete_text (srv\<lparr>srv_sessiondb := fst ?st, srv_userdb := snd ?st\<rparr>) srv2"
        using delete_handler [OF s(1) shape 3(1) _ wf(1) 3(2)] s(2,3) by (simp add: e)
    qed
  qed
qed

text \<open>An endpoint that changes an account: the sessions stay, and the accounts are in order.\<close>

lemma settles_users:
  assumes st: "in_order (Suc n) (Some db, Some udb)" and udb': "userdb_wf udb'" and len: "length body \<le> 60000"
    and ans: "\<And>srv. srv_ready srv \<Longrightarrow> srv_sessiondb srv = Some db \<Longrightarrow> srv_userdb srv = Some udb \<Longrightarrow>
      \<exists>srv2. h k req srv = Inr srv2 \<and> replied req body (srv\<lparr>srv_userdb := Some udb'\<rparr>) srv2"
  shows "settles n k (Some db, Some udb) req h"
proof (rule settlesI [OF len, where st' = "(Some db, Some udb')"])
  show "in_order n (Some db, Some udb')" using st udb' by (simp add: in_order_def)
  show "open_numbers (Some db, Some udb') \<subseteq> insert (kernel_number k) (open_numbers (Some db, Some udb))"
    by (auto simp: open_numbers_def)
  fix srv assume s: "srv_ready srv" "srv_sessiondb srv = fst (Some db, Some udb)" "srv_userdb srv = snd (Some db, Some udb)"
  have e: "srv\<lparr>srv_sessiondb := Some db, srv_userdb := Some udb'\<rparr> = srv\<lparr>srv_userdb := Some udb'\<rparr>"
    using s(2) by (cases srv) simp
  show "\<exists>srv2. h k req srv = Inr srv2 \<and>
      replied req body (srv\<lparr>srv_sessiondb := fst (Some db, Some udb'), srv_userdb := snd (Some db, Some udb')\<rparr>) srv2"
    unfolding fst_conv snd_conv e using ans [OF s(1)] s(2,3) by simp
qed

lemma update_settles:
  assumes st: "in_order (Suc n) (Some db, Some udb)" and shape: "req_shape req" and fits: "form_fits (stdin_buf req)"
  shows "settles n k (Some db, Some udb) req cg_route_api_user_profile_update"
proof -
  have wf: "sessiondb_wf db" "userdb_wf udb" using st by (simp_all add: in_order_def)
  note md = method_differs_shape [OF shape]
  note room = in_order_room [OF st]
  have session: "\<exists>e. (\<forall>f. with_session req srv f = f e) \<and> \<not> (case e of None \<Rightarrow> True | Some s \<Rightarrow> user_id s = 0) \<and> user_id (the e) = u"
    if "named_user db (request_session req) = Some u" "srv_sessiondb srv = Some db" for srv :: server and u
    using named_session [OF shape that(2) wf(1) room] that(1) by auto
  consider "\<not> uses_method req ''POST''"
    | "uses_method req ''POST''" "named_user db (request_session req) = None"
    | u where "uses_method req ''POST''" "named_user db (request_session req) = Some u" "cg_userdb_find_by_id udb u = None"
    | u i where "uses_method req ''POST''" "named_user db (request_session req) = Some u" "cg_userdb_find_by_id udb u = Some i"
        "form_field (stdin_buf req) ''description'' = None"
    | u i t where "uses_method req ''POST''" "named_user db (request_session req) = Some u" "cg_userdb_find_by_id udb u = Some i"
        "form_field (stdin_buf req) ''description'' = Some t" by fastforce
  then show ?thesis
  proof cases
    case 1
    show ?thesis
      by (rule settles_json [OF st, of "''405 Method Not Allowed''" "''{\"error\":\"405\"}''"])
        (use 1 md in \<open>simp_all add: cg_route_api_user_profile_update_def\<close>)
  next
    case 2
    have "length (json_text ''401 Unauthorized'' ''{\"error\":\"Unauthorized\"}'') \<le> 60000" by (simp add: length_json_text)
    from settles_same [OF st this] show ?thesis
      using update_refused [OF _ shape 2(1) _ wf(1) in_order_room [OF st] 2(2)] by simp
  next
    case 3
    show ?thesis
    proof (rule settles_json [OF st, of "''401 Unauthorized''" "''{\"error\":\"User missing\"}''"])
      fix srv :: server assume s: "srv_sessiondb srv = fst (Some db, Some udb)" "srv_userdb srv = snd (Some db, Some udb)"
      then obtain e where "\<forall>f. with_session req srv f = f e" "\<not> (case e of None \<Rightarrow> True | Some s \<Rightarrow> user_id s = 0)" "user_id (the e) = u"
        using session [OF 3(2), of srv] by auto
      then show "cg_route_api_user_profile_update k req srv =
          reply req (json_text ''401 Unauthorized'' ''{\"error\":\"User missing\"}'') srv"
        using 3 md s(2) by (simp add: cg_route_api_user_profile_update_def deref_def)
    qed simp_all
  next
    case 4
    have val: "cg_get_form_value (stdin_buf req) (lit ''description'') 2048 = Inr (False, [])"
      using form_value_cases [OF stdin_has_nul [OF shape], of "''description''" 2048] 4(4) by (simp add: str_no_nul)
    show ?thesis
    proof (rule settles_json [OF st, of "''200 OK''" "''{\"status\":\"success\"}''"])
      fix srv :: server assume s: "srv_sessiondb srv = fst (Some db, Some udb)" "srv_userdb srv = snd (Some db, Some udb)"
      then obtain e where "\<forall>f. with_session req srv f = f e" "\<not> (case e of None \<Rightarrow> True | Some s \<Rightarrow> user_id s = 0)" "user_id (the e) = u"
        using session [OF 4(2), of srv] by auto
      then have "cg_route_api_user_profile_update k req srv =
          reply req (json_text ''200 OK'' ''{\"status\":\"success\"}'') (srv\<lparr>srv_userdb := Some udb\<rparr>)"
        using 4 md s(2) val by (simp add: cg_route_api_user_profile_update_def deref_def)
      moreover have e: "srv\<lparr>srv_userdb := Some udb\<rparr> = srv" using s(2) by (cases srv) simp
      ultimately show "cg_route_api_user_profile_update k req srv = reply req (json_text ''200 OK'' ''{\"status\":\"success\"}'') srv"
        unfolding e by simp
    qed simp_all
  next
    case 5
    note t = form_fitsD(4) [OF fits 5(4)]
    obtain u' where u': "set_description (udb_pool udb ! i) t = Inr u'" "userdb_wf (set_user udb i u')"
      using described_user [OF wf(2) 5(3) t] by blast
    have "length (json_text ''200 OK'' ''{\"status\":\"success\"}'') \<le> 60000" by (simp add: length_json_text)
    from settles_users [OF st u'(2) this] show ?thesis
      using update_writes [OF _ shape 5(1) _ wf(1) 5(2) _ 5(3,4) t u'(1)] by simp
  qed
qed

lemma length_verify_body:
  assumes "challenge_ok c"
  shows "length (verify_body form c) \<le> 60000"
proof -
  have "length (questions_text form (questions c) True) \<le> 1000"
    using length_questions_text [of form "questions c" True] assms by (simp add: challenge_ok_def)
  then show ?thesis
    using length_dec_u32 [of "total_earned form c"] length_dec_u32 [of "chal_total_points c"]
    by (simp add: verify_body_def length_http_ok_text)
qed

lemma award_settles:
  assumes udb: "userdb_wf udb"
  shows "\<exists>udb'. userdb_wf udb' \<and> (\<forall>srv. srv_userdb srv = Some udb \<longrightarrow>
    (if b then award_user srv n (t @ [0]) pts else Inr srv) = Inr (srv\<lparr>srv_userdb := Some udb'\<rparr>))"
proof (cases "b \<and> cg_userdb_find_by_id udb n \<noteq> None")
  case True
  then obtain i where i: "cg_userdb_find_by_id udb n = Some i" by auto
  note u = found_shape [OF udb i]
  obtain u' where u': "award_points (udb_pool udb ! i) pts (ucast (crc32c (cstr t))) = Inr u'" "user_shape u'"
      "same_account (udb_pool udb ! i) u'"
    using award_points_ok [OF u(1)] by blast
  have c: "cstr (t @ [0]) = cstr t" by (simp add: cstr_def takeWhile_tail)
  have h: "cg_hash_str (t @ [0]) (length (cstr t)) = Inr (ucast (crc32c (cstr t)))"
    using cg_hash_str_crc [of "length (cstr t)" "t @ [0]"] take_cstr [of "t @ [0]"]
      length_cstr_less [of "t @ [0]"] c by simp
  have "award_user srv n (t @ [0]) pts = Inr (srv\<lparr>srv_userdb := Some (set_user udb i u')\<rparr>)" if "srv_userdb srv = Some udb" for srv
    using that i h u'(1) by (simp add: award_user_def deref_def c set_user_def)
  then show ?thesis
    using True set_user_wf(1) [OF udb u(2) u'(2,3)] by (intro exI [of _ "set_user udb i u'"]) simp
next
  case False
  have "srv\<lparr>srv_userdb := Some udb\<rparr> = srv" if "srv_userdb srv = Some udb" for srv :: server
    using that by (cases srv) simp
  then show ?thesis
    using False udb by (intro exI [of _ udb]) (auto simp: award_user_def deref_def)
qed

lemma verify_settles:
  assumes st: "in_order (Suc n) (Some db, Some udb)" and shape: "req_shape req" and fits: "form_fits (stdin_buf req)"
  shows "settles n k (Some db, Some udb) req cg_route_api_challenge_verify"
proof -
  have wf: "sessiondb_wf db" "userdb_wf udb" using st by (simp_all add: in_order_def)
  note md = method_differs_shape [OF shape]
  note room = in_order_room [OF st]
  have cb: "buf_read (req_session_id req) 0 = Inr (req_session_id req ! 0)"
    using shape by (intro buf_read_ok) (simp add: req_shape_def)
  have val: "cg_get_form_value (stdin_buf req) (lit ''id'') 64 =
      (case form_field (stdin_buf req) ''id'' of None \<Rightarrow> Inr (False, []) | Some t \<Rightarrow> Inr (True, t))"
    using form_value_cases [OF stdin_has_nul [OF shape], of "''id''" 64] form_fitsD(3) [OF fits]
    by (auto simp: str_no_nul split: option.splits)
  have found: "cg_challengedb_find (t @ [0]) = Inr (find_challenge (cstr t))" for t
  proof -
    have "cstr (t @ [0]) = cstr t" by (simp add: cstr_def takeWhile_tail)
    then show ?thesis using challengedb_find_correct [of "t @ [0]"] by (simp add: find_challenge_def)
  qed
  have session: "\<exists>e. (\<forall>f. with_session req srv f = f (Some e)) \<and> user_id e = u"
    if "sess_abs db (request_session req) = Some u" "srv_sessiondb srv = Some db" for srv :: server and u
    using with_session_cases [OF shape that(2) wf(1) room] that(1) by fastforce
  have stranger: "with_session req srv f = f None"
    if "sess_abs db (request_session req) = None" "srv_sessiondb srv = Some db" for srv :: server and f
    using with_session_cases [OF shape that(2) wf(1) room] that(1) by auto
  consider "\<not> uses_method req ''POST''"
    | "uses_method req ''POST''" "req_session_id req ! 0 = 0"
    | "uses_method req ''POST''" "req_session_id req ! 0 \<noteq> 0" "sess_abs db (request_session req) = None"
    | u where "uses_method req ''POST''" "req_session_id req ! 0 \<noteq> 0" "sess_abs db (request_session req) = Some u"
        "form_field (stdin_buf req) ''id'' = None"
    | u t where "uses_method req ''POST''" "req_session_id req ! 0 \<noteq> 0" "sess_abs db (request_session req) = Some u"
        "form_field (stdin_buf req) ''id'' = Some t" "find_challenge (cstr t) = None"
    | u t ci where "uses_method req ''POST''" "req_session_id req ! 0 \<noteq> 0" "sess_abs db (request_session req) = Some u"
        "form_field (stdin_buf req) ''id'' = Some t" "find_challenge (cstr t) = Some ci" by fastforce
  then show ?thesis
  proof cases
    case 1
    show ?thesis
      by (rule settles_json [OF st, of "''405 Method Not Allowed''" "''{\"error\":\"405 - This endpoint requires a POST request.\"}''"])
        (use 1 md in \<open>simp_all add: cg_route_api_challenge_verify_def\<close>)
  next
    case 2
    show ?thesis
      by (rule settles_json [OF st, of "''401 Unauthorized''" "''{\"error\":\"401 - Missing session.\"}''"])
        (use 2 md cb in \<open>simp_all add: cg_route_api_challenge_verify_def\<close>)
  next
    case 3
    show ?thesis
      by (rule settles_json [OF st, of "''401 Unauthorized''" "''{\"error\":\"401 - Invalid session.\"}''"])
        (use 3 md cb stranger in \<open>simp_all add: cg_route_api_challenge_verify_def\<close>)
  next
    case 4
    show ?thesis
    proof (rule settles_json [OF st, of "''400 Bad Request''" "''{\"error\":\"400 - Missing challenge ID.\"}''"])
      fix srv :: server assume "srv_sessiondb srv = fst (Some db, Some udb)" "srv_userdb srv = snd (Some db, Some udb)"
      then obtain e where "\<forall>f. with_session req srv f = f (Some e)" using session [OF 4(3), of srv] by auto
      then show "cg_route_api_challenge_verify k req srv =
          reply req (json_text ''400 Bad Request'' ''{\"error\":\"400 - Missing challenge ID.\"}'') srv"
        using 4 md cb val by (simp add: cg_route_api_challenge_verify_def)
    qed simp_all
  next
    case 5
    show ?thesis
    proof (rule settles_json [OF st, of "''404 Not Found''" "''{\"error\":\"404 - Challenge ID not found.\"}''"])
      fix srv :: server assume "srv_sessiondb srv = fst (Some db, Some udb)" "srv_userdb srv = snd (Some db, Some udb)"
      then obtain e where "\<forall>f. with_session req srv f = f (Some e)" using session [OF 5(3), of srv] by auto
      then show "cg_route_api_challenge_verify k req srv =
          reply req (json_text ''404 Not Found'' ''{\"error\":\"404 - Challenge ID not found.\"}'') srv"
        using 5 md cb val found by (simp add: cg_route_api_challenge_verify_def)
    qed simp_all
  next
    case 6
    let ?c = "g_challengedb ! ci" and ?form = "stdin_buf req"
    obtain udb' where udb': "userdb_wf udb'" "\<And>srv. srv_userdb srv = Some udb \<Longrightarrow>
        (if total_earned ?form ?c = chal_total_points ?c \<and> u \<noteq> 0 then award_user srv u (t @ [0]) (total_earned ?form ?c)
         else Inr srv) = Inr (srv\<lparr>srv_userdb := Some udb'\<rparr>)"
      using award_settles [OF wf(2)] by blast
    show ?thesis
    proof (rule settles_users [OF st udb'(1) length_verify_body [OF find_challenge_ok [OF 6(5)]]])
      fix srv :: server assume s: "srv_ready srv" "srv_sessiondb srv = Some db" "srv_userdb srv = Some udb"
      have "srv_ready (srv\<lparr>srv_userdb := Some udb'\<rparr>)" using s(1) by (simp add: srv_ready_def)
      from verify_handler [OF s(1) shape 6(1,2) s(2) wf(1) 6(3,4) form_fitsD(3) [OF fits 6(4)] 6(5) refl
          form_fitsD(5) [OF fits 6(5)] udb'(2) [OF s(3)] this]
      show "\<exists>srv2. cg_route_api_challenge_verify k req srv = Inr srv2 \<and>
        replied req (verify_body ?form ?c) (srv\<lparr>srv_userdb := Some udb'\<rparr>) srv2" .
    qed
  qed
qed

lemma not_found_settles:
  assumes st: "in_order (Suc n) st"
  shows "settles n k st req cg_route_not_found"
proof -
  have "length (str ''Status: 404 Not Found'' @ crlf @ str ''Content-Type: text/plain'' @ crlf @ crlf @
    str ''404 - Endpoint not configured.'') \<le> 60000" by simp
  from settles_same [OF st this] show ?thesis using not_found_ok [of _ k req] by blast
qed

end
