(* ===== verification/CG_Answered.thy ===== *)
theory CG_Answered
  imports CG_Settles
begin

text \<open>
  Every request gets an answer: what an endpoint settles for one request it settles for all
  requests of the same text. So whole conversations are answered, whatever is asked for in them.
\<close>

section \<open>Every text is served\<close>

lemma handle_settles:
  assumes st: "in_order (Suc n) st" and shape: "req_shape req" and fits: "form_fits (stdin_buf req)"
    and k: "8 \<le> fst (k_random k)" "kernel_number k \<notin> open_numbers st"
  shows "settles n k st req (handle r)"
proof (cases r)
  case None
  then show ?thesis using not_found_settles [OF st] by (simp add: handle_def)
next
  case (Some route)
  obtain db udb where s: "st = (Some db, Some udb)" using in_orderE [OF st] by blast
  have new: "sess_abs db (kernel_number k) = None" using k(2) by (auto simp: s open_numbers_def)
  note st = st [unfolded s]
  show ?thesis
    using guest_settles [OF st shape k(1) new] register_settles [OF st shape fits k(1) new]
      login_settles [OF st shape fits k(1) new] profile_settles [OF st shape] update_settles [OF st shape fits]
      public_settles [OF st shape fits] stats_settles [OF st shape] delete_settles [OF st shape]
      leaderboard_settles [OF st shape] verify_settles [OF st shape fits]
    by (cases route) (simp_all add: handle_def s Some)
qed

lemma alike_handle: "alike req req' \<Longrightarrow> handle r k req' srv = handle r k req srv"
  by (cases r) (simp_all add: handle_def alike_handler)

lemma text_served:
  assumes st: "in_order (Suc n) st" and fits: "form_fits (rt_body rt @ [0])"
    and k: "8 \<le> fst (k_random k)" "kernel_number k \<notin> open_numbers st"
  shows "\<exists>body st'. serves k st rt body st' \<and> in_order n st' \<and>
    open_numbers st' \<subseteq> insert (kernel_number k) (open_numbers st)"
proof (cases "\<exists>req. req_shape req \<and> request_text req = rt")
  case True
  then obtain req where req: "req_shape req" "request_text req = rt" by blast
  have "form_fits (stdin_buf (terminated req))"
    using body_split [OF req(1)] form_fits_cut [OF _ fits] req(2) by (auto simp: terminated_def)
  from handle_settles [OF st terminated_shape [OF req(1)] this k, of "route_of req"]
  obtain body st' where s: "length body \<le> 60000" "in_order n st'"
      "open_numbers st' \<subseteq> insert (kernel_number k) (open_numbers st)"
      "\<And>srv. srv_ready srv \<Longrightarrow> (srv_sessiondb srv, srv_userdb srv) = st \<Longrightarrow>
        \<exists>srv2. handle (route_of req) k (terminated req) srv = Inr srv2 \<and>
          replied (terminated req) body (srv\<lparr>srv_sessiondb := fst st', srv_userdb := snd st'\<rparr>) srv2"
    unfolding settles_def by blast
  have "serves k st rt body st'"
  proof (rule servesI [OF s(1)])
    fix req' srv
    assume r: "req_shape req'" "request_text req' = rt" "srv_ready srv" "srv_sessiondb srv = fst st" "srv_userdb srv = snd st"
    have same: "request_text req' = request_text req" using r(2) req(2) by simp
    note a = text_alike [OF req(1) r(1) same]
    have "replied (terminated req') = replied (terminated req)" using a(1) by (simp add: alike_def replied_def fun_eq_iff)
    moreover have "handle (route_of req') k (terminated req') srv = handle (route_of req) k (terminated req) srv"
      using alike_handle [OF a(1)] a(2) by simp
    ultimately show "\<exists>srv2. handle (route_of req') k (terminated req') srv = Inr srv2 \<and>
        replied (terminated req') body (srv\<lparr>srv_sessiondb := fst st', srv_userdb := snd st'\<rparr>) srv2"
      using s(4) [OF r(3)] r(4,5) by (simp add: prod_eq_iff)
  qed
  then show ?thesis using s(2,3) by blast
next
  case False
  then have "serves k st rt [] st" by (auto simp: serves_def)
  then show ?thesis using in_order_Suc [OF st] by blast
qed

section \<open>Every conversation is answered\<close>

text \<open>What a request says by itself, whatever was said before on its connection.\<close>

definition rq_text :: "request \<Rightarrow> request_text" where
  "rq_text r = effects (rq_number r) (rq_events r) \<lparr>rt_id = 0, rt_keep = 0, rt_texts = ([], [], []), rt_body = []\<rparr>"

lemma effects_agree:
  "rt_keep rt = rt_keep rt' \<Longrightarrow> rt_body rt = rt_body rt' \<Longrightarrow>
   rt_keep (effects n rs rt) = rt_keep (effects n rs rt') \<and> rt_body (effects n rs rt) = rt_body (effects n rs rt')"
proof (induction rs arbitrary: rt rt')
  case (Cons r rs)
  have "rt_keep (ev_effect n (fst r) rt) = rt_keep (ev_effect n (fst r) rt')"
    "rt_body (ev_effect n (fst r) rt) = rt_body (ev_effect n (fst r) rt')"
    using Cons.prems by (cases "fst r"; simp)+
  from Cons.IH [OF this] show ?case by simp
qed simp

lemma effects_own:
  "rt_keep (effects (rq_number r) (rq_events r) rt) = rt_keep (rq_text r)"
  "rt_body (effects (rq_number r) (rq_events r) rt) = rt_body (rq_text r)"
proof -
  have e: "effects n (rq_events r) s = effects n (rq_records r) (ev_effect n (Begin (fst (rq_begin r))) s)" for n s
    by (simp add: rq_events_def split: prod.split)
  show "rt_keep (effects (rq_number r) (rq_events r) rt) = rt_keep (rq_text r)"
    "rt_body (effects (rq_number r) (rq_events r) rt) = rt_body (rq_text r)"
    unfolding rq_text_def e by (rule effects_agree [THEN conjunct1] effects_agree [THEN conjunct2]; simp)+
qed

definition answerable :: "kernel \<times> request \<Rightarrow> bool" where
  "answerable x \<longleftrightarrow> (case x of (k, r) \<Rightarrow> 8 \<le> fst (k_random k) \<and> rq_ok r \<and> rt_keep (rq_text r) \<noteq> 0 \<and>
     form_fits (rt_body (rq_text r) @ [0]))"

definition answers_to :: "(kernel \<times> request) list \<Rightarrow> byte list list \<Rightarrow> byte list list" where
  "answers_to rs bodies = map2 (\<lambda>x. response_text (bswap16 (rq_number (snd x)))) rs bodies"

lemma dialogue_exists:
  assumes "list_all answerable rs" and "in_order (length rs) st"
    and "distinct (map (kernel_number \<circ> fst) rs)" and "open_numbers st \<inter> (kernel_number \<circ> fst) ` set rs = {}"
  shows "\<exists>bodies st'. dialogue rt st rs (answers_to rs bodies) st' \<and>
    length bodies = length rs \<and> in_order 0 st' \<and>
    open_numbers st' \<subseteq> open_numbers st \<union> (kernel_number \<circ> fst) ` set rs"
  using assms
proof (induction rs arbitrary: rt st)
  case Nil
  then show ?case using dialogue_end by (fastforce simp: answers_to_def)
next
  case (Cons x rs)
  obtain k r where x: "x = (k, r)" by (cases x)
  have a: "8 \<le> fst (k_random k)" "rq_ok r" "rt_keep (rq_text r) \<noteq> 0" "form_fits (rt_body (rq_text r) @ [0])"
    using Cons.prems(1) by (simp_all add: answerable_def x)
  let ?rt = "effects (rq_number r) (rq_events r) rt"
  have "in_order (Suc (length rs)) st" "kernel_number k \<notin> open_numbers st" using Cons.prems(2,4) by (auto simp: x)
  from text_served [OF this(1) _ a(1) this(2), of ?rt]
  obtain body st1 where s: "serves k st ?rt body st1" "in_order (length rs) st1"
      "open_numbers st1 \<subseteq> insert (kernel_number k) (open_numbers st)"
    using a(4) effects_own(2) by auto
  have "kernel_number k \<notin> (kernel_number \<circ> fst) ` set rs" "open_numbers st \<inter> (kernel_number \<circ> fst) ` set rs = {}"
    using Cons.prems(3,4) by (simp_all add: x)
  then have "insert (kernel_number k) (open_numbers st) \<inter> (kernel_number \<circ> fst) ` set rs = {}" by simp
  with Int_mono [OF s(3) subset_refl] have free: "open_numbers st1 \<inter> (kernel_number \<circ> fst) ` set rs = {}"
    by (metis subset_empty)
  have rest: "list_all answerable rs" "distinct (map (kernel_number \<circ> fst) rs)" using Cons.prems(1,3) by (simp_all add: o_def)
  obtain bodies st2 where d: "dialogue ?rt st1 rs (answers_to rs bodies) st2"
      "length bodies = length rs" "in_order 0 st2" "open_numbers st2 \<subseteq> open_numbers st1 \<union> (kernel_number \<circ> fst) ` set rs"
    using Cons.IH [OF rest(1) s(2) rest(2) free, of ?rt] by (elim exE conjE) (rule that)
  have "rt_keep ?rt \<noteq> 0" using a(3) effects_own(1) by simp
  from dialogue_next [OF a(2) refl this s(1) d(1)]
  have "dialogue rt st (x # rs) (answers_to (x # rs) (body # bodies)) st2" by (simp add: x answers_to_def)
  moreover have "open_numbers st2 \<subseteq> open_numbers st \<union> (kernel_number \<circ> fst) ` set (x # rs)"
    using d(4) s(3) by (auto simp: x)
  ultimately show ?case using d(2,3) by (intro exI [of _ "body # bodies"] exI [of _ st2]) simp
qed

end
