(* ===== verification/CG_Spec_Journey.thy ===== *)
theory CG_Spec_Journey
  imports CG_Answered CG_Spec_Request
begin

text \<open>
  A visitor's way through several endpoints on one connection: what one answer hands out, the next
  request brings back, and what one request stores, the next answer shows. And whatever is asked
  for, in whatever order, there is an answer.
\<close>

lemma slot_found:
  assumes wf: "userdb_wf udb" and slot: "user_slot udb nm = Some j"
  shows "cg_userdb_find_by_id udb (uid (udb_pool udb ! j)) = Some j" and "uid (udb_pool udb ! j) \<noteq> 0"
proof -
  have j: "j < length (udb_pool udb)" "user_active (udb_pool udb ! j)"
    using slot by (simp_all add: user_slot_def first_index_Some)
  then have s: "j < USERDB_POOL_SIZE" using userdb_wfD(1) [OF wf] by simp
  have u: "uid (udb_pool udb ! j) = word_of_nat j + 1" using userdb_wfD(3) [OF wf] s j(2) by blast
  then show "cg_userdb_find_by_id udb (uid (udb_pool udb ! j)) = Some j"
    using find_by_id_Some [OF wf] s j(2) by simp
  show "uid (udb_pool udb ! j) \<noteq> 0" using unat_slot_id [OF s] u by (metis Zero_not_Suc Suc_eq_plus1 unat_0)
qed

text \<open>
  C2: Whoever signs in is shown the own account. On a kept connection a visitor signs in with
  name and password, changes the description with the cookie of the answer, and asks for the
  profile with the same cookie: the three answers are the login text with the session's number in
  its cookie, the confirmation, and the profile of exactly this account with exactly the new
  description. Afterwards the stores are the old ones with the session and the description,
  whichever requests came before on the connection and however the answers are cut into writes.
\<close>

theorem visit_served:
  assumes "listening i app" and "stores_of app = (Some db, Some udb)" and "sessiondb_wf db" and "userdb_wf udb"
    and "user_slot udb (cstr (n @ [0])) = Some j"
    and "pass_hash (udb_pool udb ! j) = ucast (crc32c (cstr (w @ [0])))"
    and "length n < 64" and "length w < 64" and "length t < 2048"
    and "length (enc_form [(str ''description'', t)]) < 4096"
    and "k_random k = (res, bytes)" and "8 \<le> res" and "sid = (if bytes = 0 then 1 else bytes)"
    and "sess_abs db sid = None" and "0 < sess_room db"
  shows "\<exists>db' u'. sess_abs db' = (sess_abs db)(sid \<mapsto> uid (udb_pool udb ! j)) \<and>
    u' = (udb_pool udb ! j)\<lparr>description := description u'\<rparr> \<and> cstr (description u') = cstr t \<and>
    (let answers = [response_text (bswap16 n1) (login_text sid (cstr (username u')) (total_points u')),
          response_text (bswap16 n2) (json_text ''200 OK'' ''{\"status\":\"success\"}''),
          response_text (bswap16 n3) (profile_body u')] in
      \<forall>nss. list_all2 (\<lambda>ns a. (\<forall>n \<in> set ns. 0 < n) \<and> sum_list (map unat ns) = length a) nss answers \<longrightarrow>
        (\<exists>app'. converse lay i
            [(k, web_request n1 ''POST'' ''/api/auth/login'' [] (enc_form (sample_form n w))),
             (k2, web_request n2 ''POST'' ''/api/user/profile/update'' (session_cookie sid) (enc_form [(str ''description'', t)])),
             (k3, web_request n3 ''GET'' ''/api/user/profile'' (session_cookie sid) [])] nss app = Inr (answers, app') \<and>
          listening i app' \<and> stores_of app' = (Some db', Some (set_user udb j u'))))"
proof -
  let ?u = "udb_pool udb ! j"
  define rt where "rt = request_text (cli_req (g_cli_ctx_pool app ! i))"
  define r1 where "r1 = web_request n1 ''POST'' ''/api/auth/login'' [] (enc_form (sample_form n w))"
  define r2 where "r2 = web_request n2 ''POST'' ''/api/user/profile/update'' (session_cookie sid) (enc_form [(str ''description'', t)])"
  define r3 where "r3 = web_request n3 ''GET'' ''/api/user/profile'' (session_cookie sid) []"
  define rt1 where "rt1 = effects (rq_number r1) (rq_events r1) rt"
  define rt2 where "rt2 = effects (rq_number r2) (rq_events r2) rt1"
  define rt3 where "rt3 = effects (rq_number r3) (rq_events r3) rt2"
  have "length (enc_text n) \<le> 192" "length (enc_text w) \<le> 192"
    using length_enc_form_field [of n] length_enc_form_field [of w] assms(7,8) by simp_all
  then have len1: "length (enc_form (sample_form n w)) < 4096" by (simp add: sample_form_def enc_field_def)
  have c: "length (session_cookie sid) \<le> 100" using length_dec_u64 [of sid] by simp
  have ok: "rq_ok r1" "rq_ok r2" "rq_ok r3"
    unfolding r1_def r2_def r3_def using len1 assms(10) c by (auto intro!: web_request_ok)
  note web = web_number r1_def r2_def r3_def
  note W = web_text [where rt = rt and num = n1, OF _ _ len1, of "''/api/auth/login''" Route_AuthLogin "''POST''" "[]" "[]" sid]
  have t1: "rt_texts rt1 = (str ''/api/auth/login'', str ''POST'', [])" "rt_body rt1 = enc_form (sample_form n w)" "rt_keep rt1 \<noteq> 0"
    using W by (simp_all add: rt1_def web route_paths_def)
  note W = web_text [where rt = rt1 and num = n2, OF _ _ assms(10), of "''/api/user/profile/update''" Route_UserProfileUpdate
    "''POST''" "session_cookie sid" "dec (unat sid)" sid]
  have t2: "rt_texts rt2 = (str ''/api/user/profile/update'', str ''POST'', dec (unat sid))"
      "rt_body rt2 = enc_form [(str ''description'', t)]" "rt_keep rt2 \<noteq> 0"
    using W by (simp_all add: rt2_def web route_paths_def)
  note W = web_text [where rt = rt2 and num = n3 and body = "[]", of "''/api/user/profile''" Route_UserProfile
    "''GET''" "session_cookie sid" "dec (unat sid)" sid]
  have t3: "rt_texts rt3 = (str ''/api/user/profile'', str ''GET'', dec (unat sid))" "rt_keep rt3 \<noteq> 0"
    using W by (simp_all add: rt3_def web route_paths_def)
  have f: "\<forall>f \<in> set (sample_form n w). plain_key (fst f)" "map_of (sample_form n w) (str ''username'') = Some n"
      "map_of (sample_form n w) (str ''password'') = Some w"
    using sample_keys by (simp_all add: sample_form_def) (simp add: str_def)
  obtain db' where d1: "serves k (Some db, Some udb) rt1 (login_text sid (cstr (username ?u)) (total_points ?u)) (Some db', Some udb)"
      "sessiondb_wf db'" "sess_abs db' = (sess_abs db)(sid \<mapsto> uid ?u)"
    using login_serves [OF t1(1,2) f(1,2) assms(7) f(3) assms(8,4-6,3,14,15,11-13)] by blast
  note found = slot_found [OF assms(4,5)]
  obtain u' where u': "set_description ?u t = Inr u'" "u' = ?u\<lparr>description := description u'\<rparr>"
      "cstr (description u') = cstr t" "userdb_wf (set_user udb j u')"
      "cg_userdb_find_by_id (set_user udb j u') = cg_userdb_find_by_id udb"
    using described_user [OF assms(4) found(1) assms(9)] by blast
  have sid: "sess_abs db' sid = Some (uid ?u)" using d1(3) by simp
  have d2: "serves k2 (Some db', Some udb) rt2 (json_text ''200 OK'' ''{\"status\":\"success\"}'') (Some db', Some (set_user udb j u'))"
    using update_serves [OF t2(1,2) _ _ assms(9,4) d1(2) sid found u'(1)] sample_keys(3) by simp
  have "j < length (udb_pool udb)" using assms(5) by (simp add: user_slot_def first_index_Some)
  then have pool: "udb_pool (set_user udb j u') ! j = u'" by (simp add: set_user_def)
  have "cg_userdb_find_by_id (set_user udb j u') (uid ?u) = Some j" using found(1) u'(5) by simp
  from profile_serves [OF t3(1) u'(4) d1(2) sid this found(2), of k3]
  have d3: "serves k3 (Some db', Some (set_user udb j u')) rt3 (profile_body u') (Some db', Some (set_user udb j u'))"
    unfolding pool .
  have same: "username u' = username ?u" "total_points u' = total_points ?u" by (subst u'(2), simp)+
  let ?answers = "[response_text (bswap16 n1) (login_text sid (cstr (username u')) (total_points u')),
    response_text (bswap16 n2) (json_text ''200 OK'' ''{\"status\":\"success\"}''), response_text (bswap16 n3) (profile_body u')]"
  have "dialogue rt3 (Some db', Some (set_user udb j u')) [] [] (Some db', Some (set_user udb j u'))" by (rule dialogue_end)
  from dialogue_next [OF ok(3) rt3_def t3(2) d3 this] dialogue_next [OF ok(2) rt2_def t2(3) d2] dialogue_next [OF ok(1) rt1_def t1(3) d1(1)]
  have d: "dialogue rt (stores_of app) [(k, r1), (k2, r2), (k3, r3)] ?answers (Some db', Some (set_user udb j u'))"
    by (simp add: web_number [of n1 _ _ _ _, folded r1_def] same assms(2) web)
  from converse_ok [OF d [unfolded rt_def] assms(1)]
  show ?thesis unfolding r1_def [symmetric] r2_def [symmetric] r3_def [symmetric] Let_def
    using d1(3) u'(2,3) by blast
qed

theorem visit_served_witness:
  "\<exists>app nss answers app' db' u'. converse sample_layout 0
      [(numbered 42, web_request 1 ''POST'' ''/api/auth/login'' [] (enc_form (sample_form (str ''alice'') (str ''secret'')))),
       (numbered 0, web_request 2 ''POST'' ''/api/user/profile/update'' (session_cookie 42) (enc_form [(str ''description'', [104, 105])])),
       (numbered 0, web_request 3 ''GET'' ''/api/user/profile'' (session_cookie 42) [])] nss app = Inr (answers, app') \<and>
    answers ! 2 = response_text 768 (profile_body u') \<and> cstr (description u') = [104, 105] \<and> username u' = username alice \<and>
    stores_of app' = (Some db', Some (set_user alice_userdb 0 u')) \<and> sess_abs db' = [42 \<mapsto> 1]"
proof -
  let ?visit = "[(numbered 42, web_request 1 ''POST'' ''/api/auth/login'' [] (enc_form (sample_form (str ''alice'') (str ''secret'')))),
    (numbered 0, web_request 2 ''POST'' ''/api/user/profile/update'' (session_cookie 42) (enc_form [(str ''description'', [104, 105])])),
    (numbered 0, web_request 3 ''GET'' ''/api/user/profile'' (session_cookie 42) [])]"
  let ?answers = "\<lambda>u. [response_text (bswap16 1) (login_text 42 (cstr (username u)) (total_points u)),
    response_text (bswap16 2) (json_text ''200 OK'' ''{\"status\":\"success\"}''), response_text (bswap16 3) (profile_body u)]"
  obtain app where l: "listening 0 app" and st: "stores_of app = (Some new_sessiondb, Some alice_userdb)"
    using someone_listens by blast
  have c: "cstr (str ''alice'' @ [0]) = str ''alice''" "cstr (str ''secret'' @ [0]) = str ''secret''"
    by (simp_all add: str_no_nul)
  have u: "user_slot alice_userdb (cstr (str ''alice'' @ [0])) = Some 0"
      "pass_hash (udb_pool alice_userdb ! 0) = ucast (crc32c (cstr (str ''secret'' @ [0])))"
    using alice_userdb_ok(2,4) alice_ok(4) by (simp_all add: c)
  have n: "length (str ''alice'') < 64" "length (str ''secret'') < 64" "length [104, 105 :: byte] < 2048" by simp_all
  have d: "length (enc_form [(str ''description'', [104, 105])]) < 4096"
    using length_enc_form_field [of "[104, 105]"] by (simp add: enc_field_def)
  have k: "k_random (numbered 42) = (8, 42)" "(42 :: u64) = (if 42 = (0 :: u64) then 1 else 42)" by (simp_all add: numbered_def)
  have s: "sess_abs new_sessiondb 42 = None" "0 < sess_room new_sessiondb" "(sess_abs new_sessiondb)(42 \<mapsto> 1) = [42 \<mapsto> 1]"
    using new_sessiondb_ok(2,3) by simp_all
  have ct: "cstr [104, 105] = [104, 105]" by (simp add: cstr_def)
  note V = visit_served [OF l st new_sessiondb_ok(1) alice_userdb_ok(1) u n d k(1) order.refl k(2) s(1,2), of 1 2 3 sample_layout
    "numbered 0" "numbered 0", unfolded Let_def alice_userdb_ok(4) alice_ok(1) s(3) ct]
  from V obtain db' u' where r: "sess_abs db' = [42 \<mapsto> 1]" "u' = alice\<lparr>description := description u'\<rparr>" "cstr (description u') = [104, 105]"
    and conv: "\<forall>nss. list_all2 (\<lambda>ns a. (\<forall>n \<in> set ns. 0 < n) \<and> sum_list (map unat ns) = length a) nss (?answers u') \<longrightarrow>
        (\<exists>app'. converse sample_layout 0 ?visit nss app = Inr (?answers u', app') \<and>
          listening 0 app' \<and> stores_of app' = (Some db', Some (set_user alice_userdb 0 u')))"
    by (elim exE conjE) (rule that; assumption)
  have "list_all2 (\<lambda>ns a. (\<forall>n \<in> set ns. 0 < n) \<and> sum_list (map unat ns) = length a)
      (map (\<lambda>a. replicate (length a) (1 :: u32)) (?answers u')) (?answers u')"
    by (simp add: list_all2_map1 list_all2_same sum_list_replicate)
  from conv [rule_format, OF this] obtain app' where
    a: "converse sample_layout 0 ?visit (map (\<lambda>a. replicate (length a) 1) (?answers u')) app = Inr (?answers u', app')"
      "stores_of app' = (Some db', Some (set_user alice_userdb 0 u'))" by blast
  have "bswap16 3 = 768" by (simp add: bswap16_def)
  then have "?answers u' ! 2 = response_text 768 (profile_body u')" by (simp add: numeral_2_eq_2)
  moreover have "username u' = username alice" by (subst r(2)) simp
  ultimately show ?thesis using a r(1,3) by blast
qed

section \<open>Whatever is asked for\<close>

text \<open>
  C3: Every conversation is answered. Whatever the requests on a kept connection ask for, with
  whatever path, method, cookie and form, known or unknown, allowed or not: none of them stops the
  server, each gets exactly one answer, in its order and with its number, and afterwards the client
  listens again and both stores are in order. What this needs is that every form value fits the
  array it is copied to, that the random numbers of the kernel are good and new, and that the
  session table had as many unused slots as there are requests.
\<close>

theorem conversations_answered:
  assumes "listening i app" and "list_all answerable rs" and "in_order (length rs) (stores_of app)"
    and "distinct (map (kernel_number \<circ> fst) rs)"
    and "open_numbers (stores_of app) \<inter> (kernel_number \<circ> fst) ` set rs = {}"
  shows "\<exists>bodies st. length bodies = length rs \<and> in_order 0 st \<and>
    open_numbers st \<subseteq> open_numbers (stores_of app) \<union> (kernel_number \<circ> fst) ` set rs \<and>
    (\<forall>nss. list_all2 (\<lambda>ns a. (\<forall>n \<in> set ns. 0 < n) \<and> sum_list (map unat ns) = length a) nss (answers_to rs bodies) \<longrightarrow>
       (\<exists>app'. converse lay i rs nss app = Inr (answers_to rs bodies, app') \<and> listening i app' \<and> stores_of app' = st))"
proof -
  obtain bodies st where d: "dialogue (request_text (cli_req (g_cli_ctx_pool app ! i))) (stores_of app) rs (answers_to rs bodies) st"
      "length bodies = length rs" "in_order 0 st"
      "open_numbers st \<subseteq> open_numbers (stores_of app) \<union> (kernel_number \<circ> fst) ` set rs"
    using dialogue_exists [OF assms(2-5), of "request_text (cli_req (g_cli_ctx_pool app ! i))"] by (elim exE conjE) (rule that)
  show ?thesis using d(2-4) converse_ok [OF d(1) assms(1)] by (intro exI [of _ bodies] exI [of _ st]) simp
qed

text \<open>Any answers can be written byte by byte.\<close>

lemma byte_by_byte:
  "list_all2 (\<lambda>ns a. (\<forall>n \<in> set ns. (0 :: u32) < n) \<and> sum_list (map unat ns) = length a)
    (map (\<lambda>a. replicate (length a) 1) answers) (answers :: byte list list)"
  by (auto simp: list_all2_conv_all_nth sum_list_replicate)

text \<open>A sign-in with a wrong password, and a path that nothing is at.\<close>

theorem conversations_answered_witness:
  "\<exists>app nss bodies app'. converse sample_layout 0
      [(numbered 42, web_request 1 ''POST'' ''/api/auth/login'' [] (enc_form (sample_form (str ''alice'') (str ''guess'')))),
       (numbered 43, web_request 2 ''GET'' ''/api/leaderboard'' [] [])] nss app =
        Inr (answers_to [(numbered 42, web_request 1 ''POST'' ''/api/auth/login'' [] (enc_form (sample_form (str ''alice'') (str ''guess'')))),
          (numbered 43, web_request 2 ''GET'' ''/api/leaderboard'' [] [])] bodies, app') \<and>
    length bodies = 2 \<and> in_order 0 (stores_of app')"
proof -
  let ?form = "enc_form (sample_form (str ''alice'') (str ''guess''))"
  let ?r1 = "web_request 1 ''POST'' ''/api/auth/login'' [] ?form" and ?r2 = "web_request 2 ''GET'' ''/api/leaderboard'' [] []"
  let ?rs = "[(numbered 42, ?r1), (numbered 43, ?r2)]"
  obtain app where l: "listening 0 app" and st: "stores_of app = (Some new_sessiondb, Some alice_userdb)"
    using someone_listens by blast
  have len: "length ?form < 64" by (simp add: sample_form_def enc_field_def enc_text_def enc_byte_def str_def of_char_def)
  have p: "(''/api/auth/login'', Route_AuthLogin) \<in> set route_paths" "(''/api/leaderboard'', Route_Leaderboard) \<in> set route_paths"
    by (simp_all add: route_paths_def)
  have t: "rt_body (rq_text ?r1) = ?form" "rt_keep (rq_text ?r1) = 1" "rt_body (rq_text ?r2) = []" "rt_keep (rq_text ?r2) = 1"
    unfolding rq_text_def web_number using web_text [OF p(1), of "''POST''" ?form "[]" "[]"] web_text [OF p(2), of "''GET''" "[]" "[]" "[]"] len
    by simp_all
  have "form_fits (?form @ [0])" "form_fits [0]" using len by (simp_all add: short_form_fits)
  then have a: "list_all answerable ?rs"
    using t len by (simp add: answerable_def numbered_def web_request_ok)
  have k: "kernel_number (numbered 42) = 42" "kernel_number (numbered 43) = 43"
    by (simp_all add: kernel_number_def numbered_def cg_sessiondb_session_id_get_def)
  have o: "in_order (length ?rs) (stores_of app)" "open_numbers (stores_of app) \<inter> (kernel_number \<circ> fst) ` set ?rs = {}"
    using new_sessiondb_ok alice_userdb_ok(1) by (simp_all add: st in_order_def open_numbers_def)
  have d: "distinct (map (kernel_number \<circ> fst) ?rs)" by (simp add: k)
  obtain bodies s where c: "length bodies = length ?rs" "in_order 0 s"
      "\<And>nss. list_all2 (\<lambda>ns a. (\<forall>n \<in> set ns. 0 < n) \<and> sum_list (map unat ns) = length a) nss (answers_to ?rs bodies) \<Longrightarrow>
        \<exists>app'. converse sample_layout 0 ?rs nss app = Inr (answers_to ?rs bodies, app') \<and> listening 0 app' \<and> stores_of app' = s"
    using conversations_answered [OF l a o(1) d o(2), of sample_layout] by blast
  from c(3) [OF byte_by_byte] obtain app' where
    "converse sample_layout 0 ?rs (map (\<lambda>a. replicate (length a) 1) (answers_to ?rs bodies)) app = Inr (answers_to ?rs bodies, app')"
    "stores_of app' = s" by blast
  moreover have "length bodies = 2" using c(1) by simp
  ultimately show ?thesis using c(2) by blast
qed

end
