(* ===== verification/CG_Syscall.thy ===== *)
theory CG_Syscall
  imports CG_Prelude
begin

text \<open>
  The wrappers of \<open>include/arch/cg_syscall.h\<close>: which register each argument goes into. The
  \<open>syscall\<close> instruction itself is a parameter: from the registers and the memory to the three
  registers that it changes and the memory, as the lists of outputs and clobbers declare.
\<close>

section \<open>Registers\<close>

record cpu =
  rax :: u64
  rdi :: u64
  rsi :: u64
  rdx :: u64
  r10 :: u64
  r8 :: u64
  r9 :: u64
  rcx :: u64
  r11 :: u64

type_synonym 'm syscall_insn = "cpu \<Rightarrow> 'm \<Rightarrow> (u64 \<times> u64 \<times> u64) \<times> 'm"

definition run_syscall :: "'m syscall_insn \<Rightarrow> cpu \<times> 'm \<Rightarrow> u64 \<times> cpu \<times> 'm" where
  "run_syscall insn st =
     (case st of (c, m) \<Rightarrow> (case insn c m of ((ret, cx, r), m') \<Rightarrow> (ret, c\<lparr>rax := ret, rcx := cx, r11 := r\<rparr>, m')))"

section \<open>The wrappers\<close>

definition syscall0 :: "'m syscall_insn \<Rightarrow> u64 \<Rightarrow> cpu \<times> 'm \<Rightarrow> u64 \<times> cpu \<times> 'm" where
  "syscall0 insn n st = run_syscall insn (apfst (\<lambda>c. c\<lparr>rax := n\<rparr>) st)"

definition syscall1 :: "'m syscall_insn \<Rightarrow> u64 \<Rightarrow> u64 \<Rightarrow> cpu \<times> 'm \<Rightarrow> u64 \<times> cpu \<times> 'm" where
  "syscall1 insn n a1 st = run_syscall insn (apfst (\<lambda>c. c\<lparr>rax := n, rdi := a1\<rparr>) st)"

definition syscall2 :: "'m syscall_insn \<Rightarrow> u64 \<Rightarrow> u64 \<Rightarrow> u64 \<Rightarrow> cpu \<times> 'm \<Rightarrow> u64 \<times> cpu \<times> 'm" where
  "syscall2 insn n a1 a2 st = run_syscall insn (apfst (\<lambda>c. c\<lparr>rax := n, rdi := a1, rsi := a2\<rparr>) st)"

definition syscall3 :: "'m syscall_insn \<Rightarrow> u64 \<Rightarrow> u64 \<Rightarrow> u64 \<Rightarrow> u64 \<Rightarrow> cpu \<times> 'm \<Rightarrow> u64 \<times> cpu \<times> 'm" where
  "syscall3 insn n a1 a2 a3 st = run_syscall insn (apfst (\<lambda>c. c\<lparr>rax := n, rdi := a1, rsi := a2, rdx := a3\<rparr>) st)"

definition syscall4 ::
  "'m syscall_insn \<Rightarrow> u64 \<Rightarrow> u64 \<Rightarrow> u64 \<Rightarrow> u64 \<Rightarrow> u64 \<Rightarrow> cpu \<times> 'm \<Rightarrow> u64 \<times> cpu \<times> 'm" where
  "syscall4 insn n a1 a2 a3 a4 st =
     run_syscall insn (apfst (\<lambda>c. c\<lparr>r10 := a4, rax := n, rdi := a1, rsi := a2, rdx := a3\<rparr>) st)"

definition syscall5 ::
  "'m syscall_insn \<Rightarrow> u64 \<Rightarrow> u64 \<Rightarrow> u64 \<Rightarrow> u64 \<Rightarrow> u64 \<Rightarrow> u64 \<Rightarrow> cpu \<times> 'm \<Rightarrow> u64 \<times> cpu \<times> 'm" where
  "syscall5 insn n a1 a2 a3 a4 a5 st =
     run_syscall insn (apfst (\<lambda>c. c\<lparr>r10 := a4, r8 := a5, rax := n, rdi := a1, rsi := a2, rdx := a3\<rparr>) st)"

definition syscall6 ::
  "'m syscall_insn \<Rightarrow> u64 \<Rightarrow> u64 \<Rightarrow> u64 \<Rightarrow> u64 \<Rightarrow> u64 \<Rightarrow> u64 \<Rightarrow> u64 \<Rightarrow> cpu \<times> 'm \<Rightarrow> u64 \<times> cpu \<times> 'm" where
  "syscall6 insn n a1 a2 a3 a4 a5 a6 st =
     run_syscall insn (apfst (\<lambda>c. c\<lparr>r10 := a4, r8 := a5, r9 := a6, rax := n, rdi := a1, rsi := a2, rdx := a3\<rparr>) st)"

section \<open>What the kernel is asked, and what the program keeps\<close>

text \<open>The number and the arguments as the kernel takes them from the registers.\<close>

definition asked :: "cpu \<Rightarrow> u64 \<times> u64 list" where
  "asked c = (rax c, [rdi c, rsi c, rdx c, r10 c, r8 c, r9 c])"

text \<open>A system call that looks at its own arguments only gives the same for each wrapper.\<close>

definition takes_args :: "nat \<Rightarrow> 'm syscall_insn \<Rightarrow> u64 \<Rightarrow> bool" where
  "takes_args k insn n \<longleftrightarrow> (\<forall>c c' m. rax c = n \<longrightarrow> rax c' = n \<longrightarrow> take k (snd (asked c)) = take k (snd (asked c')) \<longrightarrow>
     fst (fst (insn c m)) = fst (fst (insn c' m)) \<and> snd (insn c m) = snd (insn c' m))"

lemma fst_run_syscall: "fst (run_syscall insn (c, m)) = fst (fst (insn c m))"
  by (simp add: run_syscall_def split: prod.splits)

lemma wrappers_agree:
  assumes "takes_args 1 insn n"
  shows "fst (syscall3 insn n a1 0 0 st) = fst (syscall1 insn n a1 st)"
proof -
  obtain c m where st: "st = (c, m)" by (cases st)
  let ?c = "c\<lparr>rax := n, rdi := a1, rsi := 0, rdx := 0\<rparr>" and ?c' = "c\<lparr>rax := n, rdi := a1\<rparr>"
  have "take 1 (snd (asked ?c)) = take 1 (snd (asked ?c'))" by (simp add: asked_def)
  then have "fst (fst (insn ?c m)) = fst (fst (insn ?c' m))" using assms by (simp add: takes_args_def)
  then show ?thesis by (simp add: st syscall1_def syscall3_def fst_run_syscall)
qed

end
